(* ===== verification/Prelude.thy ===== *)
theory Prelude
  imports Main "HOL-Library.Word" "HOL-Library.List_Lexorder" "HOL-Library.RBT"
begin

text \<open>
  Vocabulary shared by every component.

  \<^item> Machine integers are words of their width; \<open>usize\<close> values are \<open>nat\<close> where
    they only measure lengths, with the 64-bit bound written out where the code checks it.
  \<^item> A Rust \<open>String\<close> is its byte list (\<open>rstring\<close>), a \<open>Vec<u8>\<close> is a \<open>bytes\<close>;
    \<open>std::str::from_utf8\<close> is \<open>utf8_valid\<close>. The list order of \<open>List_Lexorder\<close> on bytes is
    the order of Rust strings, so a \<open>BTreeMap<String, _>\<close> is a red-black tree keyed by
    \<open>rstring\<close>.
  \<^item> \<open>io::Result<T>\<close> is \<open>T io_result\<close>, a sum with the error on the left; the \<open>?\<close>
    operator is \<open>and_then\<close>. An error keeps its \<open>ErrorKind\<close> and the fixed text of its
    message, without the interpolated values.
  \<^item> \<open>to_le_bytes\<close> and \<open>from_le_bytes\<close> are \<open>le_bytes\<close> and \<open>of_le_bytes\<close>.
\<close>

type_synonym u8 = "8 word"
type_synonym u16 = "16 word"
type_synonym u32 = "32 word"
type_synonym u64 = "64 word"
type_synonym bytes = "u8 list"
type_synonym rstring = "u8 list"

text \<open>Facts that evaluate the encoders, and facts that evaluate the decoders on what an
  encoder wrote.\<close>

named_theorems enc_simps
named_theorems dec_simps

subsection \<open>Results\<close>

datatype error_kind =
    InvalidData
  | InvalidInput
  | NotFound
  | AlreadyExists
  | PermissionDenied
  | WouldBlock
  | TimedOut
  | UnexpectedEof
  | WriteZero
  | Interrupted
  | ConnectionReset
  | BrokenPipe
  | ResourceBusy
  | HostUnreachable
  | AddrInUse
  | OtherError

datatype io_error = IoError (ekind: error_kind) (emsg: string)

type_synonym 'a io_result = "io_error + 'a"

definition and_then :: "'e + 'a \<Rightarrow> ('a \<Rightarrow> 'e + 'b) \<Rightarrow> 'e + 'b" where
  "and_then m f = (case m of Inl e \<Rightarrow> Inl e | Inr x \<Rightarrow> f x)"

lemma and_then_simps [simp]:
  "and_then (Inl e) f = Inl e"
  "and_then (Inr x) f = f x"
  by (simp_all add: and_then_def)

lemma and_then_eq_Inr_iff:
  "and_then m f = Inr y \<longleftrightarrow> (\<exists>x. m = Inr x \<and> f x = Inr y)"
  by (cases m) auto

lemma and_then_cong [fundef_cong]:
  assumes "m = m'" and "\<And>x. m' = Inr x \<Longrightarrow> f x = f' x"
  shows "and_then m f = and_then m' f'"
  using assms by (cases m') auto

subsection \<open>Strings\<close>

text \<open>The bytes of an ASCII literal of the source.\<close>

definition ascii :: "string \<Rightarrow> bytes" where
  "ascii s = map (\<lambda>c. of_nat (of_char c)) s"

lemma ascii_simps [simp]:
  "ascii [] = []"
  "ascii (c # cs) = of_nat (of_char c) # ascii cs"
  by (simp_all add: ascii_def)

lemma ascii_append: "ascii (s @ t) = ascii s @ ascii t"
  by (simp add: ascii_def)

text \<open>
  The byte sequences \<open>std::str::from_utf8\<close> accepts: the well-formed sequences of the
  Unicode standard (no overlong forms, no surrogates, nothing past U+10FFFF).
\<close>

definition is_cont :: "u8 \<Rightarrow> bool" where
  "is_cont b \<longleftrightarrow> 0x80 \<le> b \<and> b \<le> 0xBF"

text \<open>The second byte a lead byte allows, and how many continuation bytes follow it.\<close>

definition utf8_second_ok :: "u8 \<Rightarrow> u8 \<Rightarrow> bool" where
  "utf8_second_ok a b \<longleftrightarrow>
     (if a = 0xE0 then 0xA0 \<le> b \<and> b \<le> 0xBF
      else if a = 0xED then 0x80 \<le> b \<and> b \<le> 0x9F
      else if a = 0xF0 then 0x90 \<le> b \<and> b \<le> 0xBF
      else if a = 0xF4 then 0x80 \<le> b \<and> b \<le> 0x8F
      else is_cont b)"

definition utf8_tail :: "u8 \<Rightarrow> nat option" where
  "utf8_tail a =
     (if a < 0x80 then Some 0
      else if 0xC2 \<le> a \<and> a \<le> 0xDF then Some 1
      else if 0xE0 \<le> a \<and> a \<le> 0xEF then Some 2
      else if 0xF0 \<le> a \<and> a \<le> 0xF4 then Some 3
      else None)"

definition utf8_char :: "u8 \<Rightarrow> bytes \<Rightarrow> bytes option" where
  "utf8_char a bs =
     (case utf8_tail a of
        None \<Rightarrow> None
      | Some n \<Rightarrow>
          (if n \<le> length bs \<and> (n = 0 \<or> utf8_second_ok a (hd bs))
              \<and> list_all is_cont (take (n - 1) (tl bs))
           then Some (drop n bs) else None))"

lemma utf8_char_length: "utf8_char a bs = Some r \<Longrightarrow> length r \<le> length bs"
  by (auto simp: utf8_char_def split: option.splits if_splits)

function utf8_valid :: "bytes \<Rightarrow> bool" where
  "utf8_valid [] = True"
| "utf8_valid (a # bs) = (case utf8_char a bs of None \<Rightarrow> False | Some r \<Rightarrow> utf8_valid r)"
  by pat_completeness auto
termination
  by (relation "measure length") (auto dest: utf8_char_length)

text \<open>
  \<open>to_string_lossy\<close>: each maximal prefix of an ill-formed sequence becomes one U+FFFD. The second
  definition is how many bytes after the lead byte that prefix has.
\<close>

definition utf8_bad_tail :: "u8 \<Rightarrow> bytes \<Rightarrow> nat" where
  "utf8_bad_tail a bs =
     (case utf8_tail a of
        None \<Rightarrow> 0
      | Some n \<Rightarrow>
          if bs \<noteq> [] \<and> n > 0 \<and> utf8_second_ok a (hd bs)
          then Suc (length (takeWhile is_cont (take (n - 1) (tl bs)))) else 0)"

function from_utf8_lossy :: "bytes \<Rightarrow> rstring" where
  "from_utf8_lossy [] = []"
| "from_utf8_lossy (a # bs) =
     (case utf8_char a bs of
        Some r \<Rightarrow> a # take (length bs - length r) bs @ from_utf8_lossy r
      | None \<Rightarrow> [0xEF, 0xBF, 0xBD] @ from_utf8_lossy (drop (utf8_bad_tail a bs) bs))"
  by pat_completeness auto
termination
  by (relation "measure length") (auto dest: utf8_char_length)

lemma utf8_char_drop: "utf8_char a bs = Some r \<Longrightarrow> take (length bs - length r) bs @ r = bs"
  by (auto simp: utf8_char_def split: option.splits if_splits)

lemma from_utf8_lossy_valid: "utf8_valid bs \<Longrightarrow> from_utf8_lossy bs = bs"
  by (induction bs rule: utf8_valid.induct) (auto simp: utf8_char_drop simp flip: append_assoc split: option.splits)

lemma utf8_valid_ascii_bytes: "(\<forall>b \<in> set bs. b < 0x80) \<Longrightarrow> utf8_valid bs"
  by (induction bs) (auto simp: utf8_char_def utf8_tail_def)

subsection \<open>Little-endian integers\<close>

primrec le_bytes :: "nat \<Rightarrow> 'a::len word \<Rightarrow> bytes" where
  "le_bytes 0 w = []"
| "le_bytes (Suc n) w = ucast w # le_bytes n (drop_bit 8 w)"

primrec of_le_bytes :: "bytes \<Rightarrow> 'a::len word" where
  "of_le_bytes [] = 0"
| "of_le_bytes (b # bs) = or (ucast b) (push_bit 8 (of_le_bytes bs))"

lemma length_le_bytes [simp]: "length (le_bytes n w) = n"
  by (induction n arbitrary: w) simp_all

lemma ucast_ucast_8: "ucast (ucast w :: u8) = (take_bit 8 w :: 'a::len word)"
  by (rule bit_word_eqI) (auto simp: bit_simps)

lemma of_le_le_bytes: "of_le_bytes (le_bytes n w) = take_bit (8 * n) (w :: 'a::len word)"
proof (induction n arbitrary: w)
  case (Suc n)
  have "or (take_bit 8 w) (push_bit 8 (take_bit (8 * n) (drop_bit 8 w))) = take_bit (8 * Suc n) w"
    by (rule bit_word_eqI) (auto simp: bit_simps)
  with Suc show ?case by (simp add: ucast_ucast_8)
qed simp

lemma of_le_bytes_full:
  "LENGTH('a) \<le> 8 * n \<Longrightarrow> of_le_bytes (le_bytes n w) = (w :: 'a::len word)"
  by (simp add: of_le_le_bytes take_bit_word_eq_self)

lemma le_bytes_of_le:
  "8 * length bs \<le> LENGTH('a) \<Longrightarrow> le_bytes (length bs) (of_le_bytes bs :: 'a::len word) = bs"
proof (induction bs)
  case (Cons b bs)
  let ?w = "of_le_bytes bs :: 'a word"
  have len: "8 < LENGTH('a) \<or> bs = []" "8 \<le> LENGTH('a)" "8 * length bs \<le> LENGTH('a)"
    using Cons.prems by (auto simp: Suc_le_eq neq_Nil_conv)
  have hd: "ucast (or (ucast b) (push_bit 8 ?w)) = b"
    by (rule bit_word_eqI) (use len in \<open>auto simp: bit_simps\<close>)
  have small: "drop_bit 8 (or (ucast b) (push_bit 8 ?w)) = take_bit (LENGTH('a) - 8) ?w"
    by (rule bit_word_eqI) (use len in \<open>auto simp: bit_simps dest: bit_imp_le_length\<close>)
  have take: "le_bytes n (take_bit m v) = le_bytes n v" if "8 * n \<le> m" for n m and v :: "'a word"
    using that
  proof (induction n arbitrary: m v)
    case (Suc n)
    have "ucast (take_bit m v) = (ucast v :: u8)"
      by (rule bit_word_eqI) (use Suc.prems in \<open>auto simp: bit_simps\<close>)
    moreover have "drop_bit 8 (take_bit m v) = take_bit (m - 8) (drop_bit 8 v)"
      by (simp add: drop_bit_take_bit)
    ultimately show ?case using Suc by simp
  qed simp
  show ?case
    using hd small Cons len take [of "length bs" "LENGTH('a) - 8" ?w] by simp
qed simp

lemma word_less_add_1: "w \<noteq> - 1 \<Longrightarrow> w < w + (1 :: 'a::len word)"
  by (simp add: not_le [symmetric] inc_less_eq_self_iff_eq)

lemma unat_bound: "unat (w :: 'a::len word) < 2 ^ LENGTH('a)"
  by (rule unsigned_less)

lemma unat_of_nat_small: "n < 2 ^ LENGTH('a) \<Longrightarrow> unat (of_nat n :: 'a::len word) = n"
  by (simp add: unat_of_nat)

text \<open>The fixed widths unfolded, for concrete values.\<close>

lemma le_bytes_widths:
  "le_bytes 2 w = [ucast w, ucast (drop_bit 8 w)]"
  "le_bytes 4 w = [ucast w, ucast (drop_bit 8 w), ucast (drop_bit 16 w), ucast (drop_bit 24 w)]"
  "le_bytes 8 w = [ucast w, ucast (drop_bit 8 w), ucast (drop_bit 16 w), ucast (drop_bit 24 w),
     ucast (drop_bit 32 w), ucast (drop_bit 40 w), ucast (drop_bit 48 w), ucast (drop_bit 56 w)]"
proof -
  have n: "le_bytes 2 w = le_bytes (Suc (Suc 0)) w"
    "le_bytes 4 w = le_bytes (Suc (Suc (Suc (Suc 0)))) w"
    "le_bytes 8 w = le_bytes (Suc (Suc (Suc (Suc (Suc (Suc (Suc (Suc 0)))))))) w"
    by (simp_all add: eval_nat_numeral(2,3) del: le_bytes.simps)
  show "le_bytes 2 w = [ucast w, ucast (drop_bit 8 w)]" unfolding n(1) by simp
  show "le_bytes 4 w = [ucast w, ucast (drop_bit 8 w), ucast (drop_bit 16 w), ucast (drop_bit 24 w)]"
    unfolding n(2) by simp
  show "le_bytes 8 w = [ucast w, ucast (drop_bit 8 w), ucast (drop_bit 16 w), ucast (drop_bit 24 w),
     ucast (drop_bit 32 w), ucast (drop_bit 40 w), ucast (drop_bit 48 w), ucast (drop_bit 56 w)]"
    unfolding n(3) by simp
qed

subsection \<open>What steps preserve\<close>

text \<open>A relation that every operation of a component keeps between the state before and after, and an invariant
  that survives it. Passes made of such operations keep the relation too.\<close>

locale preserving =
  fixes rel :: "'s \<Rightarrow> 's \<Rightarrow> bool" and inv :: "'s \<Rightarrow> bool"
  assumes rel_refl: "rel s s"
    and rel_trans: "rel a b \<Longrightarrow> rel b c \<Longrightarrow> rel a c"
    and rel_inv: "rel a b \<Longrightarrow> inv a \<Longrightarrow> inv b"
begin

lemma fold_rel:
  assumes "\<And>x s. rel (f s) (f (g x s))" shows "rel (f s) (f (fold g xs s))"
proof (induction xs arbitrary: s)
  case (Cons x xs)
  have "rel (f (g x s)) (f (fold g xs (g x s)))" by (rule Cons.IH)
  from rel_trans [OF assms this] show ?case by simp
qed (simp add: rel_refl)

lemma chain_rel:
  assumes "\<And>s. run [] s = Some s" and "\<And>x xs s. run (x # xs) s = Option.bind (step x s) (run xs)"
    and "\<And>x s s'. step x s = Some s' \<Longrightarrow> rel s s'"
  shows "run xs s = Some s' \<Longrightarrow> rel s s'"
proof (induction xs arbitrary: s)
  case (Cons x xs)
  then obtain s1 where s1: "step x s = Some s1" "run xs s1 = Some s'"
    by (auto simp: assms(2) bind_eq_Some_conv)
  show ?case by (rule rel_trans [OF assms(3) [OF s1(1)] Cons.IH [OF s1(2)]])
qed (simp add: assms(1) rel_refl)

lemma chain_inv:
  assumes "\<And>s. run [] s = Some s" and "\<And>x xs s. run (x # xs) s = Option.bind (step x s) (run xs)"
    and "\<And>x s s'. step x s = Some s' \<Longrightarrow> rel s s'" and "run xs s = Some s'" and "inv s"
  shows "inv s'"
  by (rule rel_inv [OF chain_rel [OF assms(1-4)] assms(5)])

end

end
