(* ===== verification/Identity.thy ===== *)
theory Identity
  imports Prelude "HOL-Library.Product_Lexorder"
begin

text \<open>
  The identifiers of \<open>xchannel-net-core/src/lib.rs\<close> and the channel identity of
  \<open>identity.rs\<close>: the record the registry propagates and the rule that decides which of
  two entries occupies a name. The rule is characterised by a linearly ordered key; the
  locale \<open>lww\<close> holds what a selection by key gives to any map of winners.
\<close>

type_synonym node_id = u64
type_synonym record_index = u64
type_synonym stream_id = u32
type_synonym channel_name = rstring

record channel_identity =
  ci_name :: channel_name
  ci_owner :: node_id
  ci_region_size :: u32
  ci_mtu :: u32
  ci_earliest_index :: record_index
  ci_registered_at_nanos :: u64
  ci_epoch :: u64
  ci_deleted :: bool
  ci_member_of :: "channel_name option"

text \<open>\<open>Ord::cmp\<close> and the three-way match on it.\<close>

datatype ordering = Less | Equal | Greater

definition cmp :: "'a::linorder \<Rightarrow> 'a \<Rightarrow> ordering" where
  "cmp a b = (if a < b then Less else if a = b then Equal else Greater)"

definition resolve_collision ::
  "channel_identity \<Rightarrow> channel_identity \<Rightarrow> channel_identity" where
  "resolve_collision a b =
     (case cmp (ci_epoch a) (ci_epoch b) of
        Greater \<Rightarrow> a
      | Less \<Rightarrow> b
      | Equal \<Rightarrow>
         (case (ci_deleted a, ci_deleted b) of
            (True, False) \<Rightarrow> a
          | (False, True) \<Rightarrow> b
          | _ \<Rightarrow>
             (case cmp (ci_registered_at_nanos a) (ci_registered_at_nanos b) of
                Less \<Rightarrow> a
              | Greater \<Rightarrow> b
              | Equal \<Rightarrow> (if ci_owner a \<le> ci_owner b then a else b))))"

subsection \<open>The key the rule maximises\<close>

type_synonym identity_rank = "int \<times> bool \<times> int \<times> int"

definition identity_key :: "channel_identity \<Rightarrow> identity_rank" where
  "identity_key a =
     (uint (ci_epoch a), ci_deleted a,
      - uint (ci_registered_at_nanos a), - uint (ci_owner a))"

lemma identity_key_eq_iff:
  "identity_key a = identity_key b \<longleftrightarrow>
     ci_epoch a = ci_epoch b \<and> ci_deleted a = ci_deleted b \<and>
     ci_registered_at_nanos a = ci_registered_at_nanos b \<and> ci_owner a = ci_owner b"
  by (auto simp: identity_key_def word_uint_eq_iff)

lemma resolve_collision_by_key:
  "resolve_collision a b = (if identity_key b \<le> identity_key a then a else b)"
  by (auto simp: resolve_collision_def identity_key_def cmp_def less_eq_prod_def
      word_less_alt word_le_def word_uint_eq_iff split: bool.splits)

lemma resolve_collision_choice: "resolve_collision a b = a \<or> resolve_collision a b = b"
  by (simp add: resolve_collision_by_key)

subsection \<open>Selection by key\<close>

text \<open>
  The contract a map of winners relies on: the rule picks the argument with the larger
  key, and the one already held when the keys tie.
\<close>

locale lww =
  fixes resolve :: "'a \<Rightarrow> 'a \<Rightarrow> 'a"
    and key :: "'a \<Rightarrow> 'k::linorder"
  assumes resolve_by_key: "resolve a b = (if key b \<le> key a then a else b)"
begin

lemma key_resolve [simp]: "key (resolve a b) = max (key a) (key b)"
  by (auto simp: resolve_by_key max_def)

lemma resolve_idem: "resolve a a = a"
  by (simp add: resolve_by_key)

lemma resolve_assoc: "resolve (resolve a b) c = resolve a (resolve b c)"
  by (auto simp: resolve_by_key)

lemma resolve_commute: "key a \<noteq> key b \<Longrightarrow> resolve a b = resolve b a"
  by (auto simp: resolve_by_key)

lemma resolve_absorb: "key b \<le> key a \<Longrightarrow> resolve a b = a"
  by (simp add: resolve_by_key)

lemma key_fold: "key (foldl resolve a xs) = Max (key ` set (a # xs))"
proof (induction xs arbitrary: a)
  case (Cons x xs)
  have "Max (key ` set (resolve a x # xs)) = Max (key ` set (a # x # xs))"
    by (cases "xs = []") (simp_all add: max.assoc max.left_commute)
  with Cons show ?case by simp
qed simp

lemma fold_in_set: "foldl resolve a xs \<in> set (a # xs)"
proof (induction xs arbitrary: a)
  case (Cons x xs)
  from Cons [of "resolve a x"] show ?case by (auto simp: resolve_by_key split: if_splits)
qed simp

end

interpretation identity_lww: lww resolve_collision identity_key
  by unfold_locales (rule resolve_collision_by_key)

end
