(* ===== verification/Registry.thy ===== *)
theory Registry
  imports Identity "HOL-Library.Sublist"
begin

text \<open>
  The channel registry of \<open>xchannel-net/src/registry.rs\<close>: an ordered map from names to
  the identity that occupies each, merged with \<open>resolve_collision\<close>. The locale
  \<open>lww_map\<close> is what its clients rely on (a merge changes one name, to the winner) and
  carries the convergence lemmas; it is interpreted on \<open>merge\<close> and \<open>get_raw\<close>.
\<close>

record merged =
  winner :: channel_identity
  changed :: bool

record registry =
  channels :: "(channel_name, channel_identity) rbt"

definition registry_new :: registry where
  "registry_new = \<lparr>channels = RBT.empty\<rparr>"

definition merge_tracked :: "registry \<Rightarrow> channel_identity \<Rightarrow> merged \<times> registry" where
  "merge_tracked r incoming =
     (let w = (case RBT.lookup (channels r) (ci_name incoming) of
                 Some existing \<Rightarrow> resolve_collision existing incoming
               | None \<Rightarrow> incoming);
          c = (RBT.lookup (channels r) (ci_name w) \<noteq> Some w)
      in (\<lparr>winner = w, changed = c\<rparr>,
          r\<lparr>channels := RBT.insert (ci_name w) w (channels r)\<rparr>))"

definition merge :: "registry \<Rightarrow> channel_identity \<Rightarrow> channel_identity \<times> registry" where
  "merge r incoming = (case merge_tracked r incoming of (m, r') \<Rightarrow> (winner m, r'))"

definition starts_with :: "rstring \<Rightarrow> rstring \<Rightarrow> bool" where
  "starts_with s p = prefix p s"

definition with_prefix :: "registry \<Rightarrow> rstring \<Rightarrow> channel_identity list" where
  "with_prefix r p =
     filter (\<lambda>id. \<not> ci_deleted id)
       (map snd
         (takeWhile (\<lambda>(name, _). starts_with name p)
           (dropWhile (\<lambda>(name, _). name < p) (RBT.entries (channels r)))))"

definition get_raw :: "registry \<Rightarrow> channel_name \<Rightarrow> channel_identity option" where
  "get_raw r name = RBT.lookup (channels r) name"

definition get :: "registry \<Rightarrow> channel_name \<Rightarrow> channel_identity option" where
  "get r name =
     (case RBT.lookup (channels r) name of
        Some e \<Rightarrow> if \<not> ci_deleted e then Some e else None
      | None \<Rightarrow> None)"

text \<open>The epoch sum is the wrapping one of a release build.\<close>

definition claim_epoch :: "registry \<Rightarrow> channel_name \<Rightarrow> u64" where
  "claim_epoch r name =
     (case RBT.lookup (channels r) name of
        Some e \<Rightarrow> if ci_deleted e then ci_epoch e + 1 else ci_epoch e
      | None \<Rightarrow> 0)"

definition deregister ::
  "registry \<Rightarrow> channel_name \<Rightarrow> node_id \<Rightarrow> channel_identity option \<times> registry" where
  "deregister r name owner =
     (case RBT.lookup (channels r) name of
        None \<Rightarrow> (None, r)
      | Some current \<Rightarrow>
          if ci_deleted current \<or> ci_owner current \<noteq> owner then (None, r)
          else (case merge r (current\<lparr>ci_deleted := True\<rparr>) of (w, r') \<Rightarrow> (Some w, r')))"

definition reap :: "registry \<Rightarrow> channel_name \<Rightarrow> channel_identity option \<times> registry" where
  "reap r name =
     (case RBT.lookup (channels r) name of
        None \<Rightarrow> (None, r)
      | Some current \<Rightarrow>
          if ci_deleted current then (None, r)
          else (case merge r (current\<lparr>ci_deleted := True\<rparr>) of (w, r') \<Rightarrow> (Some w, r')))"

definition registry_iter :: "registry \<Rightarrow> channel_identity list" where
  "registry_iter r = map snd (RBT.entries (channels r))"

text \<open>The loops that merge a whole delta or sync, as the callers write them.\<close>

definition merge_all :: "registry \<Rightarrow> channel_identity list \<Rightarrow> registry" where
  "merge_all r ids = foldl (\<lambda>r id. snd (merge r id)) r ids"

subsection \<open>One merge\<close>

lemmas registry_defs = merge_tracked_def merge_def get_raw_def get_def claim_epoch_def Let_def

text \<open>Every entry is stored under its own name.\<close>

definition registry_wf :: "registry \<Rightarrow> bool" where
  "registry_wf r \<longleftrightarrow> (\<forall>n e. get_raw r n = Some e \<longrightarrow> ci_name e = n)"

lemma registry_wfD: "registry_wf r \<Longrightarrow> get_raw r n = Some e \<Longrightarrow> ci_name e = n"
  by (simp add: registry_wf_def)

lemma registry_wf_new [simp]: "registry_wf registry_new"
  by (simp add: registry_wf_def registry_new_def get_raw_def)

lemma get_raw_new [simp]: "get_raw registry_new n = None"
  by (simp add: registry_new_def get_raw_def)

lemma get_conv_raw:
  "get r n = (case get_raw r n of Some e \<Rightarrow> if ci_deleted e then None else Some e | None \<Rightarrow> None)"
  by (simp add: registry_defs split: option.split)

lemma fst_merge_tracked: "winner (fst (merge_tracked r i)) = fst (merge r i)"
  by (simp add: merge_def split: prod.split)

lemma snd_merge_tracked: "snd (merge_tracked r i) = snd (merge r i)"
  by (simp add: merge_def split: prod.split)

lemma get_raw_merge:
  assumes "registry_wf r"
  shows "get_raw (snd (merge r i)) n =
    (if n = ci_name i
     then Some (case get_raw r n of None \<Rightarrow> i | Some e \<Rightarrow> resolve_collision e i)
     else get_raw r n)"
proof (cases "get_raw r (ci_name i)")
  case None
  then show ?thesis by (simp add: registry_defs)
next
  case (Some e)
  with assms have "ci_name (resolve_collision e i) = ci_name i"
    using registry_wfD resolve_collision_choice [of e i] by metis
  with Some show ?thesis by (simp add: registry_defs)
qed

lemma fst_merge: "fst (merge r i) = (case get_raw r (ci_name i) of None \<Rightarrow> i | Some e \<Rightarrow> resolve_collision e i)"
  by (simp add: registry_defs split: option.split)

lemma registry_wf_merge [simp]:
  assumes "registry_wf r" shows "registry_wf (snd (merge r i))"
  unfolding registry_wf_def
proof (intro allI impI)
  fix n e assume e: "get_raw (snd (merge r i)) n = Some e"
  show "ci_name e = n"
  proof (cases "n = ci_name i")
    case True
    show ?thesis
    proof (cases "get_raw r n")
      case None
      with e True show ?thesis using get_raw_merge [OF assms] by auto
    next
      case (Some e')
      with e True have "e = resolve_collision e' i" using get_raw_merge [OF assms] by auto
      with Some True show ?thesis
        using registry_wfD [OF assms] resolve_collision_choice [of e' i] by metis
    qed
  next
    case False
    with e show ?thesis using get_raw_merge [OF assms] registry_wfD [OF assms] by auto
  qed
qed

subsection \<open>A map of winners\<close>

text \<open>
  The contract of \<open>merge\<close>: on a well-formed map it changes the incoming entry's name
  only, to the winner of the collision. What follows holds of any such map.
\<close>

locale lww_map = lww resolve key
  for resolve :: "'a \<Rightarrow> 'a \<Rightarrow> 'a" and key :: "'a \<Rightarrow> 'k::linorder" +
  fixes lookup :: "'m \<Rightarrow> 'n \<Rightarrow> 'a option"
    and join :: "'m \<Rightarrow> 'a \<Rightarrow> 'm"
    and name_of :: "'a \<Rightarrow> 'n"
    and inv :: "'m \<Rightarrow> bool"
  assumes lookup_join: "inv m \<Longrightarrow> lookup (join m x) n =
      (if n = name_of x
       then Some (case lookup m n of None \<Rightarrow> x | Some y \<Rightarrow> resolve y x) else lookup m n)"
    and inv_join: "inv m \<Longrightarrow> inv (join m x)"
begin

lemma inv_joins: "inv m \<Longrightarrow> inv (foldl join m xs)"
  by (induction xs arbitrary: m) (simp_all add: inv_join)

text \<open>The candidates for a name: the entry held, then the entries merged under it.\<close>

definition candidates :: "'m \<Rightarrow> 'a list \<Rightarrow> 'n \<Rightarrow> 'a list" where
  "candidates m xs n =
     (case lookup m n of None \<Rightarrow> [] | Some y \<Rightarrow> [y]) @ filter (\<lambda>x. name_of x = n) xs"

definition winner_of :: "'a list \<Rightarrow> 'a option" where
  "winner_of xs = (case xs of [] \<Rightarrow> None | y # ys \<Rightarrow> Some (foldl resolve y ys))"

lemma lookup_joins: "inv m \<Longrightarrow> lookup (foldl join m xs) n = winner_of (candidates m xs n)"
proof (induction xs arbitrary: m)
  case Nil
  then show ?case by (simp add: candidates_def winner_of_def split: option.split)
next
  case (Cons x xs)
  then show ?case
    by (cases "lookup m n") (auto simp: candidates_def winner_of_def lookup_join inv_join)
qed

lemma key_winner_of:
  "map_option key (winner_of xs) = (if xs = [] then None else Some (Max (key ` set xs)))"
  by (cases xs) (simp_all add: winner_of_def key_fold)

lemma winner_of_in_set: "winner_of xs = Some y \<Longrightarrow> y \<in> set xs"
  using fold_in_set by (cases xs) (force simp: winner_of_def)+

lemma winner_of_key_ge: "winner_of xs = Some y \<Longrightarrow> x \<in> set xs \<Longrightarrow> key x \<le> key y"
proof -
  assume y: "winner_of xs = Some y" and x: "x \<in> set xs"
  from y have "key y = Max (key ` set xs)"
    using key_winner_of [of xs] by (auto split: if_splits)
  with x show ?thesis by simp
qed

lemma set_candidates:
  "set (candidates m xs n) = set_option (lookup m n) \<union> {x \<in> set xs. name_of x = n}"
  by (auto simp: candidates_def split: option.splits)

text \<open>Order and duplication do not matter to the winning key, nor to the winner when no two
  entries of a name tie.\<close>

lemma joins_key_converge:
  assumes "inv m" and "set xs = set ys"
  shows "map_option key (lookup (foldl join m xs) n) = map_option key (lookup (foldl join m ys) n)"
proof -
  have s: "set (candidates m xs n) = set (candidates m ys n)"
    by (simp add: set_candidates assms(2))
  moreover from s have "candidates m xs n = [] \<longleftrightarrow> candidates m ys n = []"
    by (metis set_empty)
  ultimately show ?thesis by (simp add: lookup_joins assms(1) key_winner_of)
qed

lemma joins_converge:
  assumes "inv m" and "set xs = set ys"
    and inj: "inj_on key (set_option (lookup m n) \<union> {x \<in> set xs. name_of x = n})"
  shows "lookup (foldl join m xs) n = lookup (foldl join m ys) n"
proof -
  let ?c = "candidates m xs n" and ?d = "candidates m ys n"
  have k: "map_option key (winner_of ?c) = map_option key (winner_of ?d)"
    using joins_key_converge [OF assms(1,2)] by (simp add: lookup_joins assms(1))
  have s: "set ?d = set ?c" by (simp add: set_candidates assms(2))
  from inj have inj': "inj_on key (set ?c)" by (simp add: set_candidates)
  show ?thesis
  proof (cases "winner_of ?c")
    case None
    with k show ?thesis by (simp add: lookup_joins assms(1))
  next
    case (Some x)
    with k obtain y where y: "winner_of ?d = Some y" "key y = key x" by (auto simp: map_option_case split: option.splits)
    from Some y s inj' have "x = y"
      by (metis inj_onD winner_of_in_set)
    with Some y show ?thesis by (simp add: lookup_joins assms(1))
  qed
qed

text \<open>The entry of a name only ever rises.\<close>

lemma joins_key_mono:
  assumes "inv m" and "lookup m n = Some y"
  shows "\<exists>z. lookup (foldl join m xs) n = Some z \<and> key y \<le> key z \<and>
             (z = y \<or> z \<in> set xs \<and> name_of z = n)"
proof -
  have y: "y \<in> set (candidates m xs n)" by (simp add: set_candidates assms(2))
  then obtain z where z: "winner_of (candidates m xs n) = Some z"
    by (cases "candidates m xs n") (auto simp: winner_of_def)
  from winner_of_key_ge [OF z y] winner_of_in_set [OF z] z show ?thesis
    by (auto simp: lookup_joins assms set_candidates)
qed

text \<open>Two maps that merge each other's contents hold the same keys.\<close>

lemma joins_sync_key:
  assumes "inv a" and "inv b"
    and "\<And>n. {x \<in> set xs. name_of x = n} = set_option (lookup a n)"
    and "\<And>n. {x \<in> set ys. name_of x = n} = set_option (lookup b n)"
  shows "map_option key (lookup (foldl join a ys) n) = map_option key (lookup (foldl join b xs) n)"
proof -
  have s: "set (candidates a ys n) = set (candidates b xs n)"
    by (auto simp: set_candidates assms)
  moreover from s have "candidates a ys n = [] \<longleftrightarrow> candidates b xs n = []"
    by (metis set_empty)
  ultimately show ?thesis by (simp add: lookup_joins assms(1,2) key_winner_of)
qed

end

interpretation reg: lww_map resolve_collision identity_key get_raw
  "\<lambda>r i. snd (merge r i)" ci_name registry_wf
  by unfold_locales (simp_all add: get_raw_merge)

lemma registry_wf_merge_all [simp]: "registry_wf r \<Longrightarrow> registry_wf (merge_all r ids)"
  by (simp add: merge_all_def reg.inv_joins)

lemma set_registry_iter:
  assumes "registry_wf r"
  shows "{i \<in> set (registry_iter r). ci_name i = n} = set_option (get_raw r n)"
proof -
  have in_entries: "(k, v) \<in> set (RBT.entries (channels r)) \<longleftrightarrow> get_raw r k = Some v" for k v
    by (simp add: get_raw_def lookup_in_tree)
  then show ?thesis
    using registry_wfD [OF assms] by (force simp: registry_iter_def)
qed

subsection \<open>Prefix queries\<close>

lemma prefix_le: "prefix p (k :: 'a::linorder list) \<Longrightarrow> p \<le> k"
proof (induction p arbitrary: k)
  case (Cons a p)
  then show ?case by (cases k) auto
qed simp

lemma prefix_convex:
  "prefix p (k' :: 'a::linorder list) \<Longrightarrow> p \<le> k \<Longrightarrow> k \<le> k' \<Longrightarrow> prefix p k"
proof (induction p arbitrary: k k')
  case (Cons a p)
  then obtain l' where k': "k' = a # l'" "prefix p l'" by (cases k') auto
  from Cons.prems obtain b l where k: "k = b # l" by (cases k) auto
  from Cons.prems k k' have "b = a" "p \<le> l" "l \<le> l'" by auto
  with Cons.IH k' k show ?case by simp
qed simp

lemma range_is_filter:
  fixes es :: "('a::linorder list \<times> 'b) list"
  assumes "sorted (map fst es)"
  shows "takeWhile (\<lambda>(k, _). prefix p k) (dropWhile (\<lambda>(k, _). k < p) es) =
         filter (\<lambda>(k, _). prefix p k) es"
  using assms
proof (induction es)
  case (Cons e es)
  obtain k v where e: "e = (k, v)" by (cases e)
  from Cons.prems e have le: "\<forall>x \<in> set es. k \<le> fst x" by auto
  show ?case
  proof (cases "k < p")
    case True
    with prefix_le have "\<not> prefix p k" by force
    with True e Cons show ?thesis by simp
  next
    case False
    then have drop: "dropWhile (\<lambda>(k, _). k < p) (e # es) = e # es"
      and drop': "dropWhile (\<lambda>(k, _). k < p) es = es"
      using e le by (auto simp: dropWhile_eq_self_iff dest!: hd_in_set)
    show ?thesis
    proof (cases "prefix p k")
      case True
      with Cons drop drop' e show ?thesis by simp
    next
      case notp: False
      have "\<not> prefix p (fst x)" if "x \<in> set es" for x
        using prefix_convex [of p "fst x" k] le False notp that by force
      then have "filter (\<lambda>(k, _). prefix p k) es = []"
        by (auto simp: filter_empty_conv)
      with notp drop e show ?thesis by simp
    qed
  qed
qed simp

lemma with_prefix_scan:
  "with_prefix r p =
     filter (\<lambda>i. \<not> ci_deleted i)
       (map snd (filter (\<lambda>(name, _). starts_with name p) (RBT.entries (channels r))))"
  by (simp add: with_prefix_def starts_with_def range_is_filter sorted_entries)

lemma set_with_prefix:
  "set (with_prefix r p) = {i. \<exists>n. get r n = Some i \<and> starts_with n p}"
proof -
  have "get r n = Some i \<longleftrightarrow> (n, i) \<in> set (RBT.entries (channels r)) \<and> \<not> ci_deleted i" for n i
    by (auto simp: get_conv_raw get_raw_def lookup_in_tree [symmetric] split: option.split)
  then show ?thesis by (force simp: with_prefix_scan)
qed

lemma sorted_wrt_filter_map:
  assumes "sorted_wrt (<) (map f xs)"
  shows "sorted_wrt (<) (map f (filter P xs))"
  using assms by (induction xs) auto

lemma with_prefix_ordered:
  assumes "registry_wf r"
  shows "sorted_wrt (<) (map ci_name (with_prefix r p))"
proof -
  let ?es = "RBT.entries (channels r)"
  have name: "ci_name v = k" if "(k, v) \<in> set ?es" for k v
    using that registry_wfD [OF assms] by (simp add: lookup_in_tree get_raw_def)
  then have "map ci_name (map snd ?es) = map fst ?es" by auto
  then have "sorted_wrt (<) (map ci_name (map snd ?es))"
    using sorted_entries [of "channels r"] distinct_entries [of "channels r"]
    by (simp only: strict_sorted_iff)
  then have "sorted_wrt (<) (map ci_name (map snd (filter (\<lambda>(n, _). starts_with n p) ?es)))"
    using sorted_wrt_filter_map [of "ci_name \<circ> snd" ?es] by simp
  then show ?thesis unfolding with_prefix_scan by (rule sorted_wrt_filter_map)
qed

subsection \<open>Tombstones\<close>

lemma identity_key_tombstone: "identity_key e \<le> identity_key (e\<lparr>ci_deleted := True\<rparr>)"
  by (auto simp: identity_key_def less_eq_prod_def)

lemma resolve_tombstone:
  "\<not> ci_deleted e \<Longrightarrow> resolve_collision e (e\<lparr>ci_deleted := True\<rparr>) = e\<lparr>ci_deleted := True\<rparr>"
  by (simp add: resolve_collision_def cmp_def)

lemma merge_tombstone:
  assumes "registry_wf r" and "get_raw r n = Some e" and "\<not> ci_deleted e"
  shows "fst (merge r (e\<lparr>ci_deleted := True\<rparr>)) = e\<lparr>ci_deleted := True\<rparr>"
    and "get_raw (snd (merge r (e\<lparr>ci_deleted := True\<rparr>))) m =
         (if m = n then Some (e\<lparr>ci_deleted := True\<rparr>) else get_raw r m)"
  using assms registry_wfD [OF assms(1,2)]
  by (simp_all add: fst_merge get_raw_merge resolve_tombstone)

lemma deregister_cases:
  assumes "registry_wf r"
  shows "deregister r n ow =
    (case get r n of
       Some e \<Rightarrow> if ci_owner e = ow
          then (Some (e\<lparr>ci_deleted := True\<rparr>), snd (merge r (e\<lparr>ci_deleted := True\<rparr>)))
          else (None, r)
     | None \<Rightarrow> (None, r))"
  using merge_tombstone(1) [OF assms]
  by (auto simp: deregister_def get_conv_raw get_raw_def case_prod_beta split: option.splits)

lemma reap_cases:
  assumes "registry_wf r"
  shows "reap r n =
    (case get r n of
       Some e \<Rightarrow> (Some (e\<lparr>ci_deleted := True\<rparr>), snd (merge r (e\<lparr>ci_deleted := True\<rparr>)))
     | None \<Rightarrow> (None, r))"
  using merge_tombstone(1) [OF assms]
  by (auto simp: reap_def get_conv_raw get_raw_def case_prod_beta split: option.splits)

lemma registry_wf_deregister [simp]: "registry_wf r \<Longrightarrow> registry_wf (snd (deregister r n ow))"
  by (simp add: deregister_cases split: option.split)

lemma registry_wf_reap [simp]: "registry_wf r \<Longrightarrow> registry_wf (snd (reap r n))"
  by (simp add: reap_cases split: option.split)

text \<open>An entry that is dead, or of a newer generation than everything merged, stays.\<close>

lemma tombstone_survives:
  assumes wf: "registry_wf r" and t: "get_raw r n = Some t" "ci_deleted t"
    and old: "\<And>i. i \<in> set ids \<Longrightarrow> ci_name i = n \<Longrightarrow> ci_epoch i \<le> ci_epoch t"
  shows "get (merge_all r ids) n = None"
proof -
  from reg.joins_key_mono [OF wf t(1), of ids] obtain z where
    z: "get_raw (merge_all r ids) n = Some z" "identity_key t \<le> identity_key z"
      "z = t \<or> z \<in> set ids \<and> ci_name z = n"
    by (auto simp: merge_all_def)
  with old have "ci_epoch z \<le> ci_epoch t" by auto
  with z(2) t(2) have "ci_deleted z"
    by (auto simp: identity_key_def less_eq_prod_def word_le_def)
  with z(1) show ?thesis by (simp add: get_conv_raw)
qed

lemma newer_generation_survives:
  assumes wf: "registry_wf r" and e: "get_raw r n = Some e"
    and old: "\<And>i. i \<in> set ids \<Longrightarrow> ci_name i = n \<Longrightarrow> ci_epoch i < ci_epoch e"
  shows "get_raw (merge_all r ids) n = Some e"
proof -
  from reg.joins_key_mono [OF wf e, of ids] obtain z where
    z: "get_raw (merge_all r ids) n = Some z" "identity_key e \<le> identity_key z"
      "z = e \<or> z \<in> set ids \<and> ci_name z = n"
    by (auto simp: merge_all_def)
  moreover have "\<not> ci_epoch z < ci_epoch e"
    using z(2) by (auto simp: identity_key_def less_eq_prod_def word_less_def word_le_def)
  ultimately show ?thesis using old by auto
qed

subsection \<open>Properties\<close>

text \<open>C11. Delivery order and duplication do not matter. Two replicas of a well-formed registry
  that merge the same identities, in any order and any number of times, hold for every name
  an entry with the same epoch, liveness, registration time and owner.\<close>

theorem registry_keys_converge:
  assumes "registry_wf r" and "set xs = set ys"
  shows "map_option identity_key (get_raw (merge_all r xs) n) =
         map_option identity_key (get_raw (merge_all r ys) n)"
  using reg.joins_key_converge [OF assms] by (simp add: merge_all_def)

text \<open>When no two identities of a name tie on epoch, liveness, registration time and owner,
  the replicas hold identical entries.\<close>

theorem registry_entries_converge:
  assumes "registry_wf r" and "set xs = set ys"
    and "inj_on identity_key (set_option (get_raw r n) \<union> {i \<in> set xs. ci_name i = n})"
  shows "get_raw (merge_all r xs) n = get_raw (merge_all r ys) n \<and>
         get (merge_all r xs) n = get (merge_all r ys) n"
  using reg.joins_converge [OF assms] by (simp add: merge_all_def get_conv_raw)

text \<open>One exchange of full registries (join-time anti-entropy) makes two nodes agree: each
  merges what the other iterates, and both then hold entries with equal keys for every name,
  tombstones included.\<close>

theorem anti_entropy_agrees:
  assumes "registry_wf a" and "registry_wf b"
  shows "map_option identity_key (get_raw (merge_all a (registry_iter b)) n) =
         map_option identity_key (get_raw (merge_all b (registry_iter a)) n)"
  using reg.joins_sync_key [OF assms set_registry_iter [OF assms(1)] set_registry_iter [OF assms(2)]]
  by (simp add: merge_all_def)

text \<open>C12. A deregistered name stays dead. Once its owner tombstones a live name, no sequence of
  registrations of the same or an older generation makes the name readable again.\<close>

theorem tombstone_dominates:
  assumes "registry_wf r" and "deregister r n ow = (Some t, r')"
    and "\<forall>i \<in> set ids. ci_name i = n \<longrightarrow> ci_epoch i \<le> ci_epoch t"
  shows "get (merge_all r' ids) n = None"
proof -
  from assms(1,2) obtain e where e: "get_raw r n = Some e" "\<not> ci_deleted e"
    "t = e\<lparr>ci_deleted := True\<rparr>" "r' = snd (merge r t)"
    by (auto simp: deregister_cases get_conv_raw split: option.splits if_splits)
  then have "registry_wf r'" "get_raw r' n = Some t"
    using assms(1) merge_tombstone(2) [OF assms(1) e(1,2)] by simp_all
  with e(3) assms(3) show ?thesis by (intro tombstone_survives) auto
qed

text \<open>Deregistration is the owner's alone and touches one name: it succeeds exactly when the
  name is live and owned by the caller, the result is the live entry marked deleted, the name
  then reads as absent, and every other entry is as before.\<close>

theorem deregister_exact:
  assumes "registry_wf r"
  shows "case deregister r n ow of
       (None, r') \<Rightarrow> r' = r \<and> (\<nexists>e. get r n = Some e \<and> ci_owner e = ow)
     | (Some t, r') \<Rightarrow>
         (\<exists>e. get r n = Some e \<and> ci_owner e = ow \<and> t = e\<lparr>ci_deleted := True\<rparr>) \<and>
         get_raw r' = (get_raw r)(n \<mapsto> t) \<and> get r' n = None"
proof (cases "\<exists>e. get r n = Some e \<and> ci_owner e = ow")
  case True
  then obtain e where e: "get r n = Some e" "ci_owner e = ow" by auto
  then have raw: "get_raw r n = Some e" "\<not> ci_deleted e"
    by (auto simp: get_conv_raw split: option.splits if_splits)
  from e raw show ?thesis
    using merge_tombstone(2) [OF assms raw] by (auto simp: deregister_cases [OF assms] get_conv_raw)
next
  case False
  then show ?thesis by (auto simp: deregister_cases [OF assms] split: option.split)
qed

text \<open>A tombstoned name can be reclaimed, and the reclaim sticks. A registration at the
  epoch \<open>claim_epoch\<close> gives wins the name from the tombstone (unless the epoch counter is
  exhausted), and no later arrival of the old generation displaces it.\<close>

theorem reclaim_wins:
  assumes "registry_wf r" and "get_raw r n = Some t" and "ci_deleted t"
    and "ci_epoch t \<noteq> - 1" and "ci_name i = n" and "ci_epoch i = claim_epoch r n"
    and "\<forall>j \<in> set ids. ci_name j = n \<longrightarrow> ci_epoch j \<le> ci_epoch t"
  shows "fst (merge r i) = i \<and> get_raw (merge_all (snd (merge r i)) ids) n = Some i"
proof -
  from assms have epoch: "ci_epoch t < ci_epoch i"
    by (simp add: claim_epoch_def get_raw_def word_less_add_1)
  then have win: "resolve_collision t i = i"
    by (simp add: resolve_collision_def cmp_def)
  with assms have "fst (merge r i) = i" "get_raw (snd (merge r i)) n = Some i"
    by (simp_all add: fst_merge get_raw_merge)
  moreover have "get_raw (merge_all (snd (merge r i)) ids) n = Some i"
    using assms epoch calculation(2) by (intro newer_generation_survives) auto
  ultimately show ?thesis by simp
qed

text \<open>First registrant wins. A registration of a live name that follows the rules (the epoch
  \<open>claim_epoch\<close> gives, not a tombstone) and is stamped later than the current entry does
  not take the name and leaves the registry reporting no change.\<close>

theorem later_claim_loses:
  assumes "registry_wf r" and "get r n = Some e" and "ci_name i = n"
    and "ci_epoch i = claim_epoch r n" and "\<not> ci_deleted i"
    and "ci_registered_at_nanos e < ci_registered_at_nanos i"
  shows "merge_tracked r i = (\<lparr>winner = e, changed = False\<rparr>, snd (merge r i)) \<and>
         get_raw (snd (merge r i)) = get_raw r"
proof -
  from assms(2) have raw: "get_raw r n = Some e" "\<not> ci_deleted e"
    by (auto simp: get_conv_raw split: option.splits if_splits)
  then have "resolve_collision e i = e"
    using assms by (auto simp: resolve_collision_def cmp_def claim_epoch_def get_raw_def)
  with raw assms(1,3) registry_wfD [OF assms(1) raw(1)] show ?thesis
    by (auto simp: get_raw_merge merge_def merge_tracked_def Let_def get_raw_def fun_eq_iff)
qed

text \<open>\<open>merge_tracked\<close> reports a change exactly when the entry the map holds for the
  incoming name is a different one afterwards, and the winner it returns is that entry.\<close>

theorem merge_tracked_reports:
  assumes "registry_wf r"
  shows "case merge_tracked r i of (m, r') \<Rightarrow>
     (changed m \<longleftrightarrow> get_raw r' \<noteq> get_raw r) \<and> get_raw r' = (get_raw r)(ci_name i \<mapsto> winner m) \<and>
     (winner m = i \<or> get_raw r (ci_name i) = Some (winner m))"
proof -
  have snd: "snd (merge_tracked r i) = snd (merge r i)" by (rule snd_merge_tracked)
  have win: "winner (fst (merge_tracked r i)) = fst (merge r i)" by (rule fst_merge_tracked)
  have upd: "get_raw (snd (merge r i)) = (get_raw r)(ci_name i \<mapsto> fst (merge r i))"
    by (auto simp: get_raw_merge [OF assms] fst_merge fun_eq_iff)
  have name: "ci_name (fst (merge r i)) = ci_name i"
    using resolve_collision_choice registry_wfD [OF assms]
    by (auto simp: fst_merge split: option.split) metis
  have ch: "changed (fst (merge_tracked r i)) \<longleftrightarrow> get_raw r (ci_name i) \<noteq> Some (fst (merge r i))"
    using name by (simp add: fst_merge merge_tracked_def Let_def get_raw_def split: option.splits)
  have "fst (merge r i) = i \<or> get_raw r (ci_name i) = Some (fst (merge r i))"
    using resolve_collision_choice by (auto simp: fst_merge split: option.split) metis
  then show ?thesis
    using snd win upd ch by (auto simp: case_prod_beta fun_eq_iff)
qed

text \<open>The prefix query is exact and ordered: the range scan returns the live entries whose
  name starts with the prefix, each once, in strictly increasing name order.\<close>

theorem with_prefix_exact:
  assumes "registry_wf r"
  shows "set (with_prefix r p) = {i. \<exists>n. get r n = Some i \<and> starts_with n p} \<and>
         sorted_wrt (<) (map ci_name (with_prefix r p))"
  using set_with_prefix with_prefix_ordered [OF assms] by blast

text \<open>The rule is not commutative when the four compared fields tie and another field
  differs: each side keeps its own entry, so two nodes can hold different geometry for the
  same name. The source describes the rule as a total order that makes the merge
  commutative.\<close>

theorem resolve_collision_tie_keeps_left:
  "resolve_collision a (a\<lparr>ci_mtu := m\<rparr>) = a \<and>
   resolve_collision (a\<lparr>ci_mtu := m\<rparr>) a = a\<lparr>ci_mtu := m\<rparr>"
  by (simp add: resolve_collision_def cmp_def split: bool.split)

subsection \<open>Concrete registries\<close>

definition sample_identity :: "node_id \<Rightarrow> u64 \<Rightarrow> u64 \<Rightarrow> channel_identity" where
  "sample_identity ow at ep =
     \<lparr>ci_name = ascii ''fills'', ci_owner = ow, ci_region_size = 1048576, ci_mtu = 0,
      ci_earliest_index = 0, ci_registered_at_nanos = at, ci_epoch = ep,
      ci_deleted = False, ci_member_of = None\<rparr>"

definition sample_registry :: registry where
  "sample_registry = snd (merge registry_new (sample_identity 7 100 0))"

lemma sample_identity_sel [simp]:
  "ci_name (sample_identity ow at ep) = ascii ''fills''"
  "ci_owner (sample_identity ow at ep) = ow"
  "ci_epoch (sample_identity ow at ep) = ep"
  "ci_registered_at_nanos (sample_identity ow at ep) = at"
  "ci_deleted (sample_identity ow at ep) = False"
  by (simp_all add: sample_identity_def)

lemma sample_registry_facts [simp]:
  "registry_wf sample_registry"
  "get_raw sample_registry (ascii ''fills'') = Some (sample_identity 7 100 0)"
  "get sample_registry (ascii ''fills'') = Some (sample_identity 7 100 0)"
  by (simp_all add: sample_registry_def get_raw_merge get_conv_raw del: ascii_simps)

theorem registry_keys_converge_witness:
  "let xs = [sample_identity 3 50 0, sample_identity 9 10 1];
       ys = [sample_identity 9 10 1, sample_identity 3 50 0, sample_identity 9 10 1]
   in registry_wf sample_registry \<and> set xs = set ys \<and>
      map_option identity_key (get_raw (merge_all sample_registry xs) (ascii ''fills'')) =
      map_option identity_key (get_raw (merge_all sample_registry ys) (ascii ''fills''))"
  using registry_keys_converge [of sample_registry
      "[sample_identity 3 50 0, sample_identity 9 10 1]"
      "[sample_identity 9 10 1, sample_identity 3 50 0, sample_identity 9 10 1]" "ascii ''fills''"]
  by (auto simp: Let_def)

theorem registry_entries_converge_witness:
  "inj_on identity_key (set_option (get_raw sample_registry (ascii ''fills'')) \<union>
      {i \<in> set [sample_identity 3 50 0, sample_identity 9 10 1]. ci_name i = ascii ''fills''}) \<and>
   get_raw (merge_all sample_registry [sample_identity 3 50 0, sample_identity 9 10 1]) (ascii ''fills'') =
   get_raw (merge_all sample_registry [sample_identity 9 10 1, sample_identity 3 50 0]) (ascii ''fills'')"
proof
  show inj: "inj_on identity_key (set_option (get_raw sample_registry (ascii ''fills'')) \<union>
      {i \<in> set [sample_identity 3 50 0, sample_identity 9 10 1]. ci_name i = ascii ''fills''})"
    by (auto simp: inj_on_def identity_key_eq_iff simp del: ascii_simps)
  show "get_raw (merge_all sample_registry [sample_identity 3 50 0, sample_identity 9 10 1]) (ascii ''fills'') =
   get_raw (merge_all sample_registry [sample_identity 9 10 1, sample_identity 3 50 0]) (ascii ''fills'')"
    using registry_entries_converge [OF _ _ inj, of "[sample_identity 9 10 1, sample_identity 3 50 0]"]
    by auto
qed

theorem anti_entropy_agrees_witness:
  "registry_wf sample_registry \<and> registry_wf registry_new \<and>
   map_option identity_key (get_raw (merge_all sample_registry (registry_iter registry_new)) (ascii ''fills'')) =
   map_option identity_key (get_raw (merge_all registry_new (registry_iter sample_registry)) (ascii ''fills''))"
  using anti_entropy_agrees [of sample_registry registry_new] by simp

theorem tombstone_dominates_witness:
  "case deregister sample_registry (ascii ''fills'') 7 of
     (Some t, r') \<Rightarrow> get (merge_all r' [sample_identity 3 50 0]) (ascii ''fills'') = None
   | _ \<Rightarrow> False"
  using tombstone_dominates [of sample_registry "ascii ''fills''" 7
      "(sample_identity 7 100 0)\<lparr>ci_deleted := True\<rparr>"
      "snd (merge sample_registry ((sample_identity 7 100 0)\<lparr>ci_deleted := True\<rparr>))"
      "[sample_identity 3 50 0]"]
  by (simp add: deregister_cases del: ascii_simps)

theorem deregister_exact_witness:
  "registry_wf sample_registry \<and>
   (case deregister sample_registry (ascii ''fills'') 8 of
      (None, r') \<Rightarrow> r' = sample_registry | (Some t, r') \<Rightarrow> False)"
  using deregister_exact [of sample_registry "ascii ''fills''" 8]
  by (simp add: deregister_cases del: ascii_simps)

theorem reclaim_wins_witness:
  "let r = snd (deregister sample_registry (ascii ''fills'') 7); i = sample_identity 9 200 1
   in claim_epoch r (ascii ''fills'') = 1 \<and> fst (merge r i) = i \<and>
      get_raw (merge_all (snd (merge r i)) [sample_identity 3 50 0]) (ascii ''fills'') = Some i"
proof -
  let ?t = "(sample_identity 7 100 0)\<lparr>ci_deleted := True\<rparr>"
  let ?r = "snd (deregister sample_registry (ascii ''fills'') 7)"
  have r: "registry_wf ?r" "get_raw ?r (ascii ''fills'') = Some ?t"
    by (simp_all add: deregister_cases merge_tombstone(2) [OF sample_registry_facts(1,2)] del: ascii_simps)
  then have e: "claim_epoch ?r (ascii ''fills'') = 1"
    by (simp add: claim_epoch_def get_raw_def del: ascii_simps)
  from reclaim_wins [OF r, of "sample_identity 9 200 1" "[sample_identity 3 50 0]"] e show ?thesis
    by (simp add: Let_def del: ascii_simps)
qed

theorem later_claim_loses_witness:
  "merge_tracked sample_registry (sample_identity 9 200 0) =
     (\<lparr>winner = sample_identity 7 100 0, changed = False\<rparr>,
      snd (merge sample_registry (sample_identity 9 200 0)))"
  using later_claim_loses [of sample_registry "ascii ''fills''" "sample_identity 7 100 0"
      "sample_identity 9 200 0"] sample_registry_facts(2)
  by (simp add: claim_epoch_def get_raw_def del: ascii_simps)

theorem merge_tracked_reports_witness:
  "registry_wf sample_registry \<and>
   winner (fst (merge_tracked sample_registry (sample_identity 3 50 0))) = sample_identity 3 50 0 \<and>
   changed (fst (merge_tracked sample_registry (sample_identity 3 50 0)))"
proof -
  have w: "winner (fst (merge_tracked sample_registry (sample_identity 3 50 0))) = sample_identity 3 50 0"
    by (simp add: fst_merge_tracked fst_merge resolve_collision_def cmp_def del: ascii_simps)
  have "sample_identity 3 50 0 \<noteq> sample_identity 7 100 0" by (simp add: sample_identity_def)
  with w show ?thesis
    using merge_tracked_reports [of sample_registry "sample_identity 3 50 0"]
    by (auto simp: case_prod_beta fun_upd_idem_iff simp del: ascii_simps)
qed

theorem with_prefix_exact_witness:
  "registry_wf sample_registry \<and>
   sample_identity 7 100 0 \<in> set (with_prefix sample_registry (ascii ''fi''))"
proof -
  have "starts_with (ascii ''fills'') (ascii ''fi'')" by (simp add: starts_with_def)
  then show ?thesis
    using with_prefix_exact [of sample_registry "ascii ''fi''"]
    by (auto simp del: ascii_simps)
qed

end
