(* ===== verification/Socket_Addr.thy ===== *)
theory Socket_Addr
  imports Prelude
begin

text \<open>
  The part of \<open>std::net::SocketAddr\<close> the wire codec uses: its text form
  (\<open>Display\<close>) and its parser (\<open>FromStr\<close>). Addresses travel as text, so the codec's
  round trip rests on the one proved here.

  The text form leaves out the flow label of an IPv6 address and the parser sets it to
  zero, so an address comes back as itself exactly when its flow label is zero
  (\<open>addr_ok\<close>).
\<close>

datatype socket_addr =
    SockV4 u8 u8 u8 u8 u16
  | SockV6 "u16 list" u16 u32 u32

text \<open>\<open>SockV6 segments port flowinfo scope_id\<close>; an address has eight segments.\<close>

fun addr_ok :: "socket_addr \<Rightarrow> bool" where
  "addr_ok (SockV4 a b c d p) = True"
| "addr_ok (SockV6 segs p flow scope) = (length segs = 8 \<and> flow = 0)"

subsection \<open>Display\<close>

definition digit_char :: "nat \<Rightarrow> u8" where
  "digit_char d = of_nat (if d < 10 then 48 + d else 87 + d)"

function show_radix :: "nat \<Rightarrow> nat \<Rightarrow> bytes" where
  "show_radix r n =
     (if n < r \<or> r < 2 then [digit_char n] else show_radix r (n div r) @ [digit_char (n mod r)])"
  by pat_completeness auto
termination
  by (relation "measure snd") auto

declare show_radix.simps [simp del]

abbreviation show_dec :: "nat \<Rightarrow> bytes" where
  "show_dec \<equiv> show_radix 10"

abbreviation show_hex :: "nat \<Rightarrow> bytes" where
  "show_hex \<equiv> show_radix 16"

definition show_ipv4 :: "u8 \<Rightarrow> u8 \<Rightarrow> u8 \<Rightarrow> u8 \<Rightarrow> bytes" where
  "show_ipv4 a b c d =
     show_dec (unat a) @ [46] @ show_dec (unat b) @ [46] @ show_dec (unat c) @ [46] @ show_dec (unat d)"

text \<open>The loop that finds the longest run of zero segments: \<open>(start, len)\<close> of the longest and
  of the current run.\<close>

fun zero_scan :: "nat \<Rightarrow> u16 list \<Rightarrow> nat \<times> nat \<Rightarrow> nat \<times> nat \<Rightarrow> nat \<times> nat" where
  "zero_scan i [] longest current = longest"
| "zero_scan i (s # ss) longest current =
     (if s = 0 then
        (let current = (if snd current = 0 then i else fst current, snd current + 1);
             longest = (if snd current > snd longest then current else longest)
         in zero_scan (i + 1) ss longest current)
      else zero_scan (i + 1) ss longest (0, 0))"

definition fmt_subslice :: "u16 list \<Rightarrow> bytes" where
  "fmt_subslice chunk =
     (case chunk of
        [] \<Rightarrow> []
      | first # tail \<Rightarrow> show_hex (unat first) @ concat (map (\<lambda>s. 58 # show_hex (unat s)) tail))"

definition to_ipv4_mapped :: "u16 list \<Rightarrow> (u8 \<times> u8 \<times> u8 \<times> u8) option" where
  "to_ipv4_mapped segs =
     (if take 6 segs = [0, 0, 0, 0, 0, 0xFFFF] then
        Some (ucast (drop_bit 8 (segs ! 6)), ucast (segs ! 6),
              ucast (drop_bit 8 (segs ! 7)), ucast (segs ! 7))
      else None)"

definition show_ipv6 :: "u16 list \<Rightarrow> bytes" where
  "show_ipv6 segs =
     (case to_ipv4_mapped segs of
        Some (a, b, c, d) \<Rightarrow> [58, 58, 102, 102, 102, 102, 58] @ show_ipv4 a b c d
      | None \<Rightarrow>
          (case zero_scan 0 segs (0, 0) (0, 0) of (start, len) \<Rightarrow>
             if len > 1
             then fmt_subslice (take start segs) @ [58, 58] @ fmt_subslice (drop (start + len) segs)
             else fmt_subslice segs))"

fun addr_to_string :: "socket_addr \<Rightarrow> rstring" where
  "addr_to_string (SockV4 a b c d p) = show_ipv4 a b c d @ [58] @ show_dec (unat p)"
| "addr_to_string (SockV6 segs p flow scope) =
     (if scope = 0 then [91] @ show_ipv6 segs @ [93, 58] @ show_dec (unat p)
      else [91] @ show_ipv6 segs @ [37] @ show_dec (unat scope) @ [93, 58] @ show_dec (unat p))"

subsection \<open>FromStr\<close>

text \<open>A parser takes the remaining input and gives a value with the rest, or nothing, in which
  case the caller continues from where it was.\<close>

type_synonym 'a parser = "bytes \<Rightarrow> ('a \<times> bytes) option"

definition to_digit :: "nat \<Rightarrow> u8 \<Rightarrow> nat option" where
  "to_digit r c =
     (let d = (if 48 \<le> c \<and> c \<le> 57 then Some (unat c - 48)
               else if 97 \<le> c \<and> c \<le> 122 then Some (unat c - 87)
               else if 65 \<le> c \<and> c \<le> 90 then Some (unat c - 55) else None)
      in case d of Some d \<Rightarrow> if d < r then Some d else None | None \<Rightarrow> None)"

definition read_given_char :: "u8 \<Rightarrow> unit parser" where
  "read_given_char c s = (case s of x # xs \<Rightarrow> if x = c then Some ((), xs) else None | [] \<Rightarrow> None)"

definition read_separator :: "u8 \<Rightarrow> nat \<Rightarrow> 'a parser \<Rightarrow> 'a parser" where
  "read_separator sep i inner s =
     (if i > 0 then (case read_given_char sep s of None \<Rightarrow> None | Some (_, s') \<Rightarrow> inner s')
      else inner s)"

fun read_digits :: "nat \<Rightarrow> nat option \<Rightarrow> nat \<Rightarrow> nat \<Rightarrow> nat \<Rightarrow> bytes \<Rightarrow> (nat \<times> nat \<times> bytes) option" where
  "read_digits r maxd bound acc cnt [] = Some (acc, cnt, [])"
| "read_digits r maxd bound acc cnt (c # cs) =
     (case to_digit r c of
        None \<Rightarrow> Some (acc, cnt, c # cs)
      | Some d \<Rightarrow>
          (if acc * r + d > bound then None
           else if (case maxd of Some m \<Rightarrow> cnt + 1 > m | None \<Rightarrow> False) then None
           else read_digits r maxd bound (acc * r + d) (cnt + 1) cs))"

definition read_number :: "nat \<Rightarrow> nat option \<Rightarrow> bool \<Rightarrow> nat \<Rightarrow> nat parser" where
  "read_number r maxd allow_zero_prefix bound s =
     (case read_digits r maxd bound 0 0 s of
        None \<Rightarrow> None
      | Some (v, n, rest) \<Rightarrow>
          if n = 0 then None
          else if \<not> allow_zero_prefix \<and> hd s = 48 \<and> n > 1 then None
          else Some (v, rest))"

definition pbind :: "'a parser \<Rightarrow> ('a \<Rightarrow> 'b parser) \<Rightarrow> 'b parser" where
  "pbind p f s = (case p s of None \<Rightarrow> None | Some (x, s') \<Rightarrow> f x s')"

definition pret :: "'a \<Rightarrow> 'a parser" where
  "pret x s = Some (x, s)"

definition read_octet :: "nat \<Rightarrow> nat parser" where
  "read_octet i = read_separator 46 i (read_number 10 (Some 3) False 255)"

definition read_ipv4_addr :: "(u8 \<times> u8 \<times> u8 \<times> u8) parser" where
  "read_ipv4_addr =
     pbind (read_octet 0) (\<lambda>a. pbind (read_octet 1) (\<lambda>b.
     pbind (read_octet 2) (\<lambda>c. pbind (read_octet 3) (\<lambda>d.
       pret (of_nat a, of_nat b, of_nat c, of_nat d)))))"

definition be_u16 :: "u8 \<Rightarrow> u8 \<Rightarrow> u16" where
  "be_u16 hi lo = or (push_bit 8 (ucast hi)) (ucast lo)"

text \<open>The groups read so far, whether they end in an embedded IPv4 address, and the rest. The
  second argument is the number of slots left of \<open>limit\<close>.\<close>

fun read_groups :: "nat \<Rightarrow> nat \<Rightarrow> u16 list \<Rightarrow> bytes \<Rightarrow> u16 list \<times> bool \<times> bytes" where
  "read_groups limit 0 acc s = (acc, False, s)"
| "read_groups limit (Suc k) acc s =
     (let i = limit - Suc k;
          ipv4 = (if i < limit - 1 then read_separator 58 i read_ipv4_addr s else None)
      in case ipv4 of
           Some ((a, b, c, d), rest) \<Rightarrow> (acc @ [be_u16 a b, be_u16 c d], True, rest)
         | None \<Rightarrow>
             (case read_separator 58 i (read_number 16 (Some 4) True 65535) s of
                Some (g, rest) \<Rightarrow> read_groups limit k (acc @ [of_nat g]) rest
              | None \<Rightarrow> (acc, False, s)))"

definition read_ipv6_addr :: "u16 list parser" where
  "read_ipv6_addr s =
     (case read_groups 8 8 [] s of (head, head_ipv4, s1) \<Rightarrow>
        if length head = 8 then Some (head, s1)
        else if head_ipv4 then None
        else
          (case read_given_char 58 s1 of
             None \<Rightarrow> None
           | Some (_, s2) \<Rightarrow>
               (case read_given_char 58 s2 of
                  None \<Rightarrow> None
                | Some (_, s3) \<Rightarrow>
                    (let limit = 8 - (length head + 1) in
                     case read_groups limit limit [] s3 of (tail, _, s4) \<Rightarrow>
                       Some (head @ replicate (8 - length head - length tail) 0 @ tail, s4)))))"

definition read_port :: "nat parser" where
  "read_port = pbind (read_given_char 58) (\<lambda>_. read_number 10 None True 65535)"

definition read_scope_id :: "nat parser" where
  "read_scope_id = pbind (read_given_char 37) (\<lambda>_. read_number 10 None True 4294967295)"

definition read_socket_addr_v4 :: "socket_addr parser" where
  "read_socket_addr_v4 =
     pbind read_ipv4_addr (\<lambda>(a, b, c, d). pbind read_port (\<lambda>p. pret (SockV4 a b c d (of_nat p))))"

definition read_socket_addr_v6 :: "socket_addr parser" where
  "read_socket_addr_v6 =
     pbind (read_given_char 91) (\<lambda>_. pbind read_ipv6_addr (\<lambda>ip.
     pbind (\<lambda>s. case read_scope_id s of Some r \<Rightarrow> Some r | None \<Rightarrow> Some (0, s)) (\<lambda>scope.
     pbind (read_given_char 93) (\<lambda>_. pbind read_port (\<lambda>p.
       pret (SockV6 ip (of_nat p) 0 (of_nat scope)))))))"

definition parse_socket_addr :: "rstring \<Rightarrow> socket_addr option" where
  "parse_socket_addr s =
     (case (case read_socket_addr_v4 s of Some r \<Rightarrow> Some r | None \<Rightarrow> read_socket_addr_v6 s) of
        Some (a, []) \<Rightarrow> Some a
      | _ \<Rightarrow> None)"

subsection \<open>Numbers round trip\<close>

lemma upto_16: "[0..<16] = [0, 1, 2, 3, 4, 5, 6, 7, 8, 9, 10, 11, 12, 13, 14, 15 :: nat]"
  by (simp add: upt_rec)

lemma hex_digits: "list_all (\<lambda>d. to_digit 16 (digit_char d) = Some d) [0..<16]"
  unfolding upto_16 list.pred_inject by (simp add: digit_char_def to_digit_def)

lemma to_digit_digit_char [simp]: "d < r \<Longrightarrow> r \<le> 16 \<Longrightarrow> to_digit r (digit_char d) = Some d"
proof -
  assume d: "d < r" "r \<le> 16"
  with hex_digits have "to_digit 16 (digit_char d) = Some d"
    by (simp add: list_all_iff)
  with d show ?thesis by (auto simp: to_digit_def Let_def split: option.splits if_splits)
qed

lemma show_radix_not_Nil [simp]: "show_radix r n \<noteq> []"
  by (subst show_radix.simps) simp

lemma length_show_radix_le:
  assumes "2 \<le> r" "n < r ^ k" "0 < k"
  shows "length (show_radix r n) \<le> k"
  using assms
proof (induction r n arbitrary: k rule: show_radix.induct)
  case (1 r n)
  show ?case
  proof (cases "n < r")
    case True
    with 1 show ?thesis by (simp add: show_radix.simps)
  next
    case False
    then have k: "1 < k" using 1(3,4) by (cases "k = 1") auto
    then obtain j where j: "k = Suc j" "0 < j" by (cases k) auto
    have "n div r < r ^ j" using 1(2,3) j by (simp add: div_less_iff_less_mult mult.commute)
    with 1 False j have "length (show_radix r (n div r)) \<le> j" by simp
    with False 1(2) j show ?thesis by (simp add: show_radix.simps [of r n])
  qed
qed

lemma read_digits_show:
  assumes "2 \<le> r" "r \<le> 16"
    and "acc * r ^ length (show_radix r n) + n \<le> bound"
    and "\<And>m. maxd = Some m \<Longrightarrow> cnt + length (show_radix r n) \<le> m"
  shows "read_digits r maxd bound acc cnt (show_radix r n @ rest) =
         read_digits r maxd bound (acc * r ^ length (show_radix r n) + n)
           (cnt + length (show_radix r n)) rest"
  using assms
proof (induction r n arbitrary: rest rule: show_radix.induct)
  case (1 r n)
  show ?case
  proof (cases "n < r")
    case True
    with 1 show ?thesis by (auto simp: show_radix.simps [of r n] split: option.splits)
  next
    case False
    let ?l = "length (show_radix r (n div r))"
    have sh: "show_radix r n = show_radix r (n div r) @ [digit_char (n mod r)]"
      using False 1(2) by (simp add: show_radix.simps [of r n])
    have val: "(acc * r ^ ?l + n div r) * r + n mod r = acc * r ^ Suc ?l + n"
      by (simp add: algebra_simps)
    define x where "x = acc * r ^ ?l + n div r"
    have total: "x * r + n mod r \<le> bound" using 1(4) sh val by (simp add: x_def)
    moreover have "x * 1 \<le> x * r" using 1(2) by (intro mult_le_mono) simp_all
    ultimately have bound: "x \<le> bound" by linarith
    have cnt: "cnt + ?l \<le> m" "cnt + ?l + 1 \<le> m" if "maxd = Some m" for m
      using 1(5) [OF that] sh by simp_all
    have "read_digits r maxd bound acc cnt (show_radix r n @ rest) =
        read_digits r maxd bound acc cnt (show_radix r (n div r) @ digit_char (n mod r) # rest)"
      by (simp add: sh)
    also have "\<dots> = read_digits r maxd bound x (cnt + ?l) (digit_char (n mod r) # rest)"
      unfolding x_def
      by (rule "1.IH") (use False 1(2,3) bound cnt in \<open>simp_all add: x_def\<close>)
    also have "\<dots> = read_digits r maxd bound (x * r + n mod r) (cnt + ?l + 1) rest"
    proof -
      have "to_digit r (digit_char (n mod r)) = Some (n mod r)" using 1(2,3) by simp
      with total cnt show ?thesis
        by (cases maxd) (simp_all add: not_less)
    qed
    also have "x * r + n mod r = acc * r ^ Suc ?l + n" using val by (simp add: x_def)
    finally show ?thesis by (simp add: sh)
  qed
qed

lemma set_show_radix:
  "2 \<le> r \<Longrightarrow> c \<in> set (show_radix r n) \<Longrightarrow> \<exists>d < r. c = digit_char d"
proof (induction r n rule: show_radix.induct)
  case (1 r n)
  show ?case
  proof (cases "n < r")
    case True
    with 1 show ?thesis by (auto simp: show_radix.simps [of r n])
  next
    case False
    with 1(2,3) have "c \<in> set (show_radix r (n div r)) \<or> c = digit_char (n mod r)"
      by (auto simp: show_radix.simps [of r n])
    moreover have "n mod r < r" using 1(2) by simp
    ultimately show ?thesis using 1(1) [OF _ 1(2)] False 1(2) by (metis not_less)
  qed
qed

lemma digit_chars: "list_all (\<lambda>d. digit_char d \<notin> {37, 46, 58, 91, 93} \<and> digit_char d < 128 \<and>
    (digit_char d = 48 \<longrightarrow> d = 0)) [0..<16]"
  unfolding upto_16 list.pred_inject by (simp add: digit_char_def)

lemma digit_char_facts:
  assumes "d < 16"
  shows "digit_char d \<noteq> 37" "digit_char d \<noteq> 46" "digit_char d \<noteq> 58" "digit_char d \<noteq> 91"
    "digit_char d \<noteq> 93" "digit_char d < 128" "digit_char d = 48 \<Longrightarrow> d = 0"
  using digit_chars assms by (simp_all add: list_all_iff)

lemma hd_show_radix:
  "2 \<le> r \<Longrightarrow> r \<le> 16 \<Longrightarrow> 0 < n \<Longrightarrow> hd (show_radix r n) \<noteq> 48"
proof (induction r n rule: show_radix.induct)
  case (1 r n)
  show ?case
  proof (cases "n < r")
    case True
    with 1 digit_char_facts(7) [of n] show ?thesis by (auto simp: show_radix.simps [of r n])
  next
    case False
    with 1 have "0 < n div r" by (simp add: div_greater_zero_iff)
    with 1 False show ?thesis by (simp add: show_radix.simps [of r n])
  qed
qed

definition stops :: "nat \<Rightarrow> bytes \<Rightarrow> bool" where
  "stops r s \<longleftrightarrow> s = [] \<or> to_digit r (hd s) = None"

lemma read_digits_stops: "stops r s \<Longrightarrow> read_digits r maxd bound acc cnt s = Some (acc, cnt, s)"
  by (cases s) (auto simp: stops_def)

lemma read_number_show:
  assumes "2 \<le> r" "r \<le> 16" "n \<le> bound" "stops r rest"
    and "\<And>m. maxd = Some m \<Longrightarrow> length (show_radix r n) \<le> m"
  shows "read_number r maxd az bound (show_radix r n @ rest) = Some (n, rest)"
proof -
  let ?l = "length (show_radix r n)"
  have "read_digits r maxd bound 0 0 (show_radix r n @ rest) = Some (n, ?l, rest)"
    using assms by (subst read_digits_show) (simp_all add: read_digits_stops)
  moreover have "hd (show_radix r n) \<noteq> 48 \<or> ?l = 1"
    using hd_show_radix [of r n] assms by (cases "n = 0") (simp_all add: show_radix.simps [of r 0])
  ultimately show ?thesis by (auto simp: read_number_def)
qed

lemma to_digit_punct [simp]:
  "to_digit r 37 = None" "to_digit r 46 = None" "to_digit r 58 = None"
  "to_digit r 91 = None" "to_digit r 93 = None"
  by (simp_all add: to_digit_def)

lemma stops_punct [simp]:
  "c \<in> {37, 46, 58, 91, 93} \<Longrightarrow> stops 10 (c # s)" "c \<in> {37, 46, 58, 91, 93} \<Longrightarrow> stops 16 (c # s)"
  "stops r []"
  by (auto simp: stops_def)

subsection \<open>IPv4\<close>

lemma read_given_char_Cons [simp]:
  "read_given_char c (x # s) = (if x = c then Some ((), s) else None)"
  "read_given_char c [] = None"
  by (simp_all add: read_given_char_def)

lemma read_octet_show:
  "stops 10 rest \<Longrightarrow> read_octet 0 (show_dec (unat (a :: u8)) @ rest) = Some (unat a, rest)"
  "stops 10 rest \<Longrightarrow> read_octet (Suc i) (46 # show_dec (unat (a :: u8)) @ rest) = Some (unat a, rest)"
proof -
  assume rest: "stops 10 rest"
  have a: "unat a < 256" using unat_bound [of a] by simp
  then have "length (show_dec (unat a)) \<le> 3" by (intro length_show_radix_le) simp_all
  with a rest have n: "read_number 10 (Some 3) False 255 (show_dec (unat a) @ rest) = Some (unat a, rest)"
    by (intro read_number_show) auto
  then show "read_octet 0 (show_dec (unat a) @ rest) = Some (unat a, rest)"
    and "read_octet (Suc i) (46 # show_dec (unat a) @ rest) = Some (unat a, rest)"
    by (simp_all add: read_octet_def read_separator_def)
qed

lemma read_ipv4_show:
  "stops 10 rest \<Longrightarrow> read_ipv4_addr (show_ipv4 a b c d @ rest) = Some ((a, b, c, d), rest)"
  by (simp add: read_ipv4_addr_def show_ipv4_def pbind_def pret_def read_octet_show
      numeral_2_eq_2 numeral_3_eq_3)

lemma read_port_show:
  "read_port (58 # show_dec (unat (p :: u16))) = Some (unat p, [])"
proof -
  have "unat p < 65536" using unat_bound [of p] by simp
  then have "read_number 10 None True 65535 (show_dec (unat p) @ []) = Some (unat p, [])"
    by (intro read_number_show) auto
  then show ?thesis by (simp add: read_port_def pbind_def)
qed

lemma parse_v4: "parse_socket_addr (addr_to_string (SockV4 a b c d p)) = Some (SockV4 a b c d p)"
  by (simp add: parse_socket_addr_def read_socket_addr_v4_def read_ipv4_show
      read_port_show pbind_def pret_def)

subsection \<open>IPv6\<close>

fun groups_text :: "nat \<Rightarrow> u16 list \<Rightarrow> bytes" where
  "groups_text i [] = []"
| "groups_text i (g # gs) =
     (if i > 0 then [58] else []) @ show_hex (unat g) @ groups_text (Suc i) gs"

lemma fmt_subslice_groups: "fmt_subslice gs = groups_text 0 gs"
proof -
  have "concat (map (\<lambda>s. 58 # show_hex (unat s)) tail) = groups_text (Suc i) tail" for tail i
    by (induction tail arbitrary: i) simp_all
  then show ?thesis by (simp add: fmt_subslice_def split: list.split)
qed

text \<open>What ends a run of groups: the end, a scope, the closing bracket, or the double colon.\<close>

definition group_end :: "bytes \<Rightarrow> bool" where
  "group_end s \<longleftrightarrow> s = [] \<or> hd s = 37 \<or> hd s = 93 \<or> (\<exists>t. s = 58 # 58 # t)"

lemma read_digits_rest:
  "read_digits r m b a c s = Some (v, n, s') \<Longrightarrow> s' = dropWhile (\<lambda>c. to_digit r c \<noteq> None) s"
  by (induction r m b a c s rule: read_digits.induct) (auto split: option.splits if_splits)

lemma read_number_rest:
  "read_number r m z b s = Some (v, s') \<Longrightarrow> s' = dropWhile (\<lambda>c. to_digit r c \<noteq> None) s"
  by (auto simp: read_number_def dest: read_digits_rest split: option.splits if_splits)

lemma read_number_stops: "stops r s \<Longrightarrow> read_number r m z b s = None"
  by (simp add: read_number_def read_digits_stops)

lemma group_end_halts:
  assumes "group_end s"
  shows "read_separator 58 i (read_number 16 m z b) s = None"
    and "read_separator 58 i read_ipv4_addr s = None"
proof -
  from assms have s: "stops 16 s" "stops 10 s" and s': "\<And>t. s = 58 # t \<Longrightarrow> stops 16 t \<and> stops 10 t"
    by (auto simp: group_end_def stops_def neq_Nil_conv)
  show "read_separator 58 i (read_number 16 m z b) s = None"
    using s s' by (cases s) (auto simp: read_separator_def read_number_stops)
  show "read_separator 58 i read_ipv4_addr s = None"
    using s s' by (cases s) (auto simp: read_separator_def read_ipv4_addr_def pbind_def
        read_octet_def read_number_stops)
qed

lemma no_ipv4:
  assumes "r = [] \<or> hd r = 37 \<or> hd r = 58 \<or> hd r = 93"
  shows "read_ipv4_addr (show_hex n @ r) = None"
proof -
  let ?P = "\<lambda>c. to_digit 10 c \<noteq> None"
  have r: "dropWhile ?P r = r" "r = [] \<or> hd r \<noteq> 46"
    using assms by (auto simp: dropWhile_eq_self_iff)
  have h: "c \<noteq> 46" if "c \<in> set (show_hex n)" for c
    using set_show_radix [OF _ that] digit_char_facts(2) by force
  define d where "d = dropWhile ?P (show_hex n @ r)"
  have "d = [] \<or> hd d \<noteq> 46"
  proof (cases "\<forall>c \<in> set (show_hex n). ?P c")
    case True
    with r show ?thesis by (simp add: d_def dropWhile_append2)
  next
    case False
    then have "d = dropWhile ?P (show_hex n) @ r" "dropWhile ?P (show_hex n) \<noteq> []"
      by (auto simp: d_def dropWhile_append1)
    with h set_dropWhileD hd_in_set show ?thesis by (metis hd_append2)
  qed
  then have "read_octet (Suc 0) d = None"
    by (cases d) (auto simp: read_octet_def read_separator_def)
  then show ?thesis
    using read_number_rest [of 10 "Some 3" False 255 "show_hex n @ r"]
    by (auto simp: read_ipv4_addr_def pbind_def read_octet_def [of 0] read_separator_def d_def
        split: option.splits)
qed

lemma read_group_show:
  assumes "r = [] \<or> hd r = 37 \<or> hd r = 58 \<or> hd r = 93"
  shows "read_number 16 (Some 4) True 65535 (show_hex (unat (g :: u16)) @ r) = Some (unat g, r)"
proof -
  have g: "unat g < 65536" using unat_bound [of g] by simp
  then have "length (show_hex (unat g)) \<le> 4" by (intro length_show_radix_le) simp_all
  moreover have "stops 16 r" using assms by (auto simp: stops_def)
  ultimately show ?thesis using g by (intro read_number_show) auto
qed

lemma groups_text_head:
  assumes "group_end rest"
  shows "groups_text (Suc i) gs @ rest = [] \<or> hd (groups_text (Suc i) gs @ rest) \<in> {37, 58, 93}"
  using assms by (cases gs) (auto simp: group_end_def)

lemma read_groups_text:
  assumes "length gs \<le> k" "k \<le> limit" "group_end rest"
  shows "read_groups limit k acc (groups_text (limit - k) gs @ rest) = (acc @ gs, False, rest)"
  using assms(1,2)
proof (induction gs arbitrary: k acc)
  case Nil
  then show ?case
    using group_end_halts [OF assms(3)] by (cases k) (simp_all add: Let_def)
next
  case (Cons g gs)
  then obtain j where k: "k = Suc j" by (cases k) auto
  define i where "i = limit - Suc j"
  have i: "Suc i = limit - j" "limit - k = i" using Cons.prems k by (simp_all add: i_def)
  let ?r = "groups_text (Suc i) gs @ rest"
  have r: "?r = [] \<or> hd ?r = 37 \<or> hd ?r = 58 \<or> hd ?r = 93"
    using groups_text_head [OF assms(3)] by auto
  have "read_separator 58 i read_ipv4_addr (groups_text i (g # gs) @ rest) = None"
    using no_ipv4 [OF r] by (cases i) (simp_all add: read_separator_def)
  moreover have "read_separator 58 i (read_number 16 (Some 4) True 65535)
      (groups_text i (g # gs) @ rest) = Some (unat g, ?r)"
    using read_group_show [OF r] by (cases i) (simp_all add: read_separator_def)
  ultimately have "read_groups limit k acc (groups_text (limit - k) (g # gs) @ rest) =
      read_groups limit j (acc @ [g]) (groups_text (limit - j) gs @ rest)"
    unfolding i(2) by (simp add: k i(1) Let_def i_def [symmetric] del: groups_text.simps)
  also have "\<dots> = (acc @ g # gs, False, rest)" using Cons.IH Cons.prems k by simp
  finally show ?case .
qed

text \<open>The scan finds a run of zeroes inside the list.\<close>

definition zero_run :: "u16 list \<Rightarrow> nat \<times> nat \<Rightarrow> bool" where
  "zero_run segs r \<longleftrightarrow> fst r + snd r \<le> length segs \<and> (\<forall>j < snd r. segs ! (fst r + j) = 0)"

lemma zero_scan_run:
  assumes "drop i segs = ss" "zero_run segs longest" "zero_run segs current"
    and "0 < snd current \<longrightarrow> fst current + snd current = i"
  shows "zero_run segs (zero_scan i ss longest current)"
  using assms
proof (induction ss arbitrary: i longest current)
  case Nil
  then show ?case by simp
next
  case (Cons s ss)
  then have i: "i < length segs" by (metis drop_eq_Nil list.discI not_less)
  with Cons.prems(1) have s: "s = segs ! i" and ss: "drop (Suc i) segs = ss"
    by (metis Cons_nth_drop_Suc list.inject)+
  let ?cur = "(if snd current = 0 then i else fst current, snd current + 1)"
  show ?case
  proof (cases "s = 0")
    case True
    with Cons.prems i s have cur: "zero_run segs ?cur"
      by (auto simp: zero_run_def less_Suc_eq)
    have "0 < snd ?cur \<longrightarrow> fst ?cur + snd ?cur = Suc i" using Cons.prems(4) by simp
    with Cons.IH [OF ss _ cur] Cons.prems(2) cur True show ?thesis by (simp add: Let_def)
  next
    case False
    have "zero_run segs (0, 0)" by (simp add: zero_run_def)
    with Cons.IH [OF ss Cons.prems(2), of "(0, 0)"] False show ?thesis by simp
  qed
qed

lemma zero_run_split:
  assumes "zero_run segs (st, len)"
  shows "take st segs @ replicate len 0 @ drop (st + len) segs = segs"
proof (rule nth_equalityI)
  show "length (take st segs @ replicate len 0 @ drop (st + len) segs) = length segs"
    using assms by (auto simp: zero_run_def)
  fix j assume "j < length (take st segs @ replicate len 0 @ drop (st + len) segs)"
  with assms show "(take st segs @ replicate len 0 @ drop (st + len) segs) ! j = segs ! j"
    by (auto simp: zero_run_def nth_append min_def dest!: spec [of _ "j - st"])
qed

lemma be_u16_split: "be_u16 (ucast (drop_bit 8 w)) (ucast w) = w"
  unfolding be_u16_def by (rule bit_word_eqI) (auto simp: bit_simps)

lemma show_hex_ffff: "show_hex 65535 = [102, 102, 102, 102]"
  by (simp add: show_radix.simps digit_char_def)

definition v6_end :: "bytes \<Rightarrow> bool" where
  "v6_end s \<longleftrightarrow> s \<noteq> [] \<and> (hd s = 37 \<or> hd s = 93)"

lemma v6_end_group_end: "v6_end s \<Longrightarrow> group_end s"
  by (auto simp: v6_end_def group_end_def)

lemma read_ipv6_compressed:
  assumes "length head < 8" "length tail \<le> 7 - length head" "v6_end rest"
  shows "read_ipv6_addr (groups_text 0 head @ [58, 58] @ groups_text 0 tail @ rest) =
     Some (head @ replicate (8 - length head - length tail) 0 @ tail, rest)"
proof -
  have ge: "group_end (58 # 58 # groups_text 0 tail @ rest)" by (simp add: group_end_def)
  have h: "read_groups 8 8 [] (groups_text 0 head @ 58 # 58 # groups_text 0 tail @ rest) =
      (head, False, 58 # 58 # groups_text 0 tail @ rest)"
    using read_groups_text [of head 8 8 _ "[]", OF _ _ ge] assms(1) by simp
  have t: "read_groups (7 - length head) (7 - length head) [] (groups_text 0 tail @ rest) =
      (tail, False, rest)"
    using read_groups_text [of tail "7 - length head" "7 - length head" rest "[]"] assms(2)
      v6_end_group_end [OF assms(3)] by simp
  from h t assms(1) show ?thesis by (simp add: read_ipv6_addr_def)
qed

lemma read_ipv6_full:
  assumes "length segs = 8" "v6_end rest"
  shows "read_ipv6_addr (groups_text 0 segs @ rest) = Some (segs, rest)"
  using read_groups_text [of segs 8 8 rest "[]"] assms(1) v6_end_group_end [OF assms(2)]
  by (simp add: read_ipv6_addr_def)

lemma to_ipv4_mapped_Some:
  assumes "length segs = 8" "to_ipv4_mapped segs = Some (a, b, c, d)"
  shows "segs = [0, 0, 0, 0, 0, 0xFFFF, be_u16 a b, be_u16 c d]"
proof -
  from assms(2) have t: "take 6 segs = [0, 0, 0, 0, 0, 0xFFFF]" "be_u16 a b = segs ! 6" "be_u16 c d = segs ! 7"
    by (auto simp: to_ipv4_mapped_def be_u16_split split: if_splits)
  have "drop 6 segs = [segs ! 6, segs ! 7]"
    using assms(1) by (simp add: list_eq_iff_nth_eq nth_Cons less_Suc_eq numeral_eq_Suc split: nat.split)
  with t show ?thesis by (metis append_take_drop_id append_Cons append_Nil)
qed

lemma read_ipv6_mapped:
  assumes "v6_end rest"
  shows "read_ipv6_addr ([58, 58, 102, 102, 102, 102, 58] @ show_ipv4 a b c d @ rest) =
     Some ([0, 0, 0, 0, 0, 0xFFFF, be_u16 a b, be_u16 c d], rest)"
proof -
  let ?v4 = "show_ipv4 a b c d @ rest"
  have ge: "group_end (58 # 58 # 102 # 102 # 102 # 102 # 58 # ?v4)" by (simp add: group_end_def)
  have head: "read_groups 8 8 [] (58 # 58 # 102 # 102 # 102 # 102 # 58 # ?v4) =
      ([], False, 58 # 58 # 102 # 102 # 102 # 102 # 58 # ?v4)"
    using read_groups_text [of "[]" 8 8 _ "[]", OF _ _ ge] by simp
  have r: "58 # ?v4 = [] \<or> hd (58 # ?v4) = 37 \<or> hd (58 # ?v4) = 58 \<or> hd (58 # ?v4) = 93" by simp
  have g: "read_number 16 (Some 4) True 65535 (102 # 102 # 102 # 102 # 58 # ?v4) = Some (65535, 58 # ?v4)"
    using read_group_show [OF r, of "0xFFFF"] by (simp add: show_hex_ffff)
  have n: "read_ipv4_addr (102 # 102 # 102 # 102 # 58 # ?v4) = None"
    using no_ipv4 [OF r, of 65535] by (simp add: show_hex_ffff)
  have v4: "read_ipv4_addr ?v4 = Some ((a, b, c, d), rest)"
    using assms by (intro read_ipv4_show) (auto simp: stops_def v6_end_def)
  have "read_groups 7 (Suc 6) [] (102 # 102 # 102 # 102 # 58 # ?v4) =
      read_groups 7 (Suc 5) [0xFFFF] (58 # ?v4)"
    by (subst read_groups.simps) (simp add: read_separator_def g n)
  also have "\<dots> = ([0xFFFF, be_u16 a b, be_u16 c d], True, rest)"
    by (subst read_groups.simps) (simp add: read_separator_def v4)
  finally have tail: "read_groups 7 7 [] (102 # 102 # 102 # 102 # 58 # ?v4) =
      ([0xFFFF, be_u16 a b, be_u16 c d], True, rest)" by simp
  have "replicate 5 0 = [0, 0, 0, 0, 0 :: u16]" by (simp add: numeral_eq_Suc)
  with head tail show ?thesis by (simp add: read_ipv6_addr_def)
qed

lemma read_ipv6_show:
  assumes "length segs = 8" "v6_end rest"
  shows "read_ipv6_addr (show_ipv6 segs @ rest) = Some (segs, rest)"
proof (cases "to_ipv4_mapped segs")
  case (Some q)
  obtain a b c d where q: "q = (a, b, c, d)" by (cases q)
  with Some have mapped: "to_ipv4_mapped segs = Some (a, b, c, d)" by simp
  have "show_ipv6 segs = [58, 58, 102, 102, 102, 102, 58] @ show_ipv4 a b c d"
    by (simp add: show_ipv6_def mapped)
  then show ?thesis
    using read_ipv6_mapped [OF assms(2)] to_ipv4_mapped_Some [OF assms(1) mapped] by simp
next
  case None
  obtain st len where z: "zero_scan 0 segs (0, 0) (0, 0) = (st, len)" by fastforce
  have run: "zero_run segs (st, len)"
    using zero_scan_run [of 0 segs segs "(0, 0)" "(0, 0)"] z by (simp add: zero_run_def)
  show ?thesis
  proof (cases "len > 1")
    case True
    let ?h = "take st segs" and ?t = "drop (st + len) segs"
    from run True assms(1) have len: "length ?h = st" "length ?t = 8 - (st + len)" "st + len \<le> 8"
      by (simp_all add: zero_run_def)
    then have "read_ipv6_addr (groups_text 0 ?h @ [58, 58] @ groups_text 0 ?t @ rest) =
        Some (?h @ replicate (8 - length ?h - length ?t) 0 @ ?t, rest)"
      using True assms(2) by (intro read_ipv6_compressed) auto
    moreover have "8 - length ?h - length ?t = len" using len by simp
    ultimately show ?thesis
      using None z True zero_run_split [OF run] by (simp add: show_ipv6_def fmt_subslice_groups)
  next
    case False
    with None z assms show ?thesis
      by (simp add: show_ipv6_def fmt_subslice_groups read_ipv6_full)
  qed
qed

lemma v4_rejects_bracket: "read_socket_addr_v4 (91 # s) = None"
  by (simp add: read_socket_addr_v4_def read_ipv4_addr_def pbind_def read_octet_def
      read_separator_def read_number_stops)

lemma parse_v6:
  assumes "length segs = 8"
  shows "parse_socket_addr (addr_to_string (SockV6 segs p 0 scope)) = Some (SockV6 segs p 0 scope)"
proof (cases "scope = 0")
  case True
  have "v6_end ([93, 58] @ show_dec (unat p))" by (simp add: v6_end_def)
  from read_ipv6_show [OF assms this] True show ?thesis
    by (simp add: parse_socket_addr_def v4_rejects_bracket read_socket_addr_v6_def pbind_def
        pret_def read_port_show read_scope_id_def)
next
  case False
  have e: "v6_end ([37] @ show_dec (unat scope) @ [93, 58] @ show_dec (unat p))"
    by (simp add: v6_end_def)
  have "unat scope \<le> 4294967295" using unat_bound [of scope] by simp
  then have "read_number 10 None True 4294967295 (show_dec (unat scope) @ 93 # 58 # show_dec (unat p)) =
      Some (unat scope, 93 # 58 # show_dec (unat p))"
    by (intro read_number_show) simp_all
  with read_ipv6_show [OF assms e] False show ?thesis
    by (simp add: parse_socket_addr_def v4_rejects_bracket read_socket_addr_v6_def pbind_def
        pret_def read_port_show read_scope_id_def)
qed

lemma parse_addr_to_string: "addr_ok a \<Longrightarrow> parse_socket_addr (addr_to_string a) = Some a"
  by (cases a) (simp_all add: parse_v4 parse_v6 del: addr_to_string.simps)

subsection \<open>The text is short and ASCII\<close>

definition ascii_only :: "bytes \<Rightarrow> bool" where
  "ascii_only s \<longleftrightarrow> (\<forall>b \<in> set s. b < 0x80)"

lemma ascii_only_simps [simp]:
  "ascii_only []" "ascii_only (b # s) \<longleftrightarrow> b < 0x80 \<and> ascii_only s"
  "ascii_only (s @ t) \<longleftrightarrow> ascii_only s \<and> ascii_only t"
  by (auto simp: ascii_only_def)

lemma ascii_only_show [simp]: "2 \<le> r \<Longrightarrow> r \<le> 16 \<Longrightarrow> ascii_only (show_radix r n)"
  using set_show_radix [of r _ n] digit_char_facts(6) unfolding ascii_only_def by fastforce

lemma ascii_only_groups [simp]: "ascii_only (groups_text i gs)"
  by (induction gs arbitrary: i) simp_all

lemma ascii_only_addr [simp]: "ascii_only (addr_to_string a)"
  by (cases a) (auto simp: show_ipv4_def show_ipv6_def fmt_subslice_groups split: option.split prod.split)

lemma utf8_valid_addr [simp]: "utf8_valid (addr_to_string a)"
  using ascii_only_addr [of a] unfolding ascii_only_def by (rule utf8_valid_ascii_bytes)

lemma length_show_octet: "length (show_dec (unat (a :: u8))) \<le> 3"
  using unat_bound [of a] by (intro length_show_radix_le) simp_all

lemma length_show_port: "length (show_dec (unat (p :: u16))) \<le> 5"
  using unat_bound [of p] by (intro length_show_radix_le) simp_all

lemma length_show_scope: "length (show_dec (unat (p :: u32))) \<le> 10"
  using unat_bound [of p] by (intro length_show_radix_le) simp_all

lemma length_show_segment: "length (show_hex (unat (g :: u16))) \<le> 4"
  using unat_bound [of g] by (intro length_show_radix_le) simp_all

lemma length_groups_text: "length (groups_text i gs) \<le> 5 * length gs"
proof (induction gs arbitrary: i)
  case (Cons g gs)
  from Cons [of "Suc i"] length_show_segment [of g] show ?case by (cases i) simp_all
qed simp

lemma length_show_ipv4: "length (show_ipv4 a b c d) \<le> 15"
  using length_show_octet [of a] length_show_octet [of b] length_show_octet [of c] length_show_octet [of d]
  by (simp add: show_ipv4_def)

lemma length_show_ipv6: "length segs = 8 \<Longrightarrow> length (show_ipv6 segs) \<le> 42"
proof -
  assume segs: "length segs = 8"
  obtain st len where z: "zero_scan 0 segs (0, 0) (0, 0) = (st, len)" by fastforce
  have "zero_run segs (st, len)"
    using zero_scan_run [of 0 segs segs "(0, 0)" "(0, 0)"] z by (simp add: zero_run_def)
  then have "length (groups_text 0 (take st segs)) + length (groups_text 0 (drop (st + len) segs)) \<le> 40"
    using length_groups_text [of 0 "take st segs"] length_groups_text [of 0 "drop (st + len) segs"] segs
    by (auto simp: zero_run_def)
  moreover have "length (groups_text 0 segs) \<le> 40" using length_groups_text [of 0 segs] segs by simp
  ultimately show ?thesis
    using z length_show_ipv4
    by (auto simp: show_ipv6_def fmt_subslice_groups split: option.split) (meson le_trans numeral_le_iff semiring_norm)+
qed

lemma length_addr_to_string: "addr_ok a \<Longrightarrow> length (addr_to_string a) \<le> 61"
proof (cases a)
  case (SockV4 a1 a2 a3 a4 p)
  then show ?thesis using length_show_ipv4 [of a1 a2 a3 a4] length_show_port [of p] by simp
next
  case (SockV6 segs p flow scope)
  assume "addr_ok a"
  with SockV6 show ?thesis
    using length_show_ipv6 [of segs] length_show_port [of p] length_show_scope [of scope] by simp
qed


subsection \<open>Order\<close>

text \<open>The derived \<open>Ord\<close>: every IPv4 address before every IPv6 one, then the address, the port and,
  for IPv6, the flow label and the scope, lexicographically.\<close>

fun addr_rank :: "socket_addr \<Rightarrow> nat list" where
  "addr_rank (SockV4 a b c d p) = [0, unat a, unat b, unat c, unat d, unat p]"
| "addr_rank (SockV6 segs p flow scope) = 1 # map unat segs @ [unat p, unat flow, unat scope]"

lemma addr_rank_inject: "addr_rank x = addr_rank y \<longleftrightarrow> x = y"
proof -
  have "inj (unat :: u16 \<Rightarrow> nat)" by (rule injI) (rule unsigned_word_eqI)
  then show ?thesis by (cases x; cases y) (auto simp: inj_map_eq_map dest!: unsigned_word_eqI)
qed

instantiation socket_addr :: linorder
begin

definition less_eq_socket_addr :: "socket_addr \<Rightarrow> socket_addr \<Rightarrow> bool" where
  "less_eq_socket_addr x y \<longleftrightarrow> addr_rank x \<le> addr_rank y"

definition less_socket_addr :: "socket_addr \<Rightarrow> socket_addr \<Rightarrow> bool" where
  "less_socket_addr x y \<longleftrightarrow> addr_rank x < addr_rank y"

instance
  by standard (auto simp: less_eq_socket_addr_def less_socket_addr_def addr_rank_inject less_le)

end

end
