(* ===== verification/Membership.thy ===== *)
theory Membership
  imports Identity Socket_Addr
begin

text \<open>
  The membership map of \<open>xchannel-net-core/src/membership.rs\<close>. Instants and durations
  are natural numbers of nanoseconds on one monotonic clock, and every operation that reads
  the clock takes the reading as its argument \<open>now\<close>; \<open>Instant::elapsed\<close> saturates
  at zero, as natural subtraction does. The map is keyed by node; the code iterates a
  \<open>HashMap\<close> in no particular order, the model in key order.
\<close>

type_synonym instant = nat
type_synonym duration = nat

record member =
  m_addr :: socket_addr
  m_control_addr :: socket_addr
  m_name :: rstring
  m_last_seen :: "instant option"
  m_last_contact :: "instant option"

record membership =
  members :: "(node_id, member) rbt"

definition membership_new :: membership where
  "membership_new = \<lparr>members = RBT.empty\<rparr>"

definition ms_record ::
  "instant \<Rightarrow> membership \<Rightarrow> node_id \<Rightarrow> socket_addr \<Rightarrow> socket_addr \<Rightarrow> rstring \<Rightarrow> bool \<times> membership" where
  "ms_record now ms node addr control_addr name =
     (let novel = (case RBT.lookup (members ms) node of
                     None \<Rightarrow> True
                   | Some m \<Rightarrow> m_addr m \<noteq> addr \<or> m_control_addr m \<noteq> control_addr)
      in (novel,
          ms\<lparr>members := RBT.insert node
               \<lparr>m_addr = addr, m_control_addr = control_addr, m_name = name,
                m_last_seen = Some now, m_last_contact = Some now\<rparr> (members ms)\<rparr>))"

definition learn ::
  "membership \<Rightarrow> node_id \<Rightarrow> socket_addr \<Rightarrow> socket_addr \<Rightarrow> rstring \<Rightarrow> bool \<times> membership" where
  "learn ms node addr control_addr name =
     (case RBT.lookup (members ms) node of
        Some m \<Rightarrow>
          (m_addr m \<noteq> addr \<or> m_control_addr m \<noteq> control_addr,
           ms\<lparr>members := RBT.insert node
                (m\<lparr>m_addr := addr, m_control_addr := control_addr, m_name := name\<rparr>) (members ms)\<rparr>)
      | None \<Rightarrow>
          (True,
           ms\<lparr>members := RBT.insert node
                \<lparr>m_addr = addr, m_control_addr = control_addr, m_name = name,
                 m_last_seen = None, m_last_contact = None\<rparr> (members ms)\<rparr>))"

definition directory :: "membership \<Rightarrow> (node_id \<times> socket_addr \<times> socket_addr \<times> rstring) list" where
  "directory ms = map (\<lambda>(n, m). (n, m_addr m, m_control_addr m, m_name m)) (RBT.entries (members ms))"

definition name_of :: "membership \<Rightarrow> node_id \<Rightarrow> rstring option" where
  "name_of ms node =
     (case RBT.lookup (members ms) node of
        Some m \<Rightarrow> if m_name m \<noteq> [] then Some (m_name m) else None
      | None \<Rightarrow> None)"

definition retire :: "instant \<Rightarrow> membership \<Rightarrow> node_id \<Rightarrow> bool \<times> membership" where
  "retire now ms node =
     (case RBT.lookup (members ms) node of
        Some m \<Rightarrow>
          (m_last_seen m \<noteq> None,
           ms\<lparr>members := RBT.insert node
                (m\<lparr>m_last_contact := Some now, m_last_seen := None\<rparr>) (members ms)\<rparr>)
      | None \<Rightarrow> (False, ms))"

definition ms_node_at :: "membership \<Rightarrow> socket_addr \<Rightarrow> node_id option" where
  "ms_node_at ms control =
     map_option fst (find (\<lambda>(_, m). m_control_addr m = control) (RBT.entries (members ms)))"

definition known_peers :: "membership \<Rightarrow> (node_id \<times> socket_addr) list" where
  "known_peers ms = map (\<lambda>(n, m). (n, m_control_addr m)) (RBT.entries (members ms))"

definition addr_of :: "membership \<Rightarrow> node_id \<Rightarrow> socket_addr option" where
  "addr_of ms node = map_option m_addr (RBT.lookup (members ms) node)"

definition heard_within :: "instant \<Rightarrow> duration \<Rightarrow> member \<Rightarrow> bool" where
  "heard_within now timeout m = (case m_last_seen m of Some t \<Rightarrow> now - t \<le> timeout | None \<Rightarrow> False)"

definition live_addr_of ::
  "instant \<Rightarrow> membership \<Rightarrow> node_id \<Rightarrow> duration \<Rightarrow> socket_addr option" where
  "live_addr_of now ms node timeout =
     (case RBT.lookup (members ms) node of
        Some m \<Rightarrow> if heard_within now timeout m then Some (m_addr m) else None
      | None \<Rightarrow> None)"

definition silent_for :: "instant \<Rightarrow> membership \<Rightarrow> node_id \<Rightarrow> duration option" where
  "silent_for now ms node =
     (case RBT.lookup (members ms) node of
        Some m \<Rightarrow> map_option (\<lambda>t. now - t) (m_last_contact m)
      | None \<Rightarrow> None)"

definition ms_live_members :: "instant \<Rightarrow> membership \<Rightarrow> duration \<Rightarrow> node_id list" where
  "ms_live_members now ms timeout =
     map fst (filter (\<lambda>(_, m). heard_within now timeout m) (RBT.entries (members ms)))"

definition forget_stale :: "instant \<Rightarrow> membership \<Rightarrow> duration \<Rightarrow> node_id list \<times> membership" where
  "forget_stale now ms timeout =
     (let stale = map fst (filter (\<lambda>(_, m). \<not> heard_within now timeout m) (RBT.entries (members ms)))
      in (stale, ms\<lparr>members := foldl (\<lambda>t n. RBT.delete n t) (members ms) stale\<rparr>))"

definition ms_len :: "membership \<Rightarrow> nat" where
  "ms_len ms = length (RBT.entries (members ms))"

definition ms_is_empty :: "membership \<Rightarrow> bool" where
  "ms_is_empty ms = (RBT.entries (members ms) = [])"

subsection \<open>What the clock saw\<close>

text \<open>The abstract state: when each node was last heard from while not retired, and when there
  was last direct evidence of it. Liveness and silence are functions of it.\<close>

definition seen :: "membership \<Rightarrow> node_id \<Rightarrow> instant option" where
  "seen ms n = (case RBT.lookup (members ms) n of Some m \<Rightarrow> m_last_seen m | None \<Rightarrow> None)"

definition contact :: "membership \<Rightarrow> node_id \<Rightarrow> instant option" where
  "contact ms n = (case RBT.lookup (members ms) n of Some m \<Rightarrow> m_last_contact m | None \<Rightarrow> None)"

definition known :: "membership \<Rightarrow> node_id \<Rightarrow> bool" where
  "known ms n \<longleftrightarrow> RBT.lookup (members ms) n \<noteq> None"

definition place :: "membership \<Rightarrow> node_id \<Rightarrow> (socket_addr \<times> socket_addr) option" where
  "place ms n = map_option (\<lambda>m. (m_addr m, m_control_addr m)) (RBT.lookup (members ms) n)"

lemmas view_defs = seen_def contact_def known_def place_def

lemma set_live_members:
  "set (ms_live_members now ms timeout) = {n. \<exists>t. seen ms n = Some t \<and> now - t \<le> timeout}"
  by (auto simp: ms_live_members_def heard_within_def seen_def lookup_in_tree [symmetric] image_iff
      split: option.splits)

lemma live_addr_of_iff:
  "live_addr_of now ms n timeout \<noteq> None \<longleftrightarrow> n \<in> set (ms_live_members now ms timeout)"
  by (auto simp: set_live_members live_addr_of_def heard_within_def seen_def split: option.splits)

lemma silent_for_contact: "silent_for now ms n = map_option (\<lambda>t. now - t) (contact ms n)"
  by (simp add: silent_for_def contact_def split: option.split)

datatype ms_event =
    EvRecord instant node_id socket_addr socket_addr rstring
  | EvLearn node_id socket_addr socket_addr rstring
  | EvRetire instant node_id
  | EvForget instant duration

fun ms_step :: "membership \<Rightarrow> ms_event \<Rightarrow> bool \<times> membership" where
  "ms_step ms (EvRecord now n a c name) = ms_record now ms n a c name"
| "ms_step ms (EvLearn n a c name) = learn ms n a c name"
| "ms_step ms (EvRetire now n) = retire now ms n"
| "ms_step ms (EvForget now timeout) =
     (case forget_stale now ms timeout of (stale, ms') \<Rightarrow> (stale \<noteq> [], ms'))"

definition ms_run :: "membership \<Rightarrow> ms_event list \<Rightarrow> membership" where
  "ms_run ms evs = foldl (\<lambda>ms e. snd (ms_step ms e)) ms evs"

lemma ms_run_simps [simp]:
  "ms_run ms [] = ms"
  "ms_run ms (e # es) = ms_run (snd (ms_step ms e)) es"
  "ms_run ms (es @ fs) = ms_run (ms_run ms es) fs"
  by (simp_all add: ms_run_def)

lemma lookup_deletes:
  "RBT.lookup (foldl (\<lambda>t n. RBT.delete n t) t ns) k = (if k \<in> set ns then None else RBT.lookup t k)"
  by (induction ns arbitrary: t) auto

lemma lookup_forget_stale:
  "RBT.lookup (members (snd (forget_stale now ms timeout))) n =
     (case RBT.lookup (members ms) n of
        Some m \<Rightarrow> if heard_within now timeout m then Some m else None
      | None \<Rightarrow> None)"
proof -
  have "n \<in> fst ` {e \<in> set (RBT.entries (members ms)). \<not> heard_within now timeout (snd e)} \<longleftrightarrow>
      (\<exists>m. RBT.lookup (members ms) n = Some m \<and> \<not> heard_within now timeout m)"
    by (force simp: lookup_in_tree)
  then show ?thesis
    by (auto simp: forget_stale_def Let_def lookup_deletes case_prod_beta simp del: set_map
        simp: set_map split: option.split)
qed

fun seen_step :: "(node_id \<Rightarrow> instant option) \<Rightarrow> ms_event \<Rightarrow> node_id \<Rightarrow> instant option" where
  "seen_step f (EvRecord now n a c name) = f(n := Some now)"
| "seen_step f (EvLearn n a c name) = f"
| "seen_step f (EvRetire now n) = f(n := None)"
| "seen_step f (EvForget now timeout) =
     (\<lambda>n. case f n of Some t \<Rightarrow> if now - t \<le> timeout then Some t else None | None \<Rightarrow> None)"

text \<open>The map refines the abstract state: each operation acts on \<open>seen\<close> as the abstract step.\<close>

lemma seen_refines: "seen (snd (ms_step ms e)) = seen_step (seen ms) e"
  by (cases e) (auto simp: seen_def ms_record_def learn_def retire_def Let_def fun_eq_iff
      lookup_forget_stale heard_within_def case_prod_beta split: option.splits)

lemma seen_run: "seen (ms_run ms evs) = foldl seen_step (seen ms) evs"
  by (induction evs arbitrary: ms) (simp_all add: seen_refines)

lemma contact_step:
  "contact (snd (ms_step ms (EvRecord now n a c name))) = (contact ms)(n := Some now)"
  "contact (snd (ms_step ms (EvLearn n a c name))) = contact ms"
  "contact (snd (ms_step ms (EvRetire now n))) =
     (if known ms n then (contact ms)(n := Some now) else contact ms)"
  by (auto simp: contact_def known_def ms_record_def learn_def retire_def Let_def fun_eq_iff
      split: option.splits)

lemma place_step:
  "place (snd (ms_step ms (EvRecord now n a c name))) = (place ms)(n := Some (a, c))"
  "place (snd (ms_step ms (EvLearn n a c name))) = (place ms)(n := Some (a, c))"
  "place (snd (ms_step ms (EvRetire now n))) = place ms"
  by (auto simp: place_def ms_record_def learn_def retire_def Let_def fun_eq_iff split: option.splits)

lemma novel_step:
  "fst (ms_step ms (EvRecord now n a c name)) = (place ms n \<noteq> Some (a, c))"
  "fst (ms_step ms (EvLearn n a c name)) = (place ms n \<noteq> Some (a, c))"
  by (auto simp: place_def ms_record_def learn_def Let_def split: option.splits)

subsection \<open>Properties\<close>

fun is_hearsay :: "ms_event \<Rightarrow> bool" where
  "is_hearsay (EvLearn n a c name) = True"
| "is_hearsay _ = False"

text \<open>Hearsay never confers liveness. Dropping every \<open>learn\<close> from any history of
  operations leaves the set of live members, at any time and for any timeout, unchanged.\<close>

theorem hearsay_never_live:
  "set (ms_live_members now (ms_run ms evs) timeout) =
   set (ms_live_members now (ms_run ms (filter (\<lambda>e. \<not> is_hearsay e) evs)) timeout)"
proof -
  have "foldl seen_step f evs = foldl seen_step f (filter (\<lambda>e. \<not> is_hearsay e) evs)" for f
  proof (induction evs arbitrary: f)
    case (Cons e evs)
    then show ?case by (cases e) (simp_all add: fun_upd_def)
  qed simp
  then show ?thesis by (simp add: set_live_members seen_run)
qed

fun touches :: "node_id \<Rightarrow> ms_event \<Rightarrow> bool" where
  "touches n (EvRecord now m a c name) = (m = n)"
| "touches n (EvLearn m a c name) = False"
| "touches n (EvRetire now m) = (m = n)"
| "touches n (EvForget now timeout) = True"

lemma untouched:
  "\<forall>e \<in> set evs. \<not> touches n e \<Longrightarrow>
     seen (ms_run ms evs) n = seen ms n \<and> contact (ms_run ms evs) n = contact ms n"
proof (induction evs arbitrary: ms)
  case (Cons e evs)
  then have "seen (snd (ms_step ms e)) n = seen ms n" "contact (snd (ms_step ms e)) n = contact ms n"
    by (cases e; simp add: seen_refines contact_step del: ms_step.simps)+
  with Cons show ?case by simp
qed simp

text \<open>A departure is immediate and its silence measurable. After a known node says it is
  leaving it is not live and has no live address, whatever hearsay about it and news of other
  nodes follow, and the time since the departure is what \<open>silent_for\<close> reports.\<close>

theorem retire_measures_silence:
  assumes "known ms n" and "\<forall>e \<in> set evs. \<not> touches n e"
  shows "let ms' = ms_run (snd (retire t ms n)) evs in
     n \<notin> set (ms_live_members now ms' timeout) \<and> live_addr_of now ms' n timeout = None \<and>
     silent_for now ms' n = Some (now - t)"
proof -
  let ?r = "snd (retire t ms n)"
  have r: "seen ?r n = None" "contact ?r n = Some t"
    using seen_refines [of ms "EvRetire t n"] contact_step(3) [of ms t n] assms(1) by simp_all
  then have "seen (ms_run ?r evs) n = None" "contact (ms_run ?r evs) n = Some t"
    using untouched [OF assms(2)] by simp_all
  then show ?thesis
    using live_addr_of_iff [of now "ms_run ?r evs" n timeout]
    by (auto simp: Let_def set_live_members silent_for_contact)
qed

fun about_place :: "node_id \<Rightarrow> ms_event \<Rightarrow> (socket_addr \<times> socket_addr) option" where
  "about_place n (EvRecord now m a c name) = (if m = n then Some (a, c) else None)"
| "about_place n (EvLearn m a c name) = (if m = n then Some (a, c) else None)"
| "about_place n _ = None"

fun is_forget :: "ms_event \<Rightarrow> bool" where
  "is_forget (EvForget now timeout) = True"
| "is_forget _ = False"

text \<open>How many announcements about a node a run reports as news, the ones a receiver relays.\<close>

fun novel_count :: "node_id \<Rightarrow> membership \<Rightarrow> ms_event list \<Rightarrow> nat" where
  "novel_count n ms [] = 0"
| "novel_count n ms (e # es) =
     (if about_place n e \<noteq> None \<and> fst (ms_step ms e) then 1 else 0)
     + novel_count n (snd (ms_step ms e)) es"

lemma novel_count_settled:
  assumes "place ms n = Some p" and "\<forall>e \<in> set evs. about_place n e \<in> {None, Some p} \<and> \<not> is_forget e"
  shows "novel_count n ms evs = 0"
  using assms
proof (induction evs arbitrary: ms)
  case (Cons e evs)
  obtain a c where p: "p = (a, c)" by (cases p)
  from Cons.prems have "place (snd (ms_step ms e)) n = Some p"
    by (cases e) (auto simp: place_step p simp del: ms_step.simps)
  moreover from Cons.prems have "\<not> (about_place n e \<noteq> None \<and> fst (ms_step ms e))"
    by (cases e) (auto simp: novel_step p simp del: ms_step.simps)
  ultimately show ?case using Cons by simp
qed simp

text \<open>C39. The hint flood stops. However many heartbeats and hints about a node arrive, in any
  order and mixed with news of other nodes and departures, as long as they agree on its
  addresses at most one of them is news, so each receiver relays it at most once.\<close>

theorem hint_flood_terminates:
  assumes "\<forall>e \<in> set evs. about_place n e \<in> {None, Some p} \<and> \<not> is_forget e"
  shows "novel_count n ms evs \<le> 1"
  using assms
proof (induction evs arbitrary: ms)
  case (Cons e evs)
  obtain a c where p: "p = (a, c)" by (cases p)
  show ?case
  proof (cases "about_place n e = None")
    case True
    with Cons show ?thesis by simp
  next
    case False
    with Cons.prems have "place (snd (ms_step ms e)) n = Some p"
      by (cases e) (auto simp: place_step p split: if_splits simp del: ms_step.simps)
    with novel_count_settled Cons.prems show ?thesis by simp
  qed
qed simp

subsection \<open>Concrete histories\<close>

definition sample_addr :: "u16 \<Rightarrow> socket_addr" where
  "sample_addr p = SockV4 10 0 0 1 p"

theorem retire_measures_silence_witness:
  "let ms = snd (ms_record 5 membership_new 7 (sample_addr 1) (sample_addr 2) []);
       evs = [EvLearn 7 (sample_addr 1) (sample_addr 2) [], EvRecord 12 9 (sample_addr 3) (sample_addr 4) []];
       ms' = ms_run (snd (retire 10 ms 7)) evs
   in known ms 7 \<and> 7 \<notin> set (ms_live_members 15 ms' 100) \<and> silent_for 15 ms' 7 = Some 5"
  using retire_measures_silence
    [of "snd (ms_record 5 membership_new 7 (sample_addr 1) (sample_addr 2) [])" 7
        "[EvLearn 7 (sample_addr 1) (sample_addr 2) [], EvRecord 12 9 (sample_addr 3) (sample_addr 4) []]"
        10 15 100]
  by (simp add: Let_def known_def ms_record_def)

theorem hint_flood_terminates_witness:
  "novel_count 7 membership_new
     [EvLearn 7 (sample_addr 1) (sample_addr 2) [], EvRecord 3 7 (sample_addr 1) (sample_addr 2) [],
      EvLearn 7 (sample_addr 1) (sample_addr 2) []] \<le> 1"
  using hint_flood_terminates
    [of "[EvLearn 7 (sample_addr 1) (sample_addr 2) [], EvRecord 3 7 (sample_addr 1) (sample_addr 2) [],
      EvLearn 7 (sample_addr 1) (sample_addr 2) []]" 7 "(sample_addr 1, sample_addr 2)" membership_new]
  by simp

end
