(* ===== verification/Wire.thy ===== *)
theory Wire
  imports Identity Socket_Addr
begin

text \<open>
  The message types of \<open>xchannel-net-core/src/wire.rs\<close>, with the source's variants and
  fields in their order. Request and reply variants of the client protocol carry the
  prefixes \<open>Req\<close> and \<open>Reply\<close>, because the three protocols share variant names.
\<close>

record record_frame =
  rf_index :: record_index
  rf_msg_type :: u16
  rf_user_meta :: u64
  rf_starts_segment :: bool
  rf_payload :: bytes

datatype control_msg =
    Register channel_identity
  | Deregister channel_name node_id
  | RegistryDelta "channel_identity list"
  | RegistrySync "channel_identity list"
  | Heartbeat node_id socket_addr socket_addr rstring
  | PeerHint node_id socket_addr socket_addr rstring
  | Leaving node_id
  | RegisterRejected channel_name node_id

datatype stream_msg =
    Subscribe channel_name record_index u64
  | SubscribeAck channel_name stream_id record_index record_index u32 u32 u64 u32 u64
  | Record stream_id record_frame
  | Gap channel_name record_index record_index
  | Diverged channel_name record_index record_index

record channel_options =
  co_region_size :: u32
  co_mtu :: u32
  co_file_roll_size :: u64
  co_keep_files :: u32

definition channel_options_default :: channel_options where
  "channel_options_default =
     \<lparr>co_region_size = 1048576, co_mtu = 0, co_file_roll_size = 0, co_keep_files = 0\<rparr>"

record topic_options =
  to_channel :: channel_options
  to_max_batch_per_member :: u32
  to_member_reap_after_ms :: u64

record channel_info =
  info_name :: channel_name
  info_owner :: node_id
  info_epoch :: u64
  info_owner_live :: bool
  info_member_of :: "channel_name option"
  info_region_size :: u32
  info_mtu :: u32
  info_earliest_index :: record_index

datatype channel_change =
    Upserted channel_info
  | Removed channel_name u64

record discovery_cursor =
  dc_log_path :: rstring
  dc_generation :: u64
  dc_from :: record_index

record subscription_status =
  ss_local :: bool
  ss_active :: bool
  ss_synced :: record_index
  ss_head_at_connect :: record_index
  ss_owner :: node_id
  ss_owner_live :: bool
  ss_generation :: u64
  ss_last_record_at_ms :: u64
  ss_rebuilds_gap :: u64
  ss_rebuilds_diverged :: u64
  ss_last_rebuild_at_ms :: u64

datatype client_request =
    ReqCreate channel_name channel_options
  | ReqSubscribe channel_name u64
  | ReqCreateTopic channel_name topic_options
  | ReqPublishToTopic channel_name channel_name channel_options
  | ReqDeregister channel_name
  | ReqListChannels rstring
  | ReqForceDeregister channel_name
  | ReqSubscriptionStatus channel_name

datatype client_reply =
    ReplyCreated rstring
  | ReplySubscribed rstring
  | ReplyChannels "channel_info list" discovery_cursor
  | ReplyDeregistered bool
  | ReplyStatus subscription_status
  | ReplyError rstring

end
