(* ===== verification/Topic_Format.thy ===== *)
theory Topic_Format
  imports Wire
begin

text \<open>
  The on-disk record format of a topic channel (\<open>xchannel-net-core/src/mux.rs\<close>, first half):
  the provenance prefix of data records, the payloads of the control records, and the slot
  table. A \<open>&str\<close> is a byte list that is valid UTF-8.
\<close>

definition PROVENANCE_LEN :: nat where
  "PROVENANCE_LEN = 2 + 8 + 8"

definition RESERVED_MSG_TYPE_MIN :: u16 where
  "RESERVED_MSG_TYPE_MIN = 0xFFF0"

definition SLOT_TABLE_REFRESH :: u64 where
  "SLOT_TABLE_REFRESH = 4096"

definition RECORD_OVERHEAD :: u64 where
  "RECORD_OVERHEAD = 16"

definition MSG_TYPE_SLOT_TABLE :: u16 where
  "MSG_TYPE_SLOT_TABLE = 0xFFFF"

definition MSG_TYPE_TOPIC_GAP :: u16 where
  "MSG_TYPE_TOPIC_GAP = 0xFFFE"

definition MSG_TYPE_MEMBER_CLOSED :: u16 where
  "MSG_TYPE_MEMBER_CLOSED = 0xFFFD"

definition MSG_TYPE_TERMINAL :: u16 where
  "MSG_TYPE_TERMINAL = 0xFFFC"

definition MSG_TYPE_MEMBER_REGRESSED :: u16 where
  "MSG_TYPE_MEMBER_REGRESSED = 0xFFFB"

definition is_control :: "u16 \<Rightarrow> bool" where
  "is_control msg_type \<longleftrightarrow> msg_type \<ge> RESERVED_MSG_TYPE_MIN"

lemmas msg_type_defs = RESERVED_MSG_TYPE_MIN_def MSG_TYPE_SLOT_TABLE_def MSG_TYPE_TOPIC_GAP_def
  MSG_TYPE_MEMBER_CLOSED_def MSG_TYPE_TERMINAL_def MSG_TYPE_MEMBER_REGRESSED_def is_control_def

subsection \<open>Provenance\<close>

record provenance =
  pv_member_ref :: u16
  pv_member_index :: u64
  pv_orig_user_meta :: u64

definition to_prefix :: "provenance \<Rightarrow> bytes" where
  "to_prefix p = le_bytes 2 (pv_member_ref p) @ le_bytes 8 (pv_member_index p) @ le_bytes 8 (pv_orig_user_meta p)"

definition prov_split :: "bytes \<Rightarrow> (provenance \<times> bytes) io_result" where
  "prov_split payload =
     (if length payload < PROVENANCE_LEN
      then Inl (IoError InvalidData ''topic record shorter than provenance prefix'')
      else
        let head = take PROVENANCE_LEN payload; body = drop PROVENANCE_LEN payload
        in Inr (\<lparr>pv_member_ref = of_le_bytes (take 2 head),
                 pv_member_index = of_le_bytes (take 8 (drop 2 head)),
                 pv_orig_user_meta = of_le_bytes (take 8 (drop 10 head))\<rparr>, body))"

definition frame_data :: "provenance \<Rightarrow> bytes \<Rightarrow> bytes" where
  "frame_data prov body = to_prefix prov @ body"

subsection \<open>Control records\<close>

record topic_gap =
  tg_member_ref :: u16
  tg_from :: u64
  tg_resumed_at :: u64

definition gap_payload :: "topic_gap \<Rightarrow> bytes" where
  "gap_payload g = le_bytes 2 (tg_member_ref g) @ le_bytes 8 (tg_from g) @ le_bytes 8 (tg_resumed_at g)"

definition gap_decode :: "bytes \<Rightarrow> topic_gap io_result" where
  "gap_decode b =
     (if length b < 18 then Inl (IoError InvalidData ''TopicGap record too short'')
      else Inr \<lparr>tg_member_ref = of_le_bytes (take 2 b), tg_from = of_le_bytes (take 8 (drop 2 b)),
                tg_resumed_at = of_le_bytes (take 8 (drop 10 b))\<rparr>)"

record member_regressed =
  mr_member_ref :: u16
  mr_expected :: u64
  mr_head :: u64

definition regressed_payload :: "member_regressed \<Rightarrow> bytes" where
  "regressed_payload m = le_bytes 2 (mr_member_ref m) @ le_bytes 8 (mr_expected m) @ le_bytes 8 (mr_head m)"

definition regressed_decode :: "bytes \<Rightarrow> member_regressed io_result" where
  "regressed_decode b =
     (if length b < 18 then Inl (IoError InvalidData ''MemberRegressed record too short'')
      else Inr \<lparr>mr_member_ref = of_le_bytes (take 2 b), mr_expected = of_le_bytes (take 8 (drop 2 b)),
                mr_head = of_le_bytes (take 8 (drop 10 b))\<rparr>)"

record member_closed =
  mc_member_ref :: u16
  mc_final_index :: u64

definition closed_payload :: "member_closed \<Rightarrow> bytes" where
  "closed_payload m = le_bytes 2 (mc_member_ref m) @ le_bytes 8 (mc_final_index m)"

definition closed_decode :: "bytes \<Rightarrow> member_closed io_result" where
  "closed_decode b =
     (if length b < 10 then Inl (IoError InvalidData ''MemberClosed record too short'')
      else Inr \<lparr>mc_member_ref = of_le_bytes (take 2 b), mc_final_index = of_le_bytes (take 8 (drop 2 b))\<rparr>)"

subsection \<open>Slot table\<close>

record topic_geometry =
  tgeo_region_size :: u32
  tgeo_mtu :: u32
  tgeo_file_roll_size :: u64
  tgeo_keep_files :: u32

definition geometry_of :: "channel_options \<Rightarrow> topic_geometry" where
  "geometry_of c = \<lparr>tgeo_region_size = co_region_size c, tgeo_mtu = co_mtu c,
     tgeo_file_roll_size = co_file_roll_size c, tgeo_keep_files = co_keep_files c\<rparr>"

record slot_entry =
  se_member_ref :: u16
  se_name :: rstring
  se_epoch :: u64
  se_cursor :: u64

record slot_table =
  st_geometry :: topic_geometry
  st_members :: "slot_entry list"

definition SLOT_TABLE_VERSION :: u8 where
  "SLOT_TABLE_VERSION = 2"

definition encode_slot_entry :: "slot_entry \<Rightarrow> bytes" where
  "encode_slot_entry e =
     le_bytes 2 (se_member_ref e) @ le_bytes 8 (se_epoch e) @ le_bytes 8 (se_cursor e) @
     le_bytes 2 (of_nat (length (se_name e)) :: u16) @ se_name e"

definition encode_slot_table :: "topic_geometry \<Rightarrow> slot_entry list \<Rightarrow> bytes" where
  "encode_slot_table g entries =
     [SLOT_TABLE_VERSION] @ le_bytes 4 (tgeo_region_size g) @ le_bytes 4 (tgeo_mtu g) @
     le_bytes 8 (tgeo_file_roll_size g) @ le_bytes 4 (tgeo_keep_files g) @
     le_bytes 2 (of_nat (length entries) :: u16) @ concat (map encode_slot_entry entries)"

definition table_take :: "nat \<Rightarrow> bytes \<Rightarrow> (bytes \<times> bytes) io_result" where
  "table_take n b =
     (if length b < n then Inl (IoError InvalidData ''truncated slot table'')
      else Inr (take n b, drop n b))"

definition decode_slot_entry :: "bytes \<Rightarrow> (slot_entry \<times> bytes) io_result" where
  "decode_slot_entry b =
     and_then (table_take 2 b) (\<lambda>(r, b). and_then (table_take 8 b) (\<lambda>(ep, b).
     and_then (table_take 8 b) (\<lambda>(cu, b). and_then (table_take 2 b) (\<lambda>(len, b).
     and_then (table_take (unat (of_le_bytes len :: u16)) b) (\<lambda>(name, b).
       if \<not> utf8_valid name then Inl (IoError InvalidData ''slot name not UTF-8'')
       else Inr (\<lparr>se_member_ref = of_le_bytes r, se_name = name, se_epoch = of_le_bytes ep,
                  se_cursor = of_le_bytes cu\<rparr>, b))))))"

fun decode_slot_entries :: "nat \<Rightarrow> bytes \<Rightarrow> slot_entry list io_result" where
  "decode_slot_entries 0 b = Inr []"
| "decode_slot_entries (Suc n) b =
     and_then (decode_slot_entry b) (\<lambda>(e, b).
     and_then (decode_slot_entries n b) (\<lambda>es. Inr (e # es)))"

definition decode_slot_table :: "bytes \<Rightarrow> slot_table io_result" where
  "decode_slot_table b =
     and_then (table_take 1 b) (\<lambda>(v, b).
     if hd v \<noteq> SLOT_TABLE_VERSION then Inl (IoError InvalidData ''unsupported slot table version'')
     else
     and_then (table_take 4 b) (\<lambda>(rs, b). and_then (table_take 4 b) (\<lambda>(mtu, b).
     and_then (table_take 8 b) (\<lambda>(roll, b). and_then (table_take 4 b) (\<lambda>(keep, b).
     and_then (table_take 2 b) (\<lambda>(count, b).
     and_then (decode_slot_entries (unat (of_le_bytes count :: u16)) b) (\<lambda>members.
       Inr \<lparr>st_geometry = \<lparr>tgeo_region_size = of_le_bytes rs, tgeo_mtu = of_le_bytes mtu,
              tgeo_file_roll_size = of_le_bytes roll, tgeo_keep_files = of_le_bytes keep\<rparr>,
            st_members = members\<rparr>)))))))"

subsection \<open>Round trips\<close>

lemma le_bytes_back [simp]:
  "of_le_bytes (le_bytes 2 (a :: u16)) = a" "of_le_bytes (le_bytes 4 (b :: u32)) = b"
  "of_le_bytes (le_bytes 8 (c :: u64)) = c"
  by (simp_all add: of_le_bytes_full)

lemma prov_split_frame_data [simp]: "prov_split (frame_data p body) = Inr (p, body)"
  by (cases p) (simp add: prov_split_def frame_data_def to_prefix_def PROVENANCE_LEN_def Let_def)

lemma length_frame_data [simp]: "length (frame_data p body) = PROVENANCE_LEN + length body"
  by (simp add: frame_data_def to_prefix_def PROVENANCE_LEN_def)

lemma control_payloads_decode:
  "gap_decode (gap_payload g) = Inr g" "regressed_decode (regressed_payload m) = Inr m"
  "closed_decode (closed_payload c) = Inr c"
  by (cases g, simp add: gap_decode_def gap_payload_def,
      cases m, simp add: regressed_decode_def regressed_payload_def,
      cases c, simp add: closed_decode_def closed_payload_def)

lemma table_take_exact [simp]: "length x = n \<Longrightarrow> table_take n (x @ y) = Inr (x, y)"
  by (auto simp: table_take_def)

definition slot_ok :: "slot_entry \<Rightarrow> bool" where
  "slot_ok e \<longleftrightarrow> length (se_name e) < 2 ^ 16 \<and> utf8_valid (se_name e)"

lemma decode_slot_entry_exact:
  assumes "slot_ok e" shows "decode_slot_entry (encode_slot_entry e @ rest) = Inr (e, rest)"
proof -
  from assms have "unat (of_nat (length (se_name e)) :: u16) = length (se_name e)"
    by (simp add: slot_ok_def unat_of_nat_small)
  with assms show ?thesis
    by (cases e) (simp add: decode_slot_entry_def encode_slot_entry_def slot_ok_def)
qed

lemma decode_slot_entries_exact:
  "list_all slot_ok es \<Longrightarrow> decode_slot_entries (length es) (concat (map encode_slot_entry es) @ rest) = Inr es"
  by (induction es) (simp_all add: decode_slot_entry_exact)

lemma decode_slot_table_exact:
  assumes "list_all slot_ok es" and "length es < 2 ^ 16"
  shows "decode_slot_table (encode_slot_table g es) = Inr \<lparr>st_geometry = g, st_members = es\<rparr>"
proof -
  from assms(2) have "unat (of_nat (length es) :: u16) = length es" by (simp add: unat_of_nat_small)
  moreover have "table_take 1 (SLOT_TABLE_VERSION # b) = Inr ([SLOT_TABLE_VERSION], b)" for b
    using table_take_exact [of "[SLOT_TABLE_VERSION]" 1 b] by simp
  ultimately show ?thesis
    using decode_slot_entries_exact [OF assms(1), of "[]"]
    by (cases g) (simp add: decode_slot_table_def encode_slot_table_def)
qed

text \<open>A topic describes itself. The provenance of every data record, the payload of every control
  record and every slot table decode to what the mux wrote, with the body of the record behind
  the prefix untouched; a table written by another version is refused.\<close>

theorem topic_format_round_trip:
  assumes "list_all slot_ok es" and "length es < 2 ^ 16"
  shows "prov_split (frame_data p body) = Inr (p, body) \<and>
     gap_decode (gap_payload gap) = Inr gap \<and> regressed_decode (regressed_payload m) = Inr m \<and>
     closed_decode (closed_payload c) = Inr c \<and>
     decode_slot_table (encode_slot_table g es) = Inr \<lparr>st_geometry = g, st_members = es\<rparr> \<and>
     (v \<noteq> SLOT_TABLE_VERSION \<longrightarrow> (\<exists>e. decode_slot_table (v # t) = Inl e \<and> ekind e = InvalidData))"
proof -
  have "table_take 1 (v # t) = Inr ([v], t)" using table_take_exact [of "[v]" 1 t] by simp
  then show ?thesis
    using decode_slot_table_exact [OF assms, of g]
    by (simp add: control_payloads_decode decode_slot_table_def)
qed

theorem topic_format_round_trip_witness:
  "let g = \<lparr>tgeo_region_size = 4096, tgeo_mtu = 0, tgeo_file_roll_size = 0, tgeo_keep_files = 1\<rparr>;
       es = [\<lparr>se_member_ref = 3, se_name = ascii ''m'', se_epoch = 1, se_cursor = 9\<rparr>]
   in decode_slot_table (encode_slot_table g es) = Inr \<lparr>st_geometry = g, st_members = es\<rparr> \<and>
      (\<exists>e. decode_slot_table [1, 0, 0] = Inl e)"
  using topic_format_round_trip [of "[\<lparr>se_member_ref = 3, se_name = ascii ''m'', se_epoch = 1, se_cursor = 9\<rparr>]"
      _ _ _ _ _ "\<lparr>tgeo_region_size = 4096, tgeo_mtu = 0, tgeo_file_roll_size = 0, tgeo_keep_files = 1\<rparr>" 1 "[0, 0]"]
  by (simp add: Let_def slot_ok_def utf8_char_def utf8_tail_def SLOT_TABLE_VERSION_def) blast

end
