(* ===== verification/Xchannel.thy ===== *)
theory Xchannel
  imports Prelude
begin

text \<open>
  The interface of the xchannel crate, which is not part of this repository: the operations of
  its readers and writers that the code calls, as records of functions over an abstract state
  of the files \<open>'s\<close>, of a reader \<open>'r\<close> and of a writer \<open>'w\<close>. Every definition
  that uses xchannel takes these records as arguments. What the code relies on is stated as
  the predicates \<open>reader_laws\<close> and \<open>writer_laws\<close>, which theorems name as hypotheses;
  the segmented log at the end of the theory satisfies both, so the hypotheses can hold.
\<close>

type_synonym path = bytes

record xmsg =
  xm_type :: u16
  xm_meta :: u64
  xm_payload :: bytes

text \<open>\<open>ReaderBuilder::new(p).late_join().build()\<close> and the reader's methods. A blocking read
  is seen at the moment it returns, with the files as they are then.\<close>

record ('s, 'r) reader_api =
  rd_open :: "'s \<Rightarrow> path \<Rightarrow> 'r io_result"
  rd_base :: "'r \<Rightarrow> u64"
  rd_generation :: "'r \<Rightarrow> u64"
  rd_name :: "'r \<Rightarrow> rstring"
  rd_head :: "'s \<Rightarrow> 'r \<Rightarrow> u64 io_result"
  rd_file_sequence :: "'r \<Rightarrow> u64"
  rd_try_read :: "'s \<Rightarrow> 'r \<Rightarrow> xmsg option io_result \<times> 'r"
  rd_read_blocking :: "'s \<Rightarrow> 'r \<Rightarrow> xmsg option io_result \<times> 'r"

text \<open>The settings given to \<open>WriterBuilder\<close>; \<open>None\<close> when the builder method is not called.\<close>

record writer_config =
  wc_region_size :: nat
  wc_mtu :: u64
  wc_file_roll_size :: "u64 option"
  wc_base_record_index :: "u64 option"
  wc_generation :: "u64 option"
  wc_channel_name :: rstring
  wc_keep_files :: "u64 option"

record ('s, 'w) writer_api =
  wr_name_check :: "rstring \<Rightarrow> unit io_result"
  wr_build :: "'s \<Rightarrow> path \<Rightarrow> writer_config \<Rightarrow> 'w io_result \<times> 's"
  wr_generation :: "'w \<Rightarrow> u64"
  wr_next_index :: "'w \<Rightarrow> u64"
  wr_roll_file :: "'s \<Rightarrow> 'w \<Rightarrow> unit io_result \<times> 's \<times> 'w"
  wr_try_reserve :: "'s \<Rightarrow> 'w \<Rightarrow> nat \<Rightarrow> unit io_result \<times> 's \<times> 'w"
  wr_commit :: "'s \<Rightarrow> 'w \<Rightarrow> bytes \<Rightarrow> u16 \<Rightarrow> u32 \<Rightarrow> u64 \<Rightarrow> unit io_result \<times> 's \<times> 'w"

subsection \<open>What readers promise\<close>

text \<open>The records a reader has yet to return, each with whether reading it crosses into a new
  segment. The laws: a new reader starts at the earliest retained record, without a crossing,
  and the head is the base plus the records to come; a read returns the next record, and the
  segment ordinal changes exactly when that record is the first of a new segment; a read finds
  nothing only when nothing is there, and then changes nothing; a blocking read returns the
  next record when there is one.\<close>

type_synonym entry = "bool \<times> xmsg"

text \<open>The files grow: whatever a reader still had to return, it has to return next.\<close>

definition grows :: "('s \<Rightarrow> 'r \<Rightarrow> entry list) \<Rightarrow> 's \<Rightarrow> 's \<Rightarrow> bool" where
  "grows todo s s' \<longleftrightarrow> (\<forall>r. \<exists>more. todo s' r = todo s r @ more)"

definition advances ::
  "('s, 'r) reader_api \<Rightarrow> ('s \<Rightarrow> 'r \<Rightarrow> entry list) \<Rightarrow> 's \<Rightarrow> 'r \<Rightarrow> xmsg \<Rightarrow> 'r \<Rightarrow> bool" where
  "advances api todo s r m r' \<longleftrightarrow>
     (\<exists>b. (b \<longleftrightarrow> rd_file_sequence api r' \<noteq> rd_file_sequence api r) \<and>
        (\<forall>s'. grows todo s s' \<longrightarrow> todo s' r = (b, m) # todo s' r'))"

lemma grows_refl [simp]: "grows todo s s"
  by (simp add: grows_def)

lemma grows_trans: "grows todo s t \<Longrightarrow> grows todo t u \<Longrightarrow> grows todo s u"
  unfolding grows_def by (metis append.assoc)

lemma grows_length: "grows todo s s' \<Longrightarrow> length (todo s r) \<le> length (todo s' r)"
  unfolding grows_def by (metis le_add1 length_append)

text \<open>Successive states of the files, from \<open>s\<close> on.\<close>

fun growing :: "('s \<Rightarrow> 'r \<Rightarrow> entry list) \<Rightarrow> 's \<Rightarrow> 's list \<Rightarrow> bool" where
  "growing todo s [] \<longleftrightarrow> True"
| "growing todo s (s' # ss) \<longleftrightarrow> grows todo s s' \<and> growing todo s' ss"

definition reader_laws :: "('s, 'r) reader_api \<Rightarrow> ('s \<Rightarrow> 'r \<Rightarrow> entry list) \<Rightarrow> bool" where
  "reader_laws api todo \<longleftrightarrow>
     (\<forall>s p r. rd_open api s p = Inr r \<longrightarrow>
        (\<forall>b m rest. todo s r = (b, m) # rest \<longrightarrow> \<not> b) \<and>
        (\<forall>s' h. grows todo s s' \<longrightarrow> rd_head api s' r = Inr h \<longrightarrow>
           unat h = unat (rd_base api r) + length (todo s' r))) \<and>
     (\<forall>s r m r'. rd_try_read api s r = (Inr (Some m), r') \<longrightarrow> advances api todo s r m r') \<and>
     (\<forall>s r r'. rd_try_read api s r = (Inr None, r') \<longrightarrow> todo s r = [] \<and> r' = r) \<and>
     (\<forall>s r b m rest. todo s r = (b, m) # rest \<longrightarrow>
        (\<exists>r'. rd_read_blocking api s r = (Inr (Some m), r') \<and> advances api todo s r m r'))"

subsection \<open>What writers promise\<close>

text \<open>The entries a writer's log holds, its base, and whether a roll precedes the next record.
  The laws: a roll and a reservation change no record, and a roll is remembered until the next
  commit; a commit appends the record, at the start of a segment if a roll preceded it, and
  advances the index by one.\<close>

record ('s, 'w) writer_view =
  wv_log :: "'s \<Rightarrow> 'w \<Rightarrow> entry list"
  wv_rolled :: "'s \<Rightarrow> 'w \<Rightarrow> bool"

definition writer_laws :: "('s, 'w) writer_api \<Rightarrow> ('s, 'w) writer_view \<Rightarrow> bool" where
  "writer_laws api v \<longleftrightarrow>
     (\<forall>s w s' w'. wr_roll_file api s w = (Inr (), s', w') \<longrightarrow>
        wv_log v s' w' = wv_log v s w \<and> wv_rolled v s' w' \<and> wr_next_index api w' = wr_next_index api w) \<and>
     (\<forall>s w n s' w'. wr_try_reserve api s w n = (Inr (), s', w') \<longrightarrow>
        wv_log v s' w' = wv_log v s w \<and> (wv_rolled v s w \<longrightarrow> wv_rolled v s' w') \<and>
        wr_next_index api w' = wr_next_index api w) \<and>
     (\<forall>s w buf ty len meta s' w'. wr_commit api s w buf ty len meta = (Inr (), s', w') \<longrightarrow>
        (\<exists>b. wv_log v s' w' =
               wv_log v s w @ [(b, \<lparr>xm_type = ty, xm_meta = meta, xm_payload = take (unat len) buf\<rparr>)] \<and>
             (wv_rolled v s w \<longrightarrow> b)) \<and>
        wr_next_index api w' = wr_next_index api w + 1)"

lemma writer_lawsD:
  assumes "writer_laws api v"
  shows "wr_roll_file api s w = (Inr (), s', w') \<Longrightarrow>
      wv_log v s' w' = wv_log v s w \<and> wv_rolled v s' w' \<and> wr_next_index api w' = wr_next_index api w"
    and "wr_try_reserve api s w n = (Inr (), s', w') \<Longrightarrow>
      wv_log v s' w' = wv_log v s w \<and> (wv_rolled v s w \<longrightarrow> wv_rolled v s' w') \<and>
      wr_next_index api w' = wr_next_index api w"
    and "wr_commit api s w buf ty len meta = (Inr (), s', w') \<Longrightarrow>
      (\<exists>b. wv_log v s' w' =
             wv_log v s w @ [(b, \<lparr>xm_type = ty, xm_meta = meta, xm_payload = take (unat len) buf\<rparr>)] \<and>
           (wv_rolled v s w \<longrightarrow> b)) \<and>
      wr_next_index api w' = wr_next_index api w + 1"
  using assms unfolding writer_laws_def by blast+

lemma reader_lawsD:
  assumes "reader_laws api todo"
  shows "rd_open api s p = Inr r \<Longrightarrow> todo s r = (b, m) # rest \<Longrightarrow> \<not> b"
    and "rd_open api s p = Inr r \<Longrightarrow> grows todo s s' \<Longrightarrow> rd_head api s' r = Inr h \<Longrightarrow>
      unat h = unat (rd_base api r) + length (todo s' r)"
    and "rd_try_read api s r = (Inr (Some m), r') \<Longrightarrow> advances api todo s r m r'"
    and "rd_try_read api s r = (Inr None, r') \<Longrightarrow> todo s r = [] \<and> r' = r"
    and "todo s r = (b, m) # rest \<Longrightarrow>
      \<exists>r'. rd_read_blocking api s r = (Inr (Some m), r') \<and> advances api todo s r m r'"
  using assms unfolding reader_laws_def by blast+

subsection \<open>A log that keeps the laws\<close>

text \<open>A log is one file here; the first record after a roll stamps it with the name its writer was built with,
  as the header of a new segment is.\<close>

record seglog =
  sl_base :: u64
  sl_generation :: u64
  sl_name :: rstring
  sl_entries :: "entry list"
  sl_rolled :: bool

type_synonym files = "path \<Rightarrow> seglog option"

record seg_reader =
  sr_path :: path
  sr_base :: u64
  sr_generation :: u64
  sr_name :: rstring
  sr_pos :: nat
  sr_sequence :: u64

record seg_writer =
  sw_path :: path
  sw_generation :: u64
  sw_next :: u64
  sw_name :: rstring

definition seg_todo :: "files \<Rightarrow> seg_reader \<Rightarrow> entry list" where
  "seg_todo s r =
     (case s (sr_path r) of
        None \<Rightarrow> []
      | Some l \<Rightarrow>
          (case drop (sr_pos r) (sl_entries l) of
             [] \<Rightarrow> []
           | (b, m) # rest \<Rightarrow> (sr_pos r \<noteq> 0 \<and> b, m) # rest))"

definition seg_read :: "files \<Rightarrow> seg_reader \<Rightarrow> xmsg option io_result \<times> seg_reader" where
  "seg_read s r =
     (case seg_todo s r of
        [] \<Rightarrow> (Inr None, r)
      | (b, m) # _ \<Rightarrow>
          (Inr (Some m), r\<lparr>sr_pos := Suc (sr_pos r),
             sr_sequence := (if b then sr_sequence r + 1 else sr_sequence r)\<rparr>))"

definition seg_reader_api :: "(files, seg_reader) reader_api" where
  "seg_reader_api =
     \<lparr>rd_open = (\<lambda>s p. case s p of
        None \<Rightarrow> Inl (IoError NotFound ''no channel'')
      | Some l \<Rightarrow> Inr \<lparr>sr_path = p, sr_base = sl_base l, sr_generation = sl_generation l,
          sr_name = sl_name l, sr_pos = 0, sr_sequence = 0\<rparr>),
      rd_base = sr_base, rd_generation = sr_generation, rd_name = sr_name,
      rd_head = (\<lambda>s r. case s (sr_path r) of
        None \<Rightarrow> Inl (IoError NotFound ''no channel'')
      | Some l \<Rightarrow>
          if unat (sr_base r) + length (sl_entries l) < 2 ^ 64
          then Inr (sr_base r + of_nat (length (sl_entries l)))
          else Inl (IoError OtherError ''index overflow'')),
      rd_file_sequence = sr_sequence, rd_try_read = seg_read, rd_read_blocking = seg_read\<rparr>"

definition seg_writer_api :: "(files, seg_writer) writer_api" where
  "seg_writer_api =
     \<lparr>wr_name_check = (\<lambda>n. if length n \<le> 48 then Inr () else Inl (IoError InvalidInput ''name too long'')),
      wr_build = (\<lambda>s p c. case s p of
        Some l \<Rightarrow> (Inr \<lparr>sw_path = p, sw_generation = sl_generation l,
          sw_next = sl_base l + of_nat (length (sl_entries l)), sw_name = wc_channel_name c\<rparr>, s)
      | None \<Rightarrow>
          let base = (case wc_base_record_index c of None \<Rightarrow> 0 | Some b \<Rightarrow> b);
              gen = (case wc_generation c of None \<Rightarrow> 0 | Some g \<Rightarrow> g)
          in (Inr \<lparr>sw_path = p, sw_generation = gen, sw_next = base, sw_name = wc_channel_name c\<rparr>,
              s(p \<mapsto> \<lparr>sl_base = base, sl_generation = gen,
                     sl_name = wc_channel_name c, sl_entries = [], sl_rolled = False\<rparr>))),
      wr_generation = sw_generation, wr_next_index = sw_next,
      wr_roll_file = (\<lambda>s w. case s (sw_path w) of
        None \<Rightarrow> (Inl (IoError NotFound ''no channel''), s, w)
      | Some l \<Rightarrow> (Inr (), s(sw_path w \<mapsto> l\<lparr>sl_rolled := True\<rparr>), w)),
      wr_try_reserve = (\<lambda>s w n. (Inr (), s, w)),
      wr_commit = (\<lambda>s w buf ty len meta. case s (sw_path w) of
        None \<Rightarrow> (Inl (IoError NotFound ''no channel''), s, w)
      | Some l \<Rightarrow> (Inr (),
          s(sw_path w \<mapsto> l\<lparr>sl_entries := sl_entries l @
              [(sl_rolled l, \<lparr>xm_type = ty, xm_meta = meta, xm_payload = take (unat len) buf\<rparr>)],
            sl_name := (if sl_rolled l then sw_name w else sl_name l), sl_rolled := False\<rparr>),
          w\<lparr>sw_next := sw_next w + 1\<rparr>))\<rparr>"

definition seg_view :: "(files, seg_writer) writer_view" where
  "seg_view =
     \<lparr>wv_log = (\<lambda>s w. case s (sw_path w) of None \<Rightarrow> [] | Some l \<Rightarrow> sl_entries l),
      wv_rolled = (\<lambda>s w. case s (sw_path w) of None \<Rightarrow> False | Some l \<Rightarrow> sl_rolled l)\<rparr>"

lemma drop_Suc_rest: "drop n xs = y # ys \<Longrightarrow> drop (Suc n) xs = ys"
  by (metis drop_Suc list.sel(3) tl_drop)

lemma seg_todo_Cons:
  assumes "seg_todo s r = (b, m) # rest"
  shows "seg_todo s (r\<lparr>sr_pos := Suc (sr_pos r), sr_sequence := q\<rparr>) = rest"
proof -
  from assms obtain l b0 where l: "s (sr_path r) = Some l" "drop (sr_pos r) (sl_entries l) = (b0, m) # rest"
    by (auto simp: seg_todo_def split: option.splits list.splits)
  then show ?thesis
    using drop_Suc_rest [OF l(2)] by (auto simp: seg_todo_def split: list.splits)
qed

lemma seg_read_advances:
  assumes "seg_todo s r = (b, m) # rest"
  shows "\<exists>r'. seg_read s r = (Inr (Some m), r') \<and> advances seg_reader_api seg_todo s r m r'"
proof -
  let ?r = "r\<lparr>sr_pos := Suc (sr_pos r), sr_sequence := (if b then sr_sequence r + 1 else sr_sequence r)\<rparr>"
  have "seg_todo s' r = (b, m) # seg_todo s' ?r" if g: "grows seg_todo s s'" for s'
  proof -
    from g obtain more where "seg_todo s' r = seg_todo s r @ more"
      unfolding grows_def by blast
    with assms have "seg_todo s' r = (b, m) # rest @ more" by simp
    with seg_todo_Cons [OF this] show ?thesis by simp
  qed
  with assms show ?thesis
    by (auto simp: seg_read_def advances_def seg_reader_api_def)
qed

lemma unat_plus_of_nat: "unat b + n < 2 ^ LENGTH('a) \<Longrightarrow> unat (b + of_nat n :: 'a::len word) = unat b + n"
  by (metis add_lessD1 add.commute unat_add_lem unat_of_nat_small)

lemma length_seg_todo:
  assumes "s (sr_path r) = Some l" shows "length (seg_todo s r) = length (sl_entries l) - sr_pos r"
proof -
  have "length (seg_todo s r) = length (drop (sr_pos r) (sl_entries l))"
    using assms by (cases "drop (sr_pos r) (sl_entries l)") (auto simp: seg_todo_def split: prod.split)
  then show ?thesis by simp
qed

lemma seg_reader_laws: "reader_laws seg_reader_api seg_todo"
  unfolding reader_laws_def
proof (intro conjI allI impI)
  fix s p r assume r: "rd_open seg_reader_api s p = Inr r"
  then have pos: "sr_pos r = 0" by (auto simp: seg_reader_api_def split: option.splits)
  then show "\<not> b" if "seg_todo s r = (b, m) # rest" for b m rest
    using that by (auto simp: seg_todo_def split: option.splits list.splits)
  show "unat h = unat (rd_base seg_reader_api r) + length (seg_todo s' r)"
    if "rd_head seg_reader_api s' r = Inr h" for s' h
    using that pos by (auto simp: seg_reader_api_def length_seg_todo unat_plus_of_nat
        split: option.splits if_splits)
next
  fix s r m r' assume r: "rd_try_read seg_reader_api s r = (Inr (Some m), r')"
  then obtain b rest where "seg_todo s r = (b, m) # rest"
    by (auto simp: seg_reader_api_def seg_read_def split: list.splits)
  from seg_read_advances [OF this] r show "advances seg_reader_api seg_todo s r m r'"
    by (simp add: seg_reader_api_def)
next
  fix s r r' assume r: "rd_try_read seg_reader_api s r = (Inr None, r')"
  then show "seg_todo s r = []" "r' = r"
    by (auto simp: seg_reader_api_def seg_read_def split: list.splits)
next
  fix s r b m rest assume "seg_todo s r = (b, m) # rest"
  from seg_read_advances [OF this] show
    "\<exists>r'. rd_read_blocking seg_reader_api s r = (Inr (Some m), r') \<and> advances seg_reader_api seg_todo s r m r'"
    by (simp add: seg_reader_api_def)
qed

lemma seg_writer_laws: "writer_laws seg_writer_api seg_view"
  by (auto simp: writer_laws_def seg_writer_api_def seg_view_def split: option.splits)

end
