(* ===== verification/Replication.thy ===== *)
theory Replication
  imports Xchannel Wire
begin

text \<open>
  The replication engines of \<open>xchannel-net-core/src/replication.rs\<close>. Both take the
  xchannel interface as an argument. A loop over blocking reads takes the list of file states
  at the moments the reads return, and has no result when the list ends while it waits.
\<close>

subsection \<open>Source\<close>

record 'r replication_source =
  rs_reader :: 'r
  rs_next_index :: u64

definition source_open ::
  "('s, 'r) reader_api \<Rightarrow> 's \<Rightarrow> path \<Rightarrow> ('r replication_source \<times> record_index) io_result" where
  "source_open api s p =
     and_then (rd_open api s p) (\<lambda>r.
       let earliest = rd_base api r
       in Inr (\<lparr>rs_reader = r, rs_next_index = earliest\<rparr>, earliest))"

definition source_position :: "'r replication_source \<Rightarrow> record_index" where
  "source_position src = rs_next_index src"

definition source_generation :: "('s, 'r) reader_api \<Rightarrow> 'r replication_source \<Rightarrow> u64" where
  "source_generation api src = rd_generation api (rs_reader src)"

definition source_head :: "('s, 'r) reader_api \<Rightarrow> 's \<Rightarrow> 'r replication_source \<Rightarrow> record_index io_result" where
  "source_head api s src = rd_head api s (rs_reader src)"

definition rolled_since :: "('s, 'r) reader_api \<Rightarrow> u64 \<Rightarrow> 'r replication_source \<Rightarrow> bool" where
  "rolled_since api segment src \<longleftrightarrow> rd_file_sequence api (rs_reader src) \<noteq> segment"

definition frame_of :: "u64 \<Rightarrow> xmsg \<Rightarrow> bool \<Rightarrow> record_frame" where
  "frame_of index m starts =
     \<lparr>rf_index = index, rf_msg_type = xm_type m, rf_user_meta = xm_meta m,
      rf_starts_segment = starts, rf_payload = xm_payload m\<rparr>"

text \<open>What both frame readers do with the answer of a read.\<close>

definition finish_read ::
  "('s, 'r) reader_api \<Rightarrow> 'r replication_source \<Rightarrow> xmsg option io_result \<times> 'r \<Rightarrow>
     record_frame option io_result \<times> 'r replication_source" where
  "finish_read api src res =
     (let index = rs_next_index src;
          segment = rd_file_sequence api (rs_reader src);
          src1 = src\<lparr>rs_reader := snd res\<rparr>
      in case fst res of
           Inl e \<Rightarrow> (Inl e, src1)
         | Inr None \<Rightarrow> (Inr None, src1)
         | Inr (Some m) \<Rightarrow>
             (Inr (Some (frame_of index m (rolled_since api segment src1))),
              src1\<lparr>rs_next_index := index + 1\<rparr>))"

definition try_next_frame ::
  "('s, 'r) reader_api \<Rightarrow> 's \<Rightarrow> 'r replication_source \<Rightarrow>
     record_frame option io_result \<times> 'r replication_source" where
  "try_next_frame api s src = finish_read api src (rd_try_read api s (rs_reader src))"

fun next_frame ::
  "('s, 'r) reader_api \<Rightarrow> 's list \<Rightarrow> 'r replication_source \<Rightarrow>
     (record_frame io_result \<times> 'r replication_source \<times> 's list) option" where
  "next_frame api [] src = None"
| "next_frame api (s # ss) src =
     (case finish_read api src (rd_read_blocking api s (rs_reader src)) of
        (Inl e, src') \<Rightarrow> Some (Inl e, src', ss)
      | (Inr None, src') \<Rightarrow> next_frame api ss src'
      | (Inr (Some f), src') \<Rightarrow> Some (Inr f, src', ss))"

fun skip_to ::
  "('s, 'r) reader_api \<Rightarrow> 's list \<Rightarrow> record_index \<Rightarrow> 'r replication_source \<Rightarrow>
     (unit io_result \<times> 'r replication_source) option" where
  "skip_to api [] from src = (if rs_next_index src < from then None else Some (Inr (), src))"
| "skip_to api (s # ss) from src =
     (if rs_next_index src < from then
        (case rd_read_blocking api s (rs_reader src) of
           (Inl e, r') \<Rightarrow> Some (Inl e, src\<lparr>rs_reader := r'\<rparr>)
         | (Inr None, r') \<Rightarrow> skip_to api ss from (src\<lparr>rs_reader := r'\<rparr>)
         | (Inr (Some m), r') \<Rightarrow>
             skip_to api ss from (src\<lparr>rs_reader := r', rs_next_index := rs_next_index src + 1\<rparr>))
      else Some (Inr (), src))"

subsection \<open>Sink\<close>

record 'w replication_sink =
  sk_writer :: 'w
  sk_expected_index :: u64

definition sink_config ::
  "rstring \<Rightarrow> u32 \<Rightarrow> u32 \<Rightarrow> u64 \<Rightarrow> u32 \<Rightarrow> record_index \<Rightarrow> u64 \<Rightarrow> writer_config" where
  "sink_config name region_size mtu file_roll_size keep_files start generation =
     \<lparr>wc_region_size = unat region_size, wc_mtu = ucast mtu, wc_file_roll_size = Some file_roll_size,
      wc_base_record_index = Some start, wc_generation = Some generation, wc_channel_name = name,
      wc_keep_files = (if keep_files > 0 then Some (ucast keep_files) else None)\<rparr>"

definition sink_open ::
  "('s, 'r) reader_api \<Rightarrow> ('s, 'w) writer_api \<Rightarrow> 's \<Rightarrow> path \<Rightarrow> rstring \<Rightarrow> u32 \<Rightarrow> u32 \<Rightarrow> u64 \<Rightarrow> u32 \<Rightarrow>
     record_index \<Rightarrow> u64 \<Rightarrow> 'w replication_sink io_result \<times> 's" where
  "sink_open rapi wapi s p name region_size mtu file_roll_size keep_files start generation =
     (case wr_name_check wapi name of
        Inl e \<Rightarrow> (Inl e, s)
      | Inr _ \<Rightarrow>
          (case wr_build wapi s p
                  (sink_config name region_size mtu file_roll_size keep_files start generation) of
             (Inl e, s1) \<Rightarrow> (Inl e, s1)
           | (Inr w, s1) \<Rightarrow>
               if wr_generation wapi w \<noteq> generation then
                 (Inl (IoError InvalidData ''replica belongs to a previous incarnation of this channel''), s1)
               else
                 (case rd_open rapi s1 p of
                    Inl e \<Rightarrow> (Inl e, s1)
                  | Inr r \<Rightarrow>
                      if rd_name rapi r \<noteq> name then
                        (Inl (IoError InvalidData ''refusing to extend one channel's replica with another's records''), s1)
                      else (Inr \<lparr>sk_writer = w, sk_expected_index = wr_next_index wapi w\<rparr>, s1))))"

definition sink_expected_index :: "'w replication_sink \<Rightarrow> record_index" where
  "sink_expected_index sk = sk_expected_index sk"

definition sink_apply ::
  "('s, 'w) writer_api \<Rightarrow> 's \<Rightarrow> 'w replication_sink \<Rightarrow> record_frame \<Rightarrow>
     unit io_result \<times> 's \<times> 'w replication_sink" where
  "sink_apply api s sk frame =
     (if rf_index frame \<noteq> sk_expected_index sk then
        (Inl (IoError InvalidData ''non-contiguous record''), s, sk)
      else
        (case (if rf_starts_segment frame then wr_roll_file api s (sk_writer sk)
               else (Inr (), s, sk_writer sk)) of
           (Inl e, s1, w1) \<Rightarrow> (Inl e, s1, sk\<lparr>sk_writer := w1\<rparr>)
         | (Inr _, s1, w1) \<Rightarrow>
             (case wr_try_reserve api s1 w1 (length (rf_payload frame)) of
                (Inl e, s2, w2) \<Rightarrow> (Inl e, s2, sk\<lparr>sk_writer := w2\<rparr>)
              | (Inr _, s2, w2) \<Rightarrow>
                  (case wr_commit api s2 w2 (rf_payload frame) (rf_msg_type frame)
                          (of_nat (length (rf_payload frame))) (rf_user_meta frame) of
                     (Inl e, s3, w3) \<Rightarrow> (Inl e, s3, sk\<lparr>sk_writer := w3\<rparr>)
                   | (Inr _, s3, w3) \<Rightarrow>
                       (Inr (), s3, sk\<lparr>sk_writer := w3,
                          sk_expected_index := sk_expected_index sk + 1\<rparr>)))))"

subsection \<open>What crosses from the source to the sink\<close>

text \<open>The frames a source has still to produce for the entries of its log.\<close>

fun frames_of :: "u64 \<Rightarrow> entry list \<Rightarrow> record_frame list" where
  "frames_of i [] = []"
| "frames_of i ((b, m) # es) = frame_of i m b # frames_of (i + 1) es"

text \<open>Non-blocking reads at successive moments; the first error ends the stream.\<close>

fun source_polls ::
  "('s, 'r) reader_api \<Rightarrow> 's list \<Rightarrow> 'r replication_source \<Rightarrow>
     record_frame list \<times> 'r replication_source io_result" where
  "source_polls api [] src = ([], Inr src)"
| "source_polls api (s # ss) src =
     (case try_next_frame api s src of
        (Inl e, _) \<Rightarrow> ([], Inl e)
      | (Inr None, src') \<Rightarrow> source_polls api ss src'
      | (Inr (Some f), src') \<Rightarrow> (let (fs, res) = source_polls api ss src' in (f # fs, res)))"

text \<open>Frames applied one after the other; the first error ends the stream.\<close>

fun apply_all ::
  "('s, 'w) writer_api \<Rightarrow> 's \<Rightarrow> 'w replication_sink \<Rightarrow> record_frame list \<Rightarrow>
     unit io_result \<times> 's \<times> 'w replication_sink" where
  "apply_all api s sk [] = (Inr (), s, sk)"
| "apply_all api s sk (f # fs) =
     (case sink_apply api s sk f of
        (Inl e, s', sk') \<Rightarrow> (Inl e, s', sk')
      | (Inr _, s', sk') \<Rightarrow> apply_all api s' sk' fs)"

lemma length_frames_of [simp]: "length (frames_of i es) = length es"
  by (induction i es rule: frames_of.induct) auto

lemma take_frames_of: "take n (frames_of i es) = frames_of i (take n es)"
  by (induction i es arbitrary: n rule: frames_of.induct) (auto simp: take_Cons split: nat.splits)

lemma drop_frames_of: "drop n (frames_of i es) = frames_of (i + of_nat n) (drop n es)"
proof (induction i es arbitrary: n rule: frames_of.induct)
  case (2 i b m es)
  then show ?case by (cases n) (simp_all add: algebra_simps)
qed simp

lemma finish_read_Some:
  assumes "finish_read api src (rd_try_read api s (rs_reader src)) = (Inr (Some f), src')"
    and "reader_laws api todo" "grows todo s sF"
  shows "frames_of (rs_next_index src) (todo sF (rs_reader src)) =
     f # frames_of (rs_next_index src') (todo sF (rs_reader src'))"
proof -
  from assms(1) obtain m r' where r: "rd_try_read api s (rs_reader src) = (Inr (Some m), r')"
    and f: "f = frame_of (rs_next_index src) m
          (rd_file_sequence api r' \<noteq> rd_file_sequence api (rs_reader src))"
    and src': "src' = src\<lparr>rs_reader := r', rs_next_index := rs_next_index src + 1\<rparr>"
    by (cases "rd_try_read api s (rs_reader src)")
       (auto simp: finish_read_def Let_def rolled_since_def split: sum.splits option.splits)
  from reader_lawsD(3) [OF assms(2) r] assms(3) show ?thesis
    by (auto simp: advances_def f src')
qed

lemma finish_read_None:
  assumes "finish_read api src (rd_try_read api s (rs_reader src)) = (Inr None, src')"
    and "reader_laws api todo"
  shows "src' = src"
proof -
  from assms(1) have r: "rd_try_read api s (rs_reader src) = (Inr None, rs_reader src')"
    and src': "src' = src\<lparr>rs_reader := rs_reader src'\<rparr>"
    by (cases "rd_try_read api s (rs_reader src)";
        auto simp: finish_read_def Let_def split: sum.splits option.splits)+
  from reader_lawsD(4) [OF assms(2) r] src' show ?thesis by simp
qed

lemma source_polls_conserve:
  assumes "reader_laws api todo" "\<forall>s\<in>set ss. grows todo s sF"
    and "source_polls api ss src = (fs, res)"
  shows "\<exists>rest. frames_of (rs_next_index src) (todo sF (rs_reader src)) = fs @ rest \<and>
     (\<forall>src'. res = Inr src' \<longrightarrow> rest = frames_of (rs_next_index src') (todo sF (rs_reader src')))"
  using assms(2,3)
proof (induction ss arbitrary: src fs)
  case (Cons s ss)
  obtain a src1 where t: "try_next_frame api s src = (a, src1)" by fastforce
  consider e where "a = Inl e" | "a = Inr None" | f where "a = Inr (Some f)"
    by (cases a) auto
  then show ?case
  proof cases
    case 1
    with Cons.prems t show ?thesis by auto
  next
    case 2
    with t have "src1 = src"
      using finish_read_None [OF _ assms(1)] by (simp add: try_next_frame_def)
    with 2 Cons.prems t Cons.IH [of src fs] show ?thesis by simp
  next
    case 3
    from Cons.prems t 3 obtain fs1 where fs: "fs = f # fs1" "source_polls api ss src1 = (fs1, res)"
      by (auto split: prod.splits)
    have "frames_of (rs_next_index src) (todo sF (rs_reader src)) =
        f # frames_of (rs_next_index src1) (todo sF (rs_reader src1))"
      using finish_read_Some [OF _ assms(1)] t 3 Cons.prems(1) by (simp add: try_next_frame_def)
    with Cons.IH [OF _ fs(2)] Cons.prems(1) fs(1) show ?thesis by simp
  qed
qed auto


lemma sink_apply_ok:
  assumes "sink_apply api s sk f = (Inr (), s', sk')" and "writer_laws api v"
    and "length (rf_payload f) < 2 ^ 32"
  shows "rf_index f = sk_expected_index sk" (is ?i)
    and "sk_expected_index sk' = sk_expected_index sk + 1" (is ?n)
    and "\<exists>b. wv_log v s' (sk_writer sk') = wv_log v s (sk_writer sk) @
           [(b, \<lparr>xm_type = rf_msg_type f, xm_meta = rf_user_meta f, xm_payload = rf_payload f\<rparr>)] \<and>
         (rf_starts_segment f \<longrightarrow> b)" (is ?l)
proof -
  from assms(1) obtain s1 w1 s2 w2 w3 where
    i: "rf_index f = sk_expected_index sk"
    and roll: "(if rf_starts_segment f then wr_roll_file api s (sk_writer sk)
            else (Inr (), s, sk_writer sk)) = (Inr (), s1, w1)"
    and res: "wr_try_reserve api s1 w1 (length (rf_payload f)) = (Inr (), s2, w2)"
    and com: "wr_commit api s2 w2 (rf_payload f) (rf_msg_type f)
            (of_nat (length (rf_payload f))) (rf_user_meta f) = (Inr (), s', w3)"
    and sk': "sk' = sk\<lparr>sk_writer := w3, sk_expected_index := sk_expected_index sk + 1\<rparr>"
    by (auto simp: sink_apply_def split: if_split_asm prod.splits sum.splits)
  from roll have r: "wv_log v s1 w1 = wv_log v s (sk_writer sk) \<and> (rf_starts_segment f \<longrightarrow> wv_rolled v s1 w1)"
    using writer_lawsD(1) [OF assms(2)] by (auto split: if_split_asm)
  from assms(3) have "unat (of_nat (length (rf_payload f)) :: u32) = length (rf_payload f)"
    by (simp add: unat_of_nat_small)
  with r writer_lawsD(2) [OF assms(2) res] writer_lawsD(3) [OF assms(2) com] show ?l
    by (auto simp: sk')
  from i show ?i .
  show ?n by (simp add: sk')
qed

text \<open>A frame that is not the next one changes nothing.\<close>

lemma sink_apply_gap:
  "rf_index f \<noteq> sk_expected_index sk \<Longrightarrow> \<exists>msg. sink_apply api s sk f = (Inl (IoError InvalidData msg), s, sk)"
  by (simp add: sink_apply_def)

definition mirrors :: "entry list \<Rightarrow> record_frame list \<Rightarrow> bool" where
  "mirrors es fs \<longleftrightarrow> list_all2 (\<lambda>(b, m) f. xm_type m = rf_msg_type f \<and> xm_meta m = rf_user_meta f \<and>
     xm_payload m = rf_payload f \<and> (rf_starts_segment f \<longrightarrow> b)) es fs"

lemma apply_all_mirrors:
  assumes "apply_all api s sk fs = (Inr (), s', sk')" and "writer_laws api v"
    and "\<forall>f\<in>set fs. length (rf_payload f) < 2 ^ 32"
  shows "\<exists>es. wv_log v s' (sk_writer sk') = wv_log v s (sk_writer sk) @ es \<and> mirrors es fs \<and>
     map rf_index fs = map (\<lambda>k. sk_expected_index sk + of_nat k) [0..<length fs] \<and>
     sk_expected_index sk' = sk_expected_index sk + of_nat (length fs)"
  using assms(1,3)
proof (induction fs arbitrary: s sk)
  case (Cons f fs)
  from Cons.prems(1) obtain s1 sk1 where
    f: "sink_apply api s sk f = (Inr (), s1, sk1)" "apply_all api s1 sk1 fs = (Inr (), s', sk')"
    by (auto split: prod.splits sum.splits)
  note ok = sink_apply_ok [OF f(1) assms(2)]
  from Cons.prems(2) ok(3) obtain b where
    l: "wv_log v s1 (sk_writer sk1) = wv_log v s (sk_writer sk) @
           [(b, \<lparr>xm_type = rf_msg_type f, xm_meta = rf_user_meta f, xm_payload = rf_payload f\<rparr>)]"
      "rf_starts_segment f \<longrightarrow> b" by auto
  from Cons.IH [OF f(2)] Cons.prems(2) obtain es where
    es: "wv_log v s' (sk_writer sk') = wv_log v s1 (sk_writer sk1) @ es" "mirrors es fs"
      "map rf_index fs = map (\<lambda>k. sk_expected_index sk1 + of_nat k) [0..<length fs]"
      "sk_expected_index sk' = sk_expected_index sk1 + of_nat (length fs)" by auto
  have "map rf_index (f # fs) = map (\<lambda>k. sk_expected_index sk + of_nat k) (0 # map Suc [0..<length fs])"
    using es(3) ok(1,2) Cons.prems(2) by (simp add: comp_def algebra_simps)
  also have "0 # map Suc [0..<length fs] = [0..<length (f # fs)]"
    by (simp add: map_Suc_upt upt_conv_Cons del: upt_Suc)
  finally show ?case
    using l es ok(2) Cons.prems(2)
    by (intro exI [of _ "(b, \<lparr>xm_type = rf_msg_type f, xm_meta = rf_user_meta f, xm_payload = rf_payload f\<rparr>) # es"])
       (simp add: mirrors_def algebra_simps)
qed (simp add: mirrors_def)

lemma mirrors_frames_of:
  "mirrors es' (frames_of i es) \<Longrightarrow>
     map snd es' = map snd es \<and> list_all2 (\<lambda>e' e. fst e \<longrightarrow> fst e') es' es"
proof (induction i es arbitrary: es' rule: frames_of.induct)
  case (2 i b m es)
  from "2.prems" obtain b' m' es1 where
    e: "es' = (b', m') # es1" "xm_type m' = xm_type m" "xm_meta m' = xm_meta m"
      "xm_payload m' = xm_payload m" "b \<longrightarrow> b'" "mirrors es1 (frames_of (i + 1) es)"
    by (cases es') (auto simp: mirrors_def frame_of_def)
  from e(2-4) have "m' = m" by (cases m; cases m') simp
  with e "2.IH" [OF e(6)] show ?case by simp
qed (simp add: mirrors_def)


text \<open>Skipping forward over records that are there returns, and stands at the index asked for.\<close>

lemma skip_to_reaches:
  assumes "reader_laws api todo" and "growing todo s ss"
    and "rs_next_index src \<le> from" and "unat from - unat (rs_next_index src) \<le> length (todo s (rs_reader src))"
    and "unat from - unat (rs_next_index src) \<le> length ss"
  shows "\<exists>src'. skip_to api ss from src = Some (Inr (), src') \<and> rs_next_index src' = from \<and>
     (\<forall>sF. (\<forall>s\<in>set ss. grows todo s sF) \<longrightarrow> frames_of from (todo sF (rs_reader src')) =
        drop (unat from - unat (rs_next_index src))
          (frames_of (rs_next_index src) (todo sF (rs_reader src))))"
  using assms(2-5)
proof (induction ss arbitrary: s src)
  case Nil
  then have "rs_next_index src = from" by (simp add: word_le_nat_alt word_unat_eq_iff)
  then show ?case by simp
next
  case (Cons s1 ss)
  show ?case
  proof (cases "rs_next_index src < from")
    case False
    with Cons.prems(2) have "rs_next_index src = from" by simp
    then show ?thesis by simp
  next
    case True
    let ?n = "rs_next_index src"
    from True have lt: "unat ?n < unat from" by (simp add: word_less_nat_alt)
    then have n1: "unat (?n + 1) = Suc (unat ?n)"
      using unat_plus_of_nat [of ?n 1] unat_bound [of "from"] by simp
    from Cons.prems(1) have g: "grows todo s s1" "growing todo s1 ss" by auto
    from lt Cons.prems(3) grows_length [OF g(1)] have "todo s1 (rs_reader src) \<noteq> []"
      by (metis diff_is_0_eq leD le_zero_eq list.size(3) order.trans)
    then obtain b m rest where t: "todo s1 (rs_reader src) = (b, m) # rest"
      by (metis list.exhaust prod.exhaust)
    from reader_lawsD(5) [OF assms(1) t] obtain r' where
      r: "rd_read_blocking api s1 (rs_reader src) = (Inr (Some m), r')"
      and adv: "advances api todo s1 (rs_reader src) m r'" by auto
    let ?src = "src\<lparr>rs_reader := r', rs_next_index := ?n + 1\<rparr>"
    from adv t have "todo s1 r' = rest" by (auto simp: advances_def)
    then have len: "length (todo s1 r') = length (todo s1 (rs_reader src)) - 1" using t by simp
    have "\<exists>src'. skip_to api ss from ?src = Some (Inr (), src') \<and> rs_next_index src' = from \<and>
       (\<forall>sF. (\<forall>s\<in>set ss. grows todo s sF) \<longrightarrow> frames_of from (todo sF (rs_reader src')) =
          drop (unat from - unat (rs_next_index ?src))
            (frames_of (rs_next_index ?src) (todo sF (rs_reader ?src))))"
      using Cons.prems(3,4) lt n1 len grows_length [OF g(1), of "rs_reader src"]
      by (intro Cons.IH [OF g(2)]) (auto simp: word_le_nat_alt)
    moreover have "frames_of ?n (todo sF (rs_reader src)) = frame_of ?n m b # frames_of (?n + 1) (todo sF r')"
      if "grows todo s1 sF" for sF
    proof -
      from adv t obtain b' where b': "\<forall>s'. grows todo s1 s' \<longrightarrow> todo s' (rs_reader src) = (b', m) # todo s' r'"
        by (auto simp: advances_def)
      with t have "b' = b" by (metis grows_refl list.inject prod.inject)
      with b' that show ?thesis by simp
    qed
    moreover have "unat from - unat ?n = Suc (unat from - unat (?n + 1))" using lt n1 by simp
    ultimately show ?thesis using True r by auto
  qed
qed

end
