(* ===== verification/Mux.thy ===== *)
theory Mux
  imports Topic_Format Replication
begin

text \<open>
  The mux engine (\<open>xchannel-net-core/src/mux.rs\<close>, second half): the single writer of a topic
  channel, which merges member channels into it. The member files are of type \<open>'s\<close> and change
  by other hands, so each read of a member takes the file state at that moment; the topic's
  files are of type \<open>'t\<close> and change only through the mux, so they are threaded with its state.
  A loop has no result (\<open>None\<close>) when the moments given end before it does.
\<close>

record 'r slot =
  mt_member_ref :: u16
  mt_name :: rstring
  mt_epoch :: u64
  mt_source :: "'r replication_source"
  mt_cursor :: u64
  mt_rejected :: u64

type_synonym member_key = "rstring \<times> u64"

record ('w, 'r) mux =
  mx_topic :: 'w
  mx_geometry :: topic_geometry
  mx_slots :: "'r slot list"
  mx_next_ref :: u16
  mx_max_batch_per_member :: nat
  mx_recovered :: "member_key \<rightharpoonup> u64"
  mx_gaps_emitted :: u64
  mx_slot_table_version :: u64
  mx_since_slot_table :: u64
  mx_bytes_in_segment :: u64
  mx_finished :: bool

record member_stat =
  stat_name :: rstring
  stat_epoch :: u64
  stat_merged :: u64
  stat_head :: u64
  stat_lag :: u64
  stat_rejected :: u64

record mux_status =
  mxs_members :: "member_stat list"
  mxs_topic_head :: u64
  mxs_gaps_emitted :: u64
  mxs_slot_table_version :: u64

subsection \<open>Recovery from the topic's own records\<close>

text \<open>One record of the scan, with the refs in force and the cursors found so far.\<close>

definition apply_table_entry :: "slot_entry \<Rightarrow> (member_key \<rightharpoonup> u64) \<Rightarrow> (member_key \<rightharpoonup> u64)" where
  "apply_table_entry e out =
     out((se_name e, se_epoch e) := (if se_cursor e = 0 then None else Some (se_cursor e - 1)))"

definition bind_ref :: "slot_entry \<Rightarrow> (u16 \<rightharpoonup> member_key) \<Rightarrow> (u16 \<rightharpoonup> member_key)" where
  "bind_ref e a = a(se_member_ref e \<mapsto> (se_name e, se_epoch e))"

definition active_of :: "slot_entry list \<Rightarrow> u16 \<rightharpoonup> member_key" where
  "active_of es = fold bind_ref es Map.empty"

definition recover_step ::
  "xmsg \<Rightarrow> (u16 \<rightharpoonup> member_key) \<times> (member_key \<rightharpoonup> u64) \<Rightarrow>
     ((u16 \<rightharpoonup> member_key) \<times> (member_key \<rightharpoonup> u64)) io_result" where
  "recover_step m st =
     (if xm_type m = MSG_TYPE_SLOT_TABLE then
        and_then (decode_slot_table (xm_payload m)) (\<lambda>table.
          Inr (active_of (st_members table), fold apply_table_entry (st_members table) (snd st)))
      else if \<not> is_control (xm_type m) then
        and_then (prov_split (xm_payload m)) (\<lambda>(prov, _).
          case fst st (pv_member_ref prov) of
            None \<Rightarrow> Inr st
          | Some member \<Rightarrow>
              let e = (case snd st member of None \<Rightarrow> 0 | Some v \<Rightarrow> v)
              in Inr (fst st, (snd st)(member \<mapsto> max e (pv_member_index prov))))
      else Inr st)"

fun recover_scan ::
  "('t, 'q) reader_api \<Rightarrow> 't list \<Rightarrow> 'q \<Rightarrow> (u16 \<rightharpoonup> member_key) \<times> (member_key \<rightharpoonup> u64) \<Rightarrow>
     (member_key \<rightharpoonup> u64) io_result option" where
  "recover_scan api [] r st = None"
| "recover_scan api (t # ts) r st =
     (case rd_try_read api t r of
        (Inl e, _) \<Rightarrow> Some (Inl e)
      | (Inr None, _) \<Rightarrow> Some (Inr (snd st))
      | (Inr (Some m), r') \<Rightarrow>
          (case recover_step m st of
             Inl e \<Rightarrow> Some (Inl e)
           | Inr st' \<Rightarrow> recover_scan api ts r' st'))"

definition recover_cursors ::
  "('t, 'q) reader_api \<Rightarrow> 't \<Rightarrow> 't list \<Rightarrow> path \<Rightarrow> (member_key \<rightharpoonup> u64) io_result option" where
  "recover_cursors api t ts p =
     (case rd_open api t p of
        Inl e \<Rightarrow> Some (Inl e)
      | Inr r \<Rightarrow> recover_scan api ts r (Map.empty, Map.empty))"

record topic_config =
  tc_geometry :: topic_geometry
  tc_members :: "member_key list"

fun topic_config_scan ::
  "('t, 'q) reader_api \<Rightarrow> 't list \<Rightarrow> 'q \<Rightarrow> topic_config option \<Rightarrow> topic_config option io_result option" where
  "topic_config_scan api [] r cfg = None"
| "topic_config_scan api (t # ts) r cfg =
     (case rd_try_read api t r of
        (Inl e, _) \<Rightarrow> Some (Inl e)
      | (Inr None, _) \<Rightarrow> Some (Inr cfg)
      | (Inr (Some m), r') \<Rightarrow>
          topic_config_scan api ts r'
            (if xm_type m = MSG_TYPE_SLOT_TABLE then
               (case decode_slot_table (xm_payload m) of
                  Inl _ \<Rightarrow> cfg
                | Inr table \<Rightarrow> Some \<lparr>tc_geometry = st_geometry table,
                    tc_members = map (\<lambda>e. (se_name e, se_epoch e)) (st_members table)\<rparr>)
             else cfg))"

definition topic_config_of ::
  "('t, 'q) reader_api \<Rightarrow> 't \<Rightarrow> 't list \<Rightarrow> path \<Rightarrow> topic_config option io_result option" where
  "topic_config_of api t ts p =
     (case rd_open api t p of
        Inl e \<Rightarrow> Some (Inl e)
      | Inr r \<Rightarrow> topic_config_scan api ts r None)"

subsection \<open>Opening\<close>

definition mux_config :: "rstring \<Rightarrow> topic_geometry \<Rightarrow> writer_config" where
  "mux_config name g =
     \<lparr>wc_region_size = unat (tgeo_region_size g), wc_mtu = ucast (tgeo_mtu g), wc_file_roll_size = None,
      wc_base_record_index = None, wc_generation = None, wc_channel_name = name,
      wc_keep_files = (if tgeo_keep_files g > 0 then Some (ucast (tgeo_keep_files g)) else None)\<rparr>"

definition mux_open ::
  "('t, 'q) reader_api \<Rightarrow> ('t, 'w) writer_api \<Rightarrow> 't \<Rightarrow> 't list \<Rightarrow> path \<Rightarrow> rstring \<Rightarrow> topic_geometry \<Rightarrow> nat \<Rightarrow>
     (('w, 'r) mux io_result \<times> 't) option" where
  "mux_open rapi wapi t ts p name g max_batch =
     (case recover_cursors rapi t ts p of
        None \<Rightarrow> None
      | Some found \<Rightarrow>
          (case (case found of Inl e \<Rightarrow> if ekind e = NotFound then Inr Map.empty else Inl e | Inr m \<Rightarrow> Inr m) of
             Inl e \<Rightarrow> Some (Inl e, t)
           | Inr recovered \<Rightarrow>
               (case wr_name_check wapi name of
                  Inl e \<Rightarrow> Some (Inl e, t)
                | Inr _ \<Rightarrow>
                    (case wr_build wapi t p (mux_config name g) of
                       (Inl e, t') \<Rightarrow> Some (Inl e, t')
                     | (Inr topic, t') \<Rightarrow>
                         Some (Inr \<lparr>mx_topic = topic, mx_geometry = g, mx_slots = [], mx_next_ref = 0,
                                    mx_max_batch_per_member = max max_batch 1, mx_recovered = recovered,
                                    mx_gaps_emitted = 0, mx_slot_table_version = 0,
                                    mx_since_slot_table = 0, mx_bytes_in_segment = 0,
                                    mx_finished = False\<rparr>, t')))))"

subsection \<open>Commits\<close>

text \<open>A step on the topic's files and the mux, which may fail; the state after a failure is kept,
  as the code mutates in place.\<close>

type_synonym ('t, 'w, 'r, 'a) mstep = "'t \<times> ('w, 'r) mux \<Rightarrow> 'a io_result \<times> 't \<times> ('w, 'r) mux"

definition then_do :: "('t, 'w, 'r, 'a) mstep \<Rightarrow> ('t, 'w, 'r, 'b) mstep \<Rightarrow> ('t, 'w, 'r, 'b) mstep" where
  "then_do a b = (\<lambda>st. case a st of (Inl e, st') \<Rightarrow> (Inl e, st') | (Inr _, st') \<Rightarrow> b st')"

definition modify :: "(('w, 'r) mux \<Rightarrow> ('w, 'r) mux) \<Rightarrow> ('t, 'w, 'r, unit) mstep" where
  "modify f = (\<lambda>(t, m). (Inr (), t, f m))"

definition next_multiple_of :: "nat \<Rightarrow> nat \<Rightarrow> nat" where
  "next_multiple_of n k = ((n + k - 1) div k) * k"

definition commit_record :: "('t, 'w) writer_api \<Rightarrow> u16 \<Rightarrow> bytes \<Rightarrow> ('t, 'w, 'r, unit) mstep" where
  "commit_record api msg_type payload = (\<lambda>(t, m).
     case wr_try_reserve api t (mx_topic m) (length payload) of
       (Inl e, t1, w1) \<Rightarrow> (Inl e, t1, m\<lparr>mx_topic := w1\<rparr>)
     | (Inr _, t1, w1) \<Rightarrow>
         (case wr_commit api t1 w1 payload msg_type (of_nat (length payload)) 0 of
            (Inl e, t2, w2) \<Rightarrow> (Inl e, t2, m\<lparr>mx_topic := w2\<rparr>)
          | (Inr _, t2, w2) \<Rightarrow>
              (Inr (), t2, m\<lparr>mx_topic := w2,
                 mx_bytes_in_segment := mx_bytes_in_segment m +
                   (RECORD_OVERHEAD + of_nat (next_multiple_of (length payload) 8))\<rparr>)))"

definition slot_entries :: "('w, 'r) mux \<Rightarrow> slot_entry list" where
  "slot_entries m = map (\<lambda>s. \<lparr>se_member_ref = mt_member_ref s, se_name = mt_name s, se_epoch = mt_epoch s,
     se_cursor = mt_cursor s\<rparr>) (mx_slots m)"

definition emit_slot_table :: "('t, 'w) writer_api \<Rightarrow> ('t, 'w, 'r, unit) mstep" where
  "emit_slot_table api = (\<lambda>(t, m).
     then_do (commit_record api MSG_TYPE_SLOT_TABLE (encode_slot_table (mx_geometry m) (slot_entries m)))
       (modify (\<lambda>m. m\<lparr>mx_slot_table_version := mx_slot_table_version m + 1, mx_since_slot_table := 0\<rparr>)) (t, m))"

definition emit_member_closed :: "('t, 'w) writer_api \<Rightarrow> u16 \<Rightarrow> u64 \<Rightarrow> ('t, 'w, 'r, unit) mstep" where
  "emit_member_closed api member_ref final_index =
     commit_record api MSG_TYPE_MEMBER_CLOSED (closed_payload \<lparr>mc_member_ref = member_ref, mc_final_index = final_index\<rparr>)"

definition emit_topic_gap :: "('t, 'w) writer_api \<Rightarrow> u16 \<Rightarrow> u64 \<Rightarrow> u64 \<Rightarrow> ('t, 'w, 'r, unit) mstep" where
  "emit_topic_gap api member_ref from resumed_at =
     then_do (commit_record api MSG_TYPE_TOPIC_GAP
        (gap_payload \<lparr>tg_member_ref = member_ref, tg_from = from, tg_resumed_at = resumed_at\<rparr>))
       (modify (\<lambda>m. m\<lparr>mx_gaps_emitted := mx_gaps_emitted m + 1\<rparr>))"

definition emit_member_regressed :: "('t, 'w) writer_api \<Rightarrow> u16 \<Rightarrow> u64 \<Rightarrow> u64 \<Rightarrow> ('t, 'w, 'r, unit) mstep" where
  "emit_member_regressed api member_ref expected head =
     commit_record api MSG_TYPE_MEMBER_REGRESSED
       (regressed_payload \<lparr>mr_member_ref = member_ref, mr_expected = expected, mr_head = head\<rparr>)"

definition roll_if_full :: "('t, 'w) writer_api \<Rightarrow> ('t, 'w, 'r, unit) mstep" where
  "roll_if_full api = (\<lambda>(t, m).
     if tgeo_file_roll_size (mx_geometry m) = 0 \<or> mx_bytes_in_segment m < tgeo_file_roll_size (mx_geometry m)
     then (Inr (), t, m)
     else (case wr_roll_file api t (mx_topic m) of
             (Inl e, t1, w1) \<Rightarrow> (Inl e, t1, m\<lparr>mx_topic := w1\<rparr>)
           | (Inr _, t1, w1) \<Rightarrow> emit_slot_table api (t1, m\<lparr>mx_topic := w1, mx_bytes_in_segment := 0\<rparr>)))"

subsection \<open>Merging\<close>

definition upd_slot :: "nat \<Rightarrow> ('r slot \<Rightarrow> 'r slot) \<Rightarrow> ('w, 'r) mux \<Rightarrow> ('w, 'r) mux" where
  "upd_slot i f m = m\<lparr>mx_slots := (mx_slots m)[i := f (mx_slots m ! i)]\<rparr>"

definition slot_frame_data :: "'r slot \<Rightarrow> record_frame \<Rightarrow> bytes" where
  "slot_frame_data s frame =
     frame_data \<lparr>pv_member_ref = mt_member_ref s, pv_member_index = rf_index frame,
                 pv_orig_user_meta = rf_user_meta frame\<rparr> (rf_payload frame)"

text \<open>The part of \<open>merge_one\<close> after the record was found acceptable.\<close>

definition merge_commit :: "('t, 'w) writer_api \<Rightarrow> nat \<Rightarrow> record_frame \<Rightarrow> bytes \<Rightarrow> ('t, 'w, 'r, bool) mstep" where
  "merge_commit api i frame payload =
     then_do (roll_if_full api)
    (then_do (commit_record api (rf_msg_type frame) payload)
    (then_do (modify (\<lambda>m. (upd_slot i (\<lambda>s. s\<lparr>mt_cursor := rf_index frame + 1\<rparr>) m)
                \<lparr>mx_since_slot_table := mx_since_slot_table m + 1\<rparr>))
    (then_do (\<lambda>(t, m). if mx_since_slot_table m \<ge> SLOT_TABLE_REFRESH then emit_slot_table api (t, m)
                       else (Inr (), t, m))
       (\<lambda>st. (Inr True, st)))))"

fun merge_one ::
  "('s, 'r) reader_api \<Rightarrow> ('t, 'w) writer_api \<Rightarrow> 's list \<Rightarrow> nat \<Rightarrow> 't \<times> ('w, 'r) mux \<Rightarrow>
     (bool io_result \<times> ('t \<times> ('w, 'r) mux) \<times> 's list) option" where
  "merge_one rapi wapi [] i (t, m) = None"
| "merge_one rapi wapi (s # ss) i (t, m) =
     (case try_next_frame rapi s (mt_source (mx_slots m ! i)) of
        (Inl e, src) \<Rightarrow> Some (Inl e, (t, upd_slot i (\<lambda>s. s\<lparr>mt_source := src\<rparr>) m), ss)
      | (Inr None, src) \<Rightarrow> Some (Inr False, (t, upd_slot i (\<lambda>s. s\<lparr>mt_source := src\<rparr>) m), ss)
      | (Inr (Some frame), src) \<Rightarrow>
          let m1 = upd_slot i (\<lambda>s. s\<lparr>mt_source := src\<rparr>) m;
              rejected = upd_slot i (\<lambda>s. s\<lparr>mt_rejected := mt_rejected s + 1, mt_cursor := rf_index frame + 1\<rparr>) m1
          in if is_control (rf_msg_type frame) then merge_one rapi wapi ss i (t, rejected)
             else
               let payload = slot_frame_data (mx_slots m1 ! i) frame;
                   mtu = unat (tgeo_mtu (mx_geometry m1))
               in if mtu > 0 \<and> length payload > mtu then merge_one rapi wapi ss i (t, rejected)
                  else (case merge_commit wapi i frame payload (t, m1) of (r, st) \<Rightarrow> Some (r, st, ss)))"

text \<open>Up to \<open>n\<close> records of slot \<open>i\<close>, then the slots after it.\<close>

fun merge_batch ::
  "('s, 'r) reader_api \<Rightarrow> ('t, 'w) writer_api \<Rightarrow> nat \<Rightarrow> 's list \<Rightarrow> nat \<Rightarrow> nat \<Rightarrow> 't \<times> ('w, 'r) mux \<Rightarrow>
     (nat io_result \<times> ('t \<times> ('w, 'r) mux) \<times> 's list) option" where
  "merge_batch rapi wapi 0 ss i merged st = Some (Inr merged, st, ss)"
| "merge_batch rapi wapi (Suc n) ss i merged st =
     (case merge_one rapi wapi ss i st of
        None \<Rightarrow> None
      | Some (Inl e, st', ss') \<Rightarrow> Some (Inl e, st', ss')
      | Some (Inr False, st', ss') \<Rightarrow> Some (Inr merged, st', ss')
      | Some (Inr True, st', ss') \<Rightarrow> merge_batch rapi wapi n ss' i (Suc merged) st')"

fun poll_slots ::
  "('s, 'r) reader_api \<Rightarrow> ('t, 'w) writer_api \<Rightarrow> nat \<Rightarrow> 's list \<Rightarrow> nat list \<Rightarrow> nat \<Rightarrow> 't \<times> ('w, 'r) mux \<Rightarrow>
     (nat io_result \<times> ('t \<times> ('w, 'r) mux) \<times> 's list) option" where
  "poll_slots rapi wapi n ss [] merged st = Some (Inr merged, st, ss)"
| "poll_slots rapi wapi n ss (i # is) merged st =
     (case merge_batch rapi wapi n ss i merged st of
        None \<Rightarrow> None
      | Some (Inl e, st', ss') \<Rightarrow> Some (Inl e, st', ss')
      | Some (Inr merged', st', ss') \<Rightarrow> poll_slots rapi wapi n ss' is merged' st')"

definition mux_poll ::
  "('s, 'r) reader_api \<Rightarrow> ('t, 'w) writer_api \<Rightarrow> 's list \<Rightarrow> 't \<times> ('w, 'r) mux \<Rightarrow>
     (nat io_result \<times> ('t \<times> ('w, 'r) mux) \<times> 's list) option" where
  "mux_poll rapi wapi ss st =
     (if mx_finished (snd st) then Some (Inr 0, st, ss)
      else poll_slots rapi wapi (mx_max_batch_per_member (snd st)) ss [0..<length (mx_slots (snd st))] 0 st)"


subsection \<open>Membership and status\<close>

definition has_member :: "('w, 'r) mux \<Rightarrow> rstring \<Rightarrow> u64 \<Rightarrow> bool" where
  "has_member m name epoch = list_ex (\<lambda>s. mt_name s = name \<and> mt_epoch s = epoch) (mx_slots m)"

definition mux_members :: "('w, 'r) mux \<Rightarrow> (rstring \<times> u64 \<times> u64) list" where
  "mux_members m = map (\<lambda>s. (mt_name s, mt_epoch s, mt_cursor s)) (mx_slots m)"

fun slot_stats :: "('s, 'r) reader_api \<Rightarrow> 's \<Rightarrow> 'r slot list \<Rightarrow> member_stat list io_result" where
  "slot_stats api s [] = Inr []"
| "slot_stats api s (x # xs) =
     and_then (source_head api s (mt_source x)) (\<lambda>head.
     and_then (slot_stats api s xs) (\<lambda>stats.
       Inr (\<lparr>stat_name = mt_name x, stat_epoch = mt_epoch x, stat_merged = mt_cursor x, stat_head = head,
             stat_lag = (if head \<ge> mt_cursor x then head - mt_cursor x else 0),
             stat_rejected = mt_rejected x\<rparr> # stats)))"

definition mux_status_of ::
  "('s, 'r) reader_api \<Rightarrow> ('t, 'w) writer_api \<Rightarrow> 's \<Rightarrow> ('w, 'r) mux \<Rightarrow> mux_status io_result" where
  "mux_status_of rapi wapi s m =
     and_then (slot_stats rapi s (mx_slots m)) (\<lambda>stats.
       Inr \<lparr>mxs_members = stats, mxs_topic_head = wr_next_index wapi (mx_topic m),
            mxs_gaps_emitted = mx_gaps_emitted m, mxs_slot_table_version = mx_slot_table_version m\<rparr>)"

datatype mark = MarkNone | MarkGap u64 u64 | MarkRegressed u64 u64

definition resume_at :: "u64 option \<Rightarrow> u64 \<Rightarrow> u64 \<Rightarrow> u64 \<times> mark" where
  "resume_at recovered earliest head =
     (let want = (case recovered of None \<Rightarrow> 0 | Some highest \<Rightarrow> highest + 1)
      in if want < earliest then (earliest, MarkGap want earliest)
         else if want > head then (head, MarkRegressed want head)
         else (want, MarkNone))"

definition emit_mark :: "('t, 'w) writer_api \<Rightarrow> u16 \<Rightarrow> mark \<Rightarrow> ('t, 'w, 'r, unit) mstep" where
  "emit_mark api member_ref mark =
     (case mark of
        MarkNone \<Rightarrow> (\<lambda>st. (Inr (), st))
      | MarkGap from resumed_at \<Rightarrow> emit_topic_gap api member_ref from resumed_at
      | MarkRegressed expected head \<Rightarrow> emit_member_regressed api member_ref expected head)"

definition add_member ::
  "('s, 'r) reader_api \<Rightarrow> ('t, 'w) writer_api \<Rightarrow> 's \<Rightarrow> 's \<Rightarrow> 's list \<Rightarrow> rstring \<Rightarrow> u64 \<Rightarrow> path \<Rightarrow>
     't \<times> ('w, 'r) mux \<Rightarrow> (unit io_result \<times> 't \<times> ('w, 'r) mux) option" where
  "add_member rapi wapi s0 s1 ss name epoch member_path st =
     (let (t, m) = st in
      if mx_finished m then Some (Inl (IoError InvalidInput ''mux is retired''), t, m)
      else if has_member m name epoch then Some (Inr (), t, m)
      else
        let member_ref = mx_next_ref m in
        if member_ref = -1 then Some (Inl (IoError OtherError ''mux member_ref space exhausted''), t, m)
        else
          let m1 = m\<lparr>mx_next_ref := member_ref + 1\<rparr> in
          case source_open rapi s0 member_path of
            Inl e \<Rightarrow> Some (Inl e, t, m1)
          | Inr (source, earliest) \<Rightarrow>
              (case source_head rapi s1 source of
                 Inl e \<Rightarrow> Some (Inl e, t, m1)
               | Inr head \<Rightarrow>
                   let (start, mark) = resume_at (mx_recovered m1 (name, epoch)) earliest head in
                   (case skip_to rapi ss start source of
                      None \<Rightarrow> None
                    | Some (Inl e, _) \<Rightarrow> Some (Inl e, t, m1)
                    | Some (Inr _, source') \<Rightarrow>
                        Some (then_do (emit_slot_table wapi) (emit_mark wapi member_ref mark)
                          (t, m1\<lparr>mx_slots := mx_slots m1 @
                            [\<lparr>mt_member_ref = member_ref, mt_name = name, mt_epoch = epoch,
                              mt_source = source', mt_cursor = start, mt_rejected = 0\<rparr>]\<rparr>)))))"

fun slot_position :: "'r slot list \<Rightarrow> rstring \<Rightarrow> u64 \<Rightarrow> nat option" where
  "slot_position [] name epoch = None"
| "slot_position (s # ss) name epoch =
     (if mt_name s = name \<and> mt_epoch s = epoch then Some 0 else map_option Suc (slot_position ss name epoch))"

text \<open>\<open>while self.merge_one(pos)? {}\<close>: every turn uses at least one moment.\<close>

function drain ::
  "('s, 'r) reader_api \<Rightarrow> ('t, 'w) writer_api \<Rightarrow> 's list \<Rightarrow> nat \<Rightarrow> 't \<times> ('w, 'r) mux \<Rightarrow>
     (unit io_result \<times> ('t \<times> ('w, 'r) mux) \<times> 's list) option" where
  "drain rapi wapi ss i st =
     (case merge_one rapi wapi ss i st of
        None \<Rightarrow> None
      | Some (Inl e, st', ss') \<Rightarrow> Some (Inl e, st', ss')
      | Some (Inr False, st', ss') \<Rightarrow> Some (Inr (), st', ss')
      | Some (Inr True, st', ss') \<Rightarrow> drain rapi wapi ss' i st')"
  by pat_completeness auto

lemma merge_one_uses_moment: "merge_one rapi wapi ss i st = Some (r, st', ss') \<Longrightarrow> length ss' < length ss"
  by (induction ss arbitrary: st)
     (fastforce split: prod.splits sum.splits option.splits if_splits simp: Let_def)+

termination drain
  by (relation "measure (\<lambda>(rapi, wapi, ss, i, st). length ss)") (auto dest: merge_one_uses_moment)

definition remove_member ::
  "('s, 'r) reader_api \<Rightarrow> ('t, 'w) writer_api \<Rightarrow> 's list \<Rightarrow> rstring \<Rightarrow> u64 \<Rightarrow>
     't \<times> ('w, 'r) mux \<Rightarrow> (bool io_result \<times> ('t \<times> ('w, 'r) mux) \<times> 's list) option" where
  "remove_member rapi wapi ss name epoch st =
     (case slot_position (mx_slots (snd st)) name epoch of
        None \<Rightarrow> Some (Inr False, st, ss)
      | Some pos \<Rightarrow>
          (case drain rapi wapi ss pos st of
             None \<Rightarrow> None
           | Some (Inl e, st', ss') \<Rightarrow> Some (Inl e, st', ss')
           | Some (Inr _, st', ss') \<Rightarrow>
               let s = mx_slots (snd st') ! pos in
               (case then_do (emit_member_closed wapi (mt_member_ref s) (mt_cursor s))
                      (then_do (modify (\<lambda>m. m\<lparr>mx_slots := take pos (mx_slots m) @ drop (Suc pos) (mx_slots m)\<rparr>))
                      (then_do (emit_slot_table wapi) (\<lambda>st. (Inr True, st)))) st' of
                  (r, st'') \<Rightarrow> Some (r, st'', ss'))))"

fun remove_all ::
  "('s, 'r) reader_api \<Rightarrow> ('t, 'w) writer_api \<Rightarrow> 's list \<Rightarrow> member_key list \<Rightarrow>
     't \<times> ('w, 'r) mux \<Rightarrow> (unit io_result \<times> ('t \<times> ('w, 'r) mux) \<times> 's list) option" where
  "remove_all rapi wapi ss [] st = Some (Inr (), st, ss)"
| "remove_all rapi wapi ss (k # ks) st =
     (case remove_member rapi wapi ss (fst k) (snd k) st of
        None \<Rightarrow> None
      | Some (Inl e, st', ss') \<Rightarrow> Some (Inl e, st', ss')
      | Some (Inr _, st', ss') \<Rightarrow> remove_all rapi wapi ss' ks st')"

definition mux_finish ::
  "('s, 'r) reader_api \<Rightarrow> ('t, 'w) writer_api \<Rightarrow> 's list \<Rightarrow>
     't \<times> ('w, 'r) mux \<Rightarrow> (unit io_result \<times> ('t \<times> ('w, 'r) mux) \<times> 's list) option" where
  "mux_finish rapi wapi ss st =
     (if mx_finished (snd st) then Some (Inr (), st, ss)
      else
        (case remove_all rapi wapi ss (map (\<lambda>s. (mt_name s, mt_epoch s)) (mx_slots (snd st))) st of
           None \<Rightarrow> None
         | Some (Inl e, st', ss') \<Rightarrow> Some (Inl e, st', ss')
         | Some (Inr _, st', ss') \<Rightarrow>
             (case then_do (commit_record wapi MSG_TYPE_TERMINAL [])
                    (modify (\<lambda>m. m\<lparr>mx_finished := True\<rparr>)) st' of
                (r, st'') \<Rightarrow> Some (r, st'', ss'))))"

end
