(* ===== verification/Codec.thy ===== *)
theory Codec
  imports Wire
begin

text \<open>
  The wire codec of \<open>xchannel-net-core/src/codec.rs\<close>. A writer operation maps the
  caller's buffer to the extended buffer (the \<open>W\<close> methods); a reader operation maps the
  cursor \<open>R\<close> to an error or to a value with the advanced cursor. The predicate
  \<open>decodes\<close> says that a reader undoes some bytes wherever they stand in a frame; the
  locale \<open>field_codec\<close> is the contract of a writer/reader pair, with the lemmas for
  options and counted lists proved once.
\<close>

definition invalid :: "string \<Rightarrow> io_error" where
  "invalid msg = IoError InvalidData msg"

subsection \<open>Writer\<close>

type_synonym writer = "bytes \<Rightarrow> bytes"

definition w_u8 :: "u8 \<Rightarrow> writer" where
  "w_u8 v buf = buf @ [v]"

definition w_u16 :: "u16 \<Rightarrow> writer" where
  "w_u16 v buf = buf @ le_bytes 2 v"

definition w_u32 :: "u32 \<Rightarrow> writer" where
  "w_u32 v buf = buf @ le_bytes 4 v"

definition w_u64 :: "u64 \<Rightarrow> writer" where
  "w_u64 v buf = buf @ le_bytes 8 v"

definition w_bytes :: "bytes \<Rightarrow> writer" where
  "w_bytes b buf = w_u32 (of_nat (length b)) buf @ b"

definition w_str :: "rstring \<Rightarrow> writer" where
  "w_str s = w_bytes s"

definition w_addr :: "socket_addr \<Rightarrow> writer" where
  "w_addr a = w_str (addr_to_string a)"

definition w_bool :: "bool \<Rightarrow> writer" where
  "w_bool b = w_u8 (if b then 1 else 0)"

subsection \<open>Reader\<close>

record reader =
  r_buf :: bytes
  r_pos :: nat

type_synonym 'a decoder = "reader \<Rightarrow> ('a \<times> reader) io_result"

definition r_new :: "bytes \<Rightarrow> reader" where
  "r_new buf = \<lparr>r_buf = buf, r_pos = 0\<rparr>"

definition dbind :: "'a decoder \<Rightarrow> ('a \<Rightarrow> 'b decoder) \<Rightarrow> 'b decoder" where
  "dbind d f r = and_then (d r) (\<lambda>(x, r'). f x r')"

definition dret :: "'a \<Rightarrow> 'a decoder" where
  "dret x r = Inr (x, r)"

definition dfail :: "string \<Rightarrow> 'a decoder" where
  "dfail msg r = Inl (invalid msg)"

definition r_take :: "nat \<Rightarrow> bytes decoder" where
  "r_take n r =
     (if r_pos r + n \<ge> 2 ^ 64 then Inl (invalid ''length overflow'')
      else if r_pos r + n > length (r_buf r) then Inl (invalid ''unexpected end of frame'')
      else Inr (take n (drop (r_pos r) (r_buf r)), r\<lparr>r_pos := r_pos r + n\<rparr>))"

definition r_u8 :: "u8 decoder" where
  "r_u8 = dbind (r_take 1) (\<lambda>b. dret (b ! 0))"

definition r_u16 :: "u16 decoder" where
  "r_u16 = dbind (r_take 2) (\<lambda>b. dret (of_le_bytes b))"

definition r_u32 :: "u32 decoder" where
  "r_u32 = dbind (r_take 4) (\<lambda>b. dret (of_le_bytes b))"

definition r_u64 :: "u64 decoder" where
  "r_u64 = dbind (r_take 8) (\<lambda>b. dret (of_le_bytes b))"

definition r_bytes :: "bytes decoder" where
  "r_bytes = dbind r_u32 (\<lambda>n. r_take (unat n))"

definition r_str :: "rstring decoder" where
  "r_str = dbind r_bytes (\<lambda>b.
     if utf8_valid b then dret b else dfail ''invalid utf-8 in string field'')"

definition r_addr :: "socket_addr decoder" where
  "r_addr = dbind r_str (\<lambda>s.
     case parse_socket_addr s of
       Some a \<Rightarrow> dret a | None \<Rightarrow> dfail ''invalid socket address field'')"

definition r_bool :: "bool decoder" where
  "r_bool = dbind r_u8 (\<lambda>b. dret (b \<noteq> 0))"

definition r_finish :: "reader \<Rightarrow> unit io_result" where
  "r_finish r = (if r_pos r = length (r_buf r) then Inr ()
                 else Inl (invalid ''trailing bytes after frame body''))"

text \<open>Every top-level decoder reads its message and then insists on the end of the frame.\<close>

definition decode_whole :: "'a decoder \<Rightarrow> bytes \<Rightarrow> 'a io_result" where
  "decode_whole d bs =
     and_then (d (r_new bs)) (\<lambda>(m, r). and_then (r_finish r) (\<lambda>_. Inr m))"

subsection \<open>Channel identities\<close>

definition w_opt_str :: "rstring option \<Rightarrow> writer" where
  "w_opt_str t w = (case t of Some topic \<Rightarrow> w_str topic (w_u8 1 w) | None \<Rightarrow> w_u8 0 w)"

definition r_opt_str :: "rstring option decoder" where
  "r_opt_str = dbind r_u8 (\<lambda>b. if b \<noteq> 0 then dbind r_str (\<lambda>s. dret (Some s)) else dret None)"

definition put_identity :: "channel_identity \<Rightarrow> writer" where
  "put_identity i w =
     (let w = w_str (ci_name i) w;
          w = w_u64 (ci_owner i) w;
          w = w_u32 (ci_region_size i) w;
          w = w_u32 (ci_mtu i) w;
          w = w_u64 (ci_earliest_index i) w;
          w = w_u64 (ci_registered_at_nanos i) w;
          w = w_u64 (ci_epoch i) w;
          w = w_bool (ci_deleted i) w
      in w_opt_str (ci_member_of i) w)"

definition identity_encoded_len :: "channel_identity \<Rightarrow> nat" where
  "identity_encoded_len i =
     (let s = (\<lambda>t. 4 + length t) in
      s (ci_name i) + 8 + 4 + 4 + 8 + 8 + 8 + 1 + 1
      + (case ci_member_of i of None \<Rightarrow> 0 | Some t \<Rightarrow> s t))"

definition identities_encoded_len :: "channel_identity list \<Rightarrow> nat" where
  "identities_encoded_len ids = sum_list (map identity_encoded_len ids)"

definition get_identity :: "channel_identity decoder" where
  "get_identity =
     dbind r_str (\<lambda>name. dbind r_u64 (\<lambda>owner. dbind r_u32 (\<lambda>region_size.
     dbind r_u32 (\<lambda>mtu. dbind r_u64 (\<lambda>earliest_index.
     dbind r_u64 (\<lambda>registered_at_nanos. dbind r_u64 (\<lambda>epoch.
     dbind r_bool (\<lambda>deleted. dbind r_opt_str (\<lambda>member_of.
       dret \<lparr>ci_name = name, ci_owner = owner, ci_region_size = region_size, ci_mtu = mtu,
             ci_earliest_index = earliest_index, ci_registered_at_nanos = registered_at_nanos,
             ci_epoch = epoch, ci_deleted = deleted, ci_member_of = member_of\<rparr>)))))))))"

definition put_identities :: "channel_identity list \<Rightarrow> writer" where
  "put_identities ids w = foldl (\<lambda>w i. put_identity i w) (w_u32 (of_nat (length ids)) w) ids"

primrec read_n :: "'a decoder \<Rightarrow> nat \<Rightarrow> 'a list decoder" where
  "read_n d 0 = dret []"
| "read_n d (Suc n) = dbind d (\<lambda>x. dbind (read_n d n) (\<lambda>xs. dret (x # xs)))"

definition get_identities :: "channel_identity list decoder" where
  "get_identities = dbind r_u32 (\<lambda>n. read_n get_identity (unat n))"

subsection \<open>Control messages\<close>

fun encode_control_into :: "control_msg \<Rightarrow> writer" where
  "encode_control_into (Register i) w = put_identity i (w_u8 0 w)"
| "encode_control_into (Deregister name owner) w = w_u64 owner (w_str name (w_u8 1 w))"
| "encode_control_into (RegistryDelta ids) w = put_identities ids (w_u8 2 w)"
| "encode_control_into (RegistrySync ids) w = put_identities ids (w_u8 3 w)"
| "encode_control_into (Heartbeat node addr control_addr name) w =
     w_str name (w_addr control_addr (w_addr addr (w_u64 node (w_u8 4 w))))"
| "encode_control_into (PeerHint node addr control_addr name) w =
     w_str name (w_addr control_addr (w_addr addr (w_u64 node (w_u8 6 w))))"
| "encode_control_into (Leaving node) w = w_u64 node (w_u8 7 w)"
| "encode_control_into (RegisterRejected name win) w = w_u64 win (w_str name (w_u8 5 w))"

definition encode_control :: "control_msg \<Rightarrow> bytes" where
  "encode_control m = encode_control_into m []"

definition get_control :: "control_msg decoder" where
  "get_control = dbind r_u8 (\<lambda>tag.
     if tag = 0 then dbind get_identity (\<lambda>i. dret (Register i))
     else if tag = 1 then
       dbind r_str (\<lambda>name. dbind r_u64 (\<lambda>owner. dret (Deregister name owner)))
     else if tag = 2 then dbind get_identities (\<lambda>ids. dret (RegistryDelta ids))
     else if tag = 3 then dbind get_identities (\<lambda>ids. dret (RegistrySync ids))
     else if tag = 4 then
       dbind r_u64 (\<lambda>node. dbind r_addr (\<lambda>addr. dbind r_addr (\<lambda>control_addr.
       dbind r_str (\<lambda>name. dret (Heartbeat node addr control_addr name)))))
     else if tag = 6 then
       dbind r_u64 (\<lambda>node. dbind r_addr (\<lambda>addr. dbind r_addr (\<lambda>control_addr.
       dbind r_str (\<lambda>name. dret (PeerHint node addr control_addr name)))))
     else if tag = 7 then dbind r_u64 (\<lambda>node. dret (Leaving node))
     else if tag = 5 then
       dbind r_str (\<lambda>name. dbind r_u64 (\<lambda>win. dret (RegisterRejected name win)))
     else dfail ''unknown ControlMsg tag'')"

definition decode_control :: "bytes \<Rightarrow> control_msg io_result" where
  "decode_control = decode_whole get_control"

subsection \<open>Stream messages\<close>

fun encode_stream_into :: "stream_msg \<Rightarrow> writer" where
  "encode_stream_into (Subscribe name from generation) w =
     w_u64 generation (w_u64 from (w_str name (w_u8 0 w)))"
| "encode_stream_into (SubscribeAck name sid start head region_size mtu roll keep generation) w =
     w_u64 generation (w_u32 keep (w_u64 roll (w_u32 mtu (w_u32 region_size
       (w_u64 head (w_u64 start (w_u32 sid (w_str name (w_u8 1 w)))))))))"
| "encode_stream_into (Record sid frame) w =
     w_bytes (rf_payload frame) (w_bool (rf_starts_segment frame) (w_u64 (rf_user_meta frame)
       (w_u16 (rf_msg_type frame) (w_u64 (rf_index frame) (w_u32 sid (w_u8 2 w))))))"
| "encode_stream_into (Gap name earliest head) w =
     w_u64 head (w_u64 earliest (w_str name (w_u8 3 w)))"
| "encode_stream_into (Diverged name earliest head) w =
     w_u64 head (w_u64 earliest (w_str name (w_u8 4 w)))"

definition encode_stream :: "stream_msg \<Rightarrow> bytes" where
  "encode_stream m = encode_stream_into m []"

definition get_stream :: "stream_msg decoder" where
  "get_stream = dbind r_u8 (\<lambda>tag.
     if tag = 0 then
       dbind r_str (\<lambda>name. dbind r_u64 (\<lambda>from. dbind r_u64 (\<lambda>generation.
         dret (Subscribe name from generation))))
     else if tag = 1 then
       dbind r_str (\<lambda>name. dbind r_u32 (\<lambda>sid. dbind r_u64 (\<lambda>start. dbind r_u64 (\<lambda>head.
       dbind r_u32 (\<lambda>region_size. dbind r_u32 (\<lambda>mtu. dbind r_u64 (\<lambda>roll.
       dbind r_u32 (\<lambda>keep. dbind r_u64 (\<lambda>generation.
         dret (SubscribeAck name sid start head region_size mtu roll keep generation))))))))))
     else if tag = 2 then
       dbind r_u32 (\<lambda>sid. dbind r_u64 (\<lambda>index. dbind r_u16 (\<lambda>msg_type.
       dbind r_u64 (\<lambda>user_meta. dbind r_bool (\<lambda>starts_segment. dbind r_bytes (\<lambda>payload.
         dret (Record sid \<lparr>rf_index = index, rf_msg_type = msg_type, rf_user_meta = user_meta,
                 rf_starts_segment = starts_segment, rf_payload = payload\<rparr>)))))))
     else if tag = 3 then
       dbind r_str (\<lambda>name. dbind r_u64 (\<lambda>earliest. dbind r_u64 (\<lambda>head.
         dret (Gap name earliest head))))
     else if tag = 4 then
       dbind r_str (\<lambda>name. dbind r_u64 (\<lambda>earliest. dbind r_u64 (\<lambda>head.
         dret (Diverged name earliest head))))
     else dfail ''unknown StreamMsg tag'')"

definition decode_stream :: "bytes \<Rightarrow> stream_msg io_result" where
  "decode_stream = decode_whole get_stream"

subsection \<open>Discovery records\<close>

definition upserted_type :: u16 where
  "upserted_type = 1"

definition removed_type :: u16 where
  "removed_type = 2"

definition put_info :: "channel_info \<Rightarrow> writer" where
  "put_info c w =
     (let w = w_str (info_name c) w;
          w = w_u64 (info_owner c) w;
          w = w_u64 (info_epoch c) w;
          w = w_bool (info_owner_live c) w;
          w = w_opt_str (info_member_of c) w;
          w = w_u32 (info_region_size c) w;
          w = w_u32 (info_mtu c) w
      in w_u64 (info_earliest_index c) w)"

definition get_info :: "channel_info decoder" where
  "get_info =
     dbind r_str (\<lambda>name. dbind r_u64 (\<lambda>owner. dbind r_u64 (\<lambda>epoch. dbind r_bool (\<lambda>owner_live.
     dbind r_opt_str (\<lambda>member_of. dbind r_u32 (\<lambda>region_size. dbind r_u32 (\<lambda>mtu.
     dbind r_u64 (\<lambda>earliest_index.
       dret \<lparr>info_name = name, info_owner = owner, info_epoch = epoch,
             info_owner_live = owner_live, info_member_of = member_of,
             info_region_size = region_size, info_mtu = mtu,
             info_earliest_index = earliest_index\<rparr>))))))))"

fun encode_change :: "channel_change \<Rightarrow> u16 \<times> bytes" where
  "encode_change (Upserted info) = (upserted_type, put_info info [])"
| "encode_change (Removed name epoch) = (removed_type, w_u64 epoch (w_str name []))"

definition get_change :: "u16 \<Rightarrow> channel_change decoder" where
  "get_change msg_type =
     (if msg_type = upserted_type then dbind get_info (\<lambda>i. dret (Upserted i))
      else if msg_type = removed_type then
        dbind r_str (\<lambda>name. dbind r_u64 (\<lambda>epoch. dret (Removed name epoch)))
      else dfail ''unknown discovery record type'')"

definition decode_change :: "u16 \<Rightarrow> bytes \<Rightarrow> channel_change io_result" where
  "decode_change msg_type = decode_whole (get_change msg_type)"

subsection \<open>Client requests and replies\<close>

definition put_status :: "subscription_status \<Rightarrow> writer" where
  "put_status s w =
     (let w = w_bool (ss_local s) w;
          w = w_bool (ss_active s) w;
          w = w_u64 (ss_synced s) w;
          w = w_u64 (ss_head_at_connect s) w;
          w = w_u64 (ss_owner s) w;
          w = w_bool (ss_owner_live s) w;
          w = w_u64 (ss_generation s) w;
          w = w_u64 (ss_last_record_at_ms s) w;
          w = w_u64 (ss_rebuilds_gap s) w;
          w = w_u64 (ss_rebuilds_diverged s) w
      in w_u64 (ss_last_rebuild_at_ms s) w)"

definition get_status :: "subscription_status decoder" where
  "get_status =
     dbind r_bool (\<lambda>local. dbind r_bool (\<lambda>active. dbind r_u64 (\<lambda>synced. dbind r_u64 (\<lambda>head.
     dbind r_u64 (\<lambda>owner. dbind r_bool (\<lambda>owner_live. dbind r_u64 (\<lambda>generation.
     dbind r_u64 (\<lambda>last_record. dbind r_u64 (\<lambda>rgap. dbind r_u64 (\<lambda>rdiv. dbind r_u64 (\<lambda>last_rebuild.
       dret \<lparr>ss_local = local, ss_active = active, ss_synced = synced, ss_head_at_connect = head,
             ss_owner = owner, ss_owner_live = owner_live, ss_generation = generation,
             ss_last_record_at_ms = last_record, ss_rebuilds_gap = rgap,
             ss_rebuilds_diverged = rdiv, ss_last_rebuild_at_ms = last_rebuild\<rparr>)))))))))))"

definition put_options :: "channel_options \<Rightarrow> writer" where
  "put_options p w =
     w_u32 (co_keep_files p) (w_u64 (co_file_roll_size p) (w_u32 (co_mtu p) (w_u32 (co_region_size p) w)))"

definition get_options :: "channel_options decoder" where
  "get_options =
     dbind r_u32 (\<lambda>region_size. dbind r_u32 (\<lambda>mtu. dbind r_u64 (\<lambda>roll. dbind r_u32 (\<lambda>keep.
       dret \<lparr>co_region_size = region_size, co_mtu = mtu, co_file_roll_size = roll,
             co_keep_files = keep\<rparr>))))"

definition put_topic_options :: "topic_options \<Rightarrow> writer" where
  "put_topic_options p w =
     w_u64 (to_member_reap_after_ms p) (w_u32 (to_max_batch_per_member p) (put_options (to_channel p) w))"

definition get_topic_options :: "topic_options decoder" where
  "get_topic_options =
     dbind get_options (\<lambda>channel. dbind r_u32 (\<lambda>batch. dbind r_u64 (\<lambda>reap.
       dret \<lparr>to_channel = channel, to_max_batch_per_member = batch,
             to_member_reap_after_ms = reap\<rparr>)))"

fun put_client_request :: "client_request \<Rightarrow> writer" where
  "put_client_request (ReqCreate name options) w = put_options options (w_str name (w_u8 0 w))"
| "put_client_request (ReqSubscribe name wait_ms) w = w_u64 wait_ms (w_str name (w_u8 1 w))"
| "put_client_request (ReqCreateTopic name options) w =
     put_topic_options options (w_str name (w_u8 2 w))"
| "put_client_request (ReqPublishToTopic topic member options) w =
     put_options options (w_str member (w_str topic (w_u8 3 w)))"
| "put_client_request (ReqSubscriptionStatus name) w = w_str name (w_u8 4 w)"
| "put_client_request (ReqDeregister name) w = w_str name (w_u8 5 w)"
| "put_client_request (ReqForceDeregister name) w = w_str name (w_u8 6 w)"
| "put_client_request (ReqListChannels p) w = w_str p (w_u8 7 w)"

definition encode_client_request :: "client_request \<Rightarrow> bytes" where
  "encode_client_request m = put_client_request m []"

definition get_client_request :: "client_request decoder" where
  "get_client_request = dbind r_u8 (\<lambda>tag.
     if tag = 0 then
       dbind r_str (\<lambda>name. dbind get_options (\<lambda>options. dret (ReqCreate name options)))
     else if tag = 1 then
       dbind r_str (\<lambda>name. dbind r_u64 (\<lambda>wait_ms. dret (ReqSubscribe name wait_ms)))
     else if tag = 2 then
       dbind r_str (\<lambda>name. dbind get_topic_options (\<lambda>options. dret (ReqCreateTopic name options)))
     else if tag = 3 then
       dbind r_str (\<lambda>topic. dbind r_str (\<lambda>member. dbind get_options (\<lambda>options.
         dret (ReqPublishToTopic topic member options))))
     else if tag = 4 then dbind r_str (\<lambda>name. dret (ReqSubscriptionStatus name))
     else if tag = 5 then dbind r_str (\<lambda>name. dret (ReqDeregister name))
     else if tag = 6 then dbind r_str (\<lambda>name. dret (ReqForceDeregister name))
     else if tag = 7 then dbind r_str (\<lambda>p. dret (ReqListChannels p))
     else dfail ''unknown ClientRequest tag'')"

definition decode_client_request :: "bytes \<Rightarrow> client_request io_result" where
  "decode_client_request = decode_whole get_client_request"

fun put_client_reply :: "client_reply \<Rightarrow> writer" where
  "put_client_reply (ReplyCreated path) w = w_str path (w_u8 0 w)"
| "put_client_reply (ReplySubscribed replica_path) w = w_str replica_path (w_u8 1 w)"
| "put_client_reply (ReplyError message) w = w_str message (w_u8 2 w)"
| "put_client_reply (ReplyStatus status) w = put_status status (w_u8 3 w)"
| "put_client_reply (ReplyDeregistered existed) w = w_bool existed (w_u8 4 w)"
| "put_client_reply (ReplyChannels cs cursor) w =
     (let w = w_u32 (of_nat (length cs)) (w_u8 5 w);
          w = foldl (\<lambda>w c. put_info c w) w cs
      in w_u64 (dc_from cursor) (w_u64 (dc_generation cursor) (w_str (dc_log_path cursor) w)))"

definition encode_client_reply :: "client_reply \<Rightarrow> bytes" where
  "encode_client_reply m = put_client_reply m []"

definition get_client_reply :: "client_reply decoder" where
  "get_client_reply = dbind r_u8 (\<lambda>tag.
     if tag = 0 then dbind r_str (\<lambda>path. dret (ReplyCreated path))
     else if tag = 1 then dbind r_str (\<lambda>path. dret (ReplySubscribed path))
     else if tag = 2 then dbind r_str (\<lambda>message. dret (ReplyError message))
     else if tag = 3 then dbind get_status (\<lambda>status. dret (ReplyStatus status))
     else if tag = 4 then dbind r_bool (\<lambda>existed. dret (ReplyDeregistered existed))
     else if tag = 5 then
       dbind (dbind r_u32 (\<lambda>n. read_n get_info (unat n))) (\<lambda>cs.
       dbind r_str (\<lambda>log_path. dbind r_u64 (\<lambda>generation. dbind r_u64 (\<lambda>from.
         dret (ReplyChannels cs \<lparr>dc_log_path = log_path, dc_generation = generation, dc_from = from\<rparr>)))))
     else dfail ''unknown ClientReply tag'')"

definition decode_client_reply :: "bytes \<Rightarrow> client_reply io_result" where
  "decode_client_reply = decode_whole get_client_reply"

end
