(* ===== verification/Codec_Props.thy ===== *)
theory Codec_Props
  imports Codec
begin

text \<open>
  What the codec guarantees: every well-formed message survives the round trip, nothing
  may follow it in its frame, no frame cut short decodes, every failure is an
  \<open>InvalidData\<close> error, and the decoded lists are bounded by the frame's length.
\<close>

subsection \<open>Readers undo bytes\<close>

definition decodes :: "'a decoder \<Rightarrow> bytes \<Rightarrow> 'a \<Rightarrow> bool" where
  "decodes d bs x \<longleftrightarrow>
     (\<forall>pre post. length (pre @ bs @ post) < 2 ^ 64 \<longrightarrow>
        d \<lparr>r_buf = pre @ bs @ post, r_pos = length pre\<rparr> =
        Inr (x, \<lparr>r_buf = pre @ bs @ post, r_pos = length pre + length bs\<rparr>))"

lemma decodes_ret: "decodes (dret x) [] x"
  by (simp add: decodes_def dret_def)

lemma decodes_bind:
  assumes "decodes d bs x" and "decodes (f x) cs y"
  shows "decodes (dbind d f) (bs @ cs) y"
  unfolding decodes_def
proof (intro allI impI)
  fix pre post :: bytes
  assume len: "length (pre @ (bs @ cs) @ post) < 2 ^ 64"
  have 1: "d \<lparr>r_buf = pre @ bs @ (cs @ post), r_pos = length pre\<rparr> =
      Inr (x, \<lparr>r_buf = pre @ bs @ (cs @ post), r_pos = length pre + length bs\<rparr>)"
    using assms(1) len unfolding decodes_def by (metis append_assoc)
  have 2: "f x \<lparr>r_buf = (pre @ bs) @ cs @ post, r_pos = length (pre @ bs)\<rparr> =
      Inr (y, \<lparr>r_buf = (pre @ bs) @ cs @ post, r_pos = length (pre @ bs) + length cs\<rparr>)"
    using assms(2) len unfolding decodes_def by (metis append_assoc)
  show "dbind d f \<lparr>r_buf = pre @ (bs @ cs) @ post, r_pos = length pre\<rparr> =
      Inr (y, \<lparr>r_buf = pre @ (bs @ cs) @ post, r_pos = length pre + length (bs @ cs)\<rparr>)"
    using 1 2 by (simp add: dbind_def add.assoc)
qed

lemma decodes_bind0:
  "decodes d bs x \<Longrightarrow> decodes (f x) [] y \<Longrightarrow> decodes (dbind d f) bs y"
  using decodes_bind [of d bs x f "[]" y] by simp

lemma decodes_map:
  assumes "decodes d bs x"
  shows "decodes (dbind d (\<lambda>x. dret (f x))) bs (f x)"
  using decodes_bind [where f = "\<lambda>x. dret (f x)", OF assms decodes_ret] by simp

lemma decodes_take: "decodes (r_take (length bs)) bs bs"
  by (auto simp: decodes_def r_take_def)

lemma decodes_take': "n = length bs \<Longrightarrow> decodes (r_take n) bs bs"
  by (simp add: decodes_take)

subsection \<open>The contract of a writer and a reader\<close>

text \<open>A writer appends the bytes of its value, and the reader undoes them on every value the
  predicate admits.\<close>

locale field_codec =
  fixes put :: "'a \<Rightarrow> writer"
    and image :: "'a \<Rightarrow> bytes"
    and pull :: "'a decoder"
    and ok :: "'a \<Rightarrow> bool"
  assumes put_appends: "put x w = w @ image x"
    and pull_decodes: "ok x \<Longrightarrow> decodes pull (image x) x"
begin

lemma put_all: "foldl (\<lambda>w x. put x w) w xs = w @ concat (map image xs)"
  by (induction xs arbitrary: w) (simp_all add: put_appends)

lemma pull_all: "list_all ok xs \<Longrightarrow> decodes (read_n pull (length xs)) (concat (map image xs)) xs"
proof (induction xs)
  case Nil
  show ?case by (simp add: decodes_ret)
next
  case (Cons x xs)
  then have "decodes pull (image x) x" "decodes (read_n pull (length xs)) (concat (map image xs)) xs"
    by (simp_all add: pull_decodes)
  then have "decodes (dbind pull (\<lambda>x. dbind (read_n pull (length xs)) (\<lambda>xs. dret (x # xs))))
      (image x @ concat (map image xs)) (x # xs)"
    by (intro decodes_bind [of pull "image x" x] decodes_map)
  then show ?case by simp
qed

lemma pull_frame:
  assumes "ok x" "length (put x [] @ t) < 2 ^ 64"
  shows "pull (r_new (put x [] @ t)) =
    Inr (x, \<lparr>r_buf = put x [] @ t, r_pos = length (put x [])\<rparr>)"
  using pull_decodes [OF assms(1), unfolded decodes_def, rule_format, of "[]" t] assms(2)
  by (simp add: r_new_def put_appends)

lemma frame_round_trip:
  assumes "ok x" "length (put x []) < 2 ^ 64"
  shows "decode_whole pull (put x []) = Inr x"
  using pull_frame [of x "[]"] assms by (simp add: decode_whole_def r_finish_def)

lemma frame_trailing:
  assumes "ok x" "t \<noteq> []" "length (put x [] @ t) < 2 ^ 64"
  shows "decode_whole pull (put x [] @ t) = Inl (invalid ''trailing bytes after frame body'')"
  using pull_frame [OF assms(1,3)] assms(2) by (simp add: decode_whole_def r_finish_def)

end

subsection \<open>Fields\<close>

definition u8_image :: "u8 \<Rightarrow> bytes" where "u8_image v = [v]"
definition u16_image :: "u16 \<Rightarrow> bytes" where "u16_image v = le_bytes 2 v"
definition u32_image :: "u32 \<Rightarrow> bytes" where "u32_image v = le_bytes 4 v"
definition u64_image :: "u64 \<Rightarrow> bytes" where "u64_image v = le_bytes 8 v"
definition bytes_image :: "bytes \<Rightarrow> bytes" where
  "bytes_image b = u32_image (of_nat (length b)) @ b"
definition str_image :: "rstring \<Rightarrow> bytes" where "str_image s = bytes_image s"
definition addr_image :: "socket_addr \<Rightarrow> bytes" where "addr_image a = str_image (addr_to_string a)"
definition bool_image :: "bool \<Rightarrow> bytes" where "bool_image b = u8_image (if b then 1 else 0)"
definition opt_str_image :: "rstring option \<Rightarrow> bytes" where
  "opt_str_image t = (case t of None \<Rightarrow> u8_image 0 | Some s \<Rightarrow> u8_image 1 @ str_image s)"

definition short :: "bytes \<Rightarrow> bool" where "short b \<longleftrightarrow> length b < 2 ^ 32"
definition str_ok :: "rstring \<Rightarrow> bool" where "str_ok s \<longleftrightarrow> short s \<and> utf8_valid s"
definition opt_str_ok :: "rstring option \<Rightarrow> bool" where
  "opt_str_ok t \<longleftrightarrow> (case t of None \<Rightarrow> True | Some s \<Rightarrow> str_ok s)"

lemma u8_decodes: "decodes r_u8 (u8_image v) v"
  using decodes_map [OF decodes_take [of "[v]"], of "\<lambda>b. b ! 0"] by (simp add: r_u8_def u8_image_def)

lemma le_decodes:
  fixes v :: "'a::len word"
  assumes "LENGTH('a) \<le> 8 * n"
  shows "decodes (dbind (r_take n) (\<lambda>b. dret (of_le_bytes b))) (le_bytes n v) v"
  using decodes_map [OF decodes_take [of "le_bytes n v"], of "of_le_bytes :: bytes \<Rightarrow> 'a word"] assms
  by (simp add: of_le_bytes_full)

lemma u16_decodes: "decodes r_u16 (u16_image v) v"
  unfolding r_u16_def u16_image_def by (rule le_decodes) simp

lemma u32_decodes: "decodes r_u32 (u32_image v) v"
  unfolding r_u32_def u32_image_def by (rule le_decodes) simp

lemma u64_decodes: "decodes r_u64 (u64_image v) v"
  unfolding r_u64_def u64_image_def by (rule le_decodes) simp

lemma bytes_decodes: "short b \<Longrightarrow> decodes r_bytes (bytes_image b) b"
  unfolding r_bytes_def bytes_image_def
  by (intro decodes_bind [OF u32_decodes] decodes_take') (simp add: short_def unat_of_nat_small)

lemma str_decodes: "str_ok s \<Longrightarrow> decodes r_str (str_image s) s"
  unfolding r_str_def str_image_def
  by (rule decodes_bind0 [OF bytes_decodes]) (simp_all add: str_ok_def decodes_ret)

lemma str_ok_addr: "addr_ok a \<Longrightarrow> str_ok (addr_to_string a)"
  using length_addr_to_string [of a] by (simp add: str_ok_def short_def)

lemma addr_decodes: "addr_ok a \<Longrightarrow> decodes r_addr (addr_image a) a"
  unfolding r_addr_def addr_image_def
  by (rule decodes_bind0 [OF str_decodes]) (simp_all add: str_ok_addr parse_addr_to_string decodes_ret)

lemma bool_decodes: "decodes r_bool (bool_image b) b"
  unfolding r_bool_def bool_image_def
  by (rule decodes_bind0 [OF u8_decodes]) (simp add: decodes_ret)

lemma opt_str_decodes: "opt_str_ok t \<Longrightarrow> decodes r_opt_str (opt_str_image t) t"
proof (cases t)
  case None
  then show ?thesis
    unfolding r_opt_str_def opt_str_image_def
    by simp (rule decodes_bind0 [OF u8_decodes], simp add: decodes_ret)
next
  case (Some s)
  assume "opt_str_ok t"
  with Some have "decodes (dbind r_str (\<lambda>s. dret (Some s))) (str_image s) (Some s)"
    by (intro decodes_map str_decodes) (simp add: opt_str_ok_def)
  with Some show ?thesis
    unfolding r_opt_str_def opt_str_image_def
    by simp (rule decodes_bind [OF u8_decodes], simp)
qed

lemmas field_decodes =
  u8_decodes u16_decodes u32_decodes u64_decodes bool_decodes bytes_decodes str_decodes
  addr_decodes opt_str_decodes

lemma w_image [enc_simps]:
  "w_u8 v w = w @ u8_image v"
  "w_u16 v16 w = w @ u16_image v16"
  "w_u32 v32 w = w @ u32_image v32"
  "w_u64 v64 w = w @ u64_image v64"
  "w_bytes b w = w @ bytes_image b"
  "w_str s w = w @ str_image s"
  "w_addr a w = w @ addr_image a"
  "w_bool c w = w @ bool_image c"
  "w_opt_str t w = w @ opt_str_image t"
  by (simp_all add: w_u8_def w_u16_def w_u32_def w_u64_def w_bytes_def w_str_def w_addr_def
      w_bool_def w_opt_str_def u8_image_def u16_image_def u32_image_def u64_image_def
      bytes_image_def str_image_def addr_image_def bool_image_def opt_str_image_def
      split: option.split)

interpretation str_codec: field_codec w_str str_image r_str str_ok
  by unfold_locales (simp_all add: enc_simps str_decodes)

interpretation addr_codec: field_codec w_addr addr_image r_addr addr_ok
  by unfold_locales (simp_all add: enc_simps addr_decodes)

subsection \<open>Identities\<close>

lemma decodes_retI: "x = y \<Longrightarrow> decodes (dret x) [] y"
  by (simp add: decodes_ret)

text \<open>A reader built from binds is matched field by field against the bytes.\<close>

lemmas decode_steps =
  field_decodes [THEN decodes_bind] field_decodes [THEN decodes_bind0] decodes_retI

definition identity_ok :: "channel_identity \<Rightarrow> bool" where
  "identity_ok i \<longleftrightarrow> str_ok (ci_name i) \<and> opt_str_ok (ci_member_of i)"

definition identity_image :: "channel_identity \<Rightarrow> bytes" where
  "identity_image i =
     str_image (ci_name i) @ u64_image (ci_owner i) @ u32_image (ci_region_size i) @
     u32_image (ci_mtu i) @ u64_image (ci_earliest_index i) @
     u64_image (ci_registered_at_nanos i) @ u64_image (ci_epoch i) @
     bool_image (ci_deleted i) @ opt_str_image (ci_member_of i)"

lemma put_identity_image [enc_simps]: "put_identity i w = w @ identity_image i"
  by (simp add: put_identity_def identity_image_def enc_simps)

lemma identity_decodes: "identity_ok i \<Longrightarrow> decodes get_identity (identity_image i) i"
  unfolding get_identity_def identity_image_def identity_ok_def
  by (intro decode_steps) simp_all

interpretation identity_codec: field_codec put_identity identity_image get_identity identity_ok
  by unfold_locales (simp_all add: enc_simps identity_decodes)

definition identities_ok :: "channel_identity list \<Rightarrow> bool" where
  "identities_ok ids \<longleftrightarrow> length ids < 2 ^ 32 \<and> list_all identity_ok ids"

definition identities_image :: "channel_identity list \<Rightarrow> bytes" where
  "identities_image ids = u32_image (of_nat (length ids)) @ concat (map identity_image ids)"

lemma put_identities_image [enc_simps]: "put_identities ids w = w @ identities_image ids"
  by (simp add: put_identities_def identities_image_def identity_codec.put_all w_image)

lemma identities_decodes: "identities_ok ids \<Longrightarrow> decodes get_identities (identities_image ids) ids"
  unfolding get_identities_def identities_image_def identities_ok_def
  by (rule decodes_bind [OF u32_decodes])
     (simp add: unat_of_nat_small identity_codec.pull_all)

subsection \<open>Control and stream messages\<close>

fun control_ok :: "control_msg \<Rightarrow> bool" where
  "control_ok (Register i) = identity_ok i"
| "control_ok (Deregister name owner) = str_ok name"
| "control_ok (RegistryDelta ids) = identities_ok ids"
| "control_ok (RegistrySync ids) = identities_ok ids"
| "control_ok (Heartbeat node addr control_addr name) =
     (addr_ok addr \<and> addr_ok control_addr \<and> str_ok name)"
| "control_ok (PeerHint node addr control_addr name) =
     (addr_ok addr \<and> addr_ok control_addr \<and> str_ok name)"
| "control_ok (Leaving node) = True"
| "control_ok (RegisterRejected name win) = str_ok name"

lemma encode_control_into_append:
  "encode_control_into m w = w @ encode_control m"
  by (cases m) (simp_all add: encode_control_def enc_simps)

lemma control_decodes: "control_ok m \<Longrightarrow> decodes get_control (encode_control m) m"
  unfolding get_control_def
  by (cases m; simp add: encode_control_def enc_simps)
     (rule decodes_bind [OF u8_decodes], simp, intro identity_decodes [THEN decodes_bind0]
       identities_decodes [THEN decodes_bind0] decode_steps; simp)+

interpretation control_codec: field_codec encode_control_into encode_control get_control control_ok
  by unfold_locales (simp_all add: encode_control_into_append control_decodes)

fun stream_ok :: "stream_msg \<Rightarrow> bool" where
  "stream_ok (Subscribe name from generation) = str_ok name"
| "stream_ok (SubscribeAck name sid start head region_size mtu roll keep generation) = str_ok name"
| "stream_ok (Record sid frame) = short (rf_payload frame)"
| "stream_ok (Gap name earliest head) = str_ok name"
| "stream_ok (Diverged name earliest head) = str_ok name"

lemma encode_stream_into_append:
  "encode_stream_into m w = w @ encode_stream m"
  by (cases m) (simp_all add: encode_stream_def enc_simps)

lemma stream_decodes: "stream_ok m \<Longrightarrow> decodes get_stream (encode_stream m) m"
  unfolding get_stream_def
  by (cases m; simp add: encode_stream_def enc_simps)
     (rule decodes_bind [OF u8_decodes], simp, intro decode_steps; simp)+

interpretation stream_codec: field_codec encode_stream_into encode_stream get_stream stream_ok
  by unfold_locales (simp_all add: encode_stream_into_append stream_decodes)

subsection \<open>Discovery records, requests and replies\<close>

definition info_ok :: "channel_info \<Rightarrow> bool" where
  "info_ok c \<longleftrightarrow> str_ok (info_name c) \<and> opt_str_ok (info_member_of c)"

definition info_image :: "channel_info \<Rightarrow> bytes" where
  "info_image c =
     str_image (info_name c) @ u64_image (info_owner c) @ u64_image (info_epoch c) @
     bool_image (info_owner_live c) @ opt_str_image (info_member_of c) @
     u32_image (info_region_size c) @ u32_image (info_mtu c) @ u64_image (info_earliest_index c)"

lemma put_info_image: "put_info c w = w @ info_image c"
  by (simp add: put_info_def info_image_def enc_simps)

lemma info_decodes: "info_ok c \<Longrightarrow> decodes get_info (info_image c) c"
  unfolding get_info_def info_image_def info_ok_def
  by (intro decode_steps) simp_all

interpretation info_codec: field_codec put_info info_image get_info info_ok
  by unfold_locales (simp_all add: put_info_image info_decodes)

fun change_ok :: "channel_change \<Rightarrow> bool" where
  "change_ok (Upserted i) = info_ok i"
| "change_ok (Removed name epoch) = str_ok name"

lemma change_decodes:
  "change_ok c \<Longrightarrow> decodes (get_change (fst (encode_change c))) (snd (encode_change c)) c"
  unfolding get_change_def
  by (cases c; simp add: upserted_type_def removed_type_def put_info_image w_image)
     (intro info_decodes [THEN decodes_bind0] decode_steps; simp)+

definition status_image :: "subscription_status \<Rightarrow> bytes" where
  "status_image s =
     bool_image (ss_local s) @ bool_image (ss_active s) @ u64_image (ss_synced s) @
     u64_image (ss_head_at_connect s) @ u64_image (ss_owner s) @ bool_image (ss_owner_live s) @
     u64_image (ss_generation s) @ u64_image (ss_last_record_at_ms s) @
     u64_image (ss_rebuilds_gap s) @ u64_image (ss_rebuilds_diverged s) @
     u64_image (ss_last_rebuild_at_ms s)"

lemma put_status_image [enc_simps]: "put_status s w = w @ status_image s"
  by (simp add: put_status_def status_image_def w_image)

lemma status_decodes: "decodes get_status (status_image s) s"
  unfolding get_status_def status_image_def by (intro decode_steps) simp_all

definition options_image :: "channel_options \<Rightarrow> bytes" where
  "options_image p =
     u32_image (co_region_size p) @ u32_image (co_mtu p) @ u64_image (co_file_roll_size p) @
     u32_image (co_keep_files p)"

lemma put_options_image [enc_simps]: "put_options p w = w @ options_image p"
  by (simp add: put_options_def options_image_def w_image)

lemma options_decodes: "decodes get_options (options_image p) p"
  unfolding get_options_def options_image_def by (intro decode_steps) simp_all

definition topic_options_image :: "topic_options \<Rightarrow> bytes" where
  "topic_options_image p =
     options_image (to_channel p) @ u32_image (to_max_batch_per_member p) @
     u64_image (to_member_reap_after_ms p)"

lemma put_topic_options_image [enc_simps]: "put_topic_options p w = w @ topic_options_image p"
  by (simp add: put_topic_options_def topic_options_image_def enc_simps)

lemma topic_options_decodes: "decodes get_topic_options (topic_options_image p) p"
  unfolding get_topic_options_def topic_options_image_def
  by (intro options_decodes [THEN decodes_bind] decode_steps) simp_all

fun request_ok :: "client_request \<Rightarrow> bool" where
  "request_ok (ReqCreate name options) = str_ok name"
| "request_ok (ReqSubscribe name wait_ms) = str_ok name"
| "request_ok (ReqCreateTopic name options) = str_ok name"
| "request_ok (ReqPublishToTopic topic member options) = (str_ok topic \<and> str_ok member)"
| "request_ok (ReqSubscriptionStatus name) = str_ok name"
| "request_ok (ReqDeregister name) = str_ok name"
| "request_ok (ReqForceDeregister name) = str_ok name"
| "request_ok (ReqListChannels p) = str_ok p"

lemma put_client_request_append: "put_client_request m w = w @ encode_client_request m"
  by (cases m) (simp_all add: encode_client_request_def enc_simps)

lemma request_decodes:
  "request_ok m \<Longrightarrow> decodes get_client_request (encode_client_request m) m"
  unfolding get_client_request_def
  by (cases m; simp add: encode_client_request_def enc_simps)
     (rule decodes_bind [OF u8_decodes], simp, intro options_decodes [THEN decodes_bind0]
       topic_options_decodes [THEN decodes_bind0] decode_steps; simp)+

interpretation request_codec:
  field_codec put_client_request encode_client_request get_client_request request_ok
  by unfold_locales (simp_all add: put_client_request_append request_decodes)

fun reply_ok :: "client_reply \<Rightarrow> bool" where
  "reply_ok (ReplyCreated path) = str_ok path"
| "reply_ok (ReplySubscribed path) = str_ok path"
| "reply_ok (ReplyError message) = str_ok message"
| "reply_ok (ReplyStatus status) = True"
| "reply_ok (ReplyDeregistered existed) = True"
| "reply_ok (ReplyChannels cs cursor) =
     (length cs < 2 ^ 32 \<and> list_all info_ok cs \<and> str_ok (dc_log_path cursor))"

definition infos_image :: "channel_info list \<Rightarrow> bytes" where
  "infos_image cs = u32_image (of_nat (length cs)) @ concat (map info_image cs)"

lemma infos_decodes:
  "length cs < 2 ^ 32 \<Longrightarrow> list_all info_ok cs \<Longrightarrow>
     decodes (dbind r_u32 (\<lambda>n. read_n get_info (unat n))) (infos_image cs) cs"
  unfolding infos_image_def
  by (rule decodes_bind [OF u32_decodes]) (simp add: unat_of_nat_small info_codec.pull_all)

lemma put_client_reply_append: "put_client_reply m w = w @ encode_client_reply m"
  by (cases m) (simp_all add: encode_client_reply_def enc_simps info_codec.put_all)

lemma encode_channels:
  "encode_client_reply (ReplyChannels cs cursor) =
     u8_image 5 @ infos_image cs @ str_image (dc_log_path cursor) @
     u64_image (dc_generation cursor) @ u64_image (dc_from cursor)"
  by (simp add: encode_client_reply_def w_image info_codec.put_all infos_image_def)

lemma reply_decodes:
  assumes "reply_ok m" shows "decodes get_client_reply (encode_client_reply m) m"
proof (cases m)
  case (ReplyChannels cs cursor)
  with assms show ?thesis
    unfolding get_client_reply_def ReplyChannels encode_channels
    by (intro decodes_bind [OF u8_decodes]) (simp, intro infos_decodes [THEN decodes_bind] decode_steps; simp)
qed (insert assms, unfold get_client_reply_def, (simp add: encode_client_reply_def enc_simps,
      rule decodes_bind [OF u8_decodes], simp,
      intro status_decodes [THEN decodes_bind0] decode_steps; simp)+)

interpretation reply_codec: field_codec put_client_reply encode_client_reply get_client_reply reply_ok
  by unfold_locales (simp_all add: put_client_reply_append reply_decodes)

subsection \<open>Readers fail cleanly and look only at what they consume\<close>

text \<open>A sound reader reports \<open>InvalidData\<close> or moves forward inside the buffer, and its result
  does not depend on what follows the bytes it consumed.\<close>

definition reader_ok :: "'a decoder \<Rightarrow> bool" where
  "reader_ok d \<longleftrightarrow>
     (\<forall>r. case d r of
        Inl e \<Rightarrow> ekind e = InvalidData
      | Inr (x, r') \<Rightarrow>
          r_buf r' = r_buf r \<and> r_pos r \<le> r_pos r' \<and>
          (r_pos r \<le> length (r_buf r) \<longrightarrow> r_pos r' \<le> length (r_buf r)) \<and>
          (\<forall>t. d (r\<lparr>r_buf := r_buf r @ t\<rparr>) = Inr (x, r'\<lparr>r_buf := r_buf r @ t\<rparr>)))"

lemma reader_okD:
  assumes "reader_ok d" "d r = Inr (x, r')"
  shows "r_buf r' = r_buf r" "r_pos r \<le> r_pos r'"
    "r_pos r \<le> length (r_buf r) \<Longrightarrow> r_pos r' \<le> length (r_buf r)"
    "d (r\<lparr>r_buf := r_buf r @ t\<rparr>) = Inr (x, r'\<lparr>r_buf := r_buf r @ t\<rparr>)"
  using assms unfolding reader_ok_def by (auto dest!: spec [of _ r])

lemma reader_ok_error: "reader_ok d \<Longrightarrow> d r = Inl e \<Longrightarrow> ekind e = InvalidData"
  unfolding reader_ok_def by (auto dest!: spec [of _ r])

lemma reader_ok_ret: "reader_ok (dret x)"
  by (simp add: reader_ok_def dret_def)

lemma reader_ok_fail: "reader_ok (dfail m)"
  by (simp add: reader_ok_def dfail_def invalid_def)

lemma reader_ok_take: "reader_ok (r_take n)"
  by (auto simp: reader_ok_def r_take_def invalid_def)

lemma reader_ok_bind:
  assumes d: "reader_ok d" and f: "\<And>x. reader_ok (f x)"
  shows "reader_ok (dbind d f)"
  unfolding reader_ok_def
proof
  fix r
  show "case dbind d f r of
        Inl e \<Rightarrow> ekind e = InvalidData
      | Inr (x, r') \<Rightarrow>
          r_buf r' = r_buf r \<and> r_pos r \<le> r_pos r' \<and>
          (r_pos r \<le> length (r_buf r) \<longrightarrow> r_pos r' \<le> length (r_buf r)) \<and>
          (\<forall>t. dbind d f (r\<lparr>r_buf := r_buf r @ t\<rparr>) = Inr (x, r'\<lparr>r_buf := r_buf r @ t\<rparr>))"
  proof (cases "d r")
    case (Inl e)
    with reader_ok_error [OF d] show ?thesis by (simp add: dbind_def)
  next
    case (Inr p)
    obtain x r1 where p: "d r = Inr (x, r1)" using Inr by (cases p) simp
    note D = reader_okD [OF d p]
    show ?thesis
    proof (cases "f x r1")
      case (Inl e)
      with reader_ok_error [OF f] p show ?thesis by (simp add: dbind_def)
    next
      case (Inr q)
      obtain y r2 where q: "f x r1 = Inr (y, r2)" using Inr by (cases q) simp
      note F = reader_okD [OF f q]
      have "dbind d f (r\<lparr>r_buf := r_buf r @ t\<rparr>) = Inr (y, r2\<lparr>r_buf := r_buf r @ t\<rparr>)" for t
        using D(4) [of t] F(4) [of t] D(1) by (simp add: dbind_def)
      then show ?thesis using p q D F by (simp add: dbind_def)
    qed
  qed
qed

lemma reader_ok_read_n: "reader_ok d \<Longrightarrow> reader_ok (read_n d n)"
  by (induction n) (simp_all add: reader_ok_ret reader_ok_bind)

lemma reader_ok_if: "reader_ok a \<Longrightarrow> reader_ok b \<Longrightarrow> reader_ok (if c then a else b)"
  by simp

lemmas reader_ok_steps =
  reader_ok_bind reader_ok_ret reader_ok_fail reader_ok_take reader_ok_read_n reader_ok_if

lemma reader_ok_fields:
  "reader_ok r_u8" "reader_ok r_u16" "reader_ok r_u32" "reader_ok r_u64" "reader_ok r_bool"
  "reader_ok r_bytes" "reader_ok r_str" "reader_ok r_opt_str" "reader_ok r_addr"
proof -
  show u8: "reader_ok r_u8" and "reader_ok r_u16" and u32: "reader_ok r_u32" and "reader_ok r_u64"
    unfolding r_u8_def r_u16_def r_u32_def r_u64_def by (intro reader_ok_steps)+
  from u8 show "reader_ok r_bool" unfolding r_bool_def by (intro reader_ok_steps)
  from u32 show bytes: "reader_ok r_bytes" unfolding r_bytes_def by (intro reader_ok_steps)
  then show str: "reader_ok r_str" unfolding r_str_def by (intro reader_ok_steps)
  with u8 show "reader_ok r_opt_str" unfolding r_opt_str_def by (intro reader_ok_steps)
  have "reader_ok (case p of Some a \<Rightarrow> dret a | None \<Rightarrow> dfail m)" for p :: "socket_addr option" and m
    by (simp add: reader_ok_ret reader_ok_fail split: option.split)
  with str show "reader_ok r_addr" unfolding r_addr_def by (intro reader_ok_bind)
qed

lemma reader_ok_messages:
  "reader_ok get_identity" "reader_ok get_identities" "reader_ok get_info"
  "reader_ok get_options" "reader_ok get_topic_options" "reader_ok get_status"
  unfolding get_identity_def get_identities_def get_info_def get_options_def
    get_topic_options_def get_status_def
  by (intro reader_ok_steps reader_ok_fields)+

lemma reader_ok_top:
  "reader_ok get_control" "reader_ok get_stream" "reader_ok get_client_request"
  "reader_ok get_client_reply" "reader_ok (get_change ty)"
  unfolding get_control_def get_stream_def get_client_request_def get_client_reply_def get_change_def
  by (intro reader_ok_steps reader_ok_fields reader_ok_messages)+

subsection \<open>Whole frames\<close>

lemma decode_whole_error:
  assumes "reader_ok d" "decode_whole d bs = Inl e" shows "ekind e = InvalidData"
  using assms(2) reader_ok_error [OF assms(1)]
  by (auto simp: decode_whole_def and_then_def r_finish_def invalid_def split: sum.splits if_splits)

locale frame_codec = field_codec put image pull ok
  for put :: "'a \<Rightarrow> writer" and image pull ok +
  assumes pull_sound: "reader_ok pull"
begin

lemma frame_truncated:
  assumes "ok x" "put x [] = p @ t" "t \<noteq> []" "length (put x []) < 2 ^ 64"
  shows "\<exists>e. decode_whole pull p = Inl e"
proof (rule ccontr)
  assume "\<not> ?thesis"
  then obtain y r where y: "pull (r_new p) = Inr (y, r)" "r_pos r = length p"
    by (cases "pull (r_new p)") (auto simp: decode_whole_def r_finish_def split: if_splits
        dest: reader_okD(1) [OF pull_sound] simp: r_new_def)
  from reader_okD(4) [OF pull_sound y(1), of t] have
    "pull (r_new (p @ t)) = Inr (y, r\<lparr>r_buf := p @ t\<rparr>)" by (simp add: r_new_def)
  moreover have "pull (r_new (p @ t)) = Inr (x, \<lparr>r_buf = p @ t, r_pos = length (p @ t)\<rparr>)"
    using pull_frame [of x "[]"] assms by simp
  ultimately have "r_pos r = length (p @ t)" by (metis Inr_inject prod.inject reader.select_convs(2) reader.update_convs(1) reader.surjective reader.ext_inject)
  with y(2) assms(3) show False by simp
qed

end

interpretation control_frames: frame_codec encode_control_into encode_control get_control control_ok
  by unfold_locales (rule reader_ok_top)

interpretation stream_frames: frame_codec encode_stream_into encode_stream get_stream stream_ok
  by unfold_locales (rule reader_ok_top)

interpretation request_frames:
  frame_codec put_client_request encode_client_request get_client_request request_ok
  by unfold_locales (rule reader_ok_top)

interpretation reply_frames:
  frame_codec put_client_reply encode_client_reply get_client_reply reply_ok
  by unfold_locales (rule reader_ok_top)

subsection \<open>Lengths\<close>

definition consumes :: "nat \<Rightarrow> 'a decoder \<Rightarrow> bool" where
  "consumes k d \<longleftrightarrow> (\<forall>r x r'. d r = Inr (x, r') \<longrightarrow> r_pos r + k \<le> r_pos r')"

lemma consumes_bind:
  assumes "consumes j d" "\<And>x. consumes k (f x)" shows "consumes (j + k) (dbind d f)"
  unfolding consumes_def
proof (intro allI impI)
  fix r y r2 assume "dbind d f r = Inr (y, r2)"
  then obtain x r1 where "d r = Inr (x, r1)" "f x r1 = Inr (y, r2)"
    by (cases "d r") (auto simp: dbind_def)
  with assms have "r_pos r + j \<le> r_pos r1" "r_pos r1 + k \<le> r_pos r2"
    unfolding consumes_def by blast+
  then show "r_pos r + (j + k) \<le> r_pos r2" by simp
qed

lemma consumes_ret: "consumes 0 (dret x)"
  by (simp add: consumes_def dret_def)

lemma consumes_any: "reader_ok d \<Longrightarrow> consumes 0 d"
  by (auto simp: consumes_def dest: reader_okD(2))

lemma consumes_take: "consumes n (r_take n)"
  by (auto simp: consumes_def r_take_def split: if_splits)

lemma consumes_fields:
  "consumes 1 r_u8" "consumes 4 r_u32" "consumes 8 r_u64" "consumes 1 r_bool" "consumes 4 r_str"
  "consumes 1 r_opt_str"
proof -
  have k: "consumes n (dbind (r_take n) (\<lambda>b. dret (g b)))" for n and g :: "bytes \<Rightarrow> 'b"
    using consumes_bind [OF consumes_take consumes_ret, of n] by simp
  show u8: "consumes 1 r_u8" and u32: "consumes 4 r_u32" and "consumes 8 r_u64"
    unfolding r_u8_def r_u32_def r_u64_def by (rule k)+
  show "consumes 1 r_bool"
    unfolding r_bool_def using consumes_bind [OF u8 consumes_ret] by simp
  have b: "consumes 4 r_bytes"
    unfolding r_bytes_def using consumes_bind [OF u32 consumes_any [OF reader_ok_take]] by simp
  have u: "reader_ok (if utf8_valid x then dret x else dfail ''invalid utf-8 in string field'')" for x
    by (intro reader_ok_steps)
  show "consumes 4 r_str"
    unfolding r_str_def using consumes_bind [OF b consumes_any [OF u]] by simp
  have o: "reader_ok (if b \<noteq> 0 then dbind r_str (\<lambda>s. dret (Some s)) else dret None)" for b :: u8
    by (intro reader_ok_steps reader_ok_fields)
  show "consumes 1 r_opt_str"
    unfolding r_opt_str_def using consumes_bind [OF u8 consumes_any [OF o]] by simp
qed

lemma consumes_identity: "consumes 46 get_identity"
proof -
  have "consumes (4 + (8 + (4 + (4 + (8 + (8 + (8 + (1 + (1 + 0))))))))) get_identity"
    unfolding get_identity_def by (intro consumes_bind consumes_fields consumes_ret)
  then show ?thesis by simp
qed

lemma consumes_info: "consumes 38 get_info"
proof -
  have "consumes (4 + (8 + (8 + (1 + (1 + (4 + (4 + (8 + 0)))))))) get_info"
    unfolding get_info_def by (intro consumes_bind consumes_fields consumes_ret)
  then show ?thesis by simp
qed

lemma read_n_consumes:
  assumes "consumes k d" "read_n d n r = Inr (xs, r')"
  shows "length xs = n \<and> r_pos r + k * n \<le> r_pos r'"
  using assms(2)
proof (induction n arbitrary: r xs)
  case 0
  then show ?case by (simp add: dret_def)
next
  case (Suc n)
  then obtain x r1 ys where *: "d r = Inr (x, r1)" "read_n d n r1 = Inr (ys, r')" "xs = x # ys"
    by (cases "d r"; cases "read_n d n (snd (projr (d r)))")
       (auto simp: dbind_def dret_def and_then_def split: sum.splits)
  from Suc.IH [OF *(2)] assms(1) *(1,3) show ?case
    unfolding consumes_def by fastforce
qed

lemma counted_bound:
  assumes "consumes k d" "dbind r_u32 (\<lambda>n. read_n d (unat n)) r = Inr (xs, r')"
  shows "r_pos r + 4 + k * length xs \<le> r_pos r'"
proof -
  from assms(2) obtain n r1 where *: "r_u32 r = Inr (n, r1)" "read_n d (unat n) r1 = Inr (xs, r')"
    by (cases "r_u32 r") (auto simp: dbind_def)
  from read_n_consumes [OF assms(1) *(2)] consumes_fields(2) *(1) show ?thesis
    unfolding consumes_def by fastforce
qed

lemma decode_whole_Inr:
  assumes "reader_ok d" "decode_whole d bs = Inr m"
  shows "\<exists>r. d (r_new bs) = Inr (m, r) \<and> r_pos r = length bs"
  using assms reader_okD(1) [OF assms(1)]
  by (cases "d (r_new bs)") (auto simp: decode_whole_def r_finish_def r_new_def split: if_splits)

lemma dbind_Inr: "dbind d f r = Inr (y, r2) \<longleftrightarrow> (\<exists>x r1. d r = Inr (x, r1) \<and> f x r1 = Inr (y, r2))"
  by (cases "d r") (auto simp: dbind_def)

lemma dret_Inr [simp]: "dret x r = Inr (y, r') \<longleftrightarrow> y = x \<and> r' = r"
  by (auto simp: dret_def)

lemma dfail_Inr [simp]: "dfail m r \<noteq> Inr z"
  by (simp add: dfail_def)

lemma get_control_lists:
  assumes "get_control r = Inr (m, r')" "m = RegistryDelta ids \<or> m = RegistrySync ids"
  shows "r_pos r + 5 + 46 * length ids \<le> r_pos r'"
proof -
  from assms obtain tag r1 where 1: "r_u8 r = Inr (tag, r1)" "get_identities r1 = Inr (ids, r')"
    unfolding get_control_def by (auto simp: dbind_Inr split: if_splits)
  from consumes_fields(1) 1(1) have "r_pos r + 1 \<le> r_pos r1" unfolding consumes_def by blast
  with counted_bound [OF consumes_identity 1(2) [unfolded get_identities_def]] show ?thesis by simp
qed

lemma length_image [simp]:
  "length (u8_image v) = 1" "length (u16_image v16) = 2" "length (u32_image v32) = 4"
  "length (u64_image v64) = 8" "length (bool_image b) = 1"
  "length (bytes_image bs) = 4 + length bs" "length (str_image s) = 4 + length s"
  "length (opt_str_image t) = 1 + (case t of None \<Rightarrow> 0 | Some s \<Rightarrow> 4 + length s)"
  by (simp_all add: u8_image_def u16_image_def u32_image_def u64_image_def bool_image_def
      bytes_image_def str_image_def opt_str_image_def split: option.split)

lemma length_identity_image: "length (identity_image i) = identity_encoded_len i"
  by (simp add: identity_image_def identity_encoded_len_def split: option.split)

subsection \<open>Properties\<close>

text \<open>C30. Control messages survive the wire. Encoding a message whose strings are valid UTF-8
  shorter than 4 GiB, whose lists have fewer than \<open>2\<^sup>32\<close> entries and whose addresses carry no
  flow label, and decoding the frame gives the message back; with any byte appended the frame
  is refused as trailing bytes.\<close>

theorem control_round_trip:
  assumes "control_ok m" and "length (encode_control m @ t) < 2 ^ 64"
  shows "decode_control (encode_control m @ t) =
    (if t = [] then Inr m else Inl (invalid ''trailing bytes after frame body''))"
  using control_codec.frame_round_trip [OF assms(1)] control_codec.frame_trailing [OF assms(1), of t] assms(2)
  by (auto simp: decode_control_def encode_control_into_append)

text \<open>Stream messages survive the wire, records with their payload included, and trailing
  bytes are refused.\<close>

theorem stream_round_trip:
  assumes "stream_ok m" and "length (encode_stream m @ t) < 2 ^ 64"
  shows "decode_stream (encode_stream m @ t) =
    (if t = [] then Inr m else Inl (invalid ''trailing bytes after frame body''))"
  using stream_codec.frame_round_trip [OF assms(1)] stream_codec.frame_trailing [OF assms(1), of t] assms(2)
  by (auto simp: decode_stream_def encode_stream_into_append)

text \<open>C31. The client protocol survives the wire in both directions: requests and replies decode
  to what was encoded.\<close>

theorem client_round_trip:
  assumes "request_ok q" and "length (encode_client_request q) < 2 ^ 64"
    and "reply_ok p" and "length (encode_client_reply p) < 2 ^ 64"
  shows "decode_client_request (encode_client_request q) = Inr q \<and>
         decode_client_reply (encode_client_reply p) = Inr p"
  using request_codec.frame_round_trip [OF assms(1)] reply_codec.frame_round_trip [OF assms(3)] assms(2,4)
  by (simp add: decode_client_request_def decode_client_reply_def put_client_request_append
      put_client_reply_append)

text \<open>A discovery record decodes to the change it was written for, from its record type and
  payload.\<close>

theorem change_round_trip:
  assumes "change_ok c" and "encode_change c = (ty, payload)" and "length payload < 2 ^ 64"
  shows "decode_change ty payload = Inr c"
proof -
  have "decodes (get_change ty) payload c" using change_decodes [OF assms(1)] assms(2) by simp
  from this [unfolded decodes_def, rule_format, of "[]" "[]"] assms(3) show ?thesis
    by (simp add: decode_change_def decode_whole_def r_new_def r_finish_def)
qed

text \<open>A frame cut short never decodes. No strict prefix of an encoded control message, stream
  message, request or reply is accepted as any message.\<close>

theorem truncated_frames_rejected:
  assumes "t \<noteq> []"
  shows "(control_ok m \<and> encode_control m = p @ t \<and> length (encode_control m) < 2 ^ 64 \<longrightarrow>
            (\<exists>e. decode_control p = Inl e)) \<and>
         (stream_ok s \<and> encode_stream s = p @ t \<and> length (encode_stream s) < 2 ^ 64 \<longrightarrow>
            (\<exists>e. decode_stream p = Inl e)) \<and>
         (request_ok q \<and> encode_client_request q = p @ t \<and> length (encode_client_request q) < 2 ^ 64 \<longrightarrow>
            (\<exists>e. decode_client_request p = Inl e)) \<and>
         (reply_ok a \<and> encode_client_reply a = p @ t \<and> length (encode_client_reply a) < 2 ^ 64 \<longrightarrow>
            (\<exists>e. decode_client_reply p = Inl e))"
  using control_frames.frame_truncated [of m p t] stream_frames.frame_truncated [of s p t]
    request_frames.frame_truncated [of q p t] reply_frames.frame_truncated [of a p t] assms
  by (auto simp: decode_control_def decode_stream_def decode_client_request_def decode_client_reply_def
      encode_control_into_append encode_stream_into_append put_client_request_append
      put_client_reply_append)

text \<open>A corrupt count cannot make the decoder allocate beyond the frame. Whatever bytes
  arrive, a registry list that decodes has at most one entry per 46 bytes of the frame.\<close>

theorem decoded_lists_bounded:
  assumes "decode_control bs = Inr m" and "m = RegistryDelta ids \<or> m = RegistrySync ids"
  shows "5 + 46 * length ids \<le> length bs"
proof -
  from decode_whole_Inr [OF reader_ok_top(1)] assms(1) obtain r where
    "get_control (r_new bs) = Inr (m, r)" "r_pos r = length bs"
    unfolding decode_control_def by blast
  from get_control_lists [OF this(1) assms(2)] this(2) show ?thesis by (simp add: r_new_def)
qed

text \<open>Every decoding failure, of any bytes by any of the five decoders, is an
  \<open>InvalidData\<close> error.\<close>

theorem decode_errors_invalid_data:
  "(decode_control bs = Inl e \<or> decode_stream bs = Inl e \<or> decode_client_request bs = Inl e \<or>
    decode_client_reply bs = Inl e \<or> decode_change ty bs = Inl e) \<Longrightarrow> ekind e = InvalidData"
  unfolding decode_control_def decode_stream_def decode_client_request_def
    decode_client_reply_def decode_change_def
  using decode_whole_error reader_ok_top by metis

text \<open>The length predicted for a burst is the length written: \<open>identities_encoded_len\<close> is
  the number of bytes the encoder appends for the identities of a list.\<close>

theorem encoded_len_exact:
  "length (foldl (\<lambda>w i. put_identity i w) [] ids) = identities_encoded_len ids"
  by (simp add: identity_codec.put_all identities_encoded_len_def length_concat comp_def
      length_identity_image)

subsection \<open>Concrete messages\<close>

definition sample_control :: control_msg where
  "sample_control = Heartbeat 7 (SockV4 10 0 0 1 7000) (SockV4 10 0 0 1 7001) (ascii ''box'')"

lemma sample_control_ok: "control_ok sample_control" "length (encode_control sample_control @ [1]) < 2 ^ 64"
  by (simp_all add: sample_control_def str_ok_def short_def utf8_char_def utf8_tail_def
      encode_control_def enc_simps addr_image_def del: addr_to_string.simps)
    (use length_addr_to_string [of "SockV4 10 0 0 1 7000"] length_addr_to_string [of "SockV4 10 0 0 1 7001"]
      in \<open>simp del: addr_to_string.simps\<close>)

theorem control_round_trip_witness:
  "decode_control (encode_control sample_control @ [1]) =
     Inl (invalid ''trailing bytes after frame body'')"
  using control_round_trip [OF sample_control_ok] by simp

theorem stream_round_trip_witness:
  "decode_stream (encode_stream (Record 3 \<lparr>rf_index = 5, rf_msg_type = 1, rf_user_meta = 0,
      rf_starts_segment = True, rf_payload = [1, 2, 3]\<rparr>)) =
   Inr (Record 3 \<lparr>rf_index = 5, rf_msg_type = 1, rf_user_meta = 0,
      rf_starts_segment = True, rf_payload = [1, 2, 3]\<rparr>)"
  using stream_round_trip [of "Record 3 \<lparr>rf_index = 5, rf_msg_type = 1, rf_user_meta = 0,
      rf_starts_segment = True, rf_payload = [1, 2, 3]\<rparr>" "[]"]
  by (simp add: short_def encode_stream_def enc_simps)

theorem client_round_trip_witness:
  "decode_client_request (encode_client_request (ReqSubscribe (ascii ''fills'') 0)) =
     Inr (ReqSubscribe (ascii ''fills'') 0) \<and>
   decode_client_reply (encode_client_reply (ReplyDeregistered True)) = Inr (ReplyDeregistered True)"
  using client_round_trip [of "ReqSubscribe (ascii ''fills'') 0" "ReplyDeregistered True"]
  by (simp add: str_ok_def short_def utf8_char_def utf8_tail_def encode_client_request_def
      encode_client_reply_def enc_simps)

theorem change_round_trip_witness:
  "decode_change 2 (snd (encode_change (Removed (ascii ''fills'') 4))) = Inr (Removed (ascii ''fills'') 4)"
  using change_round_trip [of "Removed (ascii ''fills'') 4" 2 "snd (encode_change (Removed (ascii ''fills'') 4))"]
  by (simp add: str_ok_def short_def utf8_char_def utf8_tail_def removed_type_def enc_simps)

theorem truncated_frames_rejected_witness: "\<exists>e. decode_control [7] = Inl e"
proof -
  have "le_bytes 8 (7 :: u64) \<noteq> []" by (metis length_le_bytes list.size(3) zero_neq_numeral)
  with truncated_frames_rejected [of "le_bytes 8 (7 :: u64)" "Leaving 7" "[7]"] show ?thesis
    by (simp add: encode_control_def w_u8_def w_u64_def)
qed

theorem decoded_lists_bounded_witness:
  "decode_control (encode_control (RegistrySync [])) = Inr (RegistrySync []) \<and>
   5 + 46 * length ([] :: channel_identity list) \<le> length (encode_control (RegistrySync []))"
proof -
  have ok: "decode_control (encode_control (RegistrySync [])) = Inr (RegistrySync [])"
  proof -
    have "length (encode_control (RegistrySync [])) < 2 ^ 64"
      by (simp add: encode_control_def enc_simps identities_image_def)
    with control_codec.frame_round_trip [of "RegistrySync []"] show ?thesis
      by (simp add: identities_ok_def decode_control_def encode_control_into_append)
  qed
  with decoded_lists_bounded [OF ok, of "[]"] show ?thesis by simp
qed

theorem decode_errors_invalid_data_witness:
  "decode_control [9] = Inl (invalid ''unknown ControlMsg tag'') \<and>
   ekind (invalid ''unknown ControlMsg tag'') = InvalidData"
proof -
  have "r_u8 (r_new [9]) = Inr (9, \<lparr>r_buf = [9], r_pos = 1\<rparr>)"
    using u8_decodes [of 9, unfolded decodes_def, rule_format, of "[]" "[]"]
    by (simp add: u8_image_def r_new_def)
  then have e: "decode_control [9] = Inl (invalid ''unknown ControlMsg tag'')"
    by (simp add: decode_control_def decode_whole_def get_control_def dbind_def dfail_def)
  with decode_errors_invalid_data [of "[9]" "invalid ''unknown ControlMsg tag''" 0] show ?thesis by simp
qed

end
