(* ===== verification/Transport.thy ===== *)
theory Transport
  imports Prelude
begin

text \<open>
  Framing of \<open>xchannel-net-core/src/transport.rs\<close>: the blocking \<open>send_framed\<close> and
  \<open>recv_framed\<close>, the bounded \<open>write_all_by\<close>, and the polled \<open>FramedConn\<close>.

  A socket is what the operating system answers: a list of results for the reads to come
  and one for the writes to come. A read result is the bytes delivered (none at end of
  stream) or an error; a write result is the number of bytes accepted or an error; an
  exhausted list answers \<open>WouldBlock\<close>, as an idle non-blocking socket does. A blocking
  reader is given the bytes of the stream, since \<open>read_exact\<close> hides how they arrive.
\<close>

definition MAX_FRAME_LEN :: nat where
  "MAX_FRAME_LEN = 64 * 2 ^ 20"

definition STALL_LIMIT :: nat where
  "STALL_LIMIT = 1000 * 10 ^ 6"

definition MAX_PENDING_OUT :: nat where
  "MAX_PENDING_OUT = 2 ^ 20"

definition COMPACT_AFTER :: nat where
  "COMPACT_AFTER = 256 * 2 ^ 10"

datatype read_result = ReadOk bytes | ReadErr io_error
datatype write_result = WriteOk nat | WriteErr io_error

subsection \<open>Blocking frames\<close>

text \<open>The bytes written, or the error with nothing written.\<close>

definition send_framed :: "bytes \<Rightarrow> bytes io_result" where
  "send_framed bs =
     (if length bs > MAX_FRAME_LEN then Inl (IoError InvalidInput ''frame exceeds MAX_FRAME_LEN'')
      else Inr (le_bytes 4 (of_nat (length bs) :: u32) @ bs))"

definition read_exact :: "nat \<Rightarrow> bytes \<Rightarrow> (bytes \<times> bytes) io_result" where
  "read_exact n s =
     (if length s < n then Inl (IoError UnexpectedEof ''failed to fill whole buffer'')
      else Inr (take n s, drop n s))"

definition recv_framed :: "bytes \<Rightarrow> (bytes \<times> bytes) io_result" where
  "recv_framed s =
     and_then (read_exact 4 s) (\<lambda>(len_buf, s1).
       let len = unat (of_le_bytes len_buf :: u32) in
       if len > MAX_FRAME_LEN
       then Inl (IoError InvalidData ''incoming frame length exceeds MAX_FRAME_LEN'')
       else read_exact len s1)"

subsection \<open>Bounded writes\<close>

text \<open>One turn of the loop sees the clock, then the write's answer, then the clock again (used
  when bytes moved). The result is the bytes written and the outcome; \<open>None\<close> is a loop that
  has not finished when the listed turns are used up.\<close>

type_synonym write_turn = "nat \<times> write_result \<times> nat"

fun write_all_by ::
  "bytes \<Rightarrow> nat \<Rightarrow> nat \<Rightarrow> bool \<Rightarrow> write_turn list \<Rightarrow> bytes \<times> (unit io_result \<times> write_turn list) option" where
  "write_all_by bs deadline last_progress attempted [] =
     ([], if bs = [] then Some (Inr (), []) else None)"
| "write_all_by bs deadline last_progress attempted ((now, res, after) # turns) =
     (if bs = [] then ([], Some (Inr (), (now, res, after) # turns))
      else if attempted \<and> now \<ge> deadline then
        ([], Some (Inl (IoError TimedOut ''peer did not accept the frame within its write budget''), turns))
      else if attempted \<and> now - last_progress \<ge> STALL_LIMIT then
        ([], Some (Inl (IoError TimedOut ''peer accepted nothing for the stall limit''), turns))
      else
        (case res of
           WriteOk n \<Rightarrow>
             if n = 0 then ([], Some (Inl (IoError WriteZero ''peer accepted no bytes''), turns))
             else (case write_all_by (drop n bs) deadline after True turns of
                     (sent, out) \<Rightarrow> (take n bs @ sent, out))
         | WriteErr e \<Rightarrow>
             if ekind e = WouldBlock \<or> ekind e = TimedOut \<or> ekind e = Interrupted
             then write_all_by bs deadline last_progress True turns
             else ([], Some (Inl e, turns))))"

subsection \<open>Polled connections\<close>

record framed_conn =
  inbox :: bytes
  inbox_off :: nat
  outbox :: bytes
  outbox_off :: nat

definition framed_conn_new :: framed_conn where
  "framed_conn_new = \<lparr>inbox = [], inbox_off = 0, outbox = [], outbox_off = 0\<rparr>"

definition take_buffered_frame :: "framed_conn \<Rightarrow> bytes option io_result \<times> framed_conn" where
  "take_buffered_frame c =
     (let available = length (inbox c) - inbox_off c in
      if available < 4 then (Inr None, c)
      else
        let pre = take 4 (drop (inbox_off c) (inbox c));
            len = unat (of_le_bytes pre :: u32)
        in
        if len > MAX_FRAME_LEN
        then (Inl (IoError InvalidData ''incoming frame length exceeds MAX_FRAME_LEN''), c)
        else if available < 4 + len then (Inr None, c)
        else
          let body = inbox_off c + 4;
              frame = take len (drop body (inbox c));
              off = body + len
          in (Inr (Some frame),
              if off = length (inbox c) then c\<lparr>inbox := [], inbox_off := 0\<rparr>
              else if off \<ge> COMPACT_AFTER then c\<lparr>inbox := drop off (inbox c), inbox_off := 0\<rparr>
              else c\<lparr>inbox_off := off\<rparr>))"

fun try_recv_frame ::
  "framed_conn \<Rightarrow> read_result list \<Rightarrow> bytes option io_result \<times> framed_conn \<times> read_result list" where
  "try_recv_frame c reads =
     (case take_buffered_frame c of
        (Inl e, c') \<Rightarrow> (Inl e, c', reads)
      | (Inr (Some f), c') \<Rightarrow> (Inr (Some f), c', reads)
      | (Inr None, c') \<Rightarrow>
          (case reads of
             [] \<Rightarrow> (Inr None, c', [])
           | ReadOk bs # rs \<Rightarrow>
               if bs = [] then (Inl (IoError UnexpectedEof ''peer closed the connection''), c', rs)
               else try_recv_frame (c'\<lparr>inbox := inbox c' @ bs\<rparr>) rs
           | ReadErr e # rs \<Rightarrow>
               if ekind e = WouldBlock then (Inr None, c', rs)
               else if ekind e = Interrupted then try_recv_frame c' rs
               else (Inl e, c', rs)))"

declare try_recv_frame.simps [simp del]

text \<open>The outcome, the connection, the write answers left, and the bytes the socket took.\<close>

function flush ::
  "framed_conn \<Rightarrow> write_result list \<Rightarrow> bool io_result \<times> framed_conn \<times> write_result list \<times> bytes" where
  "flush c ws =
     (if outbox_off c < length (outbox c) then
        (case ws of
           [] \<Rightarrow> (Inr False, c, [], [])
         | WriteOk n # ws' \<Rightarrow>
             if n = 0 then (Inl (IoError WriteZero ''socket accepted no bytes''), c, ws', [])
             else
               (case flush (c\<lparr>outbox_off := outbox_off c + n\<rparr>) ws' of
                  (r, c', w, sent) \<Rightarrow>
                    (r, c', w, take n (drop (outbox_off c) (outbox c)) @ sent))
         | WriteErr e # ws' \<Rightarrow>
             if ekind e = WouldBlock then (Inr False, c, ws', [])
             else if ekind e = Interrupted then flush c ws'
             else (Inl e, c, ws', []))
      else (Inr True, c\<lparr>outbox := [], outbox_off := 0\<rparr>, ws, []))"
  by pat_completeness auto
termination
  by (relation "measure (\<lambda>(c, ws). length ws)") auto

declare flush.simps [simp del]

definition queue_frame ::
  "framed_conn \<Rightarrow> bytes \<Rightarrow> write_result list \<Rightarrow>
     unit io_result \<times> framed_conn \<times> write_result list \<times> bytes" where
  "queue_frame c bs ws =
     (if length bs > MAX_FRAME_LEN
      then (Inl (IoError InvalidInput ''frame exceeds MAX_FRAME_LEN''), c, ws, [])
      else
        (case flush (c\<lparr>outbox := outbox c @ le_bytes 4 (of_nat (length bs) :: u32) @ bs\<rparr>) ws of
           (r, c', ws', sent) \<Rightarrow> (and_then r (\<lambda>_. Inr ()), c', ws', sent)))"

definition pending_out :: "framed_conn \<Rightarrow> nat" where
  "pending_out c = length (outbox c) - outbox_off c"

text \<open>The two writes of \<open>send_frame_by\<close> share the deadline; each reads the clock on entry.\<close>

definition send_frame_by ::
  "bytes \<Rightarrow> nat \<Rightarrow> nat \<Rightarrow> nat \<Rightarrow> write_turn list \<Rightarrow> bytes \<times> (unit io_result \<times> write_turn list) option" where
  "send_frame_by bs deadline t0 t1 turns =
     (if length bs > MAX_FRAME_LEN
      then ([], Some (Inl (IoError InvalidInput ''frame exceeds MAX_FRAME_LEN''), turns))
      else
        (case write_all_by (le_bytes 4 (of_nat (length bs) :: u32)) deadline t0 False turns of
           (sent, Some (Inr _, turns')) \<Rightarrow>
             (case write_all_by bs deadline t1 False turns' of (sent', out) \<Rightarrow> (sent @ sent', out))
         | r \<Rightarrow> r))"

subsection \<open>The framing is a prefix code\<close>

definition framed :: "bytes \<Rightarrow> bytes" where
  "framed f = le_bytes 4 (of_nat (length f) :: u32) @ f"

definition fits :: "bytes \<Rightarrow> bool" where
  "fits f \<longleftrightarrow> length f \<le> MAX_FRAME_LEN"

lemma length_framed [simp]: "length (framed f) = 4 + length f"
  by (simp add: framed_def)

lemma framed_not_Nil [simp]: "framed f \<noteq> []"
  using length_framed [of f] by (metis add_is_0 list.size(3) zero_neq_numeral)

lemma fits_unat: "fits f \<Longrightarrow> unat (of_nat (length f) :: u32) = length f"
  by (rule unat_of_nat_small) (simp add: fits_def MAX_FRAME_LEN_def)

lemma take_framed:
  assumes "fits f"
  shows "unat (of_le_bytes (take 4 (framed f @ x)) :: u32) = length f"
  using assms by (simp add: framed_def of_le_bytes_full fits_unat)

lemma drop_framed: "drop 4 (framed f @ x) = f @ x"
  by (simp add: framed_def)

lemma drop_framed_only [simp]: "drop 4 (framed f) = f"
  using drop_framed [of f "[]"] by simp

lemma take_drop_parts: "drop a xs = take m (drop a xs) @ take n (drop (a + m) xs) @ drop (a + m + n) xs"
  by (metis add.commute append_take_drop_id drop_drop)

lemma framed_inject:
  assumes "framed f @ x = framed g @ y" "fits f" "fits g"
  shows "f = g \<and> x = y"
proof -
  from assms have "length f = length g" using take_framed by metis
  moreover have "f @ x = g @ y" using assms(1) drop_framed by metis
  ultimately show ?thesis by simp
qed

lemma prefix_framed:
  assumes "length pre = 4" "n = unat (of_le_bytes pre :: u32)" "length f = n"
  shows "framed f = pre @ f"
  using assms le_bytes_of_le [of pre, where ?'a = 32]
  by (simp add: framed_def)

subsection \<open>Blocking round trip\<close>

lemma recv_send_framed:
  assumes "send_framed f = Inr w"
  shows "recv_framed (w @ rest) = Inr (f, rest)"
proof -
  from assms have w: "w = framed f" "fits f"
    by (auto simp: send_framed_def framed_def fits_def split: if_splits)
  have pre: "read_exact 4 (framed f @ rest) = Inr (take 4 (framed f @ rest), f @ rest)"
    by (simp add: read_exact_def drop_framed)
  show ?thesis
    unfolding w(1) recv_framed_def pre using w(2) take_framed [OF w(2), of rest]
    by (simp add: Let_def read_exact_def fits_def)
qed

subsection \<open>Receiving by polling\<close>

definition conn_wf :: "framed_conn \<Rightarrow> bool" where
  "conn_wf c \<longleftrightarrow> inbox_off c \<le> length (inbox c)"

definition pending_in :: "framed_conn \<Rightarrow> bytes" where
  "pending_in c = drop (inbox_off c) (inbox c)"

definition pending_bytes :: "framed_conn \<Rightarrow> bytes" where
  "pending_bytes c = drop (outbox_off c) (outbox c)"

fun delivered :: "read_result \<Rightarrow> bytes" where
  "delivered (ReadOk bs) = bs"
| "delivered (ReadErr e) = []"

text \<open>The bytes still to be parsed: those buffered and those the socket has yet to deliver.\<close>

definition inbound :: "framed_conn \<Rightarrow> read_result list \<Rightarrow> bytes" where
  "inbound c reads = pending_in c @ concat (map delivered reads)"

lemma take_buffered_Some:
  assumes "conn_wf c" "take_buffered_frame c = (Inr (Some f), c')"
  shows "pending_in c = framed f @ pending_in c' \<and> fits f \<and> conn_wf c' \<and>
         outbox c' = outbox c \<and> outbox_off c' = outbox_off c"
proof -
  let ?pre = "take 4 (drop (inbox_off c) (inbox c))"
  let ?len = "unat (of_le_bytes ?pre :: u32)"
  have a: "4 + ?len \<le> length (inbox c) - inbox_off c" "?len \<le> MAX_FRAME_LEN"
    "f = take ?len (drop (inbox_off c + 4) (inbox c))"
    using assms(2) by (auto simp: take_buffered_frame_def Let_def split: if_splits)
  then have len: "length ?pre = 4" "length f = ?len" by simp_all
  have c': "pending_in c' = drop (inbox_off c + 4 + ?len) (inbox c) \<and> conn_wf c' \<and>
         outbox c' = outbox c \<and> outbox_off c' = outbox_off c"
    using assms a(1) by (auto simp: take_buffered_frame_def Let_def pending_in_def conn_wf_def
        split: if_splits)
  have "pending_in c = ?pre @ f @ drop (inbox_off c + 4 + ?len) (inbox c)"
    unfolding pending_in_def a(3) by (rule take_drop_parts)
  with prefix_framed [OF len(1) refl len(2)] c' a(2) len(2) show ?thesis by (simp add: fits_def)
qed

lemma take_buffered_None: "take_buffered_frame c = (Inr None, c') \<Longrightarrow> c' = c"
  by (auto simp: take_buffered_frame_def Let_def split: if_splits)

lemma take_buffered_Inl: "take_buffered_frame c = (Inl e, c') \<Longrightarrow> c' = c"
  by (auto simp: take_buffered_frame_def Let_def split: if_splits)

lemma take_buffered_whole:
  assumes "pending_in c = framed f @ x" "fits f"
  shows "\<exists>c'. take_buffered_frame c = (Inr (Some f), c')"
proof -
  have len: "length (inbox c) - inbox_off c = 4 + length f + length x"
    using arg_cong [OF assms(1), of length] by (simp add: pending_in_def)
  have pre: "unat (of_le_bytes (take 4 (drop (inbox_off c) (inbox c))) :: u32) = length f"
    using take_framed [OF assms(2)] assms(1) by (simp add: pending_in_def)
  have body: "take (length f) (drop (inbox_off c + 4) (inbox c)) = f"
  proof -
    have "drop (inbox_off c + 4) (inbox c) = drop 4 (pending_in c)"
      by (simp add: pending_in_def add.commute)
    then show ?thesis by (simp add: assms(1) drop_framed)
  qed
  show ?thesis
    using len pre body assms(2)
    by (simp add: take_buffered_frame_def Let_def fits_def)
qed

text \<open>What one poll does to the inbound bytes, whatever the socket answers.\<close>

fun poll_accounts :: "framed_conn \<Rightarrow> read_result list \<Rightarrow>
    bytes option io_result \<times> framed_conn \<times> read_result list \<Rightarrow> bool" where
  "poll_accounts c reads (r, c', reads') \<longleftrightarrow>
     conn_wf c' \<and> length reads' \<le> length reads \<and> pending_bytes c' = pending_bytes c \<and>
     (case r of
        Inr (Some f) \<Rightarrow> inbound c reads = framed f @ inbound c' reads' \<and> fits f
      | _ \<Rightarrow> inbound c reads = inbound c' reads')"

lemma inbound_append:
  "conn_wf c \<Longrightarrow> inbound (c\<lparr>inbox := inbox c @ bs\<rparr>) rs = inbound c (ReadOk bs # rs)"
  "conn_wf c \<Longrightarrow> conn_wf (c\<lparr>inbox := inbox c @ bs\<rparr>)"
  "pending_bytes (c\<lparr>inbox := b\<rparr>) = pending_bytes c"
  by (simp_all add: inbound_def pending_in_def conn_wf_def pending_bytes_def)

lemma inbound_error [simp]: "inbound c (ReadErr e # rs) = inbound c rs"
  by (simp add: inbound_def)

lemma try_recv_reads:
  assumes "take_buffered_frame c = (Inr None, c)"
  shows "try_recv_frame c (ReadOk bs # rs) =
      (if bs = [] then (Inl (IoError UnexpectedEof ''peer closed the connection''), c, rs)
       else try_recv_frame (c\<lparr>inbox := inbox c @ bs\<rparr>) rs)"
    and "try_recv_frame c (ReadErr e # rs) =
      (if ekind e = WouldBlock then (Inr None, c, rs)
       else if ekind e = Interrupted then try_recv_frame c rs else (Inl e, c, rs))"
  using assms by (simp_all add: try_recv_frame.simps [of c "_ # rs"])

lemma try_recv_accounts: "conn_wf c \<Longrightarrow> poll_accounts c reads (try_recv_frame c reads)"
proof (induction reads arbitrary: c)
  case Nil
  obtain t c' where t: "take_buffered_frame c = (t, c')" by fastforce
  consider (err) e where "t = Inl e" | (none) "t = Inr None" | (some) f where "t = Inr (Some f)"
    by (metis Inl_Inr_False option.exhaust sum.exhaust)
  then show ?case
  proof cases
    case some
    with take_buffered_Some [OF Nil] t show ?thesis
      by (simp add: try_recv_frame.simps inbound_def pending_bytes_def)
  qed (use t Nil in \<open>auto simp: try_recv_frame.simps [of c]
      dest: take_buffered_None take_buffered_Inl\<close>)
next
  case (Cons x rs)
  obtain t c' where t: "take_buffered_frame c = (t, c')" by fastforce
  consider (err) e where "t = Inl e" | (none) "t = Inr None" | (some) f where "t = Inr (Some f)"
    by (metis Inl_Inr_False option.exhaust sum.exhaust)
  then show ?case
  proof cases
    case err
    with t Cons.prems take_buffered_Inl show ?thesis
      by (auto simp: try_recv_frame.simps [of c])
  next
    case some
    with take_buffered_Some [OF Cons.prems] t show ?thesis
      by (simp add: try_recv_frame.simps inbound_def pending_bytes_def)
  next
    case none
    with t take_buffered_None have "take_buffered_frame c = (Inr None, c)" by auto
    note step = try_recv_reads [OF this]
    show ?thesis
    proof (cases x)
      case (ReadOk bs)
      show ?thesis
      proof (cases "bs = []")
        case True
        with ReadOk Cons.prems show ?thesis by (simp add: step inbound_def)
      next
        case False
        let ?c = "c\<lparr>inbox := inbox c @ bs\<rparr>"
        obtain r c2 rs2 where p: "try_recv_frame ?c rs = (r, c2, rs2)" by (cases "try_recv_frame ?c rs") auto
        with Cons.IH [of ?c] Cons.prems inbound_append(2) have "poll_accounts ?c rs (r, c2, rs2)" by metis
        with ReadOk False p Cons.prems show ?thesis
          by (simp add: step inbound_append split: sum.splits option.splits)
      qed
    next
      case (ReadErr e)
      obtain r c2 rs2 where p: "try_recv_frame c rs = (r, c2, rs2)" by (cases "try_recv_frame c rs") auto
      with Cons.IH [OF Cons.prems] have "poll_accounts c rs (r, c2, rs2)" by metis
      with ReadErr p Cons.prems show ?thesis
        by (simp add: step split: sum.splits option.splits)
    qed
  qed
qed

text \<open>A receiver polls again and again; a failed poll ends it.\<close>

fun recv_polls ::
  "nat \<Rightarrow> framed_conn \<Rightarrow> read_result list \<Rightarrow> bytes list \<times> io_error option \<times> framed_conn \<times> read_result list" where
  "recv_polls 0 c reads = ([], None, c, reads)"
| "recv_polls (Suc n) c reads =
     (case try_recv_frame c reads of
        (Inl e, c', rs) \<Rightarrow> ([], Some e, c', rs)
      | (Inr None, c', rs) \<Rightarrow> recv_polls n c' rs
      | (Inr (Some f), c', rs) \<Rightarrow>
          (case recv_polls n c' rs of (fs, r) \<Rightarrow> (f # fs, r)))"

lemma recv_polls_accounts:
  "conn_wf c \<Longrightarrow> recv_polls n c reads = (fs, e, c', reads') \<Longrightarrow>
     inbound c reads = concat (map framed fs) @ inbound c' reads' \<and> list_all fits fs"
proof (induction n arbitrary: c reads fs)
  case 0
  then show ?case by simp
next
  case (Suc n)
  obtain r c1 rs where p: "try_recv_frame c reads = (r, c1, rs)" by (cases "try_recv_frame c reads") auto
  with try_recv_accounts [OF Suc.prems(1), of reads] have a: "poll_accounts c reads (r, c1, rs)" by simp
  show ?case
  proof (cases r)
    case (Inl x)
    with Suc.prems(2) p a show ?thesis by auto
  next
    case (Inr v)
    show ?thesis
    proof (cases v)
      case None
      with Inr p Suc.prems(2) have "recv_polls n c1 rs = (fs, e, c', reads')" by simp
      with Suc.IH [of c1 rs fs] a Inr None show ?thesis by simp
    next
      case (Some f)
      with Inr p Suc.prems(2) obtain gs where g: "recv_polls n c1 rs = (gs, e, c', reads')" "fs = f # gs"
        by (auto split: prod.splits)
      with Suc.IH [of c1 rs gs] a Inr Some show ?thesis by simp
    qed
  qed
qed

text \<open>A socket that is only sometimes idle: no end of stream, no hard error.\<close>

fun benign :: "read_result \<Rightarrow> bool" where
  "benign (ReadOk bs) = (bs \<noteq> [])"
| "benign (ReadErr e) = (ekind e = WouldBlock \<or> ekind e = Interrupted)"

lemma take_buffered_no_error:
  assumes "inbound c reads = concat (map framed fs)" "list_all fits fs"
  shows "take_buffered_frame c \<noteq> (Inl e, c')"
proof
  assume t: "take_buffered_frame c = (Inl e, c')"
  let ?pre = "take 4 (pending_in c)"
  from t have *: "4 \<le> length (pending_in c)" "unat (of_le_bytes ?pre :: u32) > MAX_FRAME_LEN"
    by (auto simp: take_buffered_frame_def Let_def pending_in_def split: if_splits)
  with assms obtain f gs where "inbound c reads = framed f @ concat (map framed gs)" "fits f"
    by (cases fs) (auto simp: inbound_def)
  moreover have "take 4 (inbound c reads) = ?pre" using *(1) by (simp add: inbound_def)
  ultimately show False using take_framed [of f] *(2) by (simp add: fits_def)
qed

lemma try_recv_progress:
  assumes "conn_wf c" "list_all benign reads" "list_all fits fs"
    "inbound c reads = concat (map framed fs)"
    "try_recv_frame c reads = (r, c', reads')"
  shows "list_all benign reads' \<and>
    (r = Inr None \<and> (length reads' < length reads \<or> fs = [] \<and> reads = []) \<or> (\<exists>f gs. r = Inr (Some f) \<and> fs = f # gs))"
  using assms
proof (induction reads arbitrary: c)
  case Nil
  show ?case
  proof (cases fs)
    case fsN: Nil
    then have "pending_in c = []" using Nil.prems by (simp add: inbound_def)
    then have "take_buffered_frame c = (Inr None, c)"
      by (simp add: take_buffered_frame_def pending_in_def)
    with Nil.prems fsN show ?thesis by (simp add: try_recv_frame.simps)
  next
    case (Cons f gs)
    then have "pending_in c = framed f @ concat (map framed gs)" "fits f"
      using Nil.prems by (simp_all add: inbound_def)
    from take_buffered_whole [OF this] Nil.prems Cons show ?thesis
      by (auto simp: try_recv_frame.simps)
  qed
next
  case (Cons x rs)
  obtain t c1 where t: "take_buffered_frame c = (t, c1)" by fastforce
  have noerr: "t \<noteq> Inl e" for e using take_buffered_no_error [OF Cons.prems(4,3)] t by auto
  show ?case
  proof (cases "t = Inr None")
    case False
    with noerr obtain f where f: "t = Inr (Some f)" by (metis option.exhaust sum.exhaust)
    with take_buffered_Some [OF Cons.prems(1)] t have
      i: "inbound c (x # rs) = framed f @ inbound c1 (x # rs)" "fits f"
      by (simp_all add: inbound_def)
    with Cons.prems(4) obtain g gs where fs: "fs = g # gs" by (cases fs) auto
    with Cons.prems(3,4) i have "framed f @ inbound c1 (x # rs) = framed g @ concat (map framed gs)" "fits g"
      by simp_all
    with i(2) framed_inject have "f = g" by blast
    with f fs t Cons.prems show ?thesis by (auto simp: try_recv_frame.simps)
  next
    case True
    with t have "take_buffered_frame c = (Inr None, c)" using take_buffered_None by auto
    note step = try_recv_reads [OF this]
    show ?thesis
    proof (cases x)
      case (ReadOk bs)
      let ?c = "c\<lparr>inbox := inbox c @ bs\<rparr>"
      from ReadOk Cons.prems have call: "try_recv_frame ?c rs = (r, c', reads')"
        by (simp add: step)
      have "length reads' \<le> length rs"
        using try_recv_accounts [OF inbound_append(2) [OF Cons.prems(1)], of bs rs] call by simp
      with Cons.IH [OF inbound_append(2) [OF Cons.prems(1)] _ _ _ call] Cons.prems ReadOk show ?thesis
        by (auto simp: inbound_append)
    next
      case (ReadErr e)
      show ?thesis
      proof (cases "ekind e = WouldBlock")
        case True
        with ReadErr Cons.prems show ?thesis by (auto simp: step)
      next
        case False
        with ReadErr Cons.prems have i: "ekind e = Interrupted" by simp
        with ReadErr Cons.prems have "try_recv_frame c rs = (r, c', reads')" by (simp add: step)
        moreover from this have "length reads' \<le> length rs"
          using try_recv_accounts [OF Cons.prems(1), of rs] by simp
        ultimately show ?thesis using Cons.IH [OF Cons.prems(1)] Cons.prems ReadErr by auto
      qed
    qed
  qed
qed

lemma recv_polls_complete:
  assumes "conn_wf c" "list_all benign reads" "list_all fits fs"
    "inbound c reads = concat (map framed fs)" "length fs + length reads \<le> n"
  shows "\<exists>c' reads'. recv_polls n c reads = (fs, None, c', reads')"
  using assms
proof (induction n arbitrary: c reads fs)
  case 0
  then show ?case by simp
next
  case (Suc n)
  obtain r c1 rs where p: "try_recv_frame c reads = (r, c1, rs)" by (cases "try_recv_frame c reads") auto
  with try_recv_accounts [OF Suc.prems(1), of reads] have a: "poll_accounts c reads (r, c1, rs)" by simp
  from try_recv_progress [OF Suc.prems(1-4) p] consider
      (idle) "r = Inr None" "list_all benign rs" "length rs < length reads \<or> fs = [] \<and> reads = []"
    | (got) f gs where "r = Inr (Some f)" "list_all benign rs" "fs = f # gs" by blast
  then show ?case
  proof cases
    case idle
    with a Suc.prems(4) have i: "inbound c1 rs = concat (map framed fs)" "conn_wf c1"
      "length rs \<le> length reads" by simp_all
    with idle(3) Suc.prems(5) have "length fs + length rs \<le> n" by auto
    with Suc.IH [OF i(2) idle(2) Suc.prems(3) i(1)] p idle show ?thesis by simp
  next
    case got
    with a Suc.prems(3,4) have "framed f @ inbound c1 rs = framed f @ concat (map framed gs)"
      "fits f" "conn_wf c1" "length rs \<le> length reads" by simp_all
    then have "inbound c1 rs = concat (map framed gs)" "conn_wf c1" "length rs \<le> length reads" by simp_all
    with Suc.IH [of c1 rs gs] got Suc.prems p show ?thesis by auto
  qed
qed

subsection \<open>Sending by polling\<close>

lemma flush_steps:
  "\<not> outbox_off c < length (outbox c) \<Longrightarrow> flush c ws = (Inr True, c\<lparr>outbox := [], outbox_off := 0\<rparr>, ws, [])"
  "outbox_off c < length (outbox c) \<Longrightarrow> flush c [] = (Inr False, c, [], [])"
  "outbox_off c < length (outbox c) \<Longrightarrow> flush c (WriteOk n # ws) =
     (if n = 0 then (Inl (IoError WriteZero ''socket accepted no bytes''), c, ws, [])
      else case flush (c\<lparr>outbox_off := outbox_off c + n\<rparr>) ws of
             (r, c', w, sent) \<Rightarrow> (r, c', w, take n (drop (outbox_off c) (outbox c)) @ sent))"
  "outbox_off c < length (outbox c) \<Longrightarrow> flush c (WriteErr e # ws) =
     (if ekind e = WouldBlock then (Inr False, c, ws, [])
      else if ekind e = Interrupted then flush c ws else (Inl e, c, ws, []))"
  by (simp_all add: flush.simps [of c ws] flush.simps [of c "[]"] flush.simps [of c "_ # _"])

lemma flush_accounts:
  "flush c ws = (r, c', ws', sent) \<Longrightarrow>
     sent @ pending_bytes c' = pending_bytes c \<and> inbox c' = inbox c \<and> inbox_off c' = inbox_off c"
proof (induction c ws arbitrary: r c' ws' sent rule: flush.induct)
  case (1 c ws)
  show ?case
  proof (cases "outbox_off c < length (outbox c)")
    case False
    with "1.prems" show ?thesis
      by (auto simp: flush_steps pending_bytes_def)
  next
    case True
    show ?thesis
    proof (cases ws)
      case Nil
      with True "1.prems" show ?thesis by (simp add: flush_steps)
    next
      case (Cons w ws1)
      show ?thesis
      proof (cases w)
        case (WriteErr e)
        note call = "1.prems" [unfolded Cons WriteErr flush_steps(4) [OF True]]
        show ?thesis
        proof (cases "ekind e = Interrupted")
          case i: True
          then have "flush c ws1 = (r, c', ws', sent)" "ekind e \<noteq> WouldBlock" using call by simp_all
          with "1.IH"(2) [OF True Cons WriteErr _ i] show ?thesis by blast
        next
          case False
          with call show ?thesis by (auto split: if_splits)
        qed
      next
        case (WriteOk n)
        show ?thesis
        proof (cases "n = 0")
          case True
          with Cons WriteOk \<open>outbox_off c < _\<close> "1.prems" show ?thesis by (simp add: flush_steps)
        next
          case False
          let ?c = "c\<lparr>outbox_off := outbox_off c + n\<rparr>"
          obtain r1 c1 w1 s1 where f: "flush ?c ws1 = (r1, c1, w1, s1)" by (cases "flush ?c ws1") auto
          with True Cons WriteOk False "1.prems" have eq: "c' = c1"
            "sent = take n (drop (outbox_off c) (outbox c)) @ s1"
            by (auto simp: flush_steps)
          from "1.IH"(1) [OF True Cons WriteOk False f] have "s1 @ pending_bytes c1 = drop n (pending_bytes c)"
            "inbox c1 = inbox c" "inbox_off c1 = inbox_off c"
            by (simp_all add: pending_bytes_def add.commute)
          with eq append_take_drop_id [of n "pending_bytes c"] show ?thesis
            by (metis append_assoc pending_bytes_def)
        qed
      qed
    qed
  qed
qed

definition out_wf :: "framed_conn \<Rightarrow> bool" where
  "out_wf c \<longleftrightarrow> outbox_off c \<le> length (outbox c)"

lemma queue_frame_accounts:
  assumes "queue_frame c f ws = (r, c', ws', sent)" "fits f" "out_wf c"
  shows "sent @ pending_bytes c' = pending_bytes c @ framed f"
  using assms flush_accounts
  by (fastforce simp: queue_frame_def fits_def framed_def pending_bytes_def out_wf_def split: prod.splits)

text \<open>Every exit of the loop leaves the offset inside the buffer.\<close>

lemma flush_out_wf: "flush c ws = (r, c', ws', sent) \<Longrightarrow> out_wf c'"
proof (induction c ws arbitrary: r c' ws' sent rule: flush.induct)
  case (1 c ws)
  show ?case
  proof (cases "outbox_off c < length (outbox c)")
    case False
    with "1.prems" show ?thesis by (auto simp: flush_steps out_wf_def)
  next
    case True
    then have c: "out_wf c" by (simp add: out_wf_def)
    show ?thesis
    proof (cases ws)
      case Nil
      with True c "1.prems" show ?thesis by (simp add: flush_steps)
    next
      case (Cons w ws1)
      show ?thesis
      proof (cases w)
        case (WriteErr e)
        note call = "1.prems" [unfolded Cons WriteErr flush_steps(4) [OF True]]
        show ?thesis
        proof (cases "ekind e = Interrupted")
          case i: True
          then have "flush c ws1 = (r, c', ws', sent)" "ekind e \<noteq> WouldBlock" using call by simp_all
          with "1.IH"(2) [OF True Cons WriteErr _ i] show ?thesis by blast
        next
          case False
          with call c show ?thesis by (auto split: if_splits)
        qed
      next
        case (WriteOk n)
        note call = "1.prems" [unfolded Cons WriteOk flush_steps(3) [OF True]]
        show ?thesis
        proof (cases "n = 0")
          case True
          with call c show ?thesis by auto
        next
          case False
          with call show ?thesis using "1.IH"(1) [OF True Cons WriteOk False] by (auto split: prod.splits)
        qed
      qed
    qed
  qed
qed

lemma queue_frame_out_wf: "queue_frame c f ws = (r, c', ws', sent) \<Longrightarrow> out_wf c \<Longrightarrow> out_wf c'"
  by (auto simp: queue_frame_def split: prod.splits if_splits dest: flush_out_wf)

text \<open>A sender queues its frames one after the other, each with the answers the socket gives
  while it is queued.\<close>

fun queue_all ::
  "framed_conn \<Rightarrow> (bytes \<times> write_result list) list \<Rightarrow> framed_conn \<times> bytes" where
  "queue_all c [] = (c, [])"
| "queue_all c ((f, ws) # qs) =
     (case queue_frame c f ws of (r, c1, _, sent) \<Rightarrow>
        case queue_all c1 qs of (c2, sent') \<Rightarrow> (c2, sent @ sent'))"

lemma queue_all_accounts:
  assumes "out_wf c" "list_all (\<lambda>q. fits (fst q)) qs" "queue_all c qs = (c', sent)"
  shows "sent @ pending_bytes c' = pending_bytes c @ concat (map (\<lambda>q. framed (fst q)) qs)"
  using assms
proof (induction qs arbitrary: c sent)
  case (Cons q qs)
  obtain f ws where q: "q = (f, ws)" by (cases q)
  obtain r c1 ws1 s1 where 1: "queue_frame c f ws = (r, c1, ws1, s1)" by (cases "queue_frame c f ws") auto
  obtain s2 where 2: "queue_all c1 qs = (c', s2)" "sent = s1 @ s2"
    using Cons.prems(3) q 1 by (auto split: prod.splits)
  have s1: "s1 @ pending_bytes c1 = pending_bytes c @ framed f"
    using queue_frame_accounts [OF 1] Cons.prems q by simp
  have "sent @ pending_bytes c' = s1 @ (s2 @ pending_bytes c')" by (simp add: 2)
  also have "s2 @ pending_bytes c' = pending_bytes c1 @ concat (map (\<lambda>q. framed (fst q)) qs)"
    using Cons.IH [OF queue_frame_out_wf [OF 1]] Cons.prems 2 by simp
  also have "s1 @ (pending_bytes c1 @ concat (map (\<lambda>q. framed (fst q)) qs)) =
      (s1 @ pending_bytes c1) @ concat (map (\<lambda>q. framed (fst q)) qs)" by simp
  finally show ?case by (simp add: s1 q)
qed simp

subsection \<open>Bounded writes\<close>

lemma write_all_by_prefix:
  "write_all_by bs dl lp att turns = (sent, out) \<Longrightarrow>
     (\<exists>rest. bs = sent @ rest \<and> (\<forall>ts. out = Some (Inr (), ts) \<longrightarrow> rest = []))"
proof (induction bs dl lp att turns arbitrary: sent out rule: write_all_by.induct)
  case (1 bs dl lp att)
  then show ?case by (auto split: if_splits)
next
  case (2 bs dl lp att now res after turns)
  show ?case
  proof (cases "bs = [] \<or> att \<and> now \<ge> dl \<or> att \<and> now - lp \<ge> STALL_LIMIT")
    case True
    with 2(3) show ?thesis by (auto split: if_splits)
  next
    case False
    show ?thesis
    proof (cases res)
      case (WriteErr e)
      with False 2 show ?thesis by (auto split: if_splits)
    next
      case (WriteOk n)
      show ?thesis
      proof (cases "n = 0")
        case True
        with False WriteOk 2(3) show ?thesis by auto
      next
        case n: False
        obtain s1 o1 where w: "write_all_by (drop n bs) dl after True turns = (s1, o1)" by fastforce
        with False WriteOk n 2(3) have eq: "sent = take n bs @ s1" "out = o1" by (auto split: if_splits)
        from 2(1) [OF _ _ _ WriteOk n w] False obtain rest where
          "drop n bs = s1 @ rest" "\<forall>ts. o1 = Some (Inr (), ts) \<longrightarrow> rest = []" by auto
        with eq append_take_drop_id [of n bs] show ?thesis by (intro exI [of _ rest]) simp
      qed
    qed
  qed
qed

lemma write_all_by_wedged:
  assumes "bs \<noteq> []" "\<forall>(now, res, after) \<in> set turns. res = WriteErr e \<and> ekind e = WouldBlock"
    "\<exists>(now, res, after) \<in> set turns. now \<ge> deadline \<or> now - lp \<ge> STALL_LIMIT"
  shows "\<exists>msg ts. write_all_by bs deadline lp True turns = ([], Some (Inl (IoError TimedOut msg), ts))"
  using assms(2,3)
proof (induction turns)
  case (Cons t ts)
  obtain now res after where t: "t = (now, res, after)" by (cases t) auto
  with Cons assms(1) show ?case by auto
qed simp

subsection \<open>Properties\<close>

text \<open>C40. The polled receiver delivers exactly the frames sent, in order. However the stream of
  whole frames is cut into reads, and however many of the reads answer \<open>WouldBlock\<close> or
  \<open>Interrupted\<close>, polling a new connection as often as there are frames and reads returns
  those frames and no error.\<close>

theorem polled_frames_delivered:
  assumes "list_all fits fs" and "list_all benign reads"
    and "concat (map delivered reads) = concat (map framed fs)"
    and "length fs + length reads \<le> n"
  shows "fst (recv_polls n framed_conn_new reads) = fs \<and>
         fst (snd (recv_polls n framed_conn_new reads)) = None"
proof -
  have "conn_wf framed_conn_new" "inbound framed_conn_new reads = concat (map framed fs)"
    by (simp_all add: conn_wf_def framed_conn_new_def inbound_def pending_in_def assms(3))
  from recv_polls_complete [OF this(1) assms(2,1) this(2) assms(4)] show ?thesis by auto
qed

text \<open>No frame is invented, lost or altered, whatever the socket answers. After any number of
  polls of a well-formed connection, the frames returned, re-framed, followed by the bytes not
  yet parsed, are the bytes that were to be parsed at the start, also when a poll ended in an
  error; every frame returned is within the frame limit.\<close>

theorem polled_bytes_conserved:
  assumes "conn_wf c" and "recv_polls n c reads = (fs, e, c', reads')"
  shows "inbound c reads = concat (map framed fs) @ inbound c' reads' \<and> list_all fits fs"
  using recv_polls_accounts [OF assms] .

text \<open>The polled sender keeps the byte stream intact. Whatever partial writes, idle answers and
  errors the socket gives while frames are queued, the bytes it took followed by the bytes still
  buffered are the frames in order, so nothing is dropped, repeated or interleaved.\<close>

theorem queued_bytes_conserved:
  assumes "list_all (\<lambda>q. fits (fst q)) qs" and "queue_all framed_conn_new qs = (c', sent)"
  shows "sent @ drop (outbox_off c') (outbox c') = concat (map (\<lambda>q. framed (fst q)) qs) \<and>
         pending_out c' = length (concat (map (\<lambda>q. framed (fst q)) qs)) - length sent"
proof -
  have eq: "sent @ pending_bytes c' = concat (map (\<lambda>q. framed (fst q)) qs)"
    using queue_all_accounts [OF _ assms]
    by (simp add: out_wf_def framed_conn_new_def pending_bytes_def)
  then have "pending_out c' = length (concat (map (\<lambda>q. framed (fst q)) qs)) - length sent"
    by (metis add_diff_cancel_left' length_append length_drop pending_bytes_def pending_out_def)
  with eq show ?thesis by (simp add: pending_bytes_def)
qed

text \<open>Blocking frames round trip, and an oversized length is refused before its body is
  read.\<close>

theorem blocking_round_trip:
  "(send_framed f = Inr w \<longrightarrow> recv_framed (w @ rest) = Inr (f, rest)) \<and>
   (length f > MAX_FRAME_LEN \<longrightarrow> send_framed f = Inl (IoError InvalidInput ''frame exceeds MAX_FRAME_LEN'')) \<and>
   (unat n > MAX_FRAME_LEN \<longrightarrow> recv_framed (le_bytes 4 (n :: u32) @ rest) =
      Inl (IoError InvalidData ''incoming frame length exceeds MAX_FRAME_LEN''))"
proof -
  have "of_le_bytes (le_bytes 4 n) = n" by (simp add: of_le_bytes_full)
  then show ?thesis
    using recv_send_framed by (auto simp: send_framed_def recv_framed_def read_exact_def Let_def)
qed

text \<open>The bounded write never gives a peer up untried, and gives up a wedged one. Only whole
  prefixes of the frame are written and success means all of it; a peer that takes everything in
  its first write succeeds even if the deadline has passed; a peer that takes nothing fails with
  a timeout, with nothing written, at the first clock reading past the deadline or the stall
  limit.\<close>

theorem write_all_by_fair:
  "(write_all_by bs deadline lp att turns = (sent, out) \<longrightarrow>
      (\<exists>rest. bs = sent @ rest \<and> (\<forall>ts. out = Some (Inr (), ts) \<longrightarrow> rest = []))) \<and>
   (bs \<noteq> [] \<and> length bs \<le> n \<longrightarrow>
      write_all_by bs deadline lp False ((now, WriteOk n, after) # turns) = (bs, Some (Inr (), turns))) \<and>
   (bs \<noteq> [] \<and> ekind e = WouldBlock \<and> (\<forall>(t, res, after) \<in> set turns. res = WriteErr e) \<and>
    (\<exists>(t, res, after) \<in> set turns. t \<ge> deadline \<or> t - lp \<ge> STALL_LIMIT) \<longrightarrow>
      (\<exists>msg ts. write_all_by bs deadline lp False ((now, WriteErr e, after) # turns) =
         ([], Some (Inl (IoError TimedOut msg), ts))))"
proof (intro conjI impI)
  show "\<exists>rest. bs = sent @ rest \<and> (\<forall>ts. out = Some (Inr (), ts) \<longrightarrow> rest = [])"
    if "write_all_by bs deadline lp att turns = (sent, out)"
    using write_all_by_prefix [OF that] .
  show "write_all_by bs deadline lp False ((now, WriteOk n, after) # turns) = (bs, Some (Inr (), turns))"
    if "bs \<noteq> [] \<and> length bs \<le> n"
  proof -
    have "write_all_by [] deadline after True turns = ([], Some (Inr (), turns))"
      by (cases turns) auto
    moreover from that have "0 < n" by (cases bs) auto
    ultimately show ?thesis using that by auto
  qed
  assume a: "bs \<noteq> [] \<and> ekind e = WouldBlock \<and> (\<forall>(t, res, after) \<in> set turns. res = WriteErr e) \<and>
    (\<exists>(t, res, after) \<in> set turns. t \<ge> deadline \<or> t - lp \<ge> STALL_LIMIT)"
  with write_all_by_wedged [of bs turns e deadline lp] show
    "\<exists>msg ts. write_all_by bs deadline lp False ((now, WriteErr e, after) # turns) =
         ([], Some (Inl (IoError TimedOut msg), ts))"
    by (simp add: case_prod_beta)
qed

subsection \<open>Concrete runs\<close>

lemma sample_framed: "framed [1, 2] = [2, 0, 0, 0, 1, 2]" "framed [] = [0, 0, 0, 0]"
  by (simp_all add: framed_def le_bytes_widths)

lemma sample_fits: "fits [1, 2]" "fits []"
  by (simp_all add: fits_def MAX_FRAME_LEN_def)

theorem polled_frames_delivered_witness:
  "fst (recv_polls 5 framed_conn_new
     [ReadOk [2, 0, 0], ReadErr (IoError WouldBlock ''''), ReadOk [0, 1, 2, 0, 0, 0, 0]]) = [[1, 2], []]"
  using polled_frames_delivered [of "[[1, 2], []]"
      "[ReadOk [2, 0, 0], ReadErr (IoError WouldBlock ''''), ReadOk [0, 1, 2, 0, 0, 0, 0]]" 5]
  by (simp add: sample_framed sample_fits del: recv_polls.simps)

theorem polled_bytes_conserved_witness:
  "case recv_polls 2 framed_conn_new [ReadOk [2, 0, 0], ReadErr (IoError ConnectionReset '''')] of
     (fs, e, c', reads') \<Rightarrow>
       conn_wf framed_conn_new \<and> [2, 0, 0] = concat (map framed fs) @ inbound c' reads'"
proof -
  have wf: "conn_wf framed_conn_new" by (simp add: conn_wf_def framed_conn_new_def)
  have "inbound framed_conn_new [ReadOk [2, 0, 0], ReadErr (IoError ConnectionReset '''')] = [2, 0, 0]"
    by (simp add: inbound_def pending_in_def framed_conn_new_def)
  with wf polled_bytes_conserved [OF wf, of 2 "[ReadOk [2, 0, 0], ReadErr (IoError ConnectionReset '''')]"]
  show ?thesis by (auto split: prod.split)
qed

theorem queued_bytes_conserved_witness:
  "case queue_all framed_conn_new [([1, 2], [WriteOk 3]), ([], [])] of
     (c', sent) \<Rightarrow> sent @ drop (outbox_off c') (outbox c') = [2, 0, 0, 0, 1, 2, 0, 0, 0, 0]"
  using queued_bytes_conserved [of "[([1, 2], [WriteOk 3]), ([], [])]"]
  by (auto simp: sample_fits sample_framed split: prod.split simp del: queue_all.simps)

theorem blocking_round_trip_witness:
  "recv_framed ([2, 0, 0, 0, 1, 2] @ [9]) = Inr ([1, 2], [9])"
  using blocking_round_trip [of "[1, 2]" "[2, 0, 0, 0, 1, 2]" "[9]" 0]
    sample_fits(1) sample_framed(1)
  by (auto simp: send_framed_def framed_def fits_def)

theorem write_all_by_fair_witness:
  "write_all_by [5, 6] 10 0 False [(99, WriteOk 2, 99)] = ([5, 6], Some (Inr (), []))"
  using write_all_by_fair [of "[5, 6]" 10 0 False "[]" "[]" None 2 99 99 "IoError WouldBlock ''''"]
  by simp

end
