(* ===== verification/Stream_Proto.thy ===== *)
theory Stream_Proto
  imports Replication Codec_Props Transport
begin

text \<open>
  The stream plane of \<open>xchannel-net-core/src/stream.rs\<close>: the subscription handshake on both
  sides and the two poll items of the duty cycle. The blocking transport of a handshake is the
  answer of its \<open>recv_frame\<close> and the function giving the answer of each \<open>send_frame\<close>; the
  frames sent are part of the result. The poll items work on the \<open>framed_conn\<close> of
  \<open>Transport\<close>. The file state at each read of the source is an argument.
\<close>

definition STREAM_ID :: stream_id where
  "STREAM_ID = 0"

record channel_source =
  cs_path :: path
  cs_region_size :: u32
  cs_mtu :: u32
  cs_file_roll_size :: u64
  cs_keep_files :: u32

subsection \<open>Origin side\<close>

record 'r stream_server =
  sv_source :: "'r replication_source"

text \<open>\<open>send\<close> then continue, or return the error of the send; the frame is recorded when the
  transport took it.\<close>

definition send_then ::
  "(bytes \<Rightarrow> unit io_result) \<Rightarrow> bytes \<Rightarrow> 'a io_result \<Rightarrow> 'a io_result \<times> bytes list" where
  "send_then send bs k = (case send bs of Inl e \<Rightarrow> (Inl e, []) | Inr _ \<Rightarrow> (k, [bs]))"

text \<open>The decision for a decoded \<open>Subscribe\<close>. No result when the seek is still waiting for
  records after the last file state given.\<close>

definition accept_resolved ::
  "('s, 'r) reader_api \<Rightarrow> (bytes \<Rightarrow> unit io_result) \<Rightarrow> channel_source \<Rightarrow> 's \<Rightarrow> 's \<Rightarrow> 's list \<Rightarrow>
     rstring \<Rightarrow> record_index \<Rightarrow> u64 \<Rightarrow> ('r stream_server io_result \<times> bytes list) option" where
  "accept_resolved api send src s0 s1 ss name from their_generation =
     (case source_open api s0 (cs_path src) of
        Inl e \<Rightarrow> Some (Inl e, [])
      | Inr (source, earliest) \<Rightarrow>
          (case source_head api s1 source of
             Inl e \<Rightarrow> Some (Inl e, [])
           | Inr head \<Rightarrow>
               let generation = source_generation api source in
               if from > 0 \<and> their_generation \<noteq> generation then
                 Some (send_then send (encode_stream (Diverged name earliest head))
                   (Inl (IoError InvalidData ''subscriber diverged: the name was reclaimed'')))
               else if from > 0 \<and> from < earliest then
                 Some (send_then send (encode_stream (Gap name earliest earliest))
                   (Inl (IoError InvalidData ''subscriber behind retention'')))
               else if from > head then
                 Some (send_then send (encode_stream (Diverged name earliest head))
                   (Inl (IoError InvalidData ''subscriber diverged: from is past head'')))
               else
                 let start = max from earliest in
                 (case skip_to api ss start source of
                    None \<Rightarrow> None
                  | Some (Inl e, _) \<Rightarrow> Some (Inl e, [])
                  | Some (Inr _, source') \<Rightarrow>
                      Some (send_then send
                        (encode_stream (SubscribeAck name STREAM_ID start head (cs_region_size src)
                           (cs_mtu src) (cs_file_roll_size src) (cs_keep_files src) generation))
                        (Inr \<lparr>sv_source = source'\<rparr>)))))"

definition accept_subscription ::
  "('s, 'r) reader_api \<Rightarrow> bytes io_result \<Rightarrow> (bytes \<Rightarrow> unit io_result) \<Rightarrow>
     (rstring \<Rightarrow> channel_source option) \<Rightarrow> 's \<Rightarrow> 's \<Rightarrow> 's list \<Rightarrow>
     ('r stream_server io_result \<times> bytes list) option" where
  "accept_subscription api recv send resolve s0 s1 ss =
     (case and_then recv decode_stream of
        Inl e \<Rightarrow> Some (Inl e, [])
      | Inr (Subscribe name from generation) \<Rightarrow>
          (case resolve name of
             None \<Rightarrow> Some (Inl (IoError NotFound ''unknown channel''), [])
           | Some src \<Rightarrow> accept_resolved api send src s0 s1 ss name from generation)
      | Inr _ \<Rightarrow> Some (Inl (invalid ''first stream frame must be Subscribe''), []))"

definition pump_one ::
  "('s, 'r) reader_api \<Rightarrow> (bytes \<Rightarrow> unit io_result) \<Rightarrow> 's list \<Rightarrow> 'r stream_server \<Rightarrow>
     (unit io_result \<times> bytes list \<times> 'r stream_server) option" where
  "pump_one api send ss sv =
     (case next_frame api ss (sv_source sv) of
        None \<Rightarrow> None
      | Some (Inl e, src, _) \<Rightarrow> Some (Inl e, [], sv\<lparr>sv_source := src\<rparr>)
      | Some (Inr f, src, _) \<Rightarrow>
          (case send_then send (encode_stream (Record STREAM_ID f)) (Inr ()) of
             (r, out) \<Rightarrow> Some (r, out, sv\<lparr>sv_source := src\<rparr>)))"

definition try_pump_one ::
  "('s, 'r) reader_api \<Rightarrow> (bytes \<Rightarrow> unit io_result) \<Rightarrow> 's \<Rightarrow> 'r stream_server \<Rightarrow>
     bool io_result \<times> bytes list \<times> 'r stream_server" where
  "try_pump_one api send s sv =
     (case try_next_frame api s (sv_source sv) of
        (Inl e, src) \<Rightarrow> (Inl e, [], sv\<lparr>sv_source := src\<rparr>)
      | (Inr (Some f), src) \<Rightarrow>
          (case send_then send (encode_stream (Record STREAM_ID f)) (Inr True) of
             (r, out) \<Rightarrow> (r, out, sv\<lparr>sv_source := src\<rparr>))
      | (Inr None, src) \<Rightarrow> (Inr False, [], sv\<lparr>sv_source := src\<rparr>))"

subsection \<open>Subscriber side\<close>

datatype subscribe_error =
    Rebuild (diverged: bool) (err_earliest: record_index) (err_head: record_index) (detail: string)
  | SubIo io_error

definition requires_rebuild :: "subscribe_error \<Rightarrow> bool" where
  "requires_rebuild e = (case e of Rebuild _ _ _ _ \<Rightarrow> True | SubIo _ \<Rightarrow> False)"

fun io_error_of :: "subscribe_error \<Rightarrow> io_error" where
  "io_error_of (SubIo e) = e"
| "io_error_of (Rebuild _ _ _ d) = IoError InvalidData d"

record 'w stream_client =
  sc_sink :: "'w replication_sink"
  sc_head :: record_index

definition subscribe ::
  "('s, 'r) reader_api \<Rightarrow> ('s, 'w) writer_api \<Rightarrow> (bytes \<Rightarrow> unit io_result) \<Rightarrow> bytes io_result \<Rightarrow>
     rstring \<Rightarrow> record_index \<Rightarrow> u64 \<Rightarrow> path \<Rightarrow> 's \<Rightarrow> (subscribe_error + 'w stream_client) \<times> 's" where
  "subscribe rapi wapi send recv name from generation replica_path s =
     (case send (encode_stream (Subscribe name from generation)) of
        Inl e \<Rightarrow> (Inl (SubIo e), s)
      | Inr _ \<Rightarrow>
          (case and_then recv decode_stream of
             Inl e \<Rightarrow> (Inl (SubIo e), s)
           | Inr (SubscribeAck _ _ start head region_size mtu roll keep gen) \<Rightarrow>
               (case sink_open rapi wapi s replica_path name region_size mtu roll keep start gen of
                  (Inl e, s') \<Rightarrow> (Inl (SubIo e), s')
                | (Inr sink, s') \<Rightarrow> (Inr \<lparr>sc_sink = sink, sc_head = head\<rparr>, s'))
           | Inr (Gap _ earliest head) \<Rightarrow>
               (Inl (Rebuild False earliest head ''gap: source's earliest retained index''), s)
           | Inr (Diverged _ earliest head) \<Rightarrow>
               (Inl (Rebuild True earliest head ''diverged: replica is not a prefix of this channel''), s)
           | Inr _ \<Rightarrow> (Inl (SubIo (invalid ''expected SubscribeAck, Gap or Diverged'')), s)))"

text \<open>What a client does with a received frame.\<close>

definition apply_message ::
  "('s, 'w) writer_api \<Rightarrow> 's \<Rightarrow> 'w replication_sink \<Rightarrow> bytes \<Rightarrow>
     unit io_result \<times> 's \<times> 'w replication_sink" where
  "apply_message api s sk bs =
     (case decode_stream bs of
        Inl e \<Rightarrow> (Inl e, s, sk)
      | Inr (Record _ frame) \<Rightarrow> sink_apply api s sk frame
      | Inr (Gap _ earliest _) \<Rightarrow> (Inl (IoError InvalidData ''mid-stream gap''), s, sk)
      | Inr _ \<Rightarrow> (Inl (invalid ''expected Record''), s, sk))"

definition recv_one ::
  "('s, 'w) writer_api \<Rightarrow> bytes io_result \<Rightarrow> 's \<Rightarrow> 'w stream_client \<Rightarrow>
     unit io_result \<times> 's \<times> 'w stream_client" where
  "recv_one api recv s cl =
     (case recv of
        Inl e \<Rightarrow> (Inl e, s, cl)
      | Inr bs \<Rightarrow> (case apply_message api s (sc_sink cl) bs of
          (r, s', sk) \<Rightarrow> (r, s', cl\<lparr>sc_sink := sk\<rparr>)))"

subsection \<open>Poll items\<close>

record 'r server_poll_item =
  sp_conn :: framed_conn
  sp_source :: "'r replication_source"
  sp_max_pending_out :: nat

definition server_adopt :: "'r stream_server \<Rightarrow> 'r server_poll_item" where
  "server_adopt sv = \<lparr>sp_conn = framed_conn_new, sp_source = sv_source sv, sp_max_pending_out = MAX_PENDING_OUT\<rparr>"

definition set_max_pending_out :: "'r server_poll_item \<Rightarrow> nat \<Rightarrow> 'r server_poll_item" where
  "set_max_pending_out item bytes = item\<lparr>sp_max_pending_out := bytes\<rparr>"

text \<open>The batch loop: \<open>n\<close> more records may be sent, \<open>sent\<close> were; \<open>world k\<close> is the
  file state at the read number \<open>k\<close>. Besides the result it returns the answers of the socket
  not used and the bytes the socket took.\<close>

fun serve_batch ::
  "('s, 'r) reader_api \<Rightarrow> (nat \<Rightarrow> 's) \<Rightarrow> nat \<Rightarrow> nat \<Rightarrow> 'r server_poll_item \<Rightarrow> write_result list \<Rightarrow>
     nat io_result \<times> 'r server_poll_item \<times> write_result list \<times> bytes" where
  "serve_batch api world 0 sent item ws = (Inr sent, item, ws, [])"
| "serve_batch api world (Suc n) sent item ws =
     (case try_next_frame api (world sent) (sp_source item) of
        (Inl e, src) \<Rightarrow> (Inl e, item\<lparr>sp_source := src\<rparr>, ws, [])
      | (Inr None, src) \<Rightarrow> (Inr sent, item\<lparr>sp_source := src\<rparr>, ws, [])
      | (Inr (Some f), src) \<Rightarrow>
          (case queue_frame (sp_conn item) (encode_stream (Record STREAM_ID f)) ws of
             (Inl e, c, ws', out) \<Rightarrow> (Inl e, item\<lparr>sp_source := src, sp_conn := c\<rparr>, ws', out)
           | (Inr _, c, ws', out) \<Rightarrow>
               if pending_out c \<ge> sp_max_pending_out item
               then (Inr (Suc sent), item\<lparr>sp_source := src, sp_conn := c\<rparr>, ws', out)
               else (case serve_batch api world n (Suc sent) (item\<lparr>sp_source := src, sp_conn := c\<rparr>) ws' of
                       (r, item', ws'', out') \<Rightarrow> (r, item', ws'', out @ out'))))"

definition server_poll ::
  "('s, 'r) reader_api \<Rightarrow> (nat \<Rightarrow> 's) \<Rightarrow> nat \<Rightarrow> 'r server_poll_item \<Rightarrow> write_result list \<Rightarrow>
     nat io_result \<times> 'r server_poll_item \<times> write_result list \<times> bytes" where
  "server_poll api world max_batch item ws =
     (case flush (sp_conn item) ws of
        (Inl e, c, ws', out) \<Rightarrow> (Inl e, item\<lparr>sp_conn := c\<rparr>, ws', out)
      | (Inr done, c, ws', out) \<Rightarrow>
          if \<not> done \<or> pending_out c \<ge> sp_max_pending_out item
          then (Inr 0, item\<lparr>sp_conn := c\<rparr>, ws', out)
          else (case serve_batch api world max_batch 0 (item\<lparr>sp_conn := c\<rparr>) ws' of
                  (r, item', ws'', out') \<Rightarrow> (r, item', ws'', out @ out')))"

record 'w client_poll_item =
  cp_conn :: framed_conn
  cp_sink :: "'w replication_sink"
  cp_head :: record_index

definition client_adopt :: "'w stream_client \<Rightarrow> 'w client_poll_item" where
  "client_adopt cl = \<lparr>cp_conn = framed_conn_new, cp_sink = sc_sink cl, cp_head = sc_head cl\<rparr>"

fun client_poll ::
  "('s, 'w) writer_api \<Rightarrow> nat \<Rightarrow> nat \<Rightarrow> 's \<Rightarrow> 'w client_poll_item \<Rightarrow> read_result list \<Rightarrow>
     nat io_result \<times> 's \<times> 'w client_poll_item \<times> read_result list" where
  "client_poll api 0 applied s item reads = (Inr applied, s, item, reads)"
| "client_poll api (Suc n) applied s item reads =
     (case try_recv_frame (cp_conn item) reads of
        (Inl e, c, rs) \<Rightarrow> (Inl e, s, item\<lparr>cp_conn := c\<rparr>, rs)
      | (Inr None, c, rs) \<Rightarrow> (Inr applied, s, item\<lparr>cp_conn := c\<rparr>, rs)
      | (Inr (Some bs), c, rs) \<Rightarrow>
          (case apply_message api s (cp_sink item) bs of
             (Inl e, s', sk) \<Rightarrow> (Inl e, s', item\<lparr>cp_conn := c, cp_sink := sk\<rparr>, rs)
           | (Inr _, s', sk) \<Rightarrow>
               client_poll api n (Suc applied) s' (item\<lparr>cp_conn := c, cp_sink := sk\<rparr>) rs))"

subsection \<open>The server's polls\<close>

text \<open>Polls one after the other, each with its own file states, batch size and socket answers,
  until one fails.\<close>

fun server_polls ::
  "('s, 'r) reader_api \<Rightarrow> ((nat \<Rightarrow> 's) \<times> nat \<times> write_result list) list \<Rightarrow> 'r server_poll_item \<Rightarrow>
     unit io_result \<times> 'r server_poll_item \<times> bytes" where
  "server_polls api [] item = (Inr (), item, [])"
| "server_polls api ((world, n, ws) # ps) item =
     (case server_poll api world n item ws of
        (Inl e, item', _, out) \<Rightarrow> (Inl e, item', out)
      | (Inr _, item', _, out) \<Rightarrow>
          (case server_polls api ps item' of (r, item'', out') \<Rightarrow> (r, item'', out @ out')))"

definition wire_of :: "record_frame list \<Rightarrow> bytes" where
  "wire_of fs = concat (map (\<lambda>f. framed (encode_stream (Record STREAM_ID f))) fs)"

definition source_rest :: "('s \<Rightarrow> 'r \<Rightarrow> entry list) \<Rightarrow> 's \<Rightarrow> 'r replication_source \<Rightarrow> record_frame list" where
  "source_rest todo sF src = frames_of (rs_next_index src) (todo sF (rs_reader src))"

lemma wire_of_simps [simp]:
  "wire_of [] = []" "wire_of (f # fs) = framed (encode_stream (Record STREAM_ID f)) @ wire_of fs"
  "wire_of (fs @ gs) = wire_of fs @ wire_of gs"
  by (simp_all add: wire_of_def)

text \<open>One step of the accounting: what the socket took, then what is buffered, is what was
  buffered, then the frames taken from the source.\<close>

definition accounts ::
  "('s \<Rightarrow> 'r \<Rightarrow> entry list) \<Rightarrow> 's \<Rightarrow> 'r server_poll_item \<Rightarrow> 'r server_poll_item \<Rightarrow> bytes \<Rightarrow> bool" where
  "accounts todo sF item item' out \<longleftrightarrow>
     (\<exists>fs. source_rest todo sF (sp_source item) = fs @ source_rest todo sF (sp_source item') \<and>
        list_all (\<lambda>f. fits (encode_stream (Record STREAM_ID f))) fs \<and>
        out @ pending_bytes (sp_conn item') = pending_bytes (sp_conn item) @ wire_of fs)"

lemma accounts_trans:
  assumes "accounts todo sF a b out" "accounts todo sF b c out'"
  shows "accounts todo sF a c (out @ out')"
proof -
  from assms obtain fs gs where
    "source_rest todo sF (sp_source a) = fs @ gs @ source_rest todo sF (sp_source c)"
    "list_all (\<lambda>f. fits (encode_stream (Record STREAM_ID f))) (fs @ gs)"
    and o: "out @ pending_bytes (sp_conn b) = pending_bytes (sp_conn a) @ wire_of fs"
      "out' @ pending_bytes (sp_conn c) = pending_bytes (sp_conn b) @ wire_of gs"
    by (auto simp: accounts_def)
  moreover have "(out @ out') @ pending_bytes (sp_conn c) = pending_bytes (sp_conn a) @ wire_of (fs @ gs)"
    using o by (metis append.assoc wire_of_simps(3))
  ultimately show ?thesis unfolding accounts_def by (metis append.assoc)
qed

lemma serve_batch_accounts:
  assumes "reader_laws api todo" and "\<forall>k. grows todo (world k) sF" and "out_wf (sp_conn item)"
    and "serve_batch api world n sent item ws = (Inr r, item', ws', out)"
  shows "accounts todo sF item item' out \<and> out_wf (sp_conn item')"
  using assms(3,4)
proof (induction n arbitrary: sent item ws out)
  case 0
  then show ?case by (auto simp: accounts_def intro: exI [of _ "[]"])
next
  case (Suc n)
  obtain a src where t: "try_next_frame api (world sent) (sp_source item) = (a, src)" by fastforce
  consider e where "a = Inl e" | "a = Inr None" | f where "a = Inr (Some f)" by (cases a) auto
  then show ?case
  proof cases
    case 1
    with Suc.prems t show ?thesis by simp
  next
    case 2
    with t have "src = sp_source item"
      using finish_read_None [OF _ assms(1)] by (simp add: try_next_frame_def)
    with 2 Suc.prems t show ?thesis by (auto simp: accounts_def intro: exI [of _ "[]"])
  next
    case 3
    let ?bs = "encode_stream (Record STREAM_ID f)"
    obtain q c w o1 where q: "queue_frame (sp_conn item) ?bs ws = (q, c, w, o1)"
      by (cases "queue_frame (sp_conn item) ?bs ws") auto
    from Suc.prems t 3 q obtain u where u: "q = Inr u" by (cases q) auto
    with q have fit: "fits ?bs" by (auto simp: queue_frame_def fits_def split: if_splits)
    let ?item = "item\<lparr>sp_source := src, sp_conn := c\<rparr>"
    have wf: "out_wf c" using queue_frame_out_wf [OF q Suc.prems(1)] .
    have "source_rest todo sF (sp_source item) = f # source_rest todo sF src"
      using finish_read_Some [OF _ assms(1)] t 3 assms(2) by (simp add: try_next_frame_def source_rest_def)
    with fit queue_frame_accounts [OF q fit Suc.prems(1)] have step: "accounts todo sF item ?item o1"
      by (auto simp: accounts_def intro: exI [of _ "[f]"])
    show ?thesis
    proof (cases "pending_out c \<ge> sp_max_pending_out item")
      case True
      with Suc.prems t 3 q u step wf show ?thesis by auto
    next
      case False
      with Suc.prems t 3 q u obtain o2 where
        s: "serve_batch api world n (Suc sent) ?item w = (Inr r, item', ws', o2)" "out = o1 @ o2"
        by (auto split: prod.splits)
      from Suc.IH [OF _ s(1)] wf have "accounts todo sF ?item item' o2 \<and> out_wf (sp_conn item')" by simp
      with step s(2) show ?thesis by (auto intro: accounts_trans)
    qed
  qed
qed


lemma server_poll_accounts:
  assumes "reader_laws api todo" and "\<forall>k. grows todo (world k) sF"
    and "server_poll api world n item ws = (Inr r, item', ws', out)"
  shows "accounts todo sF item item' out"
proof -
  obtain d c w o1 where f: "flush (sp_conn item) ws = (d, c, w, o1)"
    by (cases "flush (sp_conn item) ws") auto
  let ?item = "item\<lparr>sp_conn := c\<rparr>"
  have step: "accounts todo sF item ?item o1"
    using flush_accounts [OF f] by (auto simp: accounts_def intro: exI [of _ "[]"])
  from f assms(3) obtain b where d: "d = Inr b" by (cases d) (auto simp: server_poll_def)
  show ?thesis
  proof (cases "\<not> b \<or> pending_out c \<ge> sp_max_pending_out item")
    case True
    with f d assms(3) step show ?thesis by (auto simp: server_poll_def)
  next
    case False
    with f d assms(3) obtain o2 where s: "serve_batch api world n 0 ?item w = (Inr r, item', ws', o2)" "out = o1 @ o2"
      by (auto simp: server_poll_def split: prod.splits)
    from serve_batch_accounts [OF assms(1,2) _ s(1)] flush_out_wf [OF f] step s(2) show ?thesis
      by (auto intro: accounts_trans)
  qed
qed

lemma server_polls_accounts:
  assumes "reader_laws api todo"
    and "\<forall>p\<in>set ps. \<forall>k. grows todo (fst p k) sF"
    and "server_polls api ps item = (Inr (), item', out)"
  shows "accounts todo sF item item' out"
  using assms(2,3)
proof (induction ps arbitrary: item out)
  case Nil
  then show ?case by (auto simp: accounts_def intro: exI [of _ "[]"])
next
  case (Cons p ps)
  obtain world n ws where p: "p = (world, n, ws)" by (cases p)
  from Cons.prems(2) p obtain r i w o1 o2 where
    s: "server_poll api world n item ws = (Inr r, i, w, o1)"
      "server_polls api ps i = (Inr (), item', o2)" "out = o1 @ o2"
    by (auto split: prod.splits sum.splits)
  have "accounts todo sF item i o1" using server_poll_accounts [OF assms(1) _ s(1)] Cons.prems(1) p by simp
  moreover have "accounts todo sF i item' o2" using Cons.IH [OF _ s(2)] Cons.prems(1) by simp
  ultimately show ?case using s(3) by (auto intro: accounts_trans)
qed

text \<open>The outbound buffer of a server: one frame may cross the high-water mark, no more.\<close>

definition out_bound :: "'r server_poll_item \<Rightarrow> bool" where
  "out_bound item \<longleftrightarrow> pending_out (sp_conn item) \<le> sp_max_pending_out item + 4 + MAX_FRAME_LEN"

lemma pending_out_bytes: "pending_out c = length (pending_bytes c)"
  by (simp add: pending_out_def pending_bytes_def)

lemma flush_pending: "flush c ws = (r, c', ws', sent) \<Longrightarrow> pending_out c' \<le> pending_out c"
  using flush_accounts [of c ws r c' ws' sent] by (metis length_append le_add2 pending_out_bytes)

lemma queue_frame_pending:
  "queue_frame c f ws = (r, c', ws', sent) \<Longrightarrow> out_wf c \<Longrightarrow> pending_out c' \<le> pending_out c + 4 + MAX_FRAME_LEN"
proof (cases "fits f")
  case True
  assume q: "queue_frame c f ws = (r, c', ws', sent)" "out_wf c"
  from queue_frame_accounts [OF q(1) True q(2)] have
    "length sent + length (pending_bytes c') = length (pending_bytes c) + (4 + length f)"
    by (metis length_append length_framed)
  with True show ?thesis by (simp add: pending_out_bytes fits_def)
next
  case False
  assume "queue_frame c f ws = (r, c', ws', sent)"
  with False show ?thesis by (auto simp: queue_frame_def fits_def)
qed

lemma serve_batch_bound:
  assumes "pending_out (sp_conn item) < sp_max_pending_out item" and "out_wf (sp_conn item)"
    and "serve_batch api world n sent item ws = (r, item', ws', out)"
  shows "out_bound item' \<and> sp_max_pending_out item' = sp_max_pending_out item"
  using assms
proof (induction n arbitrary: sent item ws out)
  case 0
  then show ?case by (auto simp: out_bound_def)
next
  case (Suc n)
  obtain a src where t: "try_next_frame api (world sent) (sp_source item) = (a, src)" by fastforce
  show ?case
  proof (cases "\<exists>f. a = Inr (Some f)")
    case False
    with t Suc.prems show ?thesis by (auto simp: out_bound_def split: sum.splits option.splits)
  next
    case True
    then obtain f where a: "a = Inr (Some f)" by blast
    let ?bs = "encode_stream (Record STREAM_ID f)"
    obtain q c w o1 where q: "queue_frame (sp_conn item) ?bs ws = (q, c, w, o1)"
      by (cases "queue_frame (sp_conn item) ?bs ws") auto
    note p = queue_frame_pending [OF q Suc.prems(2)] and wf = queue_frame_out_wf [OF q Suc.prems(2)]
    show ?thesis
    proof (cases "(\<exists>e. q = Inl e) \<or> pending_out c \<ge> sp_max_pending_out item")
      case True
      with t a q p Suc.prems show ?thesis by (auto simp: out_bound_def split: sum.splits)
    next
      case False
      then obtain u where u: "q = Inr u" by (cases q) auto
      let ?item = "item\<lparr>sp_source := src, sp_conn := c\<rparr>"
      from False u t a q Suc.prems(3) obtain o2 where
        "serve_batch api world n (Suc sent) ?item w = (r, item', ws', o2)" by (auto split: prod.splits)
      from Suc.IH [OF _ _ this] False wf show ?thesis by simp
    qed
  qed
qed

lemma server_poll_bound:
  assumes "out_bound item" and "server_poll api world n item ws = (r, item', ws', out)"
  shows "out_bound item' \<and> sp_max_pending_out item' = sp_max_pending_out item"
proof -
  obtain d c w o1 where f: "flush (sp_conn item) ws = (d, c, w, o1)"
    by (cases "flush (sp_conn item) ws") auto
  let ?item = "item\<lparr>sp_conn := c\<rparr>"
  have b: "out_bound ?item" using flush_pending [OF f] assms(1) by (simp add: out_bound_def)
  show ?thesis
  proof (cases "(\<exists>e. d = Inl e) \<or> d = Inr False \<or> pending_out c \<ge> sp_max_pending_out item")
    case True
    with f assms(2) b show ?thesis by (auto simp: server_poll_def split: sum.splits)
  next
    case False
    then have "d = Inr True" by (cases d) auto
    with False f assms(2) obtain o2 where "serve_batch api world n 0 ?item w = (r, item', ws', o2)"
      by (auto simp: server_poll_def split: prod.splits)
    from serve_batch_bound [OF _ _ this] False flush_out_wf [OF f] show ?thesis by simp
  qed
qed


subsection \<open>The client's polls\<close>

fun client_polls ::
  "('s, 'w) writer_api \<Rightarrow> nat list \<Rightarrow> 's \<Rightarrow> 'w client_poll_item \<Rightarrow> read_result list \<Rightarrow>
     unit io_result \<times> 's \<times> 'w client_poll_item \<times> read_result list" where
  "client_polls api [] s item reads = (Inr (), s, item, reads)"
| "client_polls api (n # ns) s item reads =
     (case client_poll api n 0 s item reads of
        (Inl e, s', item', rs) \<Rightarrow> (Inl e, s', item', rs)
      | (Inr _, s', item', rs) \<Rightarrow> client_polls api ns s' item' rs)"

fun apply_messages ::
  "('s, 'w) writer_api \<Rightarrow> 's \<Rightarrow> 'w replication_sink \<Rightarrow> bytes list \<Rightarrow>
     unit io_result \<times> 's \<times> 'w replication_sink" where
  "apply_messages api s sk [] = (Inr (), s, sk)"
| "apply_messages api s sk (b # bs) =
     (case apply_message api s sk b of
        (Inl e, s', sk') \<Rightarrow> (Inl e, s', sk')
      | (Inr _, s', sk') \<Rightarrow> apply_messages api s' sk' bs)"

lemma apply_messages_append:
  "apply_messages api s sk bs = (Inr (), s1, sk1) \<Longrightarrow>
     apply_messages api s sk (bs @ cs) = apply_messages api s1 sk1 cs"
  by (induction bs arbitrary: s sk) (auto split: prod.splits sum.splits)

definition received ::
  "('s, 'w) writer_api \<Rightarrow> 's \<Rightarrow> 'w client_poll_item \<Rightarrow> read_result list \<Rightarrow> 's \<Rightarrow> 'w client_poll_item \<Rightarrow>
     read_result list \<Rightarrow> bytes list \<Rightarrow> bool" where
  "received api s item reads s' item' reads' bss \<longleftrightarrow>
     inbound (cp_conn item) reads = concat (map framed bss) @ inbound (cp_conn item') reads' \<and>
     list_all fits bss \<and> conn_wf (cp_conn item') \<and>
     apply_messages api s (cp_sink item) bss = (Inr (), s', cp_sink item')"

lemma received_trans:
  "received api s i r s1 i1 r1 bs \<Longrightarrow> received api s1 i1 r1 s2 i2 r2 cs \<Longrightarrow>
     received api s i r s2 i2 r2 (bs @ cs)"
  by (auto simp: received_def apply_messages_append)

lemma client_poll_received:
  assumes "conn_wf (cp_conn item)"
    and "client_poll api n applied s item reads = (Inr k, s', item', reads')"
  shows "\<exists>bss. received api s item reads s' item' reads' bss \<and> k = applied + length bss"
  using assms
proof (induction n arbitrary: applied s item reads)
  case 0
  then show ?case by (auto simp: received_def intro: exI [of _ "[]"])
next
  case (Suc n)
  obtain a c rs where t: "try_recv_frame (cp_conn item) reads = (a, c, rs)"
    by (cases "try_recv_frame (cp_conn item) reads") auto
  with try_recv_accounts [OF Suc.prems(1), of reads] have acc: "poll_accounts (cp_conn item) reads (a, c, rs)"
    by simp
  consider e where "a = Inl e" | "a = Inr None" | bs where "a = Inr (Some bs)" by (cases a) auto
  then show ?case
  proof cases
    case 1
    with t Suc.prems(2) show ?thesis by simp
  next
    case 2
    with t Suc.prems(2) acc show ?thesis by (auto simp: received_def intro: exI [of _ "[]"])
  next
    case 3
    obtain q s1 sk where q: "apply_message api s (cp_sink item) bs = (q, s1, sk)"
      by (cases "apply_message api s (cp_sink item) bs") auto
    from t 3 q Suc.prems(2) have q': "q = Inr ()" by (cases q) auto
    let ?item = "item\<lparr>cp_conn := c, cp_sink := sk\<rparr>"
    from acc 3 q q' have one: "received api s item reads s1 ?item rs [bs]"
      by (simp add: received_def)
    from t 3 q q' Suc.prems(2) have "client_poll api n (Suc applied) s1 ?item rs = (Inr k, s', item', reads')"
      by simp
    from Suc.IH [OF _ this] one obtain bss where
      "received api s1 ?item rs s' item' reads' bss" "k = Suc applied + length bss"
      by (auto simp: received_def)
    with received_trans [OF one this(1)] show ?thesis by (intro exI [of _ "[bs] @ bss"]) simp
  qed
qed

lemma client_polls_received:
  assumes "conn_wf (cp_conn item)" and "client_polls api ns s item reads = (Inr (), s', item', reads')"
  shows "\<exists>bss. received api s item reads s' item' reads' bss"
  using assms
proof (induction ns arbitrary: s item reads)
  case Nil
  then show ?case by (auto simp: received_def intro: exI [of _ "[]"])
next
  case (Cons n ns)
  from Cons.prems(2) obtain k s1 i1 r1 where
    p: "client_poll api n 0 s item reads = (Inr k, s1, i1, r1)"
      "client_polls api ns s1 i1 r1 = (Inr (), s', item', reads')"
    by (auto split: prod.splits sum.splits)
  from client_poll_received [OF Cons.prems(1) p(1)] obtain bs where
    b: "received api s item reads s1 i1 r1 bs" by auto
  with Cons.IH [OF _ p(2)] obtain cs where "received api s1 i1 r1 s' item' reads' cs"
    by (auto simp: received_def)
  from received_trans [OF b this] show ?case by blast
qed

lemma framed_prefix:
  assumes "list_all fits bs" "list_all fits cs" "concat (map framed bs) @ x = concat (map framed cs)"
  shows "\<exists>ds. cs = bs @ ds"
  using assms
proof (induction bs arbitrary: cs)
  case (Cons b bs)
  then obtain c ds where c: "cs = c # ds" by (cases cs) auto
  with Cons.prems have "framed b @ (concat (map framed bs) @ x) = framed c @ concat (map framed ds)"
    "fits b" "fits c" by simp_all
  with framed_inject have "b = c" by blast
  with Cons.IH [of ds] Cons.prems c show ?case by auto
qed simp

lemma apply_messages_records:
  assumes "list_all (\<lambda>f. fits (encode_stream (Record STREAM_ID f))) fs"
  shows "apply_messages api s sk (map (\<lambda>f. encode_stream (Record STREAM_ID f)) fs) = apply_all api s sk fs"
  using assms
proof (induction fs arbitrary: s sk)
  case (Cons f fs)
  have "length (rf_payload f) \<le> length (encode_stream (Record STREAM_ID f))"
    by (simp add: encode_stream_def enc_simps)
  with Cons.prems have "short (rf_payload f)" "length (encode_stream (Record STREAM_ID f)) < 2 ^ 64"
    by (auto simp: fits_def MAX_FRAME_LEN_def short_def)
  then have "decode_stream (encode_stream (Record STREAM_ID f)) = Inr (Record STREAM_ID f)"
    using stream_codec.frame_round_trip [of "Record STREAM_ID f"]
    by (simp add: decode_stream_def encode_stream_def)
  with Cons show ?case by (simp add: apply_message_def split: prod.splits sum.splits)
qed simp


subsection \<open>Properties\<close>

lemma server_client_records:
  assumes "accounts todo sF (server_adopt sv) item out"
    and "received api s (client_adopt cl) reads s' citem reads' bss"
    and "out = concat (map delivered reads) @ later"
  shows "\<exists>fs rest. source_rest todo sF (sv_source sv) = fs @ rest \<and>
     bss = map (\<lambda>f. encode_stream (Record STREAM_ID f)) fs \<and>
     list_all (\<lambda>f. fits (encode_stream (Record STREAM_ID f))) fs"
proof -
  let ?enc = "\<lambda>f. encode_stream (Record STREAM_ID f)"
  from assms(1) obtain gs where
    g: "source_rest todo sF (sv_source sv) = gs @ source_rest todo sF (sp_source item)"
      "list_all (\<lambda>f. fits (?enc f)) gs" "out @ pending_bytes (sp_conn item) = wire_of gs"
    by (auto simp: accounts_def server_adopt_def framed_conn_new_def pending_bytes_def)
  from assms(2) have r: "concat (map delivered reads) = concat (map framed bss) @ inbound (cp_conn citem) reads'"
    "list_all fits bss"
    by (simp_all add: received_def client_adopt_def inbound_def pending_in_def framed_conn_new_def)
  have "\<exists>ds. map ?enc gs = bss @ ds"
  proof (rule framed_prefix [OF r(2)])
    show "list_all fits (map ?enc gs)" using g(2) by (simp add: list_all_iff)
    show "concat (map framed bss) @ (inbound (cp_conn citem) reads' @ later @ pending_bytes (sp_conn item)) =
        concat (map framed (map ?enc gs))"
      using g(3) r(1) assms(3) by (simp add: wire_of_def comp_def)
  qed
  then obtain fs gs2 where "gs = fs @ gs2" "bss = map ?enc fs" by (metis map_eq_append_conv)
  with g show ?thesis by auto
qed

text \<open>C1. A replica is a faithful copy of a prefix of its origin. An origin serves a subscription by
  any sequence of polls, with any socket behaviour; the bytes it sent reach the subscriber, all
  or a prefix of them, cut anyhow; the subscriber, standing at the index the source stands at,
  applies them by any sequence of polls. Then the replica gained exactly the next \<open>n\<close> records of
  the origin, unchanged and in order, for some \<open>n\<close>; every segment boundary of the origin is one
  of the replica; and the replica's next index moved by \<open>n\<close>.\<close>

theorem replica_is_prefix:
  assumes "reader_laws rapi todo" and "writer_laws wapi v"
    and "\<forall>p\<in>set ps. \<forall>k. grows todo (fst p k) sF"
    and "server_polls rapi ps (server_adopt sv) = (Inr (), item, out)"
    and "out = concat (map delivered reads) @ later"
    and "client_polls wapi ns t (client_adopt cl) reads = (Inr (), t', citem, reads')"
  shows "\<exists>n es. let origin = take n (todo sF (rs_reader (sv_source sv))) in
     length origin = n \<and>
     wv_log v t' (sk_writer (cp_sink citem)) = wv_log v t (sk_writer (sc_sink cl)) @ es \<and>
     map snd es = map snd origin \<and> list_all2 (\<lambda>e o'. fst o' \<longrightarrow> fst e) es origin \<and>
     sk_expected_index (cp_sink citem) = sk_expected_index (sc_sink cl) + of_nat n \<and>
     (0 < n \<longrightarrow> sk_expected_index (sc_sink cl) = rs_next_index (sv_source sv))"
proof -
  have acc: "accounts todo sF (server_adopt sv) item out"
    using server_polls_accounts [OF assms(1,3,4)] .
  obtain bss where rcv: "received wapi t (client_adopt cl) reads t' citem reads' bss"
    using client_polls_received [OF _ assms(6)]
    by (auto simp: client_adopt_def conn_wf_def framed_conn_new_def)
  obtain fs rest where fs: "source_rest todo sF (sv_source sv) = fs @ rest"
    "bss = map (\<lambda>f. encode_stream (Record STREAM_ID f)) fs"
    "list_all (\<lambda>f. fits (encode_stream (Record STREAM_ID f))) fs"
    using server_client_records [OF acc rcv assms(5)] by blast
  define n where "n = length fs"
  define origin where "origin = take n (todo sF (rs_reader (sv_source sv)))"
  have origin: "fs = frames_of (rs_next_index (sv_source sv)) origin" "length origin = n"
    using fs(1) unfolding source_rest_def origin_def n_def
    by (metis append_eq_conv_conj take_frames_of, metis append_eq_conv_conj length_frames_of take_frames_of)
  have "apply_all wapi t (sc_sink cl) fs = (Inr (), t', cp_sink citem)"
    using rcv apply_messages_records [OF fs(3), of wapi t "sc_sink cl"] fs(2)
    by (simp add: received_def client_adopt_def)
  moreover have "\<forall>f\<in>set fs. length (rf_payload f) < 2 ^ 32"
    using fs(3) by (auto simp: list_all_iff fits_def MAX_FRAME_LEN_def encode_stream_def enc_simps)
  ultimately obtain es where es:
    "wv_log v t' (sk_writer (cp_sink citem)) = wv_log v t (sk_writer (sc_sink cl)) @ es" "mirrors es fs"
    "map rf_index fs = map (\<lambda>k. sk_expected_index (sc_sink cl) + of_nat k) [0..<length fs]"
    "sk_expected_index (cp_sink citem) = sk_expected_index (sc_sink cl) + of_nat (length fs)"
    using apply_all_mirrors [OF _ assms(2)] by blast
  have start: "0 < n \<longrightarrow> sk_expected_index (sc_sink cl) = rs_next_index (sv_source sv)"
  proof
    assume that: "0 < n"
    from that origin obtain e es' where "origin = e # es'" by (cases origin) auto
    with origin(1) es(3) show "sk_expected_index (sc_sink cl) = rs_next_index (sv_source sv)"
      by (cases e) (simp add: frame_of_def upt_conv_Cons del: upt_Suc)
  qed
  have mir: "map snd es = map snd origin \<and> list_all2 (\<lambda>e o'. fst o' \<longrightarrow> fst e) es origin"
    using mirrors_frames_of [OF es(2) [unfolded origin(1)]] .
  show ?thesis
    using origin(2) es(1) es(4) [folded n_def] mir start
    unfolding origin_def Let_def by blast
qed


text \<open>C2. The origin decides a resume position before it seeks, and never blocks on one it accepts.
  Another incarnation is answered \<open>Diverged\<close>, a position older than the retained history
  \<open>Gap\<close>, a position past the head \<open>Diverged\<close>, each before any read of the log; every other
  subscription is acknowledged from \<open>max from earliest\<close>, once at most
  \<open>start - earliest\<close> reads have returned, and the server then stands exactly at that record.\<close>

theorem accept_subscription_decides:
  assumes "reader_laws api todo" and "rd_open api s0 (cs_path src) = Inr r"
    and "grows todo s0 s1" and "rd_head api s1 r = Inr head" and "growing todo s1 ss"
    and "resolve name = Some src" and "\<forall>bs. send bs = Inr ()"
    and "str_ok name" and "length (encode_stream (Subscribe name from g)) < 2 ^ 64"
    and "unat from - unat (rd_base api r) \<le> length ss"
  shows "let earliest = rd_base api r; gen = rd_generation api r; start = max from earliest;
         res = accept_subscription api (Inr (encode_stream (Subscribe name from g))) send resolve s0 s1 ss
     in (from > 0 \<and> g \<noteq> gen \<longrightarrow>
           (\<exists>msg. res = Some (Inl (IoError InvalidData msg), [encode_stream (Diverged name earliest head)]))) \<and>
        (from > 0 \<and> g = gen \<and> from < earliest \<longrightarrow>
           (\<exists>msg. res = Some (Inl (IoError InvalidData msg), [encode_stream (Gap name earliest earliest)]))) \<and>
        (g = gen \<and> from \<ge> earliest \<and> from > head \<longrightarrow>
           (\<exists>msg. res = Some (Inl (IoError InvalidData msg), [encode_stream (Diverged name earliest head)]))) \<and>
        ((from = 0 \<or> g = gen \<and> earliest \<le> from) \<and> from \<le> head \<longrightarrow>
           (\<exists>sv. res = Some (Inr sv, [encode_stream (SubscribeAck name STREAM_ID start head
                 (cs_region_size src) (cs_mtu src) (cs_file_roll_size src) (cs_keep_files src) gen)]) \<and>
              rs_next_index (sv_source sv) = start \<and> start \<le> head \<and>
              (\<forall>sF. (\<forall>s\<in>set ss. grows todo s sF) \<longrightarrow> source_rest todo sF (sv_source sv) =
                 frames_of start (drop (unat start - unat earliest) (todo sF r)))))"
proof -
  have d: "decode_stream (encode_stream (Subscribe name from g)) = Inr (Subscribe name from g)"
    using stream_codec.frame_round_trip [of "Subscribe name from g"] assms(8,9)
    by (simp add: decode_stream_def encode_stream_def)
  let ?e = "rd_base api r" and ?src = "\<lparr>rs_reader = r, rs_next_index = rd_base api r\<rparr>"
  let ?res = "accept_subscription api (Inr (encode_stream (Subscribe name from g))) send resolve s0 s1 ss"
  have res: "?res = accept_resolved api send src s0 s1 ss name from g"
    by (simp add: accept_subscription_def d assms(6))
  note acc = res accept_resolved_def source_open_def source_head_def source_generation_def assms(2,4)
    send_then_def assms(7)
  have len: "unat head = unat ?e + length (todo s1 r)" using reader_lawsD(2) [OF assms(1-4)] .
  have ok: "\<exists>sv. ?res = Some (Inr sv, [encode_stream (SubscribeAck name STREAM_ID (max from ?e) head
          (cs_region_size src) (cs_mtu src) (cs_file_roll_size src) (cs_keep_files src) (rd_generation api r))]) \<and>
      rs_next_index (sv_source sv) = max from ?e \<and> max from ?e \<le> head \<and>
      (\<forall>sF. (\<forall>s\<in>set ss. grows todo s sF) \<longrightarrow> source_rest todo sF (sv_source sv) =
         frames_of (max from ?e) (drop (unat (max from ?e) - unat ?e) (todo sF r)))"
    if c: "from = 0 \<or> g = rd_generation api r \<and> ?e \<le> from" "from \<le> head"
  proof -
    let ?st = "max from ?e"
    have ge: "?e \<le> ?st" by simp
    have st: "unat ?st - unat ?e = unat from - unat ?e" by (simp add: max_def word_le_nat_alt)
    have le: "unat from - unat ?e \<le> length (todo s1 r)" using c(2) len by (simp add: word_le_nat_alt)
    obtain src' where s: "skip_to api ss ?st ?src = Some (Inr (), src')" "rs_next_index src' = ?st"
      "\<forall>sF. (\<forall>s\<in>set ss. grows todo s sF) \<longrightarrow> frames_of ?st (todo sF (rs_reader src')) =
          drop (unat ?st - unat ?e) (frames_of ?e (todo sF r))"
      using skip_to_reaches [OF assms(1,5), of ?src ?st] ge le assms(10) st by auto
    have "unat (?e + of_nat (unat ?st - unat ?e)) = unat ?st"
      using ge unat_bound [of ?st] by (subst unat_plus_of_nat) (simp_all add: word_le_nat_alt)
    then have "?e + of_nat (unat ?st - unat ?e) = ?st" by (simp add: word_unat_eq_iff)
    moreover have "?st \<le> head" using c(2) len by (simp add: word_le_nat_alt)
    moreover have "\<not> (from > 0 \<and> g \<noteq> rd_generation api r)" "\<not> (from > 0 \<and> from < ?e)" "\<not> from > head"
      using c by auto
    then have "?res = Some (Inr \<lparr>sv_source = src'\<rparr>, [encode_stream (SubscribeAck name STREAM_ID ?st head
          (cs_region_size src) (cs_mtu src) (cs_file_roll_size src) (cs_keep_files src) (rd_generation api r))])"
      by (simp add: acc Let_def s(1) del: not_gr_zero)
    ultimately show ?thesis
      using s(2,3) by (simp add: source_rest_def drop_frames_of)
  qed
  have diverged: "\<exists>msg. ?res = Some (Inl (IoError InvalidData msg), [encode_stream (Diverged name ?e head)])"
    if "from > 0 \<and> g \<noteq> rd_generation api r"
    unfolding res using that by (simp add: acc Let_def)
  have gap: "\<exists>msg. ?res = Some (Inl (IoError InvalidData msg), [encode_stream (Gap name ?e ?e)])"
    if "from > 0 \<and> g = rd_generation api r \<and> from < ?e"
    unfolding res using that by (simp add: acc Let_def)
  have ahead: "\<exists>msg. ?res = Some (Inl (IoError InvalidData msg), [encode_stream (Diverged name ?e head)])"
    if "g = rd_generation api r \<and> from \<ge> ?e \<and> from > head"
    unfolding res using that by (auto simp add: acc Let_def)
  show ?thesis
    unfolding Let_def
    by (intro conjI impI) (erule diverged, erule gap, erule ahead, elim conjE, erule (1) ok)
qed

text \<open>C3. A slow subscriber costs the origin a bounded amount of memory. Whatever the socket answers
  and however many records wait, a poll leaves at most the high-water mark plus one frame in the
  outbound buffer, error or not; and a poll that could not drain the buffer reads nothing more
  from the log.\<close>

theorem server_memory_bounded:
  assumes "pending_out (sp_conn item) \<le> sp_max_pending_out item + 4 + MAX_FRAME_LEN"
    and "server_poll api world n item ws = (r, item', ws', out)"
  shows "pending_out (sp_conn item') \<le> sp_max_pending_out item' + 4 + MAX_FRAME_LEN \<and>
     sp_max_pending_out item' = sp_max_pending_out item \<and>
     (fst (flush (sp_conn item) ws) \<noteq> Inr True \<longrightarrow> sp_source item' = sp_source item)"
proof -
  have "sp_source item' = sp_source item" if "fst (flush (sp_conn item) ws) \<noteq> Inr True"
    using that assms(2) by (auto simp: server_poll_def split: prod.splits sum.splits if_splits)
  with server_poll_bound [OF _ assms(2)] assms(1) show ?thesis by (simp add: out_bound_def)
qed

text \<open>C4. The subscriber's outcome says what to do. A handshake asks for a rebuild exactly when the
  source answered \<open>Gap\<close> or \<open>Diverged\<close>, telling the two apart and reporting the source's
  bounds, and then no file was touched; on an acknowledgement the replica is opened with the
  acknowledged geometry, start and generation, and every other failure is an I/O error.\<close>

theorem subscribe_outcome:
  assumes "send (encode_stream (Subscribe name from g)) = Inr ()"
    and "recv = Inr (encode_stream m)" and "stream_ok m" and "length (encode_stream m) < 2 ^ 64"
    and "subscribe rapi wapi send recv name from g p s = (res, s')"
  shows "(case m of
       Gap _ earliest head \<Rightarrow> \<exists>d. res = Inl (Rebuild False earliest head d) \<and> s' = s
     | Diverged _ earliest head \<Rightarrow> \<exists>d. res = Inl (Rebuild True earliest head d) \<and> s' = s
     | SubscribeAck _ _ start head region mtu roll keep gen \<Rightarrow>
         (case sink_open rapi wapi s p name region mtu roll keep start gen of
            (Inr sink, s1) \<Rightarrow> res = Inr \<lparr>sc_sink = sink, sc_head = head\<rparr> \<and> s' = s1
          | (Inl e, s1) \<Rightarrow> res = Inl (SubIo e) \<and> s' = s1)
     | _ \<Rightarrow> \<exists>e. res = Inl (SubIo e) \<and> ekind e = InvalidData \<and> s' = s) \<and>
     ((\<exists>e. res = Inl e \<and> requires_rebuild e) \<longleftrightarrow>
        (\<exists>n a b. m = Gap n a b) \<or> (\<exists>n a b. m = Diverged n a b))"
proof -
  have "decode_stream (encode_stream m) = Inr m"
    using stream_codec.frame_round_trip [OF assms(3)] assms(4)
    by (cases m) (simp_all add: decode_stream_def encode_stream_def)
  then show ?thesis
    using assms(1,2,5)
    by (cases m) (auto simp: subscribe_def requires_rebuild_def invalid_def split: prod.splits sum.splits)
qed

subsection \<open>Concrete runs\<close>

definition sample_record :: "nat \<Rightarrow> xmsg" where
  "sample_record n = \<lparr>xm_type = 1, xm_meta = 0, xm_payload = [of_nat n]\<rparr>"

definition sample_files :: files where
  "sample_files = [[1] \<mapsto> \<lparr>sl_base = 5, sl_generation = 0, sl_name = ascii ''a'',
     sl_entries = [(False, sample_record 7), (True, sample_record 8)], sl_rolled = False\<rparr>]"

definition sample_replica :: files where
  "sample_replica = [[2] \<mapsto> \<lparr>sl_base = 5, sl_generation = 0, sl_name = ascii ''a'',
     sl_entries = [], sl_rolled = False\<rparr>]"

definition sample_server :: "seg_reader stream_server" where
  "sample_server = \<lparr>sv_source = \<lparr>rs_reader = \<lparr>sr_path = [1], sr_base = 5, sr_generation = 0,
     sr_name = ascii ''a'', sr_pos = 0, sr_sequence = 0\<rparr>, rs_next_index = 5\<rparr>\<rparr>"

definition sample_client :: "seg_writer stream_client" where
  "sample_client = \<lparr>sc_sink = \<lparr>sk_writer = \<lparr>sw_path = [2], sw_generation = 0, sw_next = 5, sw_name = []\<rparr>,
     sk_expected_index = 5\<rparr>, sc_head = 7\<rparr>"

definition sample_frame :: bytes where
  "sample_frame = encode_stream (Record STREAM_ID (frame_of 5 (sample_record 7) False))"

lemma sample_try:
  "try_next_frame seg_reader_api sample_files (sv_source sample_server) =
     (Inr (Some (frame_of 5 (sample_record 7) False)),
      \<lparr>rs_reader = \<lparr>sr_path = [1], sr_base = 5, sr_generation = 0,
         sr_name = ascii ''a'', sr_pos = 1, sr_sequence = 0\<rparr>, rs_next_index = 6\<rparr>)"
  by (simp add: try_next_frame_def finish_read_def seg_reader_api_def seg_read_def seg_todo_def
      sample_files_def sample_server_def rolled_since_def Let_def)

lemma sample_frame_fits: "length sample_frame = 29" "fits sample_frame"
  by (simp_all add: sample_frame_def encode_stream_def enc_simps frame_of_def sample_record_def
      fits_def MAX_FRAME_LEN_def)

lemma queue_whole:
  assumes "fits f"
  shows "queue_frame framed_conn_new f [WriteOk (4 + length f)] = (Inr (), framed_conn_new, [], framed f)"
proof -
  let ?c = "framed_conn_new\<lparr>outbox := framed f\<rparr>"
  have "flush ?c [WriteOk (4 + length f)] = (Inr True, framed_conn_new, [], framed f)"
    by (subst flush_steps(3)) (simp_all add: flush_steps framed_conn_new_def)
  with assms show ?thesis by (simp add: queue_frame_def framed_def fits_def framed_conn_new_def)
qed

lemma recv_whole:
  assumes "fits f"
  shows "\<exists>c. try_recv_frame framed_conn_new [ReadOk (framed f)] = (Inr (Some f), c, [])"
proof -
  let ?c = "framed_conn_new\<lparr>inbox := framed f\<rparr>"
  have "take_buffered_frame framed_conn_new = (Inr None, framed_conn_new)"
    by (simp add: take_buffered_frame_def framed_conn_new_def)
  from try_recv_reads [OF this] have "try_recv_frame framed_conn_new [ReadOk (framed f)] = try_recv_frame ?c []"
    by (simp add: framed_conn_new_def)
  moreover have "pending_in ?c = framed f @ []" by (simp add: pending_in_def framed_conn_new_def)
  from take_buffered_whole [OF this assms] obtain c where "take_buffered_frame ?c = (Inr (Some f), c)" by auto
  ultimately show ?thesis by (simp add: try_recv_frame.simps)
qed

lemma sample_server_polls:
  "\<exists>item. server_polls seg_reader_api [(\<lambda>_. sample_files, 1, [WriteOk 33])] (server_adopt sample_server) =
     (Inr (), item, framed sample_frame)"
proof -
  have q: "queue_frame framed_conn_new sample_frame [WriteOk 33] = (Inr (), framed_conn_new, [], framed sample_frame)"
    using queue_whole [OF sample_frame_fits(2)] by (simp add: sample_frame_fits)
  have f: "flush framed_conn_new [WriteOk 33] = (Inr True, framed_conn_new, [WriteOk 33], [])"
    by (simp add: flush_steps framed_conn_new_def)
  have "pending_out framed_conn_new = 0" by (simp add: pending_out_def framed_conn_new_def)
  then show ?thesis
    by (simp add: server_poll_def server_adopt_def f q sample_try sample_frame_def [symmetric]
        MAX_PENDING_OUT_def)
qed

lemma sample_client_polls:
  "\<exists>t' citem. client_polls seg_writer_api [1] sample_replica (client_adopt sample_client) [ReadOk (framed sample_frame)] =
     (Inr (), t', citem, [])"
proof -
  obtain c where c: "try_recv_frame framed_conn_new [ReadOk (framed sample_frame)] = (Inr (Some sample_frame), c, [])"
    using recv_whole [OF sample_frame_fits(2)] by blast
  let ?f = "frame_of 5 (sample_record 7) False"
  obtain s sk where "sink_apply seg_writer_api sample_replica (sc_sink sample_client) ?f = (Inr (), s, sk)"
    by (simp add: sink_apply_def seg_writer_api_def sample_replica_def sample_client_def frame_of_def
        sample_record_def)
  then have "apply_message seg_writer_api sample_replica (sc_sink sample_client) sample_frame = (Inr (), s, sk)"
    using apply_messages_records [of "[?f]" seg_writer_api sample_replica "sc_sink sample_client"] sample_frame_fits(2)
    by (auto simp: sample_frame_def split: prod.splits sum.splits)
  with c show ?thesis by (simp add: client_adopt_def del: try_recv_frame.simps)
qed

theorem replica_is_prefix_witness:
  "\<exists>item out t' citem reads' n es.
     server_polls seg_reader_api [(\<lambda>_. sample_files, 1, [WriteOk 33])] (server_adopt sample_server) =
       (Inr (), item, out) \<and>
     client_polls seg_writer_api [1] sample_replica (client_adopt sample_client) [ReadOk out] =
       (Inr (), t', citem, reads') \<and>
     map snd es = map snd (take n (seg_todo sample_files (rs_reader (sv_source sample_server)))) \<and>
     wv_log seg_view t' (sk_writer (cp_sink citem)) = es"
proof -
  obtain item where s: "server_polls seg_reader_api [(\<lambda>_. sample_files, 1, [WriteOk 33])] (server_adopt sample_server) =
     (Inr (), item, framed sample_frame)" using sample_server_polls by blast
  obtain t' citem where c: "client_polls seg_writer_api [1] sample_replica (client_adopt sample_client)
     [ReadOk (framed sample_frame)] = (Inr (), t', citem, [])" using sample_client_polls by blast
  have "wv_log seg_view sample_replica (sk_writer (sc_sink sample_client)) = []"
    by (simp add: seg_view_def sample_replica_def sample_client_def)
  with replica_is_prefix [OF seg_reader_laws seg_writer_laws _ s _ c, where later = "[]" and sF = sample_files] s c
  show ?thesis by (auto simp: Let_def)
qed


lemma sample_open:
  "rd_open seg_reader_api sample_files [1] = Inr (rs_reader (sv_source sample_server))"
  "rd_head seg_reader_api sample_files (rs_reader (sv_source sample_server)) = Inr 7"
  "rd_base seg_reader_api (rs_reader (sv_source sample_server)) = 5"
  "rd_generation seg_reader_api (rs_reader (sv_source sample_server)) = 0"
  by (simp_all add: seg_reader_api_def sample_files_def sample_server_def)

theorem accept_subscription_decides_witness:
  "let src = \<lparr>cs_path = [1], cs_region_size = 4096, cs_mtu = 64, cs_file_roll_size = 0, cs_keep_files = 0\<rparr>;
       ask = (\<lambda>from. accept_subscription seg_reader_api
         (Inr (encode_stream (Subscribe (ascii ''a'') from 0))) (\<lambda>_. Inr ()) (\<lambda>_. Some src)
         sample_files sample_files (replicate 4 sample_files))
   in (\<exists>msg. ask 3 = Some (Inl (IoError InvalidData msg), [encode_stream (Gap (ascii ''a'') 5 5)])) \<and>
      (\<exists>sv sent. ask 6 = Some (Inr sv, sent) \<and> rs_next_index (sv_source sv) = 6)"
proof -
  let ?src = "\<lparr>cs_path = [1], cs_region_size = 4096, cs_mtu = 64, cs_file_roll_size = 0, cs_keep_files = 0\<rparr>"
  have n: "str_ok (ascii ''a'')" by (simp add: str_ok_def short_def utf8_char_def utf8_tail_def)
  have l: "length (encode_stream (Subscribe (ascii ''a'') from 0)) < 2 ^ 64" for "from"
    by (simp add: encode_stream_def enc_simps)
  have g: "growing seg_todo sample_files (replicate 4 sample_files)" by (simp add: numeral_eq_Suc)
  have o: "rd_open seg_reader_api sample_files (cs_path ?src) = Inr (rs_reader (sv_source sample_server))"
    by (simp add: sample_open)
  note d = accept_subscription_decides [OF seg_reader_laws o grows_refl sample_open(2) g refl _ n l,
      where send = "\<lambda>_. Inr ()", unfolded sample_open]
  show ?thesis using d [of 3] d [of 6] by (auto simp: Let_def)
qed

theorem server_memory_bounded_witness:
  "case server_poll seg_reader_api (\<lambda>_. sample_files) 1 (server_adopt sample_server) [] of
     (r, item', ws', out) \<Rightarrow>
       pending_out (sp_conn item') \<le> sp_max_pending_out item' + 4 + MAX_FRAME_LEN"
  using server_memory_bounded [of "server_adopt sample_server" seg_reader_api "\<lambda>_. sample_files" 1 "[]"]
  by (auto simp: server_adopt_def pending_out_def framed_conn_new_def split: prod.split)

theorem subscribe_outcome_witness:
  "\<exists>d. subscribe seg_reader_api seg_writer_api (\<lambda>_. Inr ()) (Inr (encode_stream (Gap (ascii ''a'') 5 5)))
     (ascii ''a'') 3 0 [2] sample_replica = (Inl (Rebuild False 5 5 d), sample_replica)"
proof -
  have m: "stream_ok (Gap (ascii ''a'') 5 5)" "length (encode_stream (Gap (ascii ''a'') 5 5)) < 2 ^ 64"
    by (simp_all add: str_ok_def short_def utf8_char_def utf8_tail_def encode_stream_def enc_simps)
  show ?thesis
    using subscribe_outcome [OF _ refl m, of "\<lambda>_. Inr ()" "ascii ''a''" 3 0 seg_reader_api seg_writer_api "[2]" sample_replica]
    by (cases "subscribe seg_reader_api seg_writer_api (\<lambda>_. Inr ()) (Inr (encode_stream (Gap (ascii ''a'') 5 5)))
     (ascii ''a'') 3 0 [2] sample_replica") auto
qed

end
