(* ===== verification/Mux_Props.thy ===== *)
theory Mux_Props
  imports Mux Stream_Proto
begin

text \<open>
  Correctness of the mux: what a poll merges, what a restart recovers from the topic's own
  records, where a member attaches, and that a retired mux is inert.
\<close>

subsection \<open>The topic's log\<close>

definition mux_log :: "('t, 'w) writer_view \<Rightarrow> 't \<times> ('w, 'r) mux \<Rightarrow> xmsg list" where
  "mux_log v st = map snd (wv_log v (fst st) (mx_topic (snd st)))"

definition data_records :: "xmsg list \<Rightarrow> xmsg list" where
  "data_records = filter (\<lambda>m. \<not> is_control (xm_type m))"

definition topic_record :: "u16 \<Rightarrow> record_frame \<Rightarrow> xmsg" where
  "topic_record ref f = \<lparr>xm_type = rf_msg_type f, xm_meta = 0,
     xm_payload = frame_data \<lparr>pv_member_ref = ref, pv_member_index = rf_index f,
       pv_orig_user_meta = rf_user_meta f\<rparr> (rf_payload f)\<rparr>"

definition control_record :: "u16 \<Rightarrow> bytes \<Rightarrow> xmsg" where
  "control_record ty p = \<lparr>xm_type = ty, xm_meta = 0, xm_payload = p\<rparr>"

lemma data_records_simps [simp]:
  "data_records [] = []"
  "data_records (m # ms) = (if is_control (xm_type m) then data_records ms else m # data_records ms)"
  "data_records (xs @ ys) = data_records xs @ data_records ys"
  by (simp_all add: data_records_def)

text \<open>The parts of a mux that a commit leaves alone.\<close>

definition same_mux :: "('w, 'r) mux \<Rightarrow> ('w, 'r) mux \<Rightarrow> bool" where
  "same_mux m m' \<longleftrightarrow> mx_slots m' = mx_slots m \<and> mx_geometry m' = mx_geometry m \<and>
     mx_next_ref m' = mx_next_ref m \<and> mx_recovered m' = mx_recovered m \<and> mx_finished m' = mx_finished m \<and>
     mx_max_batch_per_member m' = mx_max_batch_per_member m"

lemma same_mux_refl [simp]: "same_mux m m"
  by (simp add: same_mux_def)

lemma same_mux_trans: "same_mux a b \<Longrightarrow> same_mux b c \<Longrightarrow> same_mux a c"
  by (simp add: same_mux_def)

lemma commit_record_ok:
  assumes "commit_record api ty p (t, m) = (Inr u, t', m')" and "writer_laws api v" and "length p < 2 ^ 32"
  shows "mux_log v (t', m') = mux_log v (t, m) @ [control_record ty p]" and "same_mux m m'"
proof -
  from assms(1) obtain t1 w1 w2 where
    r: "wr_try_reserve api t (mx_topic m) (length p) = (Inr (), t1, w1)"
    and c: "wr_commit api t1 w1 p ty (of_nat (length p)) 0 = (Inr (), t', w2)"
    and m': "mx_topic m' = w2" "same_mux m m'"
    by (auto simp: commit_record_def same_mux_def split: prod.splits sum.splits)
  from assms(3) have "unat (of_nat (length p) :: u32) = length p" by (simp add: unat_of_nat_small)
  with writer_lawsD(2) [OF assms(2) r] writer_lawsD(3) [OF assms(2) c] m'
  show "mux_log v (t', m') = mux_log v (t, m) @ [control_record ty p]"
    by (auto simp: mux_log_def control_record_def)
  show "same_mux m m'" by (fact m'(2))
qed

lemma then_do_Inr:
  "then_do a b st = (Inr x, st') \<longleftrightarrow> (\<exists>y st1. a st = (Inr y, st1) \<and> b st1 = (Inr x, st'))"
  by (auto simp: then_do_def split: prod.splits sum.splits)

lemma modify_Inr [simp]: "modify f (t, m) = (Inr (), t, f m)"
  by (simp add: modify_def)

definition table_record :: "('w, 'r) mux \<Rightarrow> xmsg" where
  "table_record m = control_record MSG_TYPE_SLOT_TABLE (encode_slot_table (mx_geometry m) (slot_entries m))"

lemma emit_slot_table_ok:
  assumes "emit_slot_table api (t, m) = (Inr u, t', m')" and "writer_laws api v"
    and "length (encode_slot_table (mx_geometry m) (slot_entries m)) < 2 ^ 32"
  shows "mux_log v (t', m') = mux_log v (t, m) @ [table_record m]" and "same_mux m m'"
proof -
  from assms(1) obtain y t1 m1 where
    c: "commit_record api MSG_TYPE_SLOT_TABLE (encode_slot_table (mx_geometry m) (slot_entries m)) (t, m) = (Inr y, t1, m1)"
    and e: "t' = t1" "m' = m1\<lparr>mx_slot_table_version := mx_slot_table_version m1 + 1, mx_since_slot_table := 0\<rparr>"
    by (auto simp: emit_slot_table_def then_do_Inr)
  from commit_record_ok [OF c assms(2,3)] e
  show "mux_log v (t', m') = mux_log v (t, m) @ [table_record m]" "same_mux m m'"
    by (auto simp: mux_log_def table_record_def same_mux_def)
qed

subsection \<open>Well-formed slots\<close>

definition slot_key :: "'r slot \<Rightarrow> member_key" where
  "slot_key s = (mt_name s, mt_epoch s)"

lemma slot_key_upd [simp]:
  "slot_key (s\<lparr>mt_source := a\<rparr>) = slot_key s" "slot_key (s\<lparr>mt_rejected := b\<rparr>) = slot_key s"
  "slot_key (s\<lparr>mt_cursor := c\<rparr>) = slot_key s"
  by (simp_all add: slot_key_def)

definition name_ok :: "rstring \<Rightarrow> bool" where
  "name_ok n \<longleftrightarrow> length n < 2 ^ 15 \<and> utf8_valid n"

definition slots_wf :: "('w, 'r) mux \<Rightarrow> bool" where
  "slots_wf m \<longleftrightarrow> distinct (map mt_member_ref (mx_slots m)) \<and> distinct (map slot_key (mx_slots m)) \<and>
     (\<forall>s\<in>set (mx_slots m). name_ok (mt_name s) \<and> mt_member_ref s < mx_next_ref m)"

lemma slots_wf_length:
  assumes "slots_wf m" shows "length (mx_slots m) < 2 ^ 16"
proof -
  let ?refs = "map (\<lambda>s. unat (mt_member_ref s)) (mx_slots m)"
  have "distinct ?refs"
    using assms by (simp add: slots_wf_def distinct_map inj_on_def word_unat_eq_iff)
  moreover have "set ?refs \<subseteq> {..<unat (mx_next_ref m)}"
    using assms by (auto simp: slots_wf_def word_less_nat_alt)
  ultimately have "length (mx_slots m) \<le> unat (mx_next_ref m)"
    using card_mono [of "{..<unat (mx_next_ref m)}" "set ?refs"] distinct_card [of ?refs] by simp
  also have "unat (mx_next_ref m) < 2 ^ 16" using unat_bound [of "mx_next_ref m"] by simp
  finally show ?thesis .
qed

lemma length_slot_table:
  assumes "slots_wf m" shows "length (encode_slot_table (mx_geometry m) (slot_entries m)) < 2 ^ 32"
proof -
  let ?l = "\<lambda>s. length (encode_slot_entry \<lparr>se_member_ref = mt_member_ref s, se_name = mt_name s,
      se_epoch = mt_epoch s, se_cursor = mt_cursor s\<rparr>)"
  have "sum_list (map ?l (mx_slots m)) \<le> sum_list (map (\<lambda>_. 20 + 2 ^ 15) (mx_slots m))"
    using assms by (intro sum_list_mono) (auto simp: slots_wf_def name_ok_def encode_slot_entry_def)
  also have "\<dots> \<le> 2 ^ 16 * (20 + 2 ^ 15)"
    using slots_wf_length [OF assms] by (simp add: sum_list_triv)
  finally show ?thesis
    by (simp add: encode_slot_table_def length_concat comp_def slot_entries_def)
qed

lemma slot_entries_ok:
  assumes "slots_wf m" shows "list_all slot_ok (slot_entries m)" "length (slot_entries m) < 2 ^ 16"
  using assms slots_wf_length [OF assms]
  by (auto simp: slots_wf_def name_ok_def slot_entries_def list_all_iff slot_ok_def)

subsection \<open>What a scan of the log recovers\<close>

type_synonym scan_state = "(u16 \<rightharpoonup> member_key) \<times> (member_key \<rightharpoonup> u64)"

fun recover_log :: "xmsg list \<Rightarrow> scan_state \<Rightarrow> scan_state io_result" where
  "recover_log [] st = Inr st"
| "recover_log (m # ms) st = and_then (recover_step m st) (recover_log ms)"

lemma recover_log_append: "recover_log (xs @ ys) st = and_then (recover_log xs st) (recover_log ys)"
proof (induction xs arbitrary: st)
  case (Cons x xs)
  then show ?case by (cases "recover_step x st") simp_all
qed simp

text \<open>The reader's loop computes it, given enough moments at a settled file.\<close>

lemma recover_scan_eq:
  assumes "reader_laws api todo" and "\<forall>r e. fst (rd_try_read api t r) \<noteq> Inl e" and "length (todo t r) < n"
  shows "recover_scan api (replicate n t) r st =
    Some (case recover_log (map snd (todo t r)) st of Inl e \<Rightarrow> Inl e | Inr st' \<Rightarrow> Inr (snd st'))"
  using assms(3)
proof (induction n arbitrary: r st)
  case (Suc n)
  obtain a r' where t: "rd_try_read api t r = (a, r')" by fastforce
  with assms(2) obtain x where a: "a = Inr x" by (cases a) (auto dest!: spec [of _ r])
  show ?case
  proof (cases x)
    case None
    with reader_lawsD(4) [OF assms(1)] t a have "todo t r = []" by simp
    with None t a show ?thesis by simp
  next
    case (Some m)
    with reader_lawsD(3) [OF assms(1)] t a have "advances api todo t r m r'" by simp
    then obtain b where "todo t r = (b, m) # todo t r'" by (auto simp: advances_def)
    with Suc t a Some show ?thesis by (cases "recover_step m st") auto
  qed
qed simp

text \<open>The next index a restart asks a member for.\<close>

definition resume_point :: "u64 option \<Rightarrow> nat" where
  "resume_point found = (case found of None \<Rightarrow> 0 | Some h \<Rightarrow> unat h + 1)"

lemma active_of_fold:
  assumes "distinct (map se_member_ref es)" and "e \<in> set es"
  shows "fold bind_ref es a (se_member_ref e) = Some (se_name e, se_epoch e)"
  using assms
proof (induction es arbitrary: a)
  case (Cons x es)
  have other: "fold bind_ref es a r = a r" if "r \<notin> se_member_ref ` set es" for a r
    using that by (induction es arbitrary: a) (auto simp: bind_ref_def)
  show ?case
  proof (cases "e = x")
    case True
    moreover have "bind_ref x a (se_member_ref x) = Some (se_name x, se_epoch x)" by (simp add: bind_ref_def)
    ultimately show ?thesis using Cons.prems by (simp add: other)
  next
    case False
    with Cons show ?thesis by simp
  qed
qed simp

lemma apply_table_other:
  "k \<notin> (\<lambda>e. (se_name e, se_epoch e)) ` set es \<Longrightarrow> fold apply_table_entry es out k = out k"
  by (induction es arbitrary: out) (auto simp: apply_table_entry_def)

lemma apply_table_fold:
  assumes "distinct (map (\<lambda>e. (se_name e, se_epoch e)) es)" and "e \<in> set es"
  shows "resume_point (fold apply_table_entry es out (se_name e, se_epoch e)) = unat (se_cursor e)"
  using assms
proof (induction es arbitrary: out)
  case (Cons x es)
  have pred: "unat (c - 1) + 1 = unat c" if "c \<noteq> 0" for c :: u64
    using that by (metis Suc_eq_plus1 add.commute diff_add_cancel unatSuc)
  show ?case
  proof (cases "e = x")
    case True
    moreover have "resume_point (apply_table_entry x out (se_name x, se_epoch x)) = unat (se_cursor x)"
      by (simp add: apply_table_entry_def resume_point_def pred [simplified])
    ultimately show ?thesis using Cons.prems by (simp add: apply_table_other)
  next
    case False
    with Cons show ?thesis by simp
  qed
qed simp

text \<open>After a slot table, every slot is known under its ref and resumes at its cursor.\<close>

lemma recover_table:
  assumes "slots_wf m"
  shows "\<exists>active out'. recover_step (table_record m) st = Inr (active, out') \<and>
     (\<forall>s\<in>set (mx_slots m). active (mt_member_ref s) = Some (slot_key s) \<and>
        resume_point (out' (slot_key s)) = unat (mt_cursor s))"
proof -
  let ?es = "slot_entries m"
  have d: "decode_slot_table (encode_slot_table (mx_geometry m) ?es) = Inr \<lparr>st_geometry = mx_geometry m, st_members = ?es\<rparr>"
    using decode_slot_table_exact [OF slot_entries_ok [OF assms]] .
  have dist: "distinct (map se_member_ref ?es)" "distinct (map (\<lambda>e. (se_name e, se_epoch e)) ?es)"
    using assms by (simp_all add: slots_wf_def slot_entries_def comp_def slot_key_def [abs_def])
  have "active_of ?es (mt_member_ref s) = Some (slot_key s) \<and>
      resume_point (fold apply_table_entry ?es (snd st) (slot_key s)) = unat (mt_cursor s)"
    if "s \<in> set (mx_slots m)" for s
  proof -
    let ?e = "\<lparr>se_member_ref = mt_member_ref s, se_name = mt_name s, se_epoch = mt_epoch s, se_cursor = mt_cursor s\<rparr>"
    have "?e \<in> set ?es" using that by (simp add: slot_entries_def)
    from active_of_fold [OF dist(1) this] apply_table_fold [OF dist(2) this] show ?thesis
      by (simp add: active_of_def slot_key_def)
  qed
  then show ?thesis
    by (simp add: recover_step_def table_record_def control_record_def d)
qed


text \<open>A scan that starts at any slot table finds what a scan of the whole log finds, for the
  members whose refs are in force at the end.\<close>

definition agree :: "(u16 \<rightharpoonup> member_key) \<Rightarrow> (member_key \<rightharpoonup> u64) \<Rightarrow> (member_key \<rightharpoonup> u64) \<Rightarrow> bool" where
  "agree active out out' \<longleftrightarrow> (\<forall>k\<in>ran active. out k = out' k)"

lemma apply_table_same:
  "k \<in> (\<lambda>e. (se_name e, se_epoch e)) ` set es \<Longrightarrow>
     fold apply_table_entry es out k = fold apply_table_entry es out' k"
proof (induction es arbitrary: out out')
  case (Cons e es)
  show ?case
  proof (cases "k \<in> (\<lambda>e. (se_name e, se_epoch e)) ` set es")
    case True
    from Cons.IH [OF this] show ?thesis by simp
  next
    case False
    with Cons.prems have "apply_table_entry e out k = apply_table_entry e out' k"
      by (auto simp: apply_table_entry_def)
    with False show ?thesis by (simp add: apply_table_other)
  qed
qed simp

lemma ran_active_of: "ran (active_of es) \<subseteq> (\<lambda>e. (se_name e, se_epoch e)) ` set es"
proof -
  have step: "ran (bind_ref e a) \<subseteq> insert (se_name e, se_epoch e) (ran a)" for e a
    by (auto simp: bind_ref_def ran_def split: if_splits)
  have "ran (fold bind_ref es a) \<subseteq> ran a \<union> (\<lambda>e. (se_name e, se_epoch e)) ` set es" for a
  proof (induction es arbitrary: a)
    case (Cons e es)
    from Cons.IH [of "bind_ref e a"] step [of e a] show ?case by auto
  qed simp
  from this [of Map.empty] show ?thesis by (simp add: active_of_def)
qed

lemma recover_table_any:
  assumes "xm_type m = MSG_TYPE_SLOT_TABLE" and "recover_step m st = Inr (active, out)"
  shows "\<exists>out'. recover_step m st' = Inr (active, out') \<and> agree active out out'"
proof -
  from assms obtain table where d: "decode_slot_table (xm_payload m) = Inr table"
    and r: "active = active_of (st_members table)" "out = fold apply_table_entry (st_members table) (snd st)"
    by (auto simp: recover_step_def and_then_eq_Inr_iff)
  have "agree active out (fold apply_table_entry (st_members table) (snd st'))"
    unfolding agree_def r using ran_active_of [of "st_members table"] apply_table_same by blast
  with d r(1) assms(1) show ?thesis by (simp add: recover_step_def)
qed

lemma recover_step_agree:
  assumes "recover_step m (a, out) = Inr (active, out1)" and "agree a out out'"
  shows "\<exists>out1'. recover_step m (a, out') = Inr (active, out1') \<and> agree active out1 out1'"
proof (cases "xm_type m = MSG_TYPE_SLOT_TABLE")
  case True
  from recover_table_any [OF this assms(1)] show ?thesis .
next
  case False
  show ?thesis
  proof (cases "is_control (xm_type m)")
    case True
    with False assms show ?thesis by (simp add: recover_step_def)
  next
    case data: False
    with False assms(1) obtain p body where p: "prov_split (xm_payload m) = Inr (p, body)"
      by (auto simp: recover_step_def and_then_eq_Inr_iff)
    show ?thesis
    proof (cases "a (pv_member_ref p)")
      case None
      with False data p assms show ?thesis by (simp add: recover_step_def)
    next
      case (Some k)
      then have "k \<in> ran a" by (auto simp: ran_def)
      with assms(2) have k: "out k = out' k" by (simp add: agree_def)
      let ?v = "max (case out k of None \<Rightarrow> 0 | Some v \<Rightarrow> v) (pv_member_index p)"
      from Some False data p assms(1) have "active = a" "out1 = out(k \<mapsto> ?v)"
        by (simp_all add: recover_step_def Let_def)
      moreover from Some False data p k have "recover_step m (a, out') = Inr (a, out'(k \<mapsto> ?v))"
        by (simp add: recover_step_def Let_def)
      ultimately show ?thesis using assms(2) by (simp add: agree_def)
    qed
  qed
qed

lemma recover_log_agree:
  "recover_log ms (a, out) = Inr (active, out1) \<Longrightarrow> agree a out out' \<Longrightarrow>
     \<exists>out1'. recover_log ms (a, out') = Inr (active, out1') \<and> agree active out1 out1'"
proof (induction ms arbitrary: a out out')
  case (Cons m ms)
  from Cons.prems(1) obtain a1 o1 where
    s: "recover_step m (a, out) = Inr (a1, o1)" "recover_log ms (a1, o1) = Inr (active, out1)"
    by (auto simp: and_then_eq_Inr_iff)
  from recover_step_agree [OF s(1) Cons.prems(2)] obtain o1' where
    s': "recover_step m (a, out') = Inr (a1, o1')" "agree a1 o1 o1'" by blast
  from Cons.IH [OF s(2) s'(2)] s'(1) show ?case by simp
qed simp

lemma recover_window:
  assumes "recover_log (pre @ m # suf) st = Inr (active, out)" and "xm_type m = MSG_TYPE_SLOT_TABLE"
  shows "\<exists>out'. recover_log (m # suf) st' = Inr (active, out') \<and> agree active out out'"
proof -
  from assms(1) obtain st1 a2 o2 where
    s: "recover_step m st1 = Inr (a2, o2)" "recover_log suf (a2, o2) = Inr (active, out)"
    by (auto simp: recover_log_append and_then_eq_Inr_iff)
  from recover_table_any [OF assms(2) s(1)] obtain o2' where
    "recover_step m st' = Inr (a2, o2')" "agree a2 o2 o2'" by blast
  with recover_log_agree [OF s(2) this(2)] show ?thesis by simp
qed

subsection \<open>The invariant of a mux\<close>

text \<open>\<open>rej\<close> lists, per slot, the frames consumed since the point a restart would resume at.\<close>

definition scan_ok :: "xmsg list \<Rightarrow> 'r slot list \<Rightarrow> record_frame list list \<Rightarrow> bool" where
  "scan_ok log slots rej \<longleftrightarrow>
     (\<exists>active out. recover_log log (Map.empty, Map.empty) = Inr (active, out) \<and>
        list_all2 (\<lambda>s fs. active (mt_member_ref s) = Some (slot_key s) \<and>
          resume_point (out (slot_key s)) + length fs = unat (mt_cursor s)) slots rej)"

text \<open>The records a topic can hold.\<close>

definition acceptable :: "topic_geometry \<Rightarrow> record_frame \<Rightarrow> bool" where
  "acceptable g f \<longleftrightarrow> \<not> is_control (rf_msg_type f) \<and>
     (unat (tgeo_mtu g) > 0 \<longrightarrow> PROVENANCE_LEN + length (rf_payload f) \<le> unat (tgeo_mtu g))"

definition mux_inv :: "('t, 'w) writer_view \<Rightarrow> 't \<times> ('w, 'r) mux \<Rightarrow> record_frame list list \<Rightarrow> bool" where
  "mux_inv v st rej \<longleftrightarrow> slots_wf (snd st) \<and> scan_ok (mux_log v st) (mx_slots (snd st)) rej \<and>
     (\<forall>s\<in>set (mx_slots (snd st)). mt_cursor s = rs_next_index (mt_source s)) \<and>
     (\<forall>fs\<in>set rej. \<forall>f\<in>set fs. \<not> acceptable (mx_geometry (snd st)) f)"

lemma scan_ok_table:
  assumes "slots_wf m" and "recover_log log (Map.empty, Map.empty) = Inr st"
  shows "scan_ok (log @ [table_record m]) (mx_slots m) (replicate (length (mx_slots m)) [])"
proof -
  obtain active out where "recover_step (table_record m) st = Inr (active, out)"
    "\<forall>s\<in>set (mx_slots m). active (mt_member_ref s) = Some (slot_key s) \<and>
        resume_point (out (slot_key s)) = unat (mt_cursor s)"
    using recover_table [OF assms(1), of st] by blast
  with assms(2) show ?thesis
    by (auto simp: scan_ok_def recover_log_append list_all2_conv_all_nth)
qed


lemma scan_ok_recovers: "scan_ok log slots rej \<Longrightarrow> \<exists>st. recover_log log (Map.empty, Map.empty) = Inr st"
  by (auto simp: scan_ok_def)

lemma scan_ok_length: "scan_ok log slots rej \<Longrightarrow> length rej = length slots"
  by (auto simp: scan_ok_def dest: list_all2_lengthD)

text \<open>Slots that a scan cannot tell apart.\<close>

definition same_place :: "'r slot \<Rightarrow> 'r slot \<Rightarrow> bool" where
  "same_place s s' \<longleftrightarrow> mt_member_ref s' = mt_member_ref s \<and> slot_key s' = slot_key s"

lemma scan_ok_data:
  assumes "scan_ok log slots rej" and "i < length slots" and "distinct (map slot_key slots)"
    and "\<not> is_control (rf_msg_type f)" and "unat (mt_cursor (slots ! i)) \<le> unat (rf_index f)"
    and "length slots' = length slots"
    and "\<forall>j<length slots. same_place (slots ! j) (slots' ! j) \<and>
       (if j = i then unat (mt_cursor (slots' ! j)) = unat (rf_index f) + 1
        else mt_cursor (slots' ! j) = mt_cursor (slots ! j))"
  shows "scan_ok (log @ [topic_record (mt_member_ref (slots ! i)) f]) slots' (rej[i := []])"
proof -
  from assms(1) obtain active out where r: "recover_log log (Map.empty, Map.empty) = Inr (active, out)"
    and a: "\<forall>j<length slots. active (mt_member_ref (slots ! j)) = Some (slot_key (slots ! j)) \<and>
          resume_point (out (slot_key (slots ! j))) + length (rej ! j) = unat (mt_cursor (slots ! j))"
    and len: "length slots = length rej"
    unfolding scan_ok_def list_all2_conv_all_nth by blast
  let ?k = "slot_key (slots ! i)" and ?x = "rf_index f"
  define old where "old = (case out ?k of None \<Rightarrow> 0 | Some v \<Rightarrow> v)"
  have "resume_point (out ?k) + length (rej ! i) = unat (mt_cursor (slots ! i))" using a assms(2) by blast
  with assms(5) have "resume_point (out ?k) \<le> unat ?x" by linarith
  then have "max old ?x = ?x"
    by (auto simp: old_def resume_point_def max_def word_le_nat_alt split: option.splits)
  then have step: "recover_step (topic_record (mt_member_ref (slots ! i)) f) (active, out) = Inr (active, out(?k \<mapsto> ?x))"
    using a assms(2,4)
    by (auto simp: recover_step_def topic_record_def old_def [symmetric] msg_type_defs)
  have "active (mt_member_ref (slots' ! j)) = Some (slot_key (slots' ! j)) \<and>
      resume_point ((out(?k \<mapsto> ?x)) (slot_key (slots' ! j))) + length (rej[i := []] ! j) = unat (mt_cursor (slots' ! j))"
    if "j < length slots" for j
  proof (cases "j = i")
    case True
    with a assms(2,7) len show ?thesis by (auto simp: same_place_def resume_point_def)
  next
    case False
    with assms(2,3) that have "slot_key (slots ! j) \<noteq> ?k" by (simp add: distinct_conv_nth)
    with False a assms(7) that show ?thesis by (simp add: same_place_def)
  qed
  then have "list_all2 (\<lambda>s fs. active (mt_member_ref s) = Some (slot_key s) \<and>
      resume_point ((out(?k \<mapsto> ?x)) (slot_key s)) + length fs = unat (mt_cursor s)) slots' (rej[i := []])"
    using len assms(6) by (simp add: list_all2_conv_all_nth)
  moreover have "recover_log (log @ [topic_record (mt_member_ref (slots ! i)) f]) (Map.empty, Map.empty) =
      Inr (active, out(?k \<mapsto> ?x))"
    by (simp add: recover_log_append r step)
  ultimately show ?thesis unfolding scan_ok_def by blast
qed

lemma scan_ok_place:
  assumes "scan_ok log slots rej" and "length slots' = length slots"
    and "\<forall>j<length slots. same_place (slots ! j) (slots' ! j) \<and> mt_cursor (slots' ! j) = mt_cursor (slots ! j)"
  shows "scan_ok log slots' rej"
proof -
  from assms(1) obtain active out where r: "recover_log log (Map.empty, Map.empty) = Inr (active, out)"
    and a: "length slots = length rej" "\<forall>j<length slots. active (mt_member_ref (slots ! j)) = Some (slot_key (slots ! j)) \<and>
          resume_point (out (slot_key (slots ! j))) + length (rej ! j) = unat (mt_cursor (slots ! j))"
    unfolding scan_ok_def list_all2_conv_all_nth by blast
  then have "list_all2 (\<lambda>s fs. active (mt_member_ref s) = Some (slot_key s) \<and>
      resume_point (out (slot_key s)) + length fs = unat (mt_cursor s)) slots' rej"
    using assms(2,3) by (simp add: list_all2_conv_all_nth same_place_def)
  with r show ?thesis unfolding scan_ok_def by blast
qed

lemma slots_wf_place:
  assumes "slots_wf m" and "length (mx_slots m') = length (mx_slots m)" and "mx_next_ref m' = mx_next_ref m"
    and "\<forall>j<length (mx_slots m). same_place (mx_slots m ! j) (mx_slots m' ! j)"
  shows "slots_wf m'"
proof -
  have "map mt_member_ref (mx_slots m') = map mt_member_ref (mx_slots m)"
    "map slot_key (mx_slots m') = map slot_key (mx_slots m)"
    using assms(2,4) by (simp_all add: list_eq_iff_nth_eq same_place_def)
  moreover have "name_ok (mt_name s) \<and> mt_member_ref s < mx_next_ref m'" if s: "s \<in> set (mx_slots m')" for s
  proof -
    from s assms(2) obtain j where j: "j < length (mx_slots m)" "s = mx_slots m' ! j"
      by (auto simp: in_set_conv_nth)
    with assms(4) have "mt_name s = mt_name (mx_slots m ! j)" "mt_member_ref s = mt_member_ref (mx_slots m ! j)"
      by (auto simp: same_place_def slot_key_def)
    moreover have "mx_slots m ! j \<in> set (mx_slots m)" using j(1) by simp
    ultimately show ?thesis using assms(1,3) by (simp add: slots_wf_def)
  qed
  ultimately show ?thesis using assms(1) by (simp add: slots_wf_def)
qed


subsection \<open>Merging\<close>

text \<open>The indices and the payloads of the members stay in range.\<close>

definition slots_fit :: "('s \<Rightarrow> 'r \<Rightarrow> entry list) \<Rightarrow> 's \<Rightarrow> ('w, 'r) mux \<Rightarrow> bool" where
  "slots_fit todo sF m \<longleftrightarrow> (\<forall>s\<in>set (mx_slots m).
     unat (mt_cursor s) + length (source_rest todo sF (mt_source s)) < 2 ^ 64 \<and>
     (\<forall>f\<in>set (source_rest todo sF (mt_source s)). length (rf_payload f) < 2 ^ 31))"

text \<open>A piece of a run: per slot the frames consumed, and the data records committed.\<close>

definition moved ::
  "('s \<Rightarrow> 'r \<Rightarrow> entry list) \<Rightarrow> 's \<Rightarrow> record_frame list \<Rightarrow> record_frame list \<Rightarrow> record_frame list \<Rightarrow>
     'r slot \<Rightarrow> 'r slot \<Rightarrow> bool" where
  "moved todo sF rej fs rej' s s' \<longleftrightarrow> same_place s s' \<and>
     source_rest todo sF (mt_source s) = fs @ source_rest todo sF (mt_source s') \<and>
     unat (mt_cursor s') = unat (mt_cursor s) + length fs \<and> (\<exists>pre. rej @ fs = pre @ rej')"

definition merges ::
  "('s \<Rightarrow> 'r \<Rightarrow> entry list) \<Rightarrow> 's \<Rightarrow> ('t, 'w) writer_view \<Rightarrow> 't \<times> ('w, 'r) mux \<Rightarrow> record_frame list list \<Rightarrow>
     record_frame list list \<Rightarrow> xmsg list \<Rightarrow> 't \<times> ('w, 'r) mux \<Rightarrow> record_frame list list \<Rightarrow> bool" where
  "merges todo sF v st rej fss ds st' rej' \<longleftrightarrow>
     mux_inv v st' rej' \<and>
     mx_geometry (snd st') = mx_geometry (snd st) \<and> mx_finished (snd st') = mx_finished (snd st) \<and>
     mx_max_batch_per_member (snd st') = mx_max_batch_per_member (snd st) \<and>
     mx_next_ref (snd st') = mx_next_ref (snd st) \<and> mx_recovered (snd st') = mx_recovered (snd st) \<and>
     length (mx_slots (snd st')) = length (mx_slots (snd st)) \<and> length fss = length (mx_slots (snd st)) \<and>
     (\<forall>j<length (mx_slots (snd st)).
        moved todo sF (rej ! j) (fss ! j) (rej' ! j) (mx_slots (snd st) ! j) (mx_slots (snd st') ! j)) \<and>
     data_records (mux_log v st') = data_records (mux_log v st) @ ds"

lemma moved_trans:
  "moved todo sF rej fs rej1 s s1 \<Longrightarrow> moved todo sF rej1 gs rej2 s1 s2 \<Longrightarrow>
     moved todo sF rej (fs @ gs) rej2 s s2"
  unfolding moved_def same_place_def by auto (metis append.assoc)

lemma moved_refl [simp]: "moved todo sF rej [] rej s s"
  by (auto simp: moved_def same_place_def)

lemma merges_refl: "mux_inv v st rej \<Longrightarrow> merges todo sF v st rej (replicate (length (mx_slots (snd st))) []) [] st rej"
  by (simp add: merges_def)

lemma merges_trans:
  assumes "merges todo sF v st rej fss ds st1 rej1" and "merges todo sF v st1 rej1 gss es st2 rej2"
  shows "merges todo sF v st rej (map2 (@) fss gss) (ds @ es) st2 rej2"
proof -
  have "\<forall>j<length (mx_slots (snd st)).
      moved todo sF (rej ! j) (map2 (@) fss gss ! j) (rej2 ! j) (mx_slots (snd st) ! j) (mx_slots (snd st2) ! j)"
    using assms by (auto simp: merges_def intro: moved_trans)
  with assms show ?thesis by (simp add: merges_def)
qed

lemma slots_fit_merges:
  assumes "slots_fit todo sF (snd st)" and "merges todo sF v st rej fss ds st' rej'"
  shows "slots_fit todo sF (snd st')"
  unfolding slots_fit_def
proof
  fix s assume "s \<in> set (mx_slots (snd st'))"
  with assms(2) obtain j where j: "j < length (mx_slots (snd st))" "s = mx_slots (snd st') ! j"
    by (auto simp: merges_def in_set_conv_nth)
  with assms(2) have m: "moved todo sF (rej ! j) (fss ! j) (rej' ! j) (mx_slots (snd st) ! j) s"
    by (simp add: merges_def)
  from nth_mem [OF j(1)] assms(1) have
    "unat (mt_cursor (mx_slots (snd st) ! j)) + length (source_rest todo sF (mt_source (mx_slots (snd st) ! j))) < 2 ^ 64"
    "\<forall>f\<in>set (source_rest todo sF (mt_source (mx_slots (snd st) ! j))). length (rf_payload f) < 2 ^ 31"
    unfolding slots_fit_def by blast+
  with m show "unat (mt_cursor s) + length (source_rest todo sF (mt_source s)) < 2 ^ 64 \<and>
     (\<forall>f\<in>set (source_rest todo sF (mt_source s)). length (rf_payload f) < 2 ^ 31)"
    by (auto simp: moved_def)
qed

text \<open>Reading one frame of a slot.\<close>

lemma try_next_frame_Some:
  assumes "try_next_frame api s src = (Inr (Some f), src')" and "reader_laws api todo" and "grows todo s sF"
  shows "source_rest todo sF src = f # source_rest todo sF src'"
    and "rf_index f = rs_next_index src" and "rs_next_index src' = rs_next_index src + 1"
proof -
  show "source_rest todo sF src = f # source_rest todo sF src'"
    using finish_read_Some [OF _ assms(2,3)] assms(1) by (simp add: try_next_frame_def source_rest_def)
  show "rf_index f = rs_next_index src" "rs_next_index src' = rs_next_index src + 1"
    using assms(1) by (auto simp: try_next_frame_def finish_read_def Let_def frame_of_def
        split: sum.splits option.splits)
qed

lemma try_next_frame_None:
  "try_next_frame api s src = (Inr None, src') \<Longrightarrow> reader_laws api todo \<Longrightarrow> src' = src"
  using finish_read_None by (fastforce simp: try_next_frame_def)

lemma upd_slot_simps [simp]:
  "mx_geometry (upd_slot i g m) = mx_geometry m" "mx_finished (upd_slot i g m) = mx_finished m"
  "mx_max_batch_per_member (upd_slot i g m) = mx_max_batch_per_member m"
  "mx_next_ref (upd_slot i g m) = mx_next_ref m" "mx_recovered (upd_slot i g m) = mx_recovered m"
  "mx_topic (upd_slot i g m) = mx_topic m" "length (mx_slots (upd_slot i g m)) = length (mx_slots m)"
  "i < length (mx_slots m) \<Longrightarrow> mx_slots (upd_slot i g m) ! j = (if j = i then g (mx_slots m ! i) else mx_slots m ! j)"
  by (auto simp: upd_slot_def nth_list_update)


lemma unat_index_Suc: "unat (c :: u64) + n < 2 ^ 64 \<Longrightarrow> 0 < n \<Longrightarrow> unat (c + 1) = unat c + 1"
  using unat_plus_of_nat [of c 1] by simp

text \<open>A rejected frame: consumed, counted, not committed.\<close>

lemma reject_step:
  assumes "reader_laws rapi todo" and "grows todo s sF" and "i < length (mx_slots m)"
    and "mux_inv v (t, m) rej" and "slots_fit todo sF m" and "\<not> acceptable (mx_geometry m) f"
    and "try_next_frame rapi s (mt_source (mx_slots m ! i)) = (Inr (Some f), src)"
  shows "merges todo sF v (t, m) rej ((replicate (length (mx_slots m)) [])[i := [f]]) []
     (t, upd_slot i (\<lambda>s. s\<lparr>mt_rejected := mt_rejected s + 1, mt_cursor := rf_index f + 1\<rparr>)
        (upd_slot i (\<lambda>s. s\<lparr>mt_source := src\<rparr>) m)) (rej[i := rej ! i @ [f]])"
proof -
  let ?s = "mx_slots m ! i" and ?n = "length (mx_slots m)"
  let ?m = "upd_slot i (\<lambda>s. s\<lparr>mt_rejected := mt_rejected s + 1, mt_cursor := rf_index f + 1\<rparr>)
        (upd_slot i (\<lambda>s. s\<lparr>mt_source := src\<rparr>) m)"
  note f = try_next_frame_Some [OF assms(7,1,2)]
  from assms(4) have inv: "slots_wf m" "scan_ok (mux_log v (t, m)) (mx_slots m) rej"
    "\<forall>s\<in>set (mx_slots m). mt_cursor s = rs_next_index (mt_source s)"
    "\<forall>fs\<in>set rej. \<forall>f\<in>set fs. \<not> acceptable (mx_geometry m) f"
    by (simp_all add: mux_inv_def)
  have cur: "mt_cursor ?s = rs_next_index (mt_source ?s)" using inv(3) assms(3) by simp
  from nth_mem [OF assms(3)] assms(5) have "unat (mt_cursor ?s) + length (source_rest todo sF (mt_source ?s)) < 2 ^ 64"
    unfolding slots_fit_def by blast
  from unat_index_Suc [OF this] f cur have c1: "unat (rf_index f + 1) = unat (mt_cursor ?s) + 1" by simp
  have len: "length rej = ?n" using scan_ok_length [OF inv(2)] .
  have slots: "mx_slots ?m ! j = (if j = i then ?s\<lparr>mt_source := src, mt_rejected := mt_rejected ?s + 1,
      mt_cursor := rf_index f + 1\<rparr> else mx_slots m ! j)" for j
    using assms(3) by simp
  have place: "\<forall>j<?n. same_place (mx_slots m ! j) (mx_slots ?m ! j)"
    using slots by (simp add: same_place_def slot_key_def)
  obtain active out where r: "recover_log (mux_log v (t, m)) (Map.empty, Map.empty) = Inr (active, out)"
    and a: "\<forall>j<?n. active (mt_member_ref (mx_slots m ! j)) = Some (slot_key (mx_slots m ! j)) \<and>
        resume_point (out (slot_key (mx_slots m ! j))) + length (rej ! j) = unat (mt_cursor (mx_slots m ! j))"
    using inv(2) unfolding scan_ok_def list_all2_conv_all_nth by blast
  have "list_all2 (\<lambda>s fs. active (mt_member_ref s) = Some (slot_key s) \<and>
      resume_point (out (slot_key s)) + length fs = unat (mt_cursor s)) (mx_slots ?m) (rej[i := rej ! i @ [f]])"
    using a place c1 len slots assms(3)
    by (simp add: list_all2_conv_all_nth nth_list_update same_place_def)
  then have "scan_ok (mux_log v (t, ?m)) (mx_slots ?m) (rej[i := rej ! i @ [f]])"
    using r unfolding scan_ok_def mux_log_def by auto
  moreover have "slots_wf ?m" using slots_wf_place [OF inv(1) _ _ place] by simp
  moreover have "\<forall>s\<in>set (mx_slots ?m). mt_cursor s = rs_next_index (mt_source s)"
    using inv(3) slots f(2,3) assms(3) by (simp add: all_set_conv_all_nth)
  moreover have "\<forall>fs\<in>set (rej[i := rej ! i @ [f]]). \<forall>f\<in>set fs. \<not> acceptable (mx_geometry m) f"
    using set_update_subset_insert [of rej i "rej ! i @ [f]"] nth_mem [of i rej] inv(4) assms(3,6) len
    by fastforce
  ultimately have "mux_inv v (t, ?m) (rej[i := rej ! i @ [f]])" by (simp add: mux_inv_def)
  moreover have "moved todo sF (rej ! j) ((replicate ?n [])[i := [f]] ! j) (rej[i := rej ! i @ [f]] ! j)
      (mx_slots m ! j) (mx_slots ?m ! j)" if "j < ?n" for j
    using that place f(1) c1 len assms(3) slots by (auto simp: moved_def)
  ultimately show ?thesis by (simp add: merges_def mux_log_def)
qed


lemma roll_if_full_ok:
  assumes "roll_if_full api (t, m) = (Inr u, t', m')" and "writer_laws api v" and "slots_wf m"
  shows "same_mux m m'" and "mux_log v (t', m') = mux_log v (t, m) \<or> mux_log v (t', m') = mux_log v (t, m) @ [table_record m]"
proof -
  have "same_mux m m' \<and> (mux_log v (t', m') = mux_log v (t, m) \<or> mux_log v (t', m') = mux_log v (t, m) @ [table_record m])"
  proof (cases "tgeo_file_roll_size (mx_geometry m) = 0 \<or> mx_bytes_in_segment m < tgeo_file_roll_size (mx_geometry m)")
    case True
    with assms(1) show ?thesis by (simp add: roll_if_full_def)
  next
    case False
    with assms(1) obtain t1 w1 where r: "wr_roll_file api t (mx_topic m) = (Inr (), t1, w1)"
      and e: "emit_slot_table api (t1, m\<lparr>mx_topic := w1, mx_bytes_in_segment := 0\<rparr>) = (Inr u, t', m')"
      by (auto simp: roll_if_full_def split: prod.splits sum.splits)
    let ?m = "m\<lparr>mx_topic := w1, mx_bytes_in_segment := 0\<rparr>"
    have same: "table_record ?m = table_record m" "mux_log v (t1, ?m) = mux_log v (t, m)" "same_mux m ?m"
      "length (encode_slot_table (mx_geometry ?m) (slot_entries ?m)) < 2 ^ 32"
      using writer_lawsD(1) [OF assms(2) r] length_slot_table [OF assms(3)]
      by (simp_all add: mux_log_def table_record_def slot_entries_def same_mux_def)
    from emit_slot_table_ok [OF e assms(2) same(4)] same show ?thesis
      by (auto intro: same_mux_trans)
  qed
  then show "same_mux m m'" "mux_log v (t', m') = mux_log v (t, m) \<or> mux_log v (t', m') = mux_log v (t, m) @ [table_record m]"
    by blast+
qed

lemma same_mux_wf: "same_mux m m' \<Longrightarrow> slots_wf m' = slots_wf m"
  by (simp add: same_mux_def slots_wf_def)

text \<open>A commit, possibly after a roll and before a refreshed table: the committed record moves the
  resume point of its member to the cursor, a table moves that of every member.\<close>

definition settled :: "nat \<Rightarrow> record_frame list list \<Rightarrow> record_frame list list \<Rightarrow> bool" where
  "settled i rej rej' \<longleftrightarrow> length rej' = length rej \<and>
     (\<forall>j<length rej. rej' ! j = [] \<or> j \<noteq> i \<and> rej' ! j = rej ! j)"

lemma merge_commit_ok:
  assumes "merge_commit api i f (xm_payload (topic_record (mt_member_ref (mx_slots m ! i)) f)) (t, m) = (Inr b, t', m')"
    and "writer_laws api v" and "slots_wf m" and "scan_ok (mux_log v (t, m)) (mx_slots m) rej"
    and "i < length (mx_slots m)" and "\<not> is_control (rf_msg_type f)" and "length (rf_payload f) < 2 ^ 31"
    and "rf_index f = mt_cursor (mx_slots m ! i)" and "unat (rf_index f + 1) = unat (rf_index f) + 1"
  shows "b \<and> (\<exists>rej'. settled i rej rej' \<and> scan_ok (mux_log v (t', m')) (mx_slots m') rej') \<and>
     mx_slots m' = mx_slots (upd_slot i (\<lambda>s. s\<lparr>mt_cursor := rf_index f + 1\<rparr>) m) \<and>
     mx_geometry m' = mx_geometry m \<and> mx_finished m' = mx_finished m \<and>
     mx_max_batch_per_member m' = mx_max_batch_per_member m \<and> mx_next_ref m' = mx_next_ref m \<and>
     mx_recovered m' = mx_recovered m \<and>
     data_records (mux_log v (t', m')) =
       data_records (mux_log v (t, m)) @ [topic_record (mt_member_ref (mx_slots m ! i)) f]"
proof -
  let ?rec = "topic_record (mt_member_ref (mx_slots m ! i)) f"
  let ?n = "length (mx_slots m)"
  from assms(1) obtain u1 t1 m1 u2 t2 m2 t3 m3 u3 where
    roll: "roll_if_full api (t, m) = (Inr u1, t1, m1)"
    and com: "commit_record api (rf_msg_type f) (xm_payload ?rec) (t1, m1) = (Inr u2, t2, m2)"
    and m3: "m3 = (upd_slot i (\<lambda>s. s\<lparr>mt_cursor := rf_index f + 1\<rparr>) m2)\<lparr>mx_since_slot_table := mx_since_slot_table m2 + 1\<rparr>" "t3 = t2"
    and tab: "(if mx_since_slot_table m3 \<ge> SLOT_TABLE_REFRESH then emit_slot_table api (t3, m3) else (Inr (), t3, m3)) = (Inr u3, t', m')"
    and b: "b"
    unfolding merge_commit_def by (auto simp: then_do_Inr)
  have len: "length (xm_payload ?rec) < 2 ^ 32"
    using assms(7) by (simp add: topic_record_def PROVENANCE_LEN_def)
  have isrec: "control_record (rf_msg_type f) (xm_payload ?rec) = ?rec" by (simp add: control_record_def topic_record_def)
  note r = roll_if_full_ok [OF roll assms(2,3)]
  note c = commit_record_ok [OF com assms(2) len, unfolded isrec]
  have s2: "mx_slots m2 = mx_slots m" "mx_slots m1 = mx_slots m" using r(1) c(2) by (simp_all add: same_mux_def)
  have tctl: "is_control (xm_type (table_record m))" by (simp add: table_record_def control_record_def msg_type_defs)
  obtain rej1 where rej1: "rej1 = rej \<or> rej1 = replicate ?n []" "scan_ok (mux_log v (t1, m1)) (mx_slots m) rej1"
    using r(2) assms(4) scan_ok_table [OF assms(3)] scan_ok_recovers [OF assms(4)] by metis
  have lrej: "length rej = ?n" "length rej1 = ?n" using scan_ok_length assms(4) rej1(2) by blast+
  have slots3: "length (mx_slots m3) = ?n" "\<forall>j<?n. mx_slots m3 ! j =
      (if j = i then (mx_slots m ! i)\<lparr>mt_cursor := rf_index f + 1\<rparr> else mx_slots m ! j)"
    using m3 s2 assms(5) by simp_all
  have "scan_ok (mux_log v (t1, m1) @ [?rec]) (mx_slots m3) (rej1[i := []])"
    using slots3 assms(3,5,6,8,9)
    by (intro scan_ok_data [OF rej1(2)]) (simp_all add: slots_wf_def same_place_def slot_key_def)
  moreover have log3: "mux_log v (t3, m3) = mux_log v (t1, m1) @ [?rec]"
    using c(1) m3 by (simp add: mux_log_def)
  ultimately have ok3: "scan_ok (mux_log v (t3, m3)) (mx_slots m3) (rej1[i := []])" by simp
  have same3: "mx_geometry m3 = mx_geometry m" "mx_finished m3 = mx_finished m"
     "mx_max_batch_per_member m3 = mx_max_batch_per_member m" "mx_next_ref m3 = mx_next_ref m"
     "mx_recovered m3 = mx_recovered m"
    using r(1) c(2) m3 by (simp_all add: same_mux_def)
  have wf3: "slots_wf m3"
    using slots3 same3(4) by (intro slots_wf_place [OF assms(3)]) (simp_all add: same_place_def slot_key_def)
  have set3: "settled i rej (rej1[i := []])" "settled i rej (replicate ?n [])"
    using rej1(1) lrej assms(5) by (auto simp: settled_def nth_list_update)
  obtain rej' where fin: "settled i rej rej'" "scan_ok (mux_log v (t', m')) (mx_slots m3) rej'" "same_mux m3 m'"
    "data_records (mux_log v (t', m')) = data_records (mux_log v (t3, m3))"
  proof (cases "mx_since_slot_table m3 \<ge> SLOT_TABLE_REFRESH")
    case True
    with tab have e: "emit_slot_table api (t3, m3) = (Inr u3, t', m')" by simp
    note em = emit_slot_table_ok [OF e assms(2) length_slot_table [OF wf3]]
    have "scan_ok (mux_log v (t', m')) (mx_slots m3) (replicate (length (mx_slots m3)) [])"
      using scan_ok_recovers [OF ok3] scan_ok_table [OF wf3] em(1) by auto
    moreover have "is_control (xm_type (table_record m3))" by (simp add: table_record_def control_record_def msg_type_defs)
    ultimately show ?thesis using that set3(2) slots3(1) em by simp
  next
    case False
    with tab set3(1) ok3 show ?thesis by (auto intro!: that)
  qed
  have "data_records (mux_log v (t3, m3)) = data_records (mux_log v (t, m)) @ [?rec]"
    using r(2) tctl log3 assms(6) by (auto simp: topic_record_def)
  with b fin same3 m3 s2(1) show ?thesis
    by (auto simp: same_mux_def upd_slot_def)
qed


text \<open>A merged frame.\<close>

lemma commit_step:
  assumes "reader_laws rapi todo" and "writer_laws wapi v" and "grows todo s sF" and "i < length (mx_slots m)"
    and "mux_inv v (t, m) rej" and "slots_fit todo sF m" and "acceptable (mx_geometry m) f"
    and "try_next_frame rapi s (mt_source (mx_slots m ! i)) = (Inr (Some f), src)"
    and "m1 = upd_slot i (\<lambda>s. s\<lparr>mt_source := src\<rparr>) m"
    and "merge_commit wapi i f (slot_frame_data (mx_slots m1 ! i) f) (t, m1) = (Inr b, t', m')"
  shows "b \<and> (\<exists>rej'. merges todo sF v (t, m) rej ((replicate (length (mx_slots m)) [])[i := [f]])
     [topic_record (mt_member_ref (mx_slots m ! i)) f] (t', m') rej')"
proof -
  let ?s = "mx_slots m ! i" and ?n = "length (mx_slots m)"
  note f = try_next_frame_Some [OF assms(8,1,3)]
  from assms(5) have inv: "slots_wf m" "scan_ok (mux_log v (t, m)) (mx_slots m) rej"
    "\<forall>s\<in>set (mx_slots m). mt_cursor s = rs_next_index (mt_source s)"
    "\<forall>fs\<in>set rej. \<forall>f\<in>set fs. \<not> acceptable (mx_geometry m) f"
    by (simp_all add: mux_inv_def)
  have cur: "mt_cursor ?s = rs_next_index (mt_source ?s)" using inv(3) assms(4) by simp
  from nth_mem [OF assms(4)] assms(6) have
    fit: "unat (mt_cursor ?s) + length (source_rest todo sF (mt_source ?s)) < 2 ^ 64"
    "\<forall>f\<in>set (source_rest todo sF (mt_source ?s)). length (rf_payload f) < 2 ^ 31"
    unfolding slots_fit_def by blast+
  from unat_index_Suc [OF fit(1)] f cur have c1: "unat (rf_index f + 1) = unat (rf_index f) + 1" by simp
  have small: "length (rf_payload f) < 2 ^ 31" using fit(2) f(1) by simp
  have s1: "\<forall>j<?n. same_place (mx_slots m ! j) (mx_slots m1 ! j) \<and> mt_cursor (mx_slots m1 ! j) = mt_cursor (mx_slots m ! j)"
    using assms(4,9) by (simp add: same_place_def)
  have wf1: "slots_wf m1" using s1 assms(9) by (intro slots_wf_place [OF inv(1)]) simp_all
  have ok1: "scan_ok (mux_log v (t, m1)) (mx_slots m1) rej"
    using scan_ok_place [OF inv(2) _ s1] assms(9) by (simp add: mux_log_def)
  have pay: "slot_frame_data (mx_slots m1 ! i) f = xm_payload (topic_record (mt_member_ref (mx_slots m1 ! i)) f)"
    by (simp add: slot_frame_data_def topic_record_def)
  have i1: "i < length (mx_slots m1)" "\<not> is_control (rf_msg_type f)" "rf_index f = mt_cursor (mx_slots m1 ! i)"
    using assms(4,7,9) f(2) cur by (simp_all add: acceptable_def)
  note mc = merge_commit_ok [OF assms(10) [unfolded pay] assms(2) wf1 ok1 i1(1,2) small i1(3) c1]
  then obtain rej' where rej': "settled i rej rej'" "scan_ok (mux_log v (t', m')) (mx_slots m') rej'" by blast
  have len: "length rej = ?n" using scan_ok_length [OF inv(2)] .
  have slots': "length (mx_slots m') = ?n" "\<forall>j<?n. mx_slots m' ! j =
      (if j = i then ?s\<lparr>mt_source := src, mt_cursor := rf_index f + 1\<rparr> else mx_slots m ! j)"
    using mc assms(4,9) by simp_all
  have "slots_wf m'"
    using slots' mc assms(9) by (intro slots_wf_place [OF inv(1)]) (simp_all add: same_place_def)
  moreover have "\<forall>s\<in>set (mx_slots m'). mt_cursor s = rs_next_index (mt_source s)"
    using inv(3) slots' f(2,3) assms(4) by (simp add: all_set_conv_all_nth)
  moreover have "\<forall>fs\<in>set rej'. \<forall>f\<in>set fs. \<not> acceptable (mx_geometry m') f"
  proof
    fix fs assume "fs \<in> set rej'"
    then obtain j where "j < length rej'" "fs = rej' ! j" by (auto simp: in_set_conv_nth)
    with rej'(1) have "fs = [] \<or> fs \<in> set rej" by (auto simp: settled_def)
    with inv(4) mc assms(9) show "\<forall>f\<in>set fs. \<not> acceptable (mx_geometry m') f" by auto
  qed
  ultimately have "mux_inv v (t', m') rej'" using rej'(2) by (simp add: mux_inv_def)
  moreover have "moved todo sF (rej ! j) ((replicate ?n [])[i := [f]] ! j) (rej' ! j)
      (mx_slots m ! j) (mx_slots m' ! j)" if "j < ?n" for j
  proof (cases "j = i")
    case True
    with rej'(1) len assms(4) have "rej' ! j = []" by (auto simp: settled_def)
    with True assms(4) slots'(2) f c1 cur show ?thesis by (simp add: moved_def same_place_def)
  next
    case False
    with rej'(1) len that have "rej' ! j = [] \<or> rej' ! j = rej ! j" by (auto simp: settled_def)
    with False that slots'(2) show ?thesis by (auto simp: moved_def same_place_def)
  qed
  moreover have "mt_member_ref (mx_slots m1 ! i) = mt_member_ref ?s" using s1 assms(4) by (simp add: same_place_def)
  ultimately show ?thesis
    using mc slots'(1) assms(9) by (auto simp: merges_def mux_log_def)
qed


definition only :: "nat \<Rightarrow> nat \<Rightarrow> record_frame list \<Rightarrow> record_frame list list" where
  "only n i fs = (replicate n [])[i := fs]"

lemma length_only [simp]: "length (only n i fs) = n"
  by (simp add: only_def)

lemma nth_only [simp]: "j < n \<Longrightarrow> only n i fs ! j = (if j = i then fs else [])"
  by (cases "i < n") (simp_all add: only_def nth_list_update)

lemma only_simps [simp]:
  "map2 (@) (only n i fs) (only n i gs) = only n i (fs @ gs)"
  "only n i [] = replicate n []"
  by (rule nth_equalityI; simp)+

lemma slot_frame_data_upd [simp]: "slot_frame_data (s\<lparr>mt_source := x\<rparr>) f = slot_frame_data s f"
  by (simp add: slot_frame_data_def)

lemma merges_upd_None:
  "mux_inv v (t, m) rej \<Longrightarrow> i < length (mx_slots m) \<Longrightarrow>
     merges todo sF v (t, m) rej (only (length (mx_slots m)) i []) []
       (t, upd_slot i (\<lambda>s. s\<lparr>mt_source := mt_source (mx_slots m ! i)\<rparr>) m) rej"
  using merges_refl [of v "(t, m)" rej todo sF] by (simp add: upd_slot_def)

lemma merge_one_merges:
  assumes "reader_laws rapi todo" and "writer_laws wapi v"
    and "\<forall>s\<in>set ss. grows todo s sF" and "i < length (mx_slots m)"
    and "mux_inv v (t, m) rej" and "slots_fit todo sF m"
    and "merge_one rapi wapi ss i (t, m) = Some (Inr b, st', ss')"
  shows "\<exists>fs rej'. merges todo sF v (t, m) rej (only (length (mx_slots m)) i fs)
       (map (topic_record (mt_member_ref (mx_slots m ! i))) (filter (acceptable (mx_geometry m)) fs)) st' rej' \<and>
     length (filter (acceptable (mx_geometry m)) fs) = (if b then 1 else 0) \<and> set ss' \<subseteq> set ss"
  using assms(3-7)
proof (induction ss arbitrary: m rej)
  case (Cons s ss)
  let ?n = "length (mx_slots m)" and ?s = "mx_slots m ! i" and ?g = "mx_geometry m"
  obtain a src where t: "try_next_frame rapi s (mt_source ?s) = (a, src)" by fastforce
  let ?m1 = "upd_slot i (\<lambda>s. s\<lparr>mt_source := src\<rparr>) m"
  have gr: "grows todo s sF" "\<forall>s\<in>set ss. grows todo s sF" using Cons.prems(1) by auto
  consider e where "a = Inl e" | "a = Inr None" | f where "a = Inr (Some f)" by (cases a) auto
  then show ?case
  proof cases
    case 1
    with t Cons.prems(5) show ?thesis by simp
  next
    case 2
    with t try_next_frame_None [OF _ assms(1)] have "src = mt_source ?s" by simp
    with merges_upd_None [OF Cons.prems(3,2)] 2 t Cons.prems(5) show ?thesis
      by (intro exI [of _ "[]"] exI [of _ rej]) auto
  next
    case 3
    let ?rej = "upd_slot i (\<lambda>s. s\<lparr>mt_rejected := mt_rejected s + 1, mt_cursor := rf_index f + 1\<rparr>) ?m1"
    have pay: "slot_frame_data (mx_slots ?m1 ! i) f = slot_frame_data ?s f" using Cons.prems(2) by simp
    have acc: "acceptable ?g f \<longleftrightarrow> \<not> is_control (rf_msg_type f) \<and>
        \<not> (unat (tgeo_mtu ?g) > 0 \<and> length (slot_frame_data ?s f) > unat (tgeo_mtu ?g))"
      by (auto simp: acceptable_def slot_frame_data_def)
    show ?thesis
    proof (cases "acceptable ?g f")
      case False
      have rec: "merge_one rapi wapi ss i (t, ?rej) = Some (Inr b, st', ss')"
        using Cons.prems(5) t 3 False Cons.prems(2) by (auto simp: Let_def acc split: if_splits)
      have st: "merges todo sF v (t, m) rej (only ?n i [f]) [] (t, ?rej) (rej[i := rej ! i @ [f]])"
        using reject_step [OF assms(1) gr(1) Cons.prems(2,3,4) False] t 3 by (simp add: only_def)
      have "mux_inv v (t, ?rej) (rej[i := rej ! i @ [f]])" using st by (simp add: merges_def)
      moreover have "slots_fit todo sF ?rej" using slots_fit_merges [OF _ st] Cons.prems(4) by simp
      moreover have "mt_member_ref (mx_slots ?rej ! i) = mt_member_ref ?s" "mx_geometry ?rej = ?g"
        "length (mx_slots ?rej) = ?n" using Cons.prems(2) by simp_all
      ultimately obtain fs rej' where
        "merges todo sF v (t, ?rej) (rej[i := rej ! i @ [f]]) (only ?n i fs)
          (map (topic_record (mt_member_ref ?s)) (filter (acceptable ?g) fs)) st' rej'"
        "length (filter (acceptable ?g) fs) = (if b then 1 else 0)" "set ss' \<subseteq> set ss"
        using Cons.IH [OF gr(2) _ _ _ rec, of "rej[i := rej ! i @ [f]]"] Cons.prems(2) by auto
      with merges_trans [OF st this(1)] False Cons.prems(2) show ?thesis
        by (intro exI [of _ "f # fs"] exI [of _ rej']) auto
    next
      case True
      obtain t' m' where mc: "merge_commit wapi i f (slot_frame_data (mx_slots ?m1 ! i) f) (t, ?m1) = (Inr b, t', m')"
        "st' = (t', m')" "ss' = ss"
        using Cons.prems(5) t 3 True Cons.prems(2) by (cases st') (auto simp: Let_def acc split: if_splits prod.splits)
      from commit_step [OF assms(1,2) gr(1) Cons.prems(2,3,4) True _ refl mc(1)] t 3 True mc(2,3) show ?thesis
        by (intro exI [of _ "[f]"]) (auto simp: only_def)
    qed
  qed
qed simp


lemma mergesD:
  assumes "merges todo sF v st rej fss ds st' rej'"
  shows "mux_inv v st' rej'" and "mx_geometry (snd st') = mx_geometry (snd st)"
    and "length (mx_slots (snd st')) = length (mx_slots (snd st))" and "length fss = length (mx_slots (snd st))"
    and "j < length (mx_slots (snd st)) \<Longrightarrow> mt_member_ref (mx_slots (snd st') ! j) = mt_member_ref (mx_slots (snd st) ! j)"
  using assms by (simp_all add: merges_def moved_def same_place_def)

lemma merge_batch_merges:
  assumes "reader_laws rapi todo" and "writer_laws wapi v"
    and "\<forall>s\<in>set ss. grows todo s sF" and "i < length (mx_slots (snd st))"
    and "mux_inv v st rej" and "slots_fit todo sF (snd st)"
    and "merge_batch rapi wapi n ss i k st = Some (Inr k', st', ss')"
  shows "\<exists>fs rej'. merges todo sF v st rej (only (length (mx_slots (snd st))) i fs)
       (map (topic_record (mt_member_ref (mx_slots (snd st) ! i))) (filter (acceptable (mx_geometry (snd st))) fs)) st' rej' \<and>
     k' = k + length (filter (acceptable (mx_geometry (snd st))) fs) \<and>
     length (filter (acceptable (mx_geometry (snd st))) fs) \<le> n \<and> set ss' \<subseteq> set ss"
  using assms(3-7)
proof (induction n arbitrary: ss k st rej)
  case 0
  then show ?case
    using merges_refl [OF "0.prems"(3), of todo sF] by (intro exI [of _ "[]"] exI [of _ rej]) auto
next
  case (Suc n)
  let ?g = "mx_geometry (snd st)" and ?r = "mt_member_ref (mx_slots (snd st) ! i)" and ?l = "length (mx_slots (snd st))"
  from Suc.prems(5) obtain b st1 ss1 where o: "merge_one rapi wapi ss i st = Some (Inr b, st1, ss1)"
    by (auto split: option.splits prod.splits sum.splits)
  obtain t m where st: "st = (t, m)" by (cases st)
  have pre: "i < length (mx_slots m)" "mux_inv v (t, m) rej" "slots_fit todo sF m"
    using Suc.prems(2-4) by (simp_all add: st)
  from merge_one_merges [OF assms(1,2) Suc.prems(1) pre o [unfolded st]] obtain fs rej1 where
    m1: "merges todo sF v st rej (only ?l i fs) (map (topic_record ?r) (filter (acceptable ?g) fs)) st1 rej1"
      "length (filter (acceptable ?g) fs) = (if b then 1 else 0)" "set ss1 \<subseteq> set ss"
    by (auto simp: st)
  show ?case
  proof (cases b)
    case False
    with Suc.prems(5) o m1 show ?thesis by (intro exI [of _ fs] exI [of _ rej1]) auto
  next
    case True
    with Suc.prems(5) o have rest: "merge_batch rapi wapi n ss1 i (Suc k) st1 = Some (Inr k', st', ss')" by simp
    have "\<forall>s\<in>set ss1. grows todo s sF" using m1(3) Suc.prems(1) by blast
    from Suc.IH [OF this _ mergesD(1) [OF m1(1)] slots_fit_merges [OF Suc.prems(4) m1(1)] rest]
    obtain gs rej' where
      "merges todo sF v st1 rej1 (only ?l i gs) (map (topic_record ?r) (filter (acceptable ?g) gs)) st' rej'"
      "k' = Suc k + length (filter (acceptable ?g) gs)" "length (filter (acceptable ?g) gs) \<le> n" "set ss' \<subseteq> set ss1"
      using mergesD [OF m1(1)] Suc.prems(2) by auto
    with merges_trans [OF m1(1) this(1)] m1 True show ?thesis
      by (intro exI [of _ "fs @ gs"] exI [of _ rej']) auto
  qed
qed

lemma poll_slots_merges:
  assumes "reader_laws rapi todo" and "writer_laws wapi v"
    and "\<forall>s\<in>set ss. grows todo s sF" and "\<forall>i\<in>set is. i < length (mx_slots (snd st))" and "distinct is"
    and "mux_inv v st rej" and "slots_fit todo sF (snd st)"
    and "poll_slots rapi wapi n ss is k st = Some (Inr k', st', ss')"
  shows "\<exists>fss rej'. merges todo sF v st rej fss
       (concat (map (\<lambda>i. map (topic_record (mt_member_ref (mx_slots (snd st) ! i)))
          (filter (acceptable (mx_geometry (snd st))) (fss ! i))) is)) st' rej' \<and>
     k' = k + (\<Sum>i\<leftarrow>is. length (filter (acceptable (mx_geometry (snd st))) (fss ! i))) \<and>
     (\<forall>i<length (mx_slots (snd st)). (i \<notin> set is \<longrightarrow> fss ! i = []) \<and>
        length (filter (acceptable (mx_geometry (snd st))) (fss ! i)) \<le> n) \<and> set ss' \<subseteq> set ss"
  using assms(3-8)
proof (induction "is" arbitrary: ss k st rej)
  case Nil
  then show ?case
    using merges_refl [OF Nil.prems(4), of todo sF]
    by (intro exI [of _ "replicate (length (mx_slots (snd st))) []"] exI [of _ rej]) auto
next
  case (Cons i "is")
  let ?g = "mx_geometry (snd st)" and ?l = "length (mx_slots (snd st))"
  let ?rec = "\<lambda>fss i. map (topic_record (mt_member_ref (mx_slots (snd st) ! i))) (filter (acceptable ?g) (fss ! i))"
  from Cons.prems(6) obtain k1 st1 ss1 where
    b: "merge_batch rapi wapi n ss i k st = Some (Inr k1, st1, ss1)"
      "poll_slots rapi wapi n ss1 is k1 st1 = Some (Inr k', st', ss')"
    by (auto split: option.splits prod.splits sum.splits)
  have i: "i < ?l" "i \<notin> set is" using Cons.prems(2,3) by auto
  from merge_batch_merges [OF assms(1,2) Cons.prems(1) i(1) Cons.prems(4,5) b(1)] obtain fs rej1 where
    m1: "merges todo sF v st rej (only ?l i fs) (?rec (only ?l i fs) i) st1 rej1"
      "k1 = k + length (filter (acceptable ?g) fs)" "length (filter (acceptable ?g) fs) \<le> n" "set ss1 \<subseteq> set ss"
    using i(1) by auto
  note d = mergesD [OF m1(1)]
  have gr: "\<forall>s\<in>set ss1. grows todo s sF" using m1(4) Cons.prems(1) by blast
  obtain gss rej' where
    m2: "merges todo sF v st1 rej1 gss (concat (map (\<lambda>i. map (topic_record (mt_member_ref (mx_slots (snd st1) ! i)))
          (filter (acceptable (mx_geometry (snd st1))) (gss ! i))) is)) st' rej'"
      "k' = k1 + (\<Sum>i\<leftarrow>is. length (filter (acceptable (mx_geometry (snd st1))) (gss ! i)))"
      "\<forall>i<?l. (i \<notin> set is \<longrightarrow> gss ! i = []) \<and> length (filter (acceptable (mx_geometry (snd st1))) (gss ! i)) \<le> n"
      "set ss' \<subseteq> set ss1"
    using Cons.IH [OF gr _ _ d(1) slots_fit_merges [OF Cons.prems(5) m1(1)] b(2)] Cons.prems(2,3) d(3) by auto
  let ?fss = "map2 (@) (only ?l i fs) gss"
  have len: "length gss = ?l" using mergesD(4) [OF m2(1)] d(3) by simp
  have nth: "?fss ! j = (if j = i then fs else gss ! j)" if "j < ?l" for j
    using that len m2(3) i(2) by (cases "j = i") auto
  have recs: "map (\<lambda>i. map (topic_record (mt_member_ref (mx_slots (snd st1) ! i)))
          (filter (acceptable (mx_geometry (snd st1))) (gss ! i))) is = map (?rec ?fss) is"
    using nth i(2) d(2,5) Cons.prems(2) by (intro map_cong [OF refl]) (metis list.set_intros(2))
  have sums: "map (\<lambda>i. length (filter (acceptable (mx_geometry (snd st1))) (gss ! i))) is =
      map (\<lambda>i. length (filter (acceptable ?g) (?fss ! i))) is"
    using nth i(2) d(2) Cons.prems(2) by (intro map_cong refl) (metis list.set_intros(2))
  from merges_trans [OF m1(1) m2(1)] have "merges todo sF v st rej ?fss (concat (map (?rec ?fss) (i # is))) st' rej'"
    using recs nth [OF i(1)] i(1) by simp
  moreover have "k' = k + (\<Sum>i\<leftarrow>i # is. length (filter (acceptable ?g) (?fss ! i)))"
    using m1(2) m2(2) sums nth [OF i(1)] by simp
  moreover have "\<forall>j<?l. (j \<notin> set (i # is) \<longrightarrow> ?fss ! j = []) \<and> length (filter (acceptable ?g) (?fss ! j)) \<le> n"
    using nth m1(3) m2(3) d(2) by simp
  ultimately show ?case using m1(4) m2(4) by blast
qed


subsection \<open>Restarts\<close>

fun mux_polls ::
  "('s, 'r) reader_api \<Rightarrow> ('t, 'w) writer_api \<Rightarrow> 's list list \<Rightarrow> 't \<times> ('w, 'r) mux \<Rightarrow>
     (unit io_result \<times> 't \<times> ('w, 'r) mux) option" where
  "mux_polls rapi wapi [] st = Some (Inr (), st)"
| "mux_polls rapi wapi (ss # sss) st =
     (case mux_poll rapi wapi ss st of
        None \<Rightarrow> None
      | Some (Inl e, st', _) \<Rightarrow> Some (Inl e, st')
      | Some (Inr _, st', _) \<Rightarrow> mux_polls rapi wapi sss st')"

text \<open>The data records with a given member ref.\<close>

definition of_ref :: "u16 \<Rightarrow> xmsg \<Rightarrow> bool" where
  "of_ref r m \<longleftrightarrow> (case prov_split (xm_payload m) of Inl _ \<Rightarrow> False | Inr (p, _) \<Rightarrow> pv_member_ref p = r)"

lemma of_ref_topic_record [simp]: "of_ref r (topic_record r' f) \<longleftrightarrow> r' = r"
  by (simp add: of_ref_def topic_record_def)

lemma filter_of_ref: "filter (of_ref r) (map (topic_record r') fs) = (if r' = r then map (topic_record r') fs else [])"
  by (induction fs) auto

lemma filter_refs_concat:
  assumes "distinct (map refs [0..<n])" and "j < n"
  shows "filter (of_ref (refs j)) (concat (map (\<lambda>i. map (topic_record (refs i)) (gs i)) [0..<n])) =
    map (topic_record (refs j)) (gs j)"
proof -
  have inj: "refs i = refs j \<longleftrightarrow> i = j" if "i < n" for i
    using assms that by (auto simp: distinct_map inj_on_def)
  have "filter (of_ref (refs j)) (concat (map (\<lambda>i. map (topic_record (refs i)) (gs i)) [0..<k])) =
      (if j < k then map (topic_record (refs j)) (gs j) else [])" if "k \<le> n" for k
    using that
  proof (induction k)
    case (Suc k)
    then show ?case using inj [of k] by (auto simp: filter_of_ref)
  qed simp
  from this [of n] assms(2) show ?thesis by simp
qed

lemma mux_poll_merges:
  assumes "reader_laws rapi todo" and "writer_laws wapi v"
    and "\<forall>s\<in>set ss. grows todo s sF" and "mux_inv v st rej" and "slots_fit todo sF (snd st)"
    and "mux_poll rapi wapi ss st = Some (Inr k, st', ss')" and "\<not> mx_finished (snd st)"
  shows "\<exists>fss rej'. merges todo sF v st rej fss
       (concat (map (\<lambda>i. map (topic_record (mt_member_ref (mx_slots (snd st) ! i)))
          (filter (acceptable (mx_geometry (snd st))) (fss ! i))) [0..<length (mx_slots (snd st))])) st' rej' \<and>
     k = (\<Sum>i\<leftarrow>[0..<length (mx_slots (snd st))]. length (filter (acceptable (mx_geometry (snd st))) (fss ! i))) \<and>
     (\<forall>i<length (mx_slots (snd st)).
        length (filter (acceptable (mx_geometry (snd st))) (fss ! i)) \<le> mx_max_batch_per_member (snd st))"
proof -
  from assms(6,7) have "poll_slots rapi wapi (mx_max_batch_per_member (snd st)) ss [0..<length (mx_slots (snd st))] 0 st =
      Some (Inr k, st', ss')" by (simp add: mux_poll_def)
  from poll_slots_merges [OF assms(1-3) _ _ assms(4,5) this] show ?thesis by auto
qed

lemma mux_polls_merges:
  assumes "reader_laws rapi todo" and "writer_laws wapi v"
    and "\<forall>ss\<in>set sss. \<forall>s\<in>set ss. grows todo s sF" and "mux_inv v st rej" and "slots_fit todo sF (snd st)"
    and "mux_polls rapi wapi sss st = Some (Inr (), st')"
  shows "\<exists>fss ds rej'. merges todo sF v st rej fss ds st' rej' \<and>
     (\<forall>j<length (mx_slots (snd st)). filter (of_ref (mt_member_ref (mx_slots (snd st) ! j))) ds =
        map (topic_record (mt_member_ref (mx_slots (snd st) ! j))) (filter (acceptable (mx_geometry (snd st))) (fss ! j)))"
  using assms(3-6)
proof (induction sss arbitrary: st rej)
  case Nil
  then show ?case
    using merges_refl [OF Nil.prems(2), of todo sF]
    by (intro exI [of _ "replicate (length (mx_slots (snd st))) []"] exI [of _ "[]"] exI [of _ rej]) auto
next
  case (Cons ss sss)
  show ?case
  proof (cases "mx_finished (snd st)")
    case True
    with Cons.prems(4) have "mux_polls rapi wapi sss st = Some (Inr (), st')" by (simp add: mux_poll_def)
    with Cons.IH [OF _ Cons.prems(2,3)] Cons.prems(1) show ?thesis by simp
  next
    case False
    let ?g = "mx_geometry (snd st)" and ?l = "length (mx_slots (snd st))"
    let ?ref = "\<lambda>j. mt_member_ref (mx_slots (snd st) ! j)"
    from Cons.prems(4) obtain k st1 ss' where p: "mux_poll rapi wapi ss st = Some (Inr k, st1, ss')"
      "mux_polls rapi wapi sss st1 = Some (Inr (), st')"
      by (auto split: option.splits prod.splits sum.splits)
    have gr: "\<forall>s\<in>set ss. grows todo s sF" "\<forall>ss\<in>set sss. \<forall>s\<in>set ss. grows todo s sF" using Cons.prems(1) by auto
    obtain fss rej1 where m1: "merges todo sF v st rej fss
       (concat (map (\<lambda>i. map (topic_record (?ref i)) (filter (acceptable ?g) (fss ! i))) [0..<?l])) st1 rej1"
      using mux_poll_merges [OF assms(1,2) gr(1) Cons.prems(2,3) p(1) False] by blast
    note d = mergesD [OF m1]
    obtain gss es rej' where m2: "merges todo sF v st1 rej1 gss es st' rej'"
      "\<forall>j<?l. filter (of_ref (?ref j)) es = map (topic_record (?ref j)) (filter (acceptable ?g) (gss ! j))"
      using Cons.IH [OF gr(2) d(1) slots_fit_merges [OF Cons.prems(3) m1] p(2)] d(2,3,5) by auto
    have "map ?ref [0..<?l] = map mt_member_ref (mx_slots (snd st))"
      by (rule nth_equalityI) simp_all
    with Cons.prems(2) have dist: "distinct (map ?ref [0..<?l])" by (simp add: mux_inv_def slots_wf_def)
    have "length gss = ?l" using mergesD(4) [OF m2(1)] d(3) by simp
    with m2(2) filter_refs_concat [OF dist] d(4) show ?thesis
      using merges_trans [OF m1 m2(1)]
      by (intro exI [of _ "map2 (@) fss gss"] exI conjI allI impI) (assumption, simp)
  qed
qed


subsection \<open>Joining and leaving\<close>

lemma scan_ok_control:
  assumes "scan_ok log slots rej" and "is_control ty" and "ty \<noteq> MSG_TYPE_SLOT_TABLE"
  shows "scan_ok (log @ [control_record ty p]) slots rej"
proof -
  have "recover_step (control_record ty p) st = Inr st" for st
    using assms(2,3) by (simp add: recover_step_def control_record_def)
  then show ?thesis
    using assms(1) by (auto simp: scan_ok_def recover_log_append)
qed

lemma skip_to_stands:
  "skip_to api ss start src = Some (Inr u, src') \<Longrightarrow> rs_next_index src \<le> start \<Longrightarrow> rs_next_index src' = start"
proof (induction ss arbitrary: src)
  case (Cons s ss)
  show ?case
  proof (cases "rs_next_index src < start")
    case True
    then have "rs_next_index src + 1 \<le> start" by (simp add: inc_le)
    with True Cons show ?thesis by (auto split: prod.splits sum.splits option.splits)
  next
    case False
    with Cons.prems show ?thesis by simp
  qed
qed (simp split: if_splits)

definition mark_record :: "u16 \<Rightarrow> mark \<Rightarrow> xmsg list" where
  "mark_record ref mark = (case mark of
      MarkNone \<Rightarrow> []
    | MarkGap from resumed_at \<Rightarrow> [control_record MSG_TYPE_TOPIC_GAP
        (gap_payload \<lparr>tg_member_ref = ref, tg_from = from, tg_resumed_at = resumed_at\<rparr>)]
    | MarkRegressed expected head \<Rightarrow> [control_record MSG_TYPE_MEMBER_REGRESSED
        (regressed_payload \<lparr>mr_member_ref = ref, mr_expected = expected, mr_head = head\<rparr>)])"

lemma emit_mark_ok:
  assumes "emit_mark api ref mark (t, m) = (Inr u, t', m')" and "writer_laws api v"
  shows "mux_log v (t', m') = mux_log v (t, m) @ mark_record ref mark \<and> same_mux m m'"
proof -
  have len: "length (gap_payload g) < 2 ^ 32" "length (regressed_payload r) < 2 ^ 32" for g r
    by (simp_all add: gap_payload_def regressed_payload_def)
  show ?thesis
  proof (cases mark)
    case MarkNone
    with assms(1) show ?thesis by (simp add: emit_mark_def mark_record_def)
  next
    case (MarkGap a b)
    with assms(1) obtain y t1 m1 where
      c: "commit_record api MSG_TYPE_TOPIC_GAP (gap_payload \<lparr>tg_member_ref = ref, tg_from = a, tg_resumed_at = b\<rparr>) (t, m) = (Inr y, t1, m1)"
      and e: "t' = t1" "m' = m1\<lparr>mx_gaps_emitted := mx_gaps_emitted m1 + 1\<rparr>"
      by (auto simp: emit_mark_def emit_topic_gap_def then_do_Inr)
    from commit_record_ok [OF c assms(2) len(1)] e MarkGap show ?thesis
      by (simp add: mux_log_def mark_record_def same_mux_def)
  next
    case (MarkRegressed a b)
    with assms(1) have
      c: "commit_record api MSG_TYPE_MEMBER_REGRESSED (regressed_payload \<lparr>mr_member_ref = ref, mr_expected = a, mr_head = b\<rparr>) (t, m) = (Inr u, t', m')"
      by (simp add: emit_mark_def emit_member_regressed_def)
    from commit_record_ok [OF c assms(2) len(2)] MarkRegressed show ?thesis
      by (simp add: mark_record_def)
  qed
qed

lemma scan_ok_mark: "scan_ok log slots rej \<Longrightarrow> scan_ok (log @ mark_record ref mark) slots rej"
  by (cases mark) (simp_all add: mark_record_def scan_ok_control msg_type_defs)

lemma slots_wf_add:
  assumes "slots_wf m" and "\<not> has_member m name epoch" and "name_ok name" and "mx_next_ref m \<noteq> -1"
  shows "slots_wf (m\<lparr>mx_next_ref := mx_next_ref m + 1, mx_slots := mx_slots m @
     [\<lparr>mt_member_ref = mx_next_ref m, mt_name = name, mt_epoch = epoch, mt_source = src, mt_cursor = c, mt_rejected = 0\<rparr>]\<rparr>)"
proof -
  have lt: "mx_next_ref m < mx_next_ref m + 1" using word_less_add_1 assms(4) by blast
  have "r < mx_next_ref m + 1" if "r < mx_next_ref m" for r using that lt by simp
  with assms lt show ?thesis
    by (auto simp: slots_wf_def has_member_def slot_key_def list_ex_iff)
qed

lemma drain_merges:
  assumes "reader_laws rapi todo" and "writer_laws wapi v"
    and "\<forall>s\<in>set ss. grows todo s sF" and "i < length (mx_slots (snd st))"
    and "mux_inv v st rej" and "slots_fit todo sF (snd st)"
    and "drain rapi wapi ss i st = Some (Inr u, st', ss')"
  shows "\<exists>fs rej'. merges todo sF v st rej (only (length (mx_slots (snd st))) i fs)
       (map (topic_record (mt_member_ref (mx_slots (snd st) ! i))) (filter (acceptable (mx_geometry (snd st))) fs)) st' rej' \<and>
     set ss' \<subseteq> set ss"
  using assms(3-7)
proof (induction "length ss" arbitrary: ss st rej rule: less_induct)
  case less
  let ?g = "mx_geometry (snd st)" and ?r = "mt_member_ref (mx_slots (snd st) ! i)" and ?l = "length (mx_slots (snd st))"
  from less.prems(5) obtain b st1 ss1 where o: "merge_one rapi wapi ss i st = Some (Inr b, st1, ss1)"
    by (subst (asm) drain.simps) (auto split: option.splits prod.splits sum.splits)
  obtain t m where st: "st = (t, m)" by (cases st)
  have pre: "i < length (mx_slots m)" "mux_inv v (t, m) rej" "slots_fit todo sF m"
    using less.prems(2-4) by (simp_all add: st)
  from merge_one_merges [OF assms(1,2) less.prems(1) pre o [unfolded st]] obtain fs rej1 where
    m1: "merges todo sF v st rej (only ?l i fs) (map (topic_record ?r) (filter (acceptable ?g) fs)) st1 rej1"
      "set ss1 \<subseteq> set ss" by (auto simp: st)
  show ?case
  proof (cases b)
    case False
    with less.prems(5) o have "st' = st1 \<and> ss' = ss1" by (subst (asm) drain.simps) simp
    with m1 show ?thesis by blast
  next
    case True
    with less.prems(5) o have rest: "drain rapi wapi ss1 i st1 = Some (Inr u, st', ss')"
      by (subst (asm) drain.simps) simp
    have "\<forall>s\<in>set ss1. grows todo s sF" using m1(2) less.prems(1) by blast
    from less.hyps [OF merge_one_uses_moment [OF o] this _ mergesD(1) [OF m1(1)] slots_fit_merges [OF less.prems(4) m1(1)] rest]
    obtain gs rej' where
      "merges todo sF v st1 rej1 (only ?l i gs) (map (topic_record ?r) (filter (acceptable ?g) gs)) st' rej'" "set ss' \<subseteq> set ss1"
      using mergesD [OF m1(1)] less.prems(2) by auto
    with merges_trans [OF m1(1) this(1)] m1(2) show ?thesis
      by (intro exI [of _ "fs @ gs"] exI [of _ rej']) auto
  qed
qed

lemma slot_position_Some:
  "slot_position slots name epoch = Some i \<Longrightarrow> i < length slots \<and> slot_key (slots ! i) = (name, epoch)"
  by (induction slots arbitrary: i) (auto simp: slot_key_def split: if_splits)

lemma slot_position_None:
  "slot_position slots name epoch = None \<longleftrightarrow> (name, epoch) \<notin> slot_key ` set slots"
  by (induction slots) (auto simp: slot_key_def)

definition without :: "nat \<Rightarrow> 'a list \<Rightarrow> 'a list" where
  "without i xs = take i xs @ drop (Suc i) xs"

lemma set_without: "set (without i xs) \<subseteq> set xs"
  unfolding without_def using set_take_subset [of i xs] set_drop_subset [of "Suc i" xs] by auto

lemma map_without: "map f (without i xs) = without i (map f xs)"
  by (simp add: without_def take_map drop_map)

lemma distinct_without: "distinct xs \<Longrightarrow> i < length xs \<Longrightarrow> distinct (without i xs) \<and> set (without i xs) = set xs - {xs ! i}"
proof -
  assume "distinct xs" "i < length xs"
  then have "distinct (take i xs @ xs ! i # drop (Suc i) xs)" by (simp add: id_take_nth_drop [symmetric])
  moreover have "set xs = set (take i xs @ xs ! i # drop (Suc i) xs)"
    using \<open>i < length xs\<close> by (simp add: id_take_nth_drop [symmetric])
  ultimately show ?thesis by (auto simp: without_def)
qed

lemma slots_wf_without:
  assumes "slots_wf m" and "i < length (mx_slots m)" shows "slots_wf (m\<lparr>mx_slots := without i (mx_slots m)\<rparr>)"
  using assms distinct_without [of "map mt_member_ref (mx_slots m)" i] distinct_without [of "map slot_key (mx_slots m)" i]
    set_without [of i "mx_slots m"]
  by (auto simp: slots_wf_def map_without)

text \<open>A member leaves: its slot is drained and closed, and the table that follows records the cursors
  of the others.\<close>

lemma remove_member_ok:
  assumes "reader_laws rapi todo" and "writer_laws wapi v"
    and "\<forall>s\<in>set ss. grows todo s sF" and "mux_inv v st rej" and "slots_fit todo sF (snd st)"
    and "remove_member rapi wapi ss name epoch st = Some (Inr b, st', ss')"
  shows "\<exists>rej'. mux_inv v st' rej' \<and> slots_fit todo sF (snd st') \<and> set ss' \<subseteq> set ss \<and>
     slot_key ` set (mx_slots (snd st')) = slot_key ` set (mx_slots (snd st)) - {(name, epoch)}"
proof (cases "slot_position (mx_slots (snd st)) name epoch")
  case None
  with assms(6) have "st' = st" "ss' = ss" by (simp_all add: remove_member_def)
  moreover have "(name, epoch) \<notin> slot_key ` set (mx_slots (snd st))" using None slot_position_None by blast
  ultimately show ?thesis using assms(4,5) by auto
next
  case (Some i)
  note i = slot_position_Some [OF Some]
  from assms(6) Some obtain u t1 m1 where
    dr: "drain rapi wapi ss i st = Some (Inr u, (t1, m1), ss')"
    and fin: "then_do (emit_member_closed wapi (mt_member_ref (mx_slots m1 ! i)) (mt_cursor (mx_slots m1 ! i)))
        (then_do (modify (\<lambda>m. m\<lparr>mx_slots := take i (mx_slots m) @ drop (Suc i) (mx_slots m)\<rparr>))
          (then_do (emit_slot_table wapi) (\<lambda>st. (Inr True, st)))) (t1, m1) = (Inr b, st')"
    by (auto simp: remove_member_def Let_def split: option.splits prod.splits sum.splits)
  from fin obtain u2 t2 m2 u3 where
    cl: "emit_member_closed wapi (mt_member_ref (mx_slots m1 ! i)) (mt_cursor (mx_slots m1 ! i)) (t1, m1) = (Inr u2, t2, m2)"
    and em: "emit_slot_table wapi (t2, m2\<lparr>mx_slots := without i (mx_slots m2)\<rparr>) = (Inr u3, st')"
    by (auto simp: then_do_Inr without_def)
  from drain_merges [OF assms(1-3) _ assms(4,5) dr] i obtain fs rej1 where
    m1: "merges todo sF v st rej (only (length (mx_slots (snd st))) i fs)
       (map (topic_record (mt_member_ref (mx_slots (snd st) ! i))) (filter (acceptable (mx_geometry (snd st))) fs)) (t1, m1) rej1"
    "set ss' \<subseteq> set ss" by blast
  have len: "length (closed_payload \<lparr>mc_member_ref = a, mc_final_index = c\<rparr>) < 2 ^ 32" for a c
    by (simp add: closed_payload_def)
  note c = commit_record_ok [OF cl [unfolded emit_member_closed_def] assms(2) len]
  let ?m2 = "m2\<lparr>mx_slots := without i (mx_slots m2)\<rparr>"
  have inv1: "slots_wf m1" "scan_ok (mux_log v (t1, m1)) (mx_slots m1) rej1"
    "\<forall>s\<in>set (mx_slots m1). mt_cursor s = rs_next_index (mt_source s)" "i < length (mx_slots m1)"
    using mergesD(1,3) [OF m1(1)] i by (simp_all add: mux_inv_def)
  have s2: "mx_slots m2 = mx_slots m1" using c(2) by (simp add: same_mux_def)
  have wf: "slots_wf ?m2" using slots_wf_without [of m2 i] same_mux_wf [OF c(2)] inv1 s2 by simp
  obtain t' m' where st': "st' = (t', m')" by (cases st')
  note e = emit_slot_table_ok [OF em [unfolded st'] assms(2) length_slot_table [OF wf]]
  have s': "mx_slots m' = without i (mx_slots m1)" using e(2) s2 by (simp add: same_mux_def)
  have "scan_ok (mux_log v (t2, m2)) (mx_slots m1) rej1"
    using scan_ok_control [OF inv1(2)] c(1) by (simp add: msg_type_defs)
  then have "scan_ok (mux_log v (t', m')) (mx_slots m') (replicate (length (mx_slots m')) [])"
    using scan_ok_recovers scan_ok_table [OF wf] e(1) s' s2 by (fastforce simp: mux_log_def)
  moreover have "slots_wf m'" using wf e(2) same_mux_wf by blast
  ultimately have "mux_inv v st' (replicate (length (mx_slots m')) [])"
    using inv1(3) s' set_without [of i "mx_slots m1"] st' by (auto simp: mux_inv_def)
  moreover have "slots_fit todo sF m1" using slots_fit_merges [OF assms(5) m1(1)] by simp
  then have "slots_fit todo sF (snd st')"
    using s' st' set_without [of i "mx_slots m1"] by (auto simp: slots_fit_def)
  moreover have "slot_key ` set (mx_slots (snd st')) = slot_key ` set (mx_slots (snd st)) - {(name, epoch)}"
  proof -
    have same: "map slot_key (mx_slots m1) = map slot_key (mx_slots (snd st))"
      using m1(1) by (intro nth_equalityI) (auto simp: merges_def moved_def same_place_def)
    let ?ks = "map slot_key (mx_slots (snd st))"
    have "distinct ?ks" using same inv1(1) by (simp add: slots_wf_def)
    then have "set (without i ?ks) = set ?ks - {?ks ! i}" using distinct_without [of ?ks i] i by simp
    moreover have "set (without i ?ks) = set (map slot_key (mx_slots m'))" by (simp only: s' map_without same)
    ultimately show ?thesis using i st' by simp
  qed
  ultimately show ?thesis using m1(2) by blast
qed

lemma remove_all_ok:
  assumes "reader_laws rapi todo" and "writer_laws wapi v"
    and "\<forall>s\<in>set ss. grows todo s sF" and "mux_inv v st rej" and "slots_fit todo sF (snd st)"
    and "remove_all rapi wapi ss ks st = Some (Inr u, st', ss')"
  shows "\<exists>rej'. mux_inv v st' rej' \<and>
     slot_key ` set (mx_slots (snd st')) = slot_key ` set (mx_slots (snd st)) - set ks"
  using assms(3-6)
proof (induction ks arbitrary: ss st rej)
  case Nil
  then show ?case by auto
next
  case (Cons k ks)
  from Cons.prems(4) obtain b st1 ss1 where
    r: "remove_member rapi wapi ss (fst k) (snd k) st = Some (Inr b, st1, ss1)"
      "remove_all rapi wapi ss1 ks st1 = Some (Inr u, st', ss')"
    by (auto split: option.splits prod.splits sum.splits)
  from remove_member_ok [OF assms(1,2) Cons.prems(1-3) r(1)] obtain rej1 where
    m: "mux_inv v st1 rej1" "slots_fit todo sF (snd st1)" "set ss1 \<subseteq> set ss"
      "slot_key ` set (mx_slots (snd st1)) = slot_key ` set (mx_slots (snd st)) - {k}" by auto
  have "\<forall>s\<in>set ss1. grows todo s sF" using m(3) Cons.prems(1) by blast
  from Cons.IH [OF this m(1,2) r(2)] m(4) show ?case by auto
qed

subsection \<open>Properties\<close>

text \<open>C5. A poll merges exactly what the members offer, in order, each record once. Whatever the
  members' files hold at the moments of the reads, a successful poll takes from each member, in
  slot order, the next frames of its log; commits precisely the acceptable ones, each with its
  member's ref, its index in the member and its original meta, type and payload; takes at most
  the batch limit of acceptable records per member; moves each cursor over the frames taken; and
  returns the number committed.\<close>

theorem mux_poll_merges_exactly:
  assumes "reader_laws rapi todo" and "writer_laws wapi v"
    and "\<forall>s\<in>set ss. grows todo s sF" and "mux_inv v st rej" and "slots_fit todo sF (snd st)"
    and "\<not> mx_finished (snd st)" and "mux_poll rapi wapi ss st = Some (Inr k, st', ss')"
  shows "\<exists>fss. let n = length (mx_slots (snd st));
        taken = (\<lambda>i. filter (acceptable (mx_geometry (snd st))) (fss ! i)) in
     length fss = n \<and> length (mx_slots (snd st')) = n \<and>
     (\<forall>i<n. source_rest todo sF (mt_source (mx_slots (snd st) ! i)) =
              fss ! i @ source_rest todo sF (mt_source (mx_slots (snd st') ! i)) \<and>
            unat (mt_cursor (mx_slots (snd st') ! i)) = unat (mt_cursor (mx_slots (snd st) ! i)) + length (fss ! i) \<and>
            length (taken i) \<le> mx_max_batch_per_member (snd st)) \<and>
     data_records (mux_log v st') = data_records (mux_log v st) @
       concat (map (\<lambda>i. map (topic_record (mt_member_ref (mx_slots (snd st) ! i))) (taken i)) [0..<n]) \<and>
     k = (\<Sum>i\<leftarrow>[0..<n]. length (taken i))"
  using mux_poll_merges [OF assms(1-5) assms(7,6)]
  unfolding merges_def moved_def Let_def by blast

text \<open>C6. A restarted mux merges no record twice and loses none. From a state in which every member's
  cursor is recorded, let any number of polls succeed and the mux stop; let a new mux be opened
  over what retention left of the topic, provided the retained part starts at a slot table. Then
  for every member attached at the stop, the frames taken since are \<open>past @ rest\<close> where the new
  mux resumes right behind \<open>past\<close>, the topic holds exactly the acceptable frames of \<open>past\<close>, in
  order, and no frame of \<open>rest\<close> is acceptable.\<close>

theorem mux_restart_resumes:
  assumes "reader_laws rapi todo" and "writer_laws wapi v" and "reader_laws tapi ttodo"
    and "\<forall>ss\<in>set sss. \<forall>s\<in>set ss. grows todo s sF"
    and "mux_inv v st (replicate (length (mx_slots (snd st))) [])" and "slots_fit todo sF (snd st)"
    and "mux_polls rapi wapi sss st = Some (Inr (), st')"
    and "mux_log v st' = pre @ table # suf" and "xm_type table = MSG_TYPE_SLOT_TABLE"
    and "rd_open tapi (fst st') p = Inr q" and "map snd (ttodo (fst st') q) = table # suf"
    and "\<forall>r e. fst (rd_try_read tapi (fst st') r) \<noteq> Inl e" and "length (ttodo (fst st') q) < n"
    and "mux_open tapi wapi (fst st') (replicate n (fst st')) p name g batch = Some (Inr m2, t2)"
    and "i < length (mx_slots (snd st))"
  shows "let s = mx_slots (snd st) ! i; s' = mx_slots (snd st') ! i; ok = acceptable (mx_geometry (snd st)) in
     \<exists>past rest ds. source_rest todo sF (mt_source s) = past @ rest @ source_rest todo sF (mt_source s') \<and>
       resume_point (mx_recovered m2 (slot_key s)) = unat (mt_cursor s) + length past \<and>
       (\<forall>f\<in>set rest. \<not> ok f) \<and>
       data_records (mux_log v st') = data_records (mux_log v st) @ ds \<and>
       filter (of_ref (mt_member_ref s)) ds = map (topic_record (mt_member_ref s)) (filter ok past)"
proof -
  let ?s = "mx_slots (snd st) ! i" and ?s' = "mx_slots (snd st') ! i"
  let ?n = "length (mx_slots (snd st))" and ?ok = "acceptable (mx_geometry (snd st))"
  obtain fss ds rej' where m: "merges todo sF v st (replicate ?n []) fss ds st' rej'"
    and recs: "filter (of_ref (mt_member_ref ?s)) ds = map (topic_record (mt_member_ref ?s)) (filter ?ok (fss ! i))"
    using mux_polls_merges [OF assms(1,2,4-7)] assms(15) by blast
  have mv: "moved todo sF [] (fss ! i) (rej' ! i) ?s ?s'"
    using m assms(15) unfolding merges_def by fastforce
  then obtain past where fs: "fss ! i = past @ rej' ! i" by (auto simp: moved_def)
  note d = mergesD [OF m]
  have inv: "scan_ok (mux_log v st') (mx_slots (snd st')) rej'" "\<forall>fs\<in>set rej'. \<forall>f\<in>set fs. \<not> ?ok f"
    using d(1,2) by (simp_all add: mux_inv_def)
  then obtain active out where
    r: "recover_log (mux_log v st') (Map.empty, Map.empty) = Inr (active, out)"
      "active (mt_member_ref ?s') = Some (slot_key ?s')"
      "resume_point (out (slot_key ?s')) + length (rej' ! i) = unat (mt_cursor ?s')"
    and len: "length rej' = ?n"
    using assms(15) d(3) unfolding scan_ok_def list_all2_conv_all_nth by metis
  obtain out' where w: "recover_log (table # suf) (Map.empty, Map.empty) = Inr (active, out')" "agree active out out'"
    using recover_window [OF _ assms(9)] r(1) assms(8) by metis
  have "recover_cursors tapi (fst st') (replicate n (fst st')) p = Some (Inr out')"
    using recover_scan_eq [OF assms(3,12,13), of "(Map.empty, Map.empty)"] assms(10,11) w(1)
    by (simp add: recover_cursors_def)
  with assms(14) have "mx_recovered m2 = out'"
    by (auto simp: mux_open_def split: sum.splits prod.splits)
  moreover have "slot_key ?s' \<in> ran active" using r(2) by (auto simp: ran_def)
  moreover have "slot_key ?s' = slot_key ?s" using mv by (simp add: moved_def same_place_def)
  ultimately have "resume_point (mx_recovered m2 (slot_key ?s)) + length (rej' ! i) = unat (mt_cursor ?s')"
    using r(3) w(2) by (simp add: agree_def)
  then have "resume_point (mx_recovered m2 (slot_key ?s)) = unat (mt_cursor ?s) + length past"
    using mv fs by (simp add: moved_def)
  moreover have rest: "\<forall>f\<in>set (rej' ! i). \<not> ?ok f"
    using inv(2) nth_mem [of i rej'] len assms(15) by auto
  moreover have "filter ?ok (fss ! i) = filter ?ok past" using fs rest by (simp add: filter_empty_conv)
  ultimately show ?thesis
    using mv fs recs m unfolding Let_def merges_def moved_def by auto
qed


text \<open>C32. A member attaches where it left off, and every discontinuity is on record. A successful
  attachment of a new member starts it at the recovered position when its log still holds that
  position; at the earliest retained record, with a gap record naming the hole, when the log has
  aged past it; and at the head, with a regression record, when the log ends before it. It never
  starts outside the member's log. The new slot has a fresh ref, its source stands at its cursor,
  the table that announces it records every cursor, and no data record is written.\<close>

theorem add_member_attaches:
  assumes "reader_laws rapi todo" and "writer_laws wapi v" and "mux_inv v (t, m) rej"
    and "\<not> has_member m name epoch" and "name_ok name"
    and "rd_open rapi s0 path = Inr r" and "grows todo s0 s1" and "rd_head rapi s1 r = Inr head"
    and "add_member rapi wapi s0 s1 ss name epoch path (t, m) = Some (Inr (), t', m')"
  shows "let earliest = rd_base rapi r;
       want = (case mx_recovered m (name, epoch) of None \<Rightarrow> 0 | Some h \<Rightarrow> h + 1);
       start = (if want < earliest then earliest else if want > head then head else want) in
     earliest \<le> start \<and> start \<le> head \<and>
     (\<exists>src. rs_next_index src = start \<and>
        mx_slots m' = mx_slots m @ [\<lparr>mt_member_ref = mx_next_ref m, mt_name = name, mt_epoch = epoch,
          mt_source = src, mt_cursor = start, mt_rejected = 0\<rparr>]) \<and>
     mux_inv v (t', m') (replicate (Suc (length (mx_slots m))) []) \<and>
     mux_log v (t', m') = mux_log v (t, m) @ table_record m' #
       mark_record (mx_next_ref m)
         (if want < earliest then MarkGap want earliest else if want > head then MarkRegressed want head else MarkNone)"
proof -
  let ?e = "rd_base rapi r"
  define want where "want = (case mx_recovered m (name, epoch) of None \<Rightarrow> 0 | Some h \<Rightarrow> h + 1)"
  define start where "start = (if want < ?e then ?e else if want > head then head else want)"
  define mk where "mk = (if want < ?e then MarkGap want ?e else if want > head then MarkRegressed want head else MarkNone)"
  have res: "resume_at (mx_recovered m (name, epoch)) ?e head = (start, mk)"
    by (simp add: resume_at_def want_def start_def mk_def Let_def)
  have "unat head = unat ?e + length (todo s1 r)" using reader_lawsD(2) [OF assms(1,6-8)] .
  then have eh: "?e \<le> head" by (simp add: word_le_nat_alt)
  then have range: "?e \<le> start" "start \<le> head" by (auto simp: start_def)
  let ?src0 = "\<lparr>rs_reader = r, rs_next_index = ?e\<rparr>"
  have "mx_next_ref m \<noteq> -1" using assms(4,9) by (auto simp: add_member_def Let_def split: if_splits)
  moreover from assms(4,9) this obtain src u where sk: "skip_to rapi ss start ?src0 = Some (Inr u, src)"
    and td: "then_do (emit_slot_table wapi) (emit_mark wapi (mx_next_ref m) mk)
        (t, m\<lparr>mx_next_ref := mx_next_ref m + 1, mx_slots := mx_slots m @
          [\<lparr>mt_member_ref = mx_next_ref m, mt_name = name, mt_epoch = epoch, mt_source = src, mt_cursor = start, mt_rejected = 0\<rparr>]\<rparr>) =
        (Inr (), t', m')"
    by (auto simp: add_member_def Let_def source_open_def source_head_def assms(6,8) res
        split: if_splits option.splits prod.splits sum.splits)
  let ?new = "\<lparr>mt_member_ref = mx_next_ref m, mt_name = name, mt_epoch = epoch, mt_source = src, mt_cursor = start, mt_rejected = 0\<rparr>"
  let ?m = "m\<lparr>mx_next_ref := mx_next_ref m + 1, mx_slots := mx_slots m @ [?new]\<rparr>"
  have at: "rs_next_index src = start" using skip_to_stands [OF sk] range(1) by simp
  from assms(3) have inv: "slots_wf m" "scan_ok (mux_log v (t, m)) (mx_slots m) rej"
    "\<forall>s\<in>set (mx_slots m). mt_cursor s = rs_next_index (mt_source s)" by (simp_all add: mux_inv_def)
  have wf: "slots_wf ?m" using slots_wf_add [OF inv(1) assms(4,5)] \<open>mx_next_ref m \<noteq> -1\<close> by blast
  from td obtain u1 t1 m1 where em: "emit_slot_table wapi (t, ?m) = (Inr u1, t1, m1)"
    and mk: "emit_mark wapi (mx_next_ref m) mk (t1, m1) = (Inr (), t', m')"
    by (auto simp: then_do_Inr)
  note e = emit_slot_table_ok [OF em assms(2) length_slot_table [OF wf]]
  note k = emit_mark_ok [OF mk assms(2)]
  have same: "same_mux ?m m'" using e(2) k same_mux_trans by blast
  then have slots: "mx_slots m' = mx_slots m @ [?new]" and tab: "table_record m' = table_record ?m"
    by (simp_all add: same_mux_def table_record_def slot_entries_def)
  have log: "mux_log v (t', m') = mux_log v (t, m) @ table_record m' # mark_record (mx_next_ref m) mk"
    using e(1) k tab by (simp add: mux_log_def)
  have "scan_ok (mux_log v (t, m) @ [table_record ?m]) (mx_slots ?m) (replicate (length (mx_slots ?m)) [])"
    using scan_ok_recovers [OF inv(2)] scan_ok_table [OF wf] by blast
  then have "scan_ok ((mux_log v (t, m) @ [table_record ?m]) @ mark_record (mx_next_ref m) mk) (mx_slots ?m)
      (replicate (length (mx_slots ?m)) [])" by (rule scan_ok_mark)
  then have "mux_inv v (t', m') (replicate (Suc (length (mx_slots m))) [])"
    using log tab slots inv(3) at same_mux_wf [OF same] wf by (simp add: mux_inv_def)
  with range at slots log show ?thesis
    unfolding Let_def want_def [symmetric] start_def [symmetric] mk_def [symmetric] by blast
qed

text \<open>C33. A retired topic stays as it ended. When \<open>finish\<close> succeeds the mux has no members, its log
  ends with the terminal marker and it is marked finished; from then on polling, finishing again,
  attaching and detaching members all leave files and mux as they are.\<close>

theorem mux_finish_terminal:
  assumes "reader_laws rapi todo" and "writer_laws wapi v"
    and "\<forall>s\<in>set ss. grows todo s sF" and "mux_inv v st rej" and "slots_fit todo sF (snd st)"
    and "\<not> mx_finished (snd st)" and "mux_finish rapi wapi ss st = Some (Inr (), st', ss')"
  shows "mx_slots (snd st') = [] \<and> (\<exists>log. mux_log v st' = log @ [control_record MSG_TYPE_TERMINAL []]) \<and>
     mux_poll rapi wapi ws st' = Some (Inr 0, st', ws) \<and>
     mux_finish rapi wapi ws st' = Some (Inr (), st', ws) \<and>
     remove_member rapi wapi ws name epoch st' = Some (Inr False, st', ws) \<and>
     (\<exists>msg. add_member rapi wapi a b ws name epoch p st' = Some (Inl (IoError InvalidInput msg), st'))"
proof -
  let ?ks = "map (\<lambda>s. (mt_name s, mt_epoch s)) (mx_slots (snd st))"
  from assms(6,7) obtain u t1 m1 where
    r: "remove_all rapi wapi ss ?ks st = Some (Inr u, (t1, m1), ss')"
    and f: "then_do (commit_record wapi MSG_TYPE_TERMINAL []) (modify (\<lambda>m. m\<lparr>mx_finished := True\<rparr>)) (t1, m1) = (Inr (), st')"
    by (auto simp: mux_finish_def split: option.splits prod.splits sum.splits)
  from f obtain u2 t2 m2 where c: "commit_record wapi MSG_TYPE_TERMINAL [] (t1, m1) = (Inr u2, t2, m2)"
    and st': "st' = (t2, m2\<lparr>mx_finished := True\<rparr>)" by (auto simp: then_do_Inr)
  from remove_all_ok [OF assms(1-5) r] have "slot_key ` set (mx_slots m1) = slot_key ` set (mx_slots (snd st)) - set ?ks"
    by auto
  then have "mx_slots m1 = []" by (auto simp: slot_key_def)
  with commit_record_ok [OF c assms(2)] have "mx_slots m2 = []"
    "mux_log v (t2, m2) = mux_log v (t1, m1) @ [control_record MSG_TYPE_TERMINAL []]"
    by (simp_all add: same_mux_def)
  then show ?thesis
    by (auto simp: st' mux_log_def mux_poll_def mux_finish_def remove_member_def add_member_def)
qed


text \<open>C34. A record whose commit fails is skipped. When the topic refuses an acceptable record (here the
  reservation fails), \<open>merge_one\<close> reports the error and leaves the cursor, but the source has
  moved on: the record is neither in the topic nor among the frames the source will still
  produce, so the next poll merges the record after it.\<close>

theorem merge_error_skips_record:
  assumes "reader_laws rapi todo" and "grows todo s sF" and "i < length (mx_slots m)"
    and "try_next_frame rapi s (mt_source (mx_slots m ! i)) = (Inr (Some f), src)"
    and "acceptable (mx_geometry m) f" and "tgeo_file_roll_size (mx_geometry m) = 0"
    and "wr_try_reserve wapi t (mx_topic m) (length (slot_frame_data (mx_slots m ! i) f)) = (Inl e, t', w')"
  shows "\<exists>m'. merge_one rapi wapi (s # ss) i (t, m) = Some (Inl e, (t', m'), ss) \<and>
     mt_cursor (mx_slots m' ! i) = mt_cursor (mx_slots m ! i) \<and>
     source_rest todo sF (mt_source (mx_slots m ! i)) = f # source_rest todo sF (mt_source (mx_slots m' ! i))"
proof -
  let ?m1 = "upd_slot i (\<lambda>s. s\<lparr>mt_source := src\<rparr>) m"
  have "merge_commit wapi i f (slot_frame_data (mx_slots m ! i) f) (t, ?m1) = (Inl e, t', ?m1\<lparr>mx_topic := w'\<rparr>)"
    using assms(6,7) by (simp add: merge_commit_def then_do_def roll_if_full_def commit_record_def)
  then have "merge_one rapi wapi (s # ss) i (t, m) = Some (Inl e, (t', ?m1\<lparr>mx_topic := w'\<rparr>), ss)"
    using assms(3,4,5) by (auto simp: Let_def acceptable_def slot_frame_data_def)
  moreover have "source_rest todo sF (mt_source (mx_slots m ! i)) = f # source_rest todo sF src"
    using try_next_frame_Some(1) [OF assms(4,1,2)] .
  ultimately show ?thesis using assms(3) by simp
qed

subsection \<open>A concrete topic\<close>

definition sample_geometry :: topic_geometry where
  "sample_geometry = \<lparr>tgeo_region_size = 4096, tgeo_mtu = 0, tgeo_file_roll_size = 0, tgeo_keep_files = 0\<rparr>"

definition sample_slot :: "seg_reader slot" where
  "sample_slot = \<lparr>mt_member_ref = 0, mt_name = ascii ''a'', mt_epoch = 1, mt_source = sv_source sample_server,
     mt_cursor = 5, mt_rejected = 0\<rparr>"

definition sample_mux :: "(seg_writer, seg_reader) mux" where
  "sample_mux = \<lparr>mx_topic = \<lparr>sw_path = [9], sw_generation = 0, sw_next = 1, sw_name = []\<rparr>, mx_geometry = sample_geometry,
     mx_slots = [sample_slot], mx_next_ref = 1, mx_max_batch_per_member = 1, mx_recovered = Map.empty,
     mx_gaps_emitted = 0, mx_slot_table_version = 1, mx_since_slot_table = 0, mx_bytes_in_segment = 0,
     mx_finished = False\<rparr>"

definition sample_topic :: "entry list \<Rightarrow> files" where
  "sample_topic es = [[9] \<mapsto> \<lparr>sl_base = 0, sl_generation = 0, sl_name = ascii ''t'', sl_entries = es, sl_rolled = False\<rparr>]"

definition sample_state :: "files \<times> (seg_writer, seg_reader) mux" where
  "sample_state = (sample_topic [(False, table_record sample_mux)], sample_mux)"

lemma sample_slots_wf: "slots_wf sample_mux"
  by (simp add: slots_wf_def sample_mux_def sample_slot_def name_ok_def utf8_char_def utf8_tail_def)

lemma seg_commit_record:
  assumes "sw_path (mx_topic m) = [9]" and "length p < 2 ^ 32"
  shows "commit_record seg_writer_api ty p (sample_topic es, m) =
    (Inr (), sample_topic (es @ [(False, control_record ty p)]),
     m\<lparr>mx_topic := (mx_topic m)\<lparr>sw_next := sw_next (mx_topic m) + 1\<rparr>,
       mx_bytes_in_segment := mx_bytes_in_segment m + (RECORD_OVERHEAD + of_nat (next_multiple_of (length p) 8))\<rparr>)"
proof -
  have "unat (of_nat (length p) :: u32) = length p" using assms(2) by (simp add: unat_of_nat_small)
  with assms(1) show ?thesis
    by (simp add: commit_record_def seg_writer_api_def sample_topic_def control_record_def)
qed

lemma sample_mux_inv: "mux_inv seg_view sample_state (replicate (length (mx_slots (snd sample_state))) [])"
proof -
  have "mux_log seg_view sample_state = [] @ [table_record sample_mux]"
    by (simp add: mux_log_def seg_view_def sample_topic_def sample_state_def sample_mux_def)
  moreover have "scan_ok ([] @ [table_record sample_mux]) (mx_slots sample_mux) (replicate (length (mx_slots sample_mux)) [])"
    by (rule scan_ok_table [OF sample_slots_wf]) simp
  ultimately show ?thesis
    using sample_slots_wf
    by (simp add: mux_inv_def sample_state_def sample_mux_def sample_slot_def sample_server_def)
qed

lemma sample_rest: "source_rest seg_todo sample_files (mt_source sample_slot) =
    [frame_of 5 (sample_record 7) False, frame_of 6 (sample_record 8) True]"
  by (simp add: source_rest_def sample_slot_def sample_server_def seg_todo_def sample_files_def)

lemma sample_slots_fit: "slots_fit seg_todo sample_files (snd sample_state)"
  by (simp add: slots_fit_def sample_state_def sample_mux_def sample_rest)
     (simp add: sample_slot_def frame_of_def sample_record_def)

definition sample_polled :: "files \<times> (seg_writer, seg_reader) mux" where
  "sample_polled =
     (sample_topic [(False, table_record sample_mux), (False, topic_record 0 (frame_of 5 (sample_record 7) False))],
      sample_mux\<lparr>mx_topic := \<lparr>sw_path = [9], sw_generation = 0, sw_next = 2, sw_name = []\<rparr>,
        mx_slots := [sample_slot\<lparr>mt_source := \<lparr>rs_reader = \<lparr>sr_path = [1], sr_base = 5, sr_generation = 0,
          sr_name = ascii ''a'', sr_pos = 1, sr_sequence = 0\<rparr>, rs_next_index = 6\<rparr>, mt_cursor := 6\<rparr>],
        mx_since_slot_table := 1, mx_bytes_in_segment := 40\<rparr>)"

lemma sample_acceptable: "acceptable sample_geometry (frame_of 5 (sample_record 7) False)"
  by (simp add: acceptable_def sample_geometry_def frame_of_def sample_record_def msg_type_defs word_le_nat_alt)

lemma sample_poll:
  "mux_poll seg_reader_api seg_writer_api [sample_files] sample_state = Some (Inr 1, sample_polled, [])"
proof -
  let ?f = "frame_of 5 (sample_record 7) False"
  define src where "src = \<lparr>rs_reader = \<lparr>sr_path = [1], sr_base = 5, sr_generation = 0,
         sr_name = ascii ''a'', sr_pos = 1, sr_sequence = 0\<rparr>, rs_next_index = 6\<rparr>"
  have tr: "try_next_frame seg_reader_api sample_files (sv_source sample_server) = (Inr (Some ?f), src)"
    using sample_try by (simp add: src_def)
  have pay: "slot_frame_data sample_slot ?f = xm_payload (topic_record 0 ?f)"
    by (simp add: slot_frame_data_def topic_record_def sample_slot_def)
  have len: "length (xm_payload (topic_record 0 ?f)) = 19"
    by (simp add: topic_record_def PROVENANCE_LEN_def frame_of_def sample_record_def)
  have ty: "control_record (rf_msg_type ?f) (xm_payload (topic_record 0 ?f)) = topic_record 0 ?f"
    by (simp add: control_record_def topic_record_def)
  let ?m1 = "upd_slot 0 (\<lambda>s. s\<lparr>mt_source := src\<rparr>) sample_mux"
  have w: "sw_path (mx_topic ?m1) = [9]" by (simp add: sample_mux_def)
  have idx: "rf_index ?f = 5" by (simp add: frame_of_def)
  have roll: "tgeo_file_roll_size (mx_geometry ?m1) = 0" by (simp add: sample_mux_def sample_geometry_def)
  have "merge_commit seg_writer_api 0 ?f (xm_payload (topic_record 0 ?f))
      (sample_topic [(False, table_record sample_mux)], ?m1) = (Inr True, sample_polled)"
    using len
    by (simp add: merge_commit_def then_do_def modify_def roll_if_full_def seg_commit_record [OF w] ty idx roll)
       (simp add: sample_mux_def sample_geometry_def sample_polled_def upd_slot_def SLOT_TABLE_REFRESH_def
        RECORD_OVERHEAD_def next_multiple_of_def word_le_nat_alt src_def)
  moreover have "\<not> is_control (rf_msg_type ?f)" "unat (tgeo_mtu (mx_geometry sample_mux)) = 0"
    using sample_acceptable by (simp_all add: acceptable_def sample_mux_def sample_geometry_def)
  moreover have "mx_slots sample_mux ! 0 = sample_slot" "mx_slots ?m1 ! 0 = sample_slot\<lparr>mt_source := src\<rparr>"
    "length (mx_slots sample_mux) = 1" "mx_max_batch_per_member sample_mux = Suc 0" "\<not> mx_finished sample_mux"
    by (simp_all add: sample_mux_def upd_slot_def)
  moreover have "mt_source sample_slot = sv_source sample_server" by (simp add: sample_slot_def)
  ultimately show ?thesis
    using tr pay
    by (simp add: mux_poll_def sample_state_def Let_def)
qed


theorem mux_poll_merges_exactly_witness:
  "\<exists>fss. source_rest seg_todo sample_files (mt_source sample_slot) =
       fss ! 0 @ source_rest seg_todo sample_files (mt_source (mx_slots (snd sample_polled) ! 0)) \<and>
     data_records (mux_log seg_view sample_polled) = data_records (mux_log seg_view sample_state) @
       map (topic_record 0) (filter (acceptable sample_geometry) (fss ! 0)) \<and>
     length (filter (acceptable sample_geometry) (fss ! 0)) = 1"
proof -
  have s: "mx_slots (snd sample_state) = [sample_slot]" "mt_member_ref sample_slot = 0"
    "mx_geometry (snd sample_state) = sample_geometry" "\<not> mx_finished (snd sample_state)"
    by (simp_all add: sample_state_def sample_mux_def sample_slot_def)
  from mux_poll_merges_exactly [OF seg_reader_laws seg_writer_laws _ sample_mux_inv sample_slots_fit s(4) sample_poll]
  show ?thesis unfolding Let_def s(1,3) by (auto simp: s(2))
qed

lemma sample_polls: "mux_polls seg_reader_api seg_writer_api [[sample_files]] sample_state = Some (Inr (), sample_polled)"
  by (simp add: sample_poll)

lemma sample_reopen:
  shows "\<exists>m2 :: (seg_writer, seg_reader) mux. mux_open seg_reader_api seg_writer_api (fst sample_polled) (replicate 3 (fst sample_polled)) [9]
     (ascii ''t'') sample_geometry 1 = Some (Inr m2, fst sample_polled)"
  and "rd_open seg_reader_api (fst sample_polled) [9] = Inr \<lparr>sr_path = [9], sr_base = 0, sr_generation = 0,
     sr_name = ascii ''t'', sr_pos = 0, sr_sequence = 0\<rparr>"
  and "map snd (seg_todo (fst sample_polled) \<lparr>sr_path = [9], sr_base = 0, sr_generation = 0,
     sr_name = ascii ''t'', sr_pos = 0, sr_sequence = 0\<rparr>) =
     table_record sample_mux # [topic_record 0 (frame_of 5 (sample_record 7) False)]"
proof -
  let ?t = "fst sample_polled"
  define q where "q = \<lparr>sr_path = [9], sr_base = 0, sr_generation = 0, sr_name = ascii ''t'', sr_pos = 0, sr_sequence = 0\<rparr>"
  have open_q: "rd_open seg_reader_api ?t [9] = Inr q"
    by (simp add: sample_polled_def sample_topic_def seg_reader_api_def q_def)
  have todo_q: "map snd (seg_todo ?t q) = table_record sample_mux # [topic_record 0 (frame_of 5 (sample_record 7) False)]"
    by (simp add: sample_polled_def sample_topic_def seg_todo_def q_def)
  show "rd_open seg_reader_api ?t [9] = Inr \<lparr>sr_path = [9], sr_base = 0, sr_generation = 0,
     sr_name = ascii ''t'', sr_pos = 0, sr_sequence = 0\<rparr>" using open_q by (simp only: q_def)
  show "map snd (seg_todo ?t \<lparr>sr_path = [9], sr_base = 0, sr_generation = 0,
     sr_name = ascii ''t'', sr_pos = 0, sr_sequence = 0\<rparr>) =
     table_record sample_mux # [topic_record 0 (frame_of 5 (sample_record 7) False)]"
    using todo_q by (simp only: q_def)
  have log: "mux_log seg_view sample_polled = map snd (seg_todo ?t q)"
    by (simp add: todo_q) (simp add: sample_polled_def sample_topic_def mux_log_def seg_view_def)
  from mux_polls_merges [OF seg_reader_laws seg_writer_laws _ sample_mux_inv sample_slots_fit sample_polls]
  obtain rej' where "mux_inv seg_view sample_polled rej'" by (auto simp: merges_def)
  then obtain st where st: "recover_log (map snd (seg_todo ?t q)) (Map.empty, Map.empty) = Inr st"
    using scan_ok_recovers log by (fastforce simp: mux_inv_def)
  have noerr: "\<forall>r e. fst (rd_try_read seg_reader_api ?t r) \<noteq> Inl e"
    by (simp add: seg_reader_api_def seg_read_def split: list.split)
  have len: "length (seg_todo ?t q) < 3" using arg_cong [OF todo_q, of length] by simp
  have "recover_cursors seg_reader_api ?t (replicate 3 ?t) [9] = Some (Inr (snd st))"
    using recover_scan_eq [OF seg_reader_laws noerr, of q 3 "(Map.empty, Map.empty)"] len st open_q
    by (simp add: recover_cursors_def)
  moreover have "wr_name_check seg_writer_api (ascii ''t'') = Inr ()"
    "\<exists>w. wr_build seg_writer_api ?t [9] (mux_config (ascii ''t'') sample_geometry) = (Inr w, ?t)"
    by (simp_all add: seg_writer_api_def sample_polled_def sample_topic_def)
  ultimately show "\<exists>m2 :: (seg_writer, seg_reader) mux. mux_open seg_reader_api seg_writer_api ?t (replicate 3 ?t) [9]
     (ascii ''t'') sample_geometry 1 = Some (Inr m2, ?t)"
    by (auto simp: mux_open_def simp del: ascii_simps)
qed

theorem mux_restart_resumes_witness:
  "\<exists>(m2 :: (seg_writer, seg_reader) mux) past rest. mux_open seg_reader_api seg_writer_api (fst sample_polled) (replicate 3 (fst sample_polled)) [9]
     (ascii ''t'') sample_geometry 1 = Some (Inr m2, fst sample_polled) \<and>
     source_rest seg_todo sample_files (mt_source sample_slot) =
       past @ rest @ source_rest seg_todo sample_files (mt_source (mx_slots (snd sample_polled) ! 0)) \<and>
     resume_point (mx_recovered m2 (ascii ''a'', 1)) = 5 + length past"
proof -
  obtain m2 :: "(seg_writer, seg_reader) mux" where m2: "mux_open seg_reader_api seg_writer_api (fst sample_polled) (replicate 3 (fst sample_polled)) [9]
     (ascii ''t'') sample_geometry 1 = Some (Inr m2, fst sample_polled)" using sample_reopen(1) by blast
  have log: "mux_log seg_view sample_polled = [] @ table_record sample_mux # [topic_record 0 (frame_of 5 (sample_record 7) False)]"
    by (simp add: sample_polled_def sample_topic_def mux_log_def seg_view_def)
  have ty: "xm_type (table_record sample_mux) = MSG_TYPE_SLOT_TABLE"
    by (simp add: table_record_def control_record_def)
  have noerr: "\<forall>r e. fst (rd_try_read seg_reader_api (fst sample_polled) r) \<noteq> Inl e"
    by (simp add: seg_reader_api_def seg_read_def split: list.split)
  have len: "length (seg_todo (fst sample_polled) \<lparr>sr_path = [9], sr_base = 0, sr_generation = 0,
     sr_name = ascii ''t'', sr_pos = 0, sr_sequence = 0\<rparr>) < 3"
    using arg_cong [OF sample_reopen(3), of length] by simp
  have gr: "\<forall>ss\<in>set [[sample_files]]. \<forall>s\<in>set ss. grows seg_todo s sample_files" by simp
  have i: "0 < length (mx_slots (snd sample_state))" by (simp add: sample_state_def sample_mux_def)
  have s: "mx_slots (snd sample_state) ! 0 = sample_slot" by (simp add: sample_state_def sample_mux_def)
  have k: "slot_key sample_slot = (ascii ''a'', 1)" "unat (mt_cursor sample_slot) = 5"
    by (simp_all add: slot_key_def sample_slot_def)
  from mux_restart_resumes [OF seg_reader_laws seg_writer_laws seg_reader_laws gr sample_mux_inv sample_slots_fit
      sample_polls log ty sample_reopen(2,3) noerr len m2 i]
  show ?thesis using m2 unfolding Let_def s k by blast
qed


lemma sample_add:
  "\<exists>t' m'. add_member seg_reader_api seg_writer_api sample_files sample_files [] (ascii ''b'') 2 [1] sample_state =
     Some (Inr (), t', m')"
proof -
  define src where "src = \<lparr>rs_reader = rs_reader (sv_source sample_server), rs_next_index = (5 :: u64)\<rparr>"
  define new where "new = \<lparr>mt_member_ref = 1, mt_name = ascii ''b'', mt_epoch = 2, mt_source = src, mt_cursor = 5, mt_rejected = 0\<rparr>"
  define m where "m = sample_mux\<lparr>mx_next_ref := 2, mx_slots := [sample_slot, new]\<rparr>"
  have has: "\<not> has_member sample_mux (ascii ''b'') 2" by (simp add: has_member_def sample_mux_def sample_slot_def)
  have s: "mx_next_ref sample_mux = 1" "mx_slots sample_mux = [sample_slot]" "\<not> mx_finished sample_mux"
    "mx_recovered sample_mux = Map.empty"
    by (simp_all add: sample_mux_def)
  have wf: "slots_wf m"
    using slots_wf_add [OF sample_slots_wf has, of src 5] s
    by (simp add: m_def new_def name_ok_def utf8_char_def utf8_tail_def)
  have w: "sw_path (mx_topic m) = [9]" by (simp add: m_def sample_mux_def)
  obtain t1 m1 where e: "emit_slot_table seg_writer_api (sample_topic [(False, table_record sample_mux)], m) =
      (Inr (), sample_topic t1, m1)" "sw_path (mx_topic m1) = [9]"
    using seg_commit_record [OF w length_slot_table [OF wf]] w by (simp add: emit_slot_table_def then_do_def)
  have k: "\<exists>t' m'. emit_mark seg_writer_api 1 (MarkGap 0 5) (sample_topic t1, m1) = (Inr (), t', m')"
    by (simp add: emit_mark_def emit_topic_gap_def then_do_def seg_commit_record [OF e(2)] gap_payload_def)
  have o: "source_open seg_reader_api sample_files [1] = Inr (src, 5)" "source_head seg_reader_api sample_files src = Inr 7"
    by (simp_all add: source_open_def source_head_def sample_open src_def Let_def)
  have r: "resume_at None 5 7 = (5, MarkGap 0 5)" by (simp add: resume_at_def)
  have sk: "\<not> rs_next_index src < 5" by (simp add: src_def)
  have "then_do (emit_slot_table seg_writer_api) (emit_mark seg_writer_api 1 (MarkGap 0 5))
      (sample_topic [(False, table_record sample_mux)], m) = emit_mark seg_writer_api 1 (MarkGap 0 5) (sample_topic t1, m1)"
    by (simp add: then_do_def e)
  moreover have "m = sample_mux\<lparr>mx_next_ref := 1 + 1, mx_slots := mx_slots (sample_mux\<lparr>mx_next_ref := 1 + 1\<rparr>) @ [new]\<rparr>"
    by (simp add: m_def s)
  ultimately show ?thesis
    using has k
    by (simp add: add_member_def sample_state_def s o r sk new_def [symmetric] del: ascii_simps)
qed

theorem add_member_attaches_witness:
  "\<exists>t' m'. add_member seg_reader_api seg_writer_api sample_files sample_files [] (ascii ''b'') 2 [1] sample_state =
       Some (Inr (), t', m') \<and>
     mux_inv seg_view (t', m') [[], []] \<and>
     mux_log seg_view (t', m') = mux_log seg_view sample_state @ table_record m' # mark_record 1 (MarkGap 0 5)"
proof -
  obtain t' m' where a: "add_member seg_reader_api seg_writer_api sample_files sample_files [] (ascii ''b'') 2 [1] sample_state =
       Some (Inr (), t', m')" using sample_add by blast
  have has: "\<not> has_member sample_mux (ascii ''b'') 2" by (simp add: has_member_def sample_mux_def sample_slot_def)
  have n: "name_ok (ascii ''b'')" by (simp add: name_ok_def utf8_char_def utf8_tail_def)
  have s: "mx_next_ref sample_mux = 1" "length (mx_slots sample_mux) = 1" "mx_recovered sample_mux = Map.empty"
    by (simp_all add: sample_mux_def)
  from add_member_attaches [OF seg_reader_laws seg_writer_laws sample_mux_inv [unfolded sample_state_def] has n
      sample_open(1) grows_refl sample_open(2) a [unfolded sample_state_def]]
  show ?thesis
    using a unfolding sample_open s Let_def sample_state_def [symmetric]
    by auto
qed

definition sample_idle :: "files \<times> (seg_writer, seg_reader) mux" where
  "sample_idle = (sample_topic [], sample_mux\<lparr>mx_slots := []\<rparr>)"

theorem mux_finish_terminal_witness:
  "\<exists>st'. mux_finish seg_reader_api seg_writer_api [] sample_idle = Some (Inr (), st', []) \<and>
     mux_poll seg_reader_api seg_writer_api [sample_files] st' = Some (Inr 0, st', [sample_files])"
proof -
  have w: "sw_path (mx_topic (sample_mux\<lparr>mx_slots := []\<rparr>)) = [9]" by (simp add: sample_mux_def)
  have nf: "\<not> mx_finished (sample_mux\<lparr>mx_slots := []\<rparr>)" by (simp add: sample_mux_def)
  obtain st' where "then_do (commit_record seg_writer_api MSG_TYPE_TERMINAL []) (modify (\<lambda>m. m\<lparr>mx_finished := True\<rparr>))
      (sample_topic [], sample_mux\<lparr>mx_slots := []\<rparr>) = (Inr (), st')"
    using seg_commit_record [OF w, of "[]"] by (simp add: then_do_def modify_def)
  then have f: "mux_finish seg_reader_api seg_writer_api [] sample_idle = Some (Inr (), st', [])"
    using nf by (simp add: mux_finish_def sample_idle_def)
  have inv: "mux_inv seg_view sample_idle []"
    by (simp add: mux_inv_def scan_ok_def slots_wf_def sample_idle_def mux_log_def seg_view_def sample_topic_def sample_mux_def)
  have fit: "slots_fit seg_todo sample_files (snd sample_idle)" "\<not> mx_finished (snd sample_idle)"
    by (simp_all add: slots_fit_def sample_idle_def sample_mux_def)
  from mux_finish_terminal [OF seg_reader_laws seg_writer_laws _ inv fit f] f show ?thesis by auto
qed

theorem merge_error_skips_record_witness:
  "let full = seg_writer_api\<lparr>wr_try_reserve := \<lambda>t w n. (Inl (IoError OtherError ''disk full''), t, w)\<rparr> in
   \<exists>m'. merge_one seg_reader_api full [sample_files] 0 sample_state =
       Some (Inl (IoError OtherError ''disk full''), (fst sample_state, m'), []) \<and>
     mt_cursor (mx_slots m' ! 0) = 5 \<and>
     source_rest seg_todo sample_files (mt_source (mx_slots m' ! 0)) = [frame_of 6 (sample_record 8) True]"
proof -
  let ?full = "seg_writer_api\<lparr>wr_try_reserve := \<lambda>t w n. (Inl (IoError OtherError ''disk full''), t, w)\<rparr>"
  have s: "mx_slots sample_mux ! 0 = sample_slot" "mt_source sample_slot = sv_source sample_server"
    "0 < length (mx_slots sample_mux)" "mx_geometry sample_mux = sample_geometry" "mt_cursor sample_slot = 5"
    "tgeo_file_roll_size sample_geometry = 0"
    by (simp_all add: sample_mux_def sample_slot_def sample_geometry_def)
  have r: "wr_try_reserve ?full (fst sample_state) (mx_topic sample_mux) (length (slot_frame_data sample_slot (frame_of 5 (sample_record 7) False))) =
      (Inl (IoError OtherError ''disk full''), fst sample_state, mx_topic sample_mux)" by simp
  from merge_error_skips_record [OF seg_reader_laws grows_refl s(3), unfolded s, OF sample_try sample_acceptable refl r,
      of "[]"] sample_rest
  show ?thesis by (auto simp: Let_def sample_state_def s(2))
qed

end
