(* ===== verification/Broadcast.thy ===== *)
theory Broadcast
  imports Membership Codec_Props Transport
begin

text \<open>
  Eager-broadcast dissemination, \<open>xchannel-net/src/broadcast.rs\<close>: the peer links a node holds, the
  bounded writes on them, the reader of each link, and the resolution of duplicate links.

  \<^item> A \<open>TcpTransport\<close> is a \<open>tcp_conn\<close>: the bytes the socket has taken, whether it was shut down, and
    what the socket and the clock will answer to each send still to come (\<open>tcp_script\<close>). An operation
    is \<open>None\<close> when a send it makes has not returned by the end of its script.
  \<^item> The state the reader threads share with the struct (\<open>Inbox\<close>, \<open>Hints\<close>, \<open>LinkPeers\<close>, \<dots>) is part of
    the one record \<open>bcast\<close>. A reader thread is an entry of \<open>bd_readers\<close>, with the dial address it
    captured; handling one frame is one step, which may come between any two operations.
  \<^item> A \<open>HashSet\<close> that is only asked for membership is a set; one that is iterated is a list without
    repetition, in the order of insertion (the code's order is unspecified).
\<close>

type_synonym peer_id = u64

definition NO_PEER :: peer_id where
  "NO_PEER = 0"

type_synonym link_key = "socket_addr \<times> socket_addr"

definition link_key :: "socket_addr \<Rightarrow> socket_addr \<Rightarrow> link_key" where
  "link_key local peer = (if local \<le> peer then (local, peer) else (peer, local))"

subsection \<open>Constants\<close>

text \<open>Durations are in nanoseconds.\<close>

definition PEER_WRITE_SLICE :: duration where
  "PEER_WRITE_SLICE = 20 * 10 ^ 6"

definition MIN_DRAIN_RATE :: nat where
  "MIN_DRAIN_RATE = 4 * 2 ^ 20"

definition PEER_BURST_MIN :: duration where
  "PEER_BURST_MIN = 500 * 10 ^ 6"

definition PEER_SMALL_FRAME_BUDGET :: duration where
  "PEER_SMALL_FRAME_BUDGET = 300 * 10 ^ 6"

definition MAX_IDENTITIES_PER_FRAME :: nat where
  "MAX_IDENTITIES_PER_FRAME = 256"

definition TICK_WRITE_BUDGET :: duration where
  "TICK_WRITE_BUDGET = 2500 * 10 ^ 6"

definition HINT_ENCODED_BYTES :: nat where
  "HINT_ENCODED_BYTES = 160"

definition MAX_SAME_ID_ADDRS :: nat where
  "MAX_SAME_ID_ADDRS = 8"

text \<open>\<open>saturating_mul\<close> on \<open>u64\<close>, then microseconds to nanoseconds.\<close>

definition burst_allowance :: "nat \<Rightarrow> duration" where
  "burst_allowance bytes =
     (let allowed = (min (bytes * 1000000) (2 ^ 64 - 1) div MIN_DRAIN_RATE) * 1000
      in max PEER_BURST_MIN (min allowed (3600 * 10 ^ 9)))"

subsection \<open>State\<close>

text \<open>One send: the clock when it starts, the clock on entry to each of its two writes, the turns of
  the socket, and the clock when it has returned.\<close>

type_synonym send_script = "instant \<times> instant \<times> instant \<times> write_turn list \<times> instant"

record tcp_conn =
  tcp_out :: bytes
  tcp_shut :: bool
  tcp_script :: "send_script list"

record peer =
  p_id :: peer_id
  p_conn :: tcp_conn
  p_key :: link_key
  p_outbound :: bool
  p_burst_left :: duration

definition initiator :: "peer \<Rightarrow> node_id \<Rightarrow> node_id \<Rightarrow> node_id" where
  "initiator p peer_node self_node = (if p_outbound p then self_node else peer_node)"

record bcast =
  bd_self_node :: node_id
  bd_self_addr :: socket_addr
  bd_liveness_timeout :: duration
  bd_self_control_addr :: socket_addr
  bd_self_name :: rstring
  bd_peers :: "peer list"
  bd_next_peer_id :: peer_id
  bd_hints :: "(peer_id \<times> node_id \<times> socket_addr \<times> socket_addr \<times> rstring) list"
  bd_link_peers :: "peer_id \<rightharpoonup> node_id \<times> socket_addr"
  bd_tick_write_left :: duration
  bd_conflicts :: "node_id list"
  bd_same_id_addrs :: "socket_addr list"
  bd_inbox :: "(peer_id \<times> channel_identity) list"
  bd_membership :: membership
  bd_connected :: "socket_addr set"
  bd_dial_identity :: "socket_addr \<rightharpoonup> node_id"
  bd_readers :: "(peer_id \<times> socket_addr option) list"

definition bcast_new :: "node_id \<Rightarrow> socket_addr \<Rightarrow> duration \<Rightarrow> bcast" where
  "bcast_new self_node self_addr liveness_timeout =
     \<lparr>bd_self_node = self_node, bd_self_addr = self_addr, bd_liveness_timeout = liveness_timeout,
      bd_self_control_addr = self_addr, bd_self_name = [], bd_peers = [], bd_next_peer_id = NO_PEER + 1,
      bd_hints = [], bd_link_peers = Map.empty, bd_tick_write_left = TICK_WRITE_BUDGET,
      bd_conflicts = [], bd_same_id_addrs = [], bd_inbox = [], bd_membership = membership_new,
      bd_connected = {}, bd_dial_identity = Map.empty, bd_readers = []\<rparr>"

subsection \<open>Sending\<close>

text \<open>\<open>send_frame_by\<close> on a connection, with the deadline a function of the instant the send starts.
  Returns the outcome and the time spent. A socket that was shut down refuses at once.\<close>

definition conn_send ::
  "bytes \<Rightarrow> (instant \<Rightarrow> instant) \<Rightarrow> tcp_conn \<Rightarrow> (unit io_result \<times> duration \<times> tcp_conn) option" where
  "conn_send frame deadline c =
     (if tcp_shut c then Some (Inl (IoError BrokenPipe ''''), 0, c)
      else
        (case tcp_script c of
           [] \<Rightarrow> None
         | (started, t0, t1, turns, finished) # later \<Rightarrow>
             (case send_frame_by frame (deadline started) t0 t1 turns of
                (sent, None) \<Rightarrow> None
              | (sent, Some (r, _)) \<Rightarrow>
                  Some (r, finished - started, c\<lparr>tcp_out := tcp_out c @ sent, tcp_script := later\<rparr>))))"

definition conn_shutdown :: "tcp_conn \<Rightarrow> tcp_conn" where
  "conn_shutdown c = c\<lparr>tcp_shut := True\<rparr>"

text \<open>The loop of \<open>retain_mut\<close>, with what the tick has left threaded through it.\<close>

fun send_peers :: "peer_id \<Rightarrow> bytes \<Rightarrow> duration \<Rightarrow> peer list \<Rightarrow> (duration \<times> peer list) option" where
  "send_peers from frame tick_left [] = Some (tick_left, [])"
| "send_peers from frame tick_left (p # ps) =
     (if p_id p = from then
        (case send_peers from frame tick_left ps of
           None \<Rightarrow> None
         | Some (left, ps') \<Rightarrow> Some (left, p # ps'))
      else
        (case conn_send frame (\<lambda>started. started + min (p_burst_left p) tick_left) (p_conn p) of
           None \<Rightarrow> None
         | Some (sent, spent, c) \<Rightarrow>
             (case send_peers from frame (tick_left - spent) ps of
                None \<Rightarrow> None
              | Some (left, ps') \<Rightarrow>
                  Some (left,
                    case sent of
                      Inr _ \<Rightarrow> p\<lparr>p_conn := c, p_burst_left := p_burst_left p - spent\<rparr> # ps'
                    | Inl _ \<Rightarrow> ps'))))"

definition send_except :: "peer_id \<Rightarrow> bytes \<Rightarrow> bcast \<Rightarrow> bcast option" where
  "send_except from frame d =
     (case send_peers from frame (bd_tick_write_left d) (bd_peers d) of
        None \<Rightarrow> None
      | Some (left, ps) \<Rightarrow> Some (d\<lparr>bd_tick_write_left := left, bd_peers := ps\<rparr>))"

definition broadcast :: "bytes \<Rightarrow> bcast \<Rightarrow> bcast option" where
  "broadcast frame = send_except NO_PEER frame"

definition begin_tick :: "bcast \<Rightarrow> bcast" where
  "begin_tick d = d\<lparr>bd_tick_write_left := TICK_WRITE_BUDGET\<rparr>"

definition begin_burst :: "duration \<Rightarrow> bcast \<Rightarrow> bcast" where
  "begin_burst allowance d =
     d\<lparr>bd_peers := map (\<lambda>p. p\<lparr>p_burst_left := min allowance (bd_tick_write_left d)\<rparr>) (bd_peers d)\<rparr>"

text \<open>A loop that sends one frame after another.\<close>

fun send_each :: "peer_id \<Rightarrow> bytes list \<Rightarrow> bcast \<Rightarrow> bcast option" where
  "send_each from [] d = Some d"
| "send_each from (f # fs) d = Option.bind (send_except from f d) (send_each from fs)"

text \<open>\<open>slice::chunks\<close>.\<close>

function chunks :: "nat \<Rightarrow> 'a list \<Rightarrow> 'a list list" where
  "chunks n xs = (if n = 0 \<or> xs = [] then [] else take n xs # chunks n (drop n xs))"
  by pat_completeness auto
termination
  by (relation "measure (\<lambda>(n, xs). length xs)") (auto simp: Suc_le_eq)

declare chunks.simps [simp del]

definition delta_frames :: "channel_identity list \<Rightarrow> bytes list" where
  "delta_frames delta = map (\<lambda>batch. encode_control (RegistryDelta batch)) (chunks MAX_IDENTITIES_PER_FRAME delta)"

definition announce :: "channel_identity list \<Rightarrow> bcast \<Rightarrow> bcast option" where
  "announce delta d =
     send_each NO_PEER (delta_frames delta) (begin_burst (burst_allowance (identities_encoded_len delta)) d)"

definition relay :: "peer_id \<Rightarrow> channel_identity list \<Rightarrow> bcast \<Rightarrow> bcast option" where
  "relay from delta d =
     send_each from (delta_frames delta) (begin_burst (burst_allowance (identities_encoded_len delta)) d)"

text \<open>The loop of \<open>reply\<close>: the first peer with the id, which a failed send removes.\<close>

fun reply_each :: "peer_id \<Rightarrow> bytes list \<Rightarrow> bcast \<Rightarrow> bcast option" where
  "reply_each dest [] d = Some d"
| "reply_each dest (f # fs) d =
     (case find (\<lambda>p. p_id p = dest) (bd_peers d) of
        None \<Rightarrow> Some d
      | Some p \<Rightarrow>
          (case conn_send f (\<lambda>started. started + min (p_burst_left p) (bd_tick_write_left d)) (p_conn p) of
             None \<Rightarrow> None
           | Some (sent, spent, c) \<Rightarrow>
               let p' = p\<lparr>p_conn := c, p_burst_left := p_burst_left p - spent\<rparr>;
                   d' = d\<lparr>bd_tick_write_left := bd_tick_write_left d - spent\<rparr>
               in case sent of
                    Inl _ \<Rightarrow> Some (d'\<lparr>bd_peers := filter (\<lambda>q. p_id q \<noteq> dest) (bd_peers d)\<rparr>)
                  | Inr _ \<Rightarrow>
                      let (before, rest) = (takeWhile (\<lambda>q. p_id q \<noteq> dest) (bd_peers d),
                                            dropWhile (\<lambda>q. p_id q \<noteq> dest) (bd_peers d))
                      in reply_each dest fs (d'\<lparr>bd_peers := before @ p' # tl rest\<rparr>)))"

definition reply :: "peer_id \<Rightarrow> channel_identity list \<Rightarrow> bcast \<Rightarrow> bcast option" where
  "reply dest delta d =
     reply_each dest (delta_frames delta) (begin_burst (burst_allowance (identities_encoded_len delta)) d)"

definition pump :: "bcast \<Rightarrow> (peer_id \<times> channel_identity) list \<times> bcast" where
  "pump d = (bd_inbox d, d\<lparr>bd_inbox := []\<rparr>)"


subsection \<open>Heartbeats, hints and departure\<close>

definition heartbeat :: "bcast \<Rightarrow> control_msg" where
  "heartbeat d = Heartbeat (bd_self_node d) (bd_self_addr d) (bd_self_control_addr d) (bd_self_name d)"

definition emit_heartbeat :: "bcast \<Rightarrow> bcast option" where
  "emit_heartbeat d = broadcast (encode_control (heartbeat d)) (begin_burst PEER_SMALL_FRAME_BUDGET d)"

definition announce_leaving :: "bcast \<Rightarrow> bcast option" where
  "announce_leaving d =
     broadcast (encode_control (Leaving (bd_self_node d))) (begin_burst PEER_SMALL_FRAME_BUDGET d)"

fun relay_each ::
  "(peer_id \<times> node_id \<times> socket_addr \<times> socket_addr \<times> rstring) list \<Rightarrow> bcast \<Rightarrow> bcast option" where
  "relay_each [] d = Some d"
| "relay_each ((from, node, addr, control_addr, name) # hs) d =
     (if node = bd_self_node d then relay_each hs d
      else Option.bind (send_except from (encode_control (PeerHint node addr control_addr name)) d)
             (relay_each hs))"

definition relay_hints :: "bcast \<Rightarrow> bcast option" where
  "relay_hints d =
     (let pending = bd_hints d
      in relay_each pending
           (begin_burst (burst_allowance (length pending * HINT_ENCODED_BYTES)) (d\<lparr>bd_hints := []\<rparr>)))"

subsection \<open>Adopting a link\<close>

text \<open>Frames to one connection under one deadline; the first failure ends it.\<close>

fun conn_send_all :: "bytes list \<Rightarrow> instant \<Rightarrow> tcp_conn \<Rightarrow> (unit io_result \<times> tcp_conn) option" where
  "conn_send_all [] deadline c = Some (Inr (), c)"
| "conn_send_all (f # fs) deadline c =
     (case conn_send f (\<lambda>_. deadline) c of
        None \<Rightarrow> None
      | Some (Inl e, _, c') \<Rightarrow> Some (Inl e, c')
      | Some (Inr _, _, c') \<Rightarrow> conn_send_all fs deadline c')"

definition join_frames :: "bcast \<Rightarrow> channel_identity list \<Rightarrow> bytes list" where
  "join_frames d initial_sync =
     map (\<lambda>batch. encode_control (RegistrySync batch)) (chunks MAX_IDENTITIES_PER_FRAME initial_sync)
     @ [encode_control (heartbeat d)]
     @ map (\<lambda>(node, addr, control_addr, name). encode_control (PeerHint node addr control_addr name))
         (filter (\<lambda>(node, _). node \<noteq> bd_self_node d) (directory (bd_membership d)))"

definition write_join ::
  "instant \<Rightarrow> bcast \<Rightarrow> tcp_conn \<Rightarrow> channel_identity list \<Rightarrow> (unit io_result \<times> tcp_conn) option" where
  "write_join now d transport initial_sync =
     conn_send_all (join_frames d initial_sync)
       (now + burst_allowance (identities_encoded_len initial_sync
                               + ms_len (bd_membership d) * HINT_ENCODED_BYTES))
       transport"

text \<open>What the socket answers while it is set up: the write timeout, the endpoints, the clone.\<close>

record socket_setup =
  su_write_timeout :: "unit io_result"
  su_endpoints :: "(socket_addr \<times> socket_addr) io_result"
  su_clone :: "unit io_result"

definition adopt ::
  "instant \<Rightarrow> socket_setup \<Rightarrow> tcp_conn \<Rightarrow> socket_addr option \<Rightarrow> channel_identity list \<Rightarrow> bcast \<Rightarrow>
     (unit io_result \<times> bcast) option" where
  "adopt now su transport addr initial_sync d =
     (case and_then (su_write_timeout su) (\<lambda>_. and_then (su_endpoints su) (\<lambda>(local, peer).
             and_then (su_clone su) (\<lambda>_. Inr (link_key local peer)))) of
        Inl e \<Rightarrow> Some (Inl e, d)
      | Inr key \<Rightarrow>
          let pid = bd_next_peer_id d;
              d1 = d\<lparr>bd_next_peer_id := pid + 1, bd_readers := bd_readers d @ [(pid, addr)]\<rparr>
          in case write_join now d1 transport initial_sync of
               None \<Rightarrow> None
             | Some (Inl e, _) \<Rightarrow> Some (Inl e, d1)
             | Some (Inr _, c) \<Rightarrow>
                 Some (Inr (), d1\<lparr>bd_peers := bd_peers d1 @
                   [\<lparr>p_id = pid, p_conn = c, p_key = key, p_outbound = (addr \<noteq> None),
                     p_burst_left = PEER_BURST_MIN\<rparr>]\<rparr>))"

definition add_peer ::
  "instant \<Rightarrow> socket_setup \<Rightarrow> tcp_conn \<Rightarrow> channel_identity list \<Rightarrow> bcast \<Rightarrow> (unit io_result \<times> bcast) option" where
  "add_peer now su transport initial_sync d = adopt now su transport None initial_sync d"

definition add_outbound_peer ::
  "instant \<Rightarrow> socket_setup \<Rightarrow> tcp_conn \<Rightarrow> socket_addr \<Rightarrow> channel_identity list \<Rightarrow> bcast \<Rightarrow>
     (unit io_result \<times> bcast) option" where
  "add_outbound_peer now su transport addr initial_sync d =
     (case adopt now su transport (Some addr) initial_sync (d\<lparr>bd_connected := insert addr (bd_connected d)\<rparr>) of
        None \<Rightarrow> None
      | Some (Inl e, d') \<Rightarrow> Some (Inl e, d'\<lparr>bd_connected := bd_connected d' - {addr}\<rparr>)
      | Some (Inr u, d') \<Rightarrow> Some (Inr u, d'))"

subsection \<open>Duplicate links\<close>

definition add_addr ::
  "(peer_id \<rightharpoonup> node_id \<times> socket_addr) \<Rightarrow> peer \<Rightarrow> (node_id \<Rightarrow> socket_addr set) \<Rightarrow> node_id \<Rightarrow> socket_addr set" where
  "add_addr ids p addrs =
     (case ids (p_id p) of
        None \<Rightarrow> addrs
      | Some (node, control) \<Rightarrow> addrs(node := insert control (addrs node)))"

definition conflicted :: "bcast \<Rightarrow> node_id list" where
  "conflicted d =
     (let ids = bd_link_peers d;
          addrs = fold (add_addr ids) (bd_peers d) (\<lambda>_. {});
          nodes = List.map_filter (\<lambda>p. map_option fst (ids (p_id p))) (bd_peers d)
      in remdups (filter (\<lambda>n. card (addrs n) > 1) nodes @ bd_conflicts d))"

text \<open>The closure \<open>key\<close>: the node on a link and the link's initiator, when the identity is known and
  not conflicted.\<close>

definition dedup_key :: "bcast \<Rightarrow> peer \<Rightarrow> (node_id \<times> node_id) option" where
  "dedup_key d p =
     (case bd_link_peers d (p_id p) of
        None \<Rightarrow> None
      | Some (node, _) \<Rightarrow>
          if node \<in> set (conflicted d) then None else Some (node, initiator p node (bd_self_node d)))"

definition add_winner ::
  "bcast \<Rightarrow> peer \<Rightarrow> (node_id \<rightharpoonup> node_id \<times> link_key) \<Rightarrow> node_id \<rightharpoonup> node_id \<times> link_key" where
  "add_winner d p winner =
     (case dedup_key d p of
        None \<Rightarrow> winner
      | Some (node, init) \<Rightarrow>
          (case winner node of
             None \<Rightarrow> winner(node \<mapsto> (init, p_key p))
           | Some best \<Rightarrow> if (init, p_key p) < best then winner(node \<mapsto> (init, p_key p)) else winner))"

definition link_winners :: "bcast \<Rightarrow> node_id \<rightharpoonup> node_id \<times> link_key" where
  "link_winners d = fold (add_winner d) (bd_peers d) Map.empty"

definition keeps_link :: "bcast \<Rightarrow> peer \<Rightarrow> bool" where
  "keeps_link d p =
     (case dedup_key d p of
        None \<Rightarrow> True
      | Some (node, init) \<Rightarrow> link_winners d node = Some (init, p_key p))"

definition dedup_links :: "bcast \<Rightarrow> node_id list \<times> bcast" where
  "dedup_links d = (conflicted d, d\<lparr>bd_peers := filter (keeps_link d) (bd_peers d)\<rparr>)"

subsection \<open>Queries\<close>

definition peer_count :: "bcast \<Rightarrow> nat" where
  "peer_count d = length (bd_peers d)"

definition is_connected :: "bcast \<Rightarrow> socket_addr \<Rightarrow> bool" where
  "is_connected d addr \<longleftrightarrow> addr \<in> bd_connected d"

definition linked_nodes :: "bcast \<Rightarrow> node_id set" where
  "linked_nodes d = set (List.map_filter (\<lambda>p. map_option fst (bd_link_peers d (p_id p))) (bd_peers d))"

definition node_at :: "bcast \<Rightarrow> socket_addr \<Rightarrow> node_id option" where
  "node_at d addr =
     (case ms_node_at (bd_membership d) addr of Some n \<Rightarrow> Some n | None \<Rightarrow> bd_dial_identity d addr)"

definition same_id_candidates :: "bcast \<Rightarrow> socket_addr list" where
  "same_id_candidates d = filter (\<lambda>addr. addr \<notin> bd_connected d) (bd_same_id_addrs d)"

definition unconnected_peers :: "bcast \<Rightarrow> (node_id \<times> socket_addr) list" where
  "unconnected_peers d =
     filter (\<lambda>(node, control). node \<noteq> bd_self_node d \<and> control \<notin> bd_connected d) (known_peers (bd_membership d))"

definition set_self_name :: "rstring \<Rightarrow> bcast \<Rightarrow> bcast" where
  "set_self_name name d = d\<lparr>bd_self_name := name\<rparr>"

definition set_self_addr :: "socket_addr \<Rightarrow> bcast \<Rightarrow> bcast" where
  "set_self_addr addr d = d\<lparr>bd_self_addr := addr\<rparr>"

definition set_self_control_addr :: "socket_addr \<Rightarrow> bcast \<Rightarrow> bcast" where
  "set_self_control_addr addr d = d\<lparr>bd_self_control_addr := addr\<rparr>"

definition bd_live_addr_of :: "instant \<Rightarrow> bcast \<Rightarrow> node_id \<Rightarrow> socket_addr option" where
  "bd_live_addr_of now d node = live_addr_of now (bd_membership d) node (bd_liveness_timeout d)"

definition bd_live_members :: "instant \<Rightarrow> bcast \<Rightarrow> node_id list" where
  "bd_live_members now d = ms_live_members now (bd_membership d) (bd_liveness_timeout d)"

definition bd_silent_for :: "instant \<Rightarrow> bcast \<Rightarrow> node_id \<Rightarrow> duration option" where
  "bd_silent_for now d node = silent_for now (bd_membership d) node"

definition bd_name_of :: "bcast \<Rightarrow> node_id \<Rightarrow> rstring option" where
  "bd_name_of d node = name_of (bd_membership d) node"

subsection \<open>Readers\<close>

text \<open>One decoded message on link \<open>lid\<close>, whose reader captured \<open>dial_addr\<close>.\<close>

definition handle_heartbeat ::
  "instant \<Rightarrow> peer_id \<Rightarrow> socket_addr option \<Rightarrow> node_id \<Rightarrow> socket_addr \<Rightarrow> socket_addr \<Rightarrow> rstring \<Rightarrow> bcast \<Rightarrow> bcast" where
  "handle_heartbeat now lid dial_addr node addr control_addr name d =
     (if node = bd_self_node d then
        (if control_addr \<noteq> bd_self_control_addr d then d\<lparr>bd_conflicts := List.insert node (bd_conflicts d)\<rparr> else d)
      else
        (case ms_record now (bd_membership d) node addr control_addr name of
           (novel, ms) \<Rightarrow>
             d\<lparr>bd_link_peers := (bd_link_peers d)(lid \<mapsto> (node, control_addr)),
               bd_dial_identity := (case dial_addr of
                  None \<Rightarrow> bd_dial_identity d
                | Some dialled \<Rightarrow> (bd_dial_identity d)(dialled \<mapsto> node)),
               bd_membership := ms,
               bd_hints := (if novel then bd_hints d @ [(lid, node, addr, control_addr, name)] else bd_hints d)\<rparr>))"

definition handle_hint ::
  "peer_id \<Rightarrow> node_id \<Rightarrow> socket_addr \<Rightarrow> socket_addr \<Rightarrow> rstring \<Rightarrow> bcast \<Rightarrow> bcast" where
  "handle_hint lid node addr control_addr name d =
     (if node = bd_self_node d then
        (if control_addr \<noteq> bd_self_control_addr d \<and> length (bd_same_id_addrs d) < MAX_SAME_ID_ADDRS
         then d\<lparr>bd_same_id_addrs := List.insert control_addr (bd_same_id_addrs d)\<rparr>
         else d)
      else
        (case learn (bd_membership d) node addr control_addr name of
           (novel, ms) \<Rightarrow>
             d\<lparr>bd_membership := ms,
               bd_hints := (if novel then bd_hints d @ [(lid, node, addr, control_addr, name)] else bd_hints d)\<rparr>))"

fun handle_control :: "instant \<Rightarrow> peer_id \<Rightarrow> socket_addr option \<Rightarrow> control_msg \<Rightarrow> bcast \<Rightarrow> bcast" where
  "handle_control now lid dial_addr (RegistryDelta ids) d = d\<lparr>bd_inbox := bd_inbox d @ map (Pair lid) ids\<rparr>"
| "handle_control now lid dial_addr (RegistrySync ids) d = d\<lparr>bd_inbox := bd_inbox d @ map (Pair lid) ids\<rparr>"
| "handle_control now lid dial_addr (Heartbeat node addr control_addr name) d =
     handle_heartbeat now lid dial_addr node addr control_addr name d"
| "handle_control now lid dial_addr (PeerHint node addr control_addr name) d =
     handle_hint lid node addr control_addr name d"
| "handle_control now lid dial_addr (Leaving node) d =
     (if map_option fst (bd_link_peers d lid) = Some node
      then d\<lparr>bd_membership := snd (retire now (bd_membership d) node)\<rparr> else d)"
| "handle_control now lid dial_addr (Register i) d = d"
| "handle_control now lid dial_addr (Deregister name owner) d = d"
| "handle_control now lid dial_addr (RegisterRejected name owner) d = d"

text \<open>The end of a reader: the socket is shut, so the send half fails from then on, and what was known
  of the link is forgotten.\<close>

definition shut_link :: "peer_id \<Rightarrow> peer \<Rightarrow> peer" where
  "shut_link lid p = (if p_id p = lid then p\<lparr>p_conn := conn_shutdown (p_conn p)\<rparr> else p)"

definition reader_exit :: "peer_id \<Rightarrow> socket_addr option \<Rightarrow> bcast \<Rightarrow> bcast" where
  "reader_exit lid dial_addr d =
     d\<lparr>bd_peers := map (shut_link lid) (bd_peers d),
       bd_link_peers := (bd_link_peers d)(lid := None),
       bd_connected := (case dial_addr of None \<Rightarrow> bd_connected d | Some addr \<Rightarrow> bd_connected d - {addr}),
       bd_readers := filter (\<lambda>r. r \<noteq> (lid, dial_addr)) (bd_readers d)\<rparr>"

text \<open>The reader loop over the bytes of a connection, at the instants the frames are handled: it ends
  when a frame cannot be read or decoded. The bytes left and the state, before the exit.\<close>

fun reader_loop :: "peer_id \<Rightarrow> socket_addr option \<Rightarrow> instant list \<Rightarrow> bytes \<Rightarrow> bcast \<Rightarrow> bcast" where
  "reader_loop lid dial_addr [] bs d = d"
| "reader_loop lid dial_addr (now # nows) bs d =
     (case recv_framed bs of
        Inl _ \<Rightarrow> reader_exit lid dial_addr d
      | Inr (frame, rest) \<Rightarrow>
          (case decode_control frame of
             Inl _ \<Rightarrow> reader_exit lid dial_addr d
           | Inr msg \<Rightarrow> reader_loop lid dial_addr nows rest (handle_control now lid dial_addr msg d)))"

end
