(* ===== verification/Broadcast_Props.thy ===== *)
theory Broadcast_Props
  imports Broadcast
begin

text \<open>
  What dissemination guarantees: both ends of a pair of nodes keep the same link, a burst reaches every
  peer that stays, a peer that takes its bytes stays whatever the others do, and nothing said on a link
  makes a node live, or lose its own place, but the node itself.
\<close>

subsection \<open>Which link survives\<close>

definition link_view :: "bcast \<Rightarrow> node_id \<Rightarrow> (link_key \<times> bool) set" where
  "link_view d n = {(p_key p, p_outbound p) | p. p \<in> set (bd_peers d) \<and> (\<exists>c. bd_link_peers d (p_id p) = Some (n, c))}"

definition link_cands :: "bcast \<Rightarrow> peer set \<Rightarrow> node_id \<Rightarrow> (node_id \<times> link_key) set" where
  "link_cands d ps n = {(init, p_key p) | init p. p \<in> ps \<and> dedup_key d p = Some (n, init)}"

definition is_best :: "'a::linorder option \<Rightarrow> 'a set \<Rightarrow> bool" where
  "is_best w S = (case w of None \<Rightarrow> S = {} | Some b \<Rightarrow> b \<in> S \<and> (\<forall>c\<in>S. b \<le> c))"

lemma is_best_unique: "is_best w S \<Longrightarrow> is_best w' S \<Longrightarrow> w = w'"
  by (auto simp: is_best_def split: option.splits intro: antisym)

lemma is_best_insert:
  "is_best w S \<Longrightarrow>
     is_best (case w of None \<Rightarrow> Some x | Some b \<Rightarrow> if x < b then Some x else Some b) (insert x S)"
  by (auto simp: is_best_def not_less split: option.split intro: less_imp_le order.trans)

lemma link_cands_insert:
  "link_cands d (insert p ps) n =
     (case dedup_key d p of
        Some (m, init) \<Rightarrow> if m = n then insert (init, p_key p) (link_cands d ps n) else link_cands d ps n
      | None \<Rightarrow> link_cands d ps n)"
  by (auto simp: link_cands_def split: option.splits)

lemma add_winner_best:
  assumes "is_best (w n) (link_cands d ps n)"
  shows "is_best (add_winner d p w n) (link_cands d (insert p ps) n)"
proof (cases "dedup_key d p")
  case None
  with assms show ?thesis by (simp add: add_winner_def link_cands_insert)
next
  case (Some ni)
  obtain m init where ni: "ni = (m, init)" by fastforce
  show ?thesis
  proof (cases "m = n")
    case True
    have "add_winner d p w n = (case w n of None \<Rightarrow> Some (init, p_key p)
        | Some b \<Rightarrow> if (init, p_key p) < b then Some (init, p_key p) else Some b)"
      unfolding add_winner_def Some ni True by (cases "w n") (simp_all del: less_prod_simp)
    with is_best_insert [OF assms, of "(init, p_key p)"] Some ni True show ?thesis
      by (simp add: link_cands_insert)
  next
    case False
    with assms Some ni show ?thesis
      by (auto simp: add_winner_def link_cands_insert split: option.splits)
  qed
qed

lemma fold_winner_best:
  "is_best (w n) (link_cands d qs n) \<Longrightarrow> is_best (fold (add_winner d) ps w n) (link_cands d (set ps \<union> qs) n)"
proof (induction ps arbitrary: w qs)
  case (Cons p ps)
  from Cons.IH [of "add_winner d p w" "insert p qs"] add_winner_best [where w = w and n = n, OF Cons.prems]
  show ?case by simp
qed simp

lemma link_winners_best: "is_best (link_winners d n) (link_cands d (set (bd_peers d)) n)"
proof -
  have "is_best (Map.empty n :: (node_id \<times> link_key) option) (link_cands d {} n)"
    by (simp add: is_best_def link_cands_def)
  from fold_winner_best [where w = Map.empty, OF this, of "bd_peers d"] show ?thesis
    by (simp add: link_winners_def)
qed

lemma dedup_key_known:
  "n \<notin> set (conflicted d) \<Longrightarrow> dedup_key d p = Some (n, init) \<longleftrightarrow>
     (\<exists>c. bd_link_peers d (p_id p) = Some (n, c)) \<and> init = (if p_outbound p then bd_self_node d else n)"
  by (cases "bd_link_peers d (p_id p)") (auto simp: dedup_key_def initiator_def split: if_splits)

lemma link_cands_view:
  assumes "n \<notin> set (conflicted d)"
  shows "link_cands d (set (bd_peers d)) n =
    (\<lambda>(k, out). (if out then bd_self_node d else n, k)) ` link_view d n"
proof -
  have "link_view d n = (\<lambda>p. (p_key p, p_outbound p)) `
      {p \<in> set (bd_peers d). \<exists>c. bd_link_peers d (p_id p) = Some (n, c)}"
    unfolding link_view_def by blast
  moreover have "link_cands d (set (bd_peers d)) n = (\<lambda>p. (if p_outbound p then bd_self_node d else n, p_key p)) `
      {p \<in> set (bd_peers d). \<exists>c. bd_link_peers d (p_id p) = Some (n, c)}"
    unfolding link_cands_def dedup_key_known [OF assms] by blast
  ultimately show ?thesis by (simp add: image_image)
qed

lemma in_link_view:
  "(k, out) \<in> link_view d n \<longleftrightarrow>
     (\<exists>p\<in>set (bd_peers d). p_key p = k \<and> p_outbound p = out \<and> (\<exists>c. bd_link_peers d (p_id p) = Some (n, c)))"
  by (auto simp: link_view_def)

lemma keeps_link_known:
  "bd_link_peers d (p_id p) = Some (n, c) \<Longrightarrow> n \<notin> set (conflicted d) \<Longrightarrow>
     keeps_link d p \<longleftrightarrow> link_winners d n = Some (if p_outbound p then bd_self_node d else n, p_key p)"
  by (simp add: keeps_link_def dedup_key_def initiator_def)

lemma link_view_dedup:
  assumes "n \<notin> set (conflicted d)"
  shows "(k, out) \<in> link_view (snd (dedup_links d)) n \<longleftrightarrow>
    (k, out) \<in> link_view d n \<and> link_winners d n = Some (if out then bd_self_node d else n, k)"
  unfolding in_link_view using keeps_link_known [OF _ assms] by (fastforce simp: dedup_links_def)

lemma dedup_keeps_one:
  assumes "n \<notin> set (conflicted d)" and "n \<noteq> bd_self_node d" and "link_winners d n = Some (i, k)"
  shows "link_view (snd (dedup_links d)) n = {(k, i = bd_self_node d)}"
proof -
  have "(i, k) \<in> link_cands d (set (bd_peers d)) n"
    using link_winners_best [of d n] assms(3) by (simp add: is_best_def)
  then obtain out where "(k, out) \<in> link_view d n" "i = (if out then bd_self_node d else n)"
    by (auto simp: link_cands_view [OF assms(1)])
  with assms show ?thesis by (auto simp: set_eq_iff link_view_dedup split: if_splits)
qed

lemma mirrored_cands:
  assumes "link_view a nb = (\<lambda>(k, out). (k, \<not> out)) ` link_view b na"
  shows "(\<lambda>(k, out). (if out then na else nb, k)) ` link_view a nb =
         (\<lambda>(k, out). (if out then nb else na, k)) ` link_view b na"
  unfolding assms image_image by (rule image_cong) auto

lemma linked_nodes_view: "n \<in> linked_nodes d \<longleftrightarrow> (\<exists>x. x \<in> link_view d n)"
proof -
  have "n \<in> linked_nodes d \<longleftrightarrow> (\<exists>p\<in>set (bd_peers d). map_option fst (bd_link_peers d (p_id p)) = Some n)"
    unfolding linked_nodes_def map_filter_def by force
  moreover have "(\<exists>x. x \<in> link_view d n) \<longleftrightarrow> (\<exists>p\<in>set (bd_peers d). \<exists>c. bd_link_peers d (p_id p) = Some (n, c))"
    unfolding link_view_def by blast
  ultimately show ?thesis by auto
qed

lemma winner_exists:
  assumes "n \<notin> set (conflicted d)" and "x \<in> link_view d n"
  obtains k out where "(k, out) \<in> link_view d n" and "link_winners d n = Some (if out then bd_self_node d else n, k)"
proof (cases "link_winners d n")
  case None
  with link_winners_best [of d n] assms show ?thesis by (auto simp: is_best_def link_cands_view)
next
  case (Some b)
  with link_winners_best [of d n] have "b \<in> link_cands d (set (bd_peers d)) n" by (simp add: is_best_def)
  then obtain y where y: "y \<in> link_view d n" "b = (case y of (k, out) \<Rightarrow> (if out then bd_self_node d else n, k))"
    unfolding link_cands_view [OF assms(1)] by blast
  obtain k out where "y = (k, out)" by (cases y)
  with y Some that show ?thesis by simp
qed

lemma dedup_unknown_kept: "dedup_key d p = None \<Longrightarrow> keeps_link d p"
  by (simp add: keeps_link_def)

lemma linked_nodes_dedup: "linked_nodes (snd (dedup_links d)) = linked_nodes d"
proof (intro set_eqI iffI)
  fix n
  assume "n \<in> linked_nodes d"
  show "n \<in> linked_nodes (snd (dedup_links d))"
  proof (cases "n \<in> set (conflicted d)")
    case True
    then have "link_view (snd (dedup_links d)) n = link_view d n"
      by (fastforce simp: link_view_def dedup_links_def keeps_link_def dedup_key_def)
    with \<open>n \<in> linked_nodes d\<close> show ?thesis by (simp add: linked_nodes_view)
  next
    case False
    with \<open>n \<in> linked_nodes d\<close> obtain k out where "(k, out) \<in> link_view (snd (dedup_links d)) n"
      unfolding linked_nodes_view link_view_dedup [OF False] by (metis winner_exists)
    then show ?thesis unfolding linked_nodes_view by blast
  qed
qed (auto simp: linked_nodes_view link_view_def dedup_links_def)

text \<open>C9. Both ends keep the same link. Two nodes that hold the same connections to each other, however
  many and whoever dialled them, and that report no conflict about each other, are left by
  \<open>dedup_links\<close> with exactly one connection, the same one; and no node loses its last link.\<close>

theorem dedup_agrees:
  assumes "bd_self_node a \<noteq> bd_self_node b"
    and "link_view a (bd_self_node b) = (\<lambda>(k, out). (k, \<not> out)) ` link_view b (bd_self_node a)"
    and "link_view a (bd_self_node b) \<noteq> {}"
    and "bd_self_node b \<notin> set (conflicted a)" and "bd_self_node a \<notin> set (conflicted b)"
  shows "(\<exists>k out. link_view (snd (dedup_links a)) (bd_self_node b) = {(k, out)} \<and>
                  link_view (snd (dedup_links b)) (bd_self_node a) = {(k, \<not> out)}) \<and>
         linked_nodes (snd (dedup_links a)) = linked_nodes a"
proof -
  let ?na = "bd_self_node a" and ?nb = "bd_self_node b"
  have same: "link_cands a (set (bd_peers a)) ?nb = link_cands b (set (bd_peers b)) ?na"
    using mirrored_cands [OF assms(2)] by (simp add: link_cands_view assms)
  have eq: "link_winners a ?nb = link_winners b ?na"
    using link_winners_best [of a ?nb] link_winners_best [of b ?na] unfolding same by (rule is_best_unique)
  obtain x where "x \<in> link_view a ?nb" using assms(3) by blast
  from winner_exists [OF assms(4) this] obtain k out where w: "link_winners a ?nb = Some (if out then ?na else ?nb, k)"
    by blast
  have "link_view (snd (dedup_links a)) ?nb = {(k, out)}"
    using dedup_keeps_one [OF assms(4) assms(1) [symmetric] w] assms(1) by (cases out) simp_all
  moreover have "link_view (snd (dedup_links b)) ?na = {(k, \<not> out)}"
    using dedup_keeps_one [OF assms(5) assms(1) w [unfolded eq]] assms(1) by (cases out) simp_all
  ultimately show ?thesis using linked_nodes_dedup by blast
qed


subsection \<open>What a burst writes\<close>

lemma concat_chunks: "0 < n \<Longrightarrow> concat (chunks n xs) = xs"
proof (induction n xs rule: chunks.induct)
  case (1 n xs)
  then show ?case by (subst chunks.simps) simp
qed

lemma chunks_short: "c \<in> set (chunks n xs) \<Longrightarrow> length c \<le> n \<and> set c \<subseteq> set xs"
proof (induction n xs rule: chunks.induct)
  case (1 n xs)
  show ?case
  proof (cases "n = 0 \<or> xs = []")
    case False
    with 1(2) have "c = take n xs \<or> c \<in> set (chunks n (drop n xs))"
      by (subst (asm) chunks.simps) auto
    with 1(1) [OF False] show ?thesis by (auto dest: in_set_takeD in_set_dropD)
  qed (use 1(2) in \<open>subst (asm) chunks.simps, auto\<close>)
qed

lemma send_frame_by_ok:
  assumes "send_frame_by f dl t0 t1 turns = (sent, Some (Inr u, ts))"
  shows "fits f \<and> sent = framed f"
proof -
  let ?pre = "le_bytes 4 (of_nat (length f) :: u32)"
  from assms have fit: "fits f" by (auto simp: send_frame_by_def fits_def split: if_splits)
  with assms obtain s1 u1 ts1 s2 where
    w: "write_all_by ?pre dl t0 False turns = (s1, Some (Inr u1, ts1))"
      "write_all_by f dl t1 False ts1 = (s2, Some (Inr u, ts))" "sent = s1 @ s2"
    by (auto simp: send_frame_by_def fits_def split: prod.splits option.splits sum.splits if_splits)
  from write_all_by_prefix [OF w(1)] write_all_by_prefix [OF w(2)] have "s1 = ?pre" "s2 = f" by auto
  with w(3) fit show ?thesis by (simp add: framed_def)
qed

lemma conn_send_ok:
  "conn_send f dl c = Some (Inr u, spent, c') \<Longrightarrow> fits f \<and> tcp_out c' = tcp_out c @ framed f"
  by (auto simp: conn_send_def dest: send_frame_by_ok split: if_splits list.splits prod.splits option.splits)

text \<open>A peer after some frames: itself, with the frames on its connection.\<close>

definition carried :: "bytes list \<Rightarrow> peer \<Rightarrow> peer \<Rightarrow> bool" where
  "carried fs p q \<longleftrightarrow> p_id q = p_id p \<and> p_key q = p_key p \<and> p_outbound q = p_outbound p \<and>
     tcp_out (p_conn q) = tcp_out (p_conn p) @ concat (map framed fs) \<and> (\<forall>f\<in>set fs. fits f)"

lemma carried_refl: "carried [] p p"
  by (simp add: carried_def)

lemma carried_trans: "carried fs p q \<Longrightarrow> carried gs q r \<Longrightarrow> carried (fs @ gs) p r"
  by (auto simp: carried_def)

lemma send_peers_carried:
  "send_peers from f tick ps = Some (left, ps') \<Longrightarrow> q \<in> set ps' \<Longrightarrow>
     \<exists>p\<in>set ps. if p_id q = from then q = p else carried [f] p q"
proof (induction "from" f tick ps arbitrary: left ps' rule: send_peers.induct)
  case (2 src f tick p ps)
  show ?case
  proof (cases "p_id p = src")
    case True
    with 2 show ?thesis by (force split: option.splits)
  next
    case False
    with 2(3) obtain sent spent c left' ps'' where
      c: "conn_send f (\<lambda>started. started + min (p_burst_left p) tick) (p_conn p) = Some (sent, spent, c)"
      and s: "send_peers src f (tick - spent) ps = Some (left', ps'')"
      and ps': "ps' = (case sent of Inr _ \<Rightarrow> p\<lparr>p_conn := c, p_burst_left := p_burst_left p - spent\<rparr> # ps'' | Inl _ \<Rightarrow> ps'')"
      by (auto split: option.splits)
    show ?thesis
    proof (cases "q \<in> set ps''")
      case True
      from 2(2) [OF False c refl refl s True] show ?thesis by auto
    next
      case q: False
      with ps' 2(4) obtain u where "sent = Inr u" "q = p\<lparr>p_conn := c, p_burst_left := p_burst_left p - spent\<rparr>"
        by (cases sent) auto
      with False conn_send_ok [of f _ "p_conn p" u spent c] c show ?thesis
        by (intro bexI [of _ p]) (auto simp: carried_def)
    qed
  qed
qed simp

lemma send_each_carried:
  "send_each from fs d = Some d' \<Longrightarrow> q \<in> set (bd_peers d') \<Longrightarrow>
     \<exists>p\<in>set (bd_peers d). if p_id q = from then q = p else carried fs p q"
proof (induction fs arbitrary: d)
  case Nil
  then show ?case by (auto intro!: bexI [of _ q] carried_refl)
next
  case (Cons f fs)
  then obtain d1 where d1: "send_except from f d = Some d1" "send_each from fs d1 = Some d'"
    by (auto simp: Option.bind_eq_Some_conv)
  from Cons.IH [OF d1(2) Cons.prems(2)] obtain p1 where
    p1: "p1 \<in> set (bd_peers d1)" "if p_id q = from then q = p1 else carried fs p1 q" by blast
  from d1(1) obtain left ps where "send_peers from f (bd_tick_write_left d) (bd_peers d) = Some (left, ps)"
    "bd_peers d1 = ps" by (auto simp: send_except_def split: option.splits)
  with send_peers_carried p1(1) obtain p where
    p: "p \<in> set (bd_peers d)" "if p_id p1 = from then p1 = p else carried [f] p p1" by blast
  show ?case
  proof (intro bexI [OF _ p(1)])
    show "if p_id q = from then q = p else carried (f # fs) p q"
    proof (cases "p_id q = from")
      case False
      with p1(2) have "carried fs p1 q" "p_id p1 \<noteq> from" by (auto simp: carried_def)
      with p(2) False carried_trans [of "[f]" p p1 fs q] show ?thesis by simp
    qed (use p(2) p1(2) in auto)
  qed
qed

lemma begin_burst_carried:
  assumes "p \<in> set (bd_peers (begin_burst a d))"
  shows "\<exists>p0\<in>set (bd_peers d). carried [] p0 p \<and> p_conn p = p_conn p0"
  using assms by (auto simp: begin_burst_def carried_def)

subsection \<open>What a reader makes of it\<close>

lemma reader_loop_frames:
  assumes "list_all control_ok ms" and "list_all (\<lambda>m. fits (encode_control m)) ms" and "length nows = length ms"
  shows "reader_loop lid dial (nows @ later) (concat (map (\<lambda>m. framed (encode_control m)) ms) @ rest) d =
    reader_loop lid dial later rest (fold (\<lambda>(now, m). handle_control now lid dial m) (zip nows ms) d)"
  using assms
proof (induction ms arbitrary: nows d)
  case (Cons m ms)
  then obtain now nows' where nows: "nows = now # nows'" by (cases nows) auto
  from Cons.prems have fit: "fits (encode_control m)" and ok: "control_ok m" by simp_all
  have recv: "recv_framed (framed (encode_control m) @ bs) = Inr (encode_control m, bs)" for bs
    using recv_send_framed [of "encode_control m" "framed (encode_control m)" bs] fit
    by (simp add: send_framed_def framed_def fits_def)
  have "length (encode_control m) < 2 ^ 64" using fit by (simp add: fits_def MAX_FRAME_LEN_def)
  then have dec: "decode_control (encode_control m) = Inr m"
    using control_codec.frame_round_trip [OF ok] by (simp add: decode_control_def encode_control_into_append)
  from Cons show ?case by (simp add: nows recv dec)
qed simp

lemma fold_deltas:
  "length nows = length bs \<Longrightarrow>
   fold (\<lambda>(now, m). handle_control now lid dial m) (zip nows (map RegistryDelta bs)) d =
     d\<lparr>bd_inbox := bd_inbox d @ map (Pair lid) (concat bs)\<rparr>"
  by (induction bs arbitrary: nows d) (auto simp: length_Suc_conv)

lemma reads_delta:
  assumes "list_all identity_ok delta" and "\<forall>f\<in>set (delta_frames delta). fits f"
    and "length nows = length (delta_frames delta)"
  shows "reader_loop lid dial nows (concat (map framed (delta_frames delta))) far =
    far\<lparr>bd_inbox := bd_inbox far @ map (Pair lid) delta\<rparr>"
proof -
  let ?bs = "chunks MAX_IDENTITIES_PER_FRAME delta"
  have "list_all control_ok (map RegistryDelta ?bs)"
    using assms(1) chunks_short [of _ MAX_IDENTITIES_PER_FRAME delta]
    by (fastforce simp: list_all_iff identities_ok_def MAX_IDENTITIES_PER_FRAME_def)
  from reader_loop_frames [OF this, of nows lid dial "[]" "[]" far] assms show ?thesis
    by (simp add: delta_frames_def list_all_iff comp_def fold_deltas concat_chunks MAX_IDENTITIES_PER_FRAME_def)
qed


text \<open>C27. A relayed change arrives. After \<open>relay\<close> returns, every peer still linked, the source apart,
  has been sent exactly the change, whole and after what it was sent before; reading those bytes puts
  every identity of the change, in order, into the inbox of the node at the far end, whatever else that
  node holds. The source link is untouched.\<close>

theorem relay_delivers:
  assumes "relay src delta d = Some d'" and "q \<in> set (bd_peers d')" and "list_all identity_ok delta"
  shows "\<exists>p\<in>set (bd_peers d). \<exists>w. p_id q = p_id p \<and> tcp_out (p_conn q) = tcp_out (p_conn p) @ w \<and>
     (if p_id q = src then w = []
      else \<forall>lid dial nows far. length nows = length (delta_frames delta) \<longrightarrow>
             reader_loop lid dial nows w far = far\<lparr>bd_inbox := bd_inbox far @ map (Pair lid) delta\<rparr>)"
proof -
  from assms(1) have e: "send_each src (delta_frames delta)
      (begin_burst (burst_allowance (identities_encoded_len delta)) d) = Some d'" (is "send_each _ _ ?b = _")
    by (simp add: relay_def)
  from send_each_carried [OF e assms(2)] obtain p1 where
    p1: "p1 \<in> set (bd_peers ?b)" "if p_id q = src then q = p1 else carried (delta_frames delta) p1 q" by blast
  from begin_burst_carried [OF p1(1)] obtain p where p: "p \<in> set (bd_peers d)" "carried [] p p1" by blast
  let ?w = "if p_id q = src then [] else concat (map framed (delta_frames delta))"
  show ?thesis
  proof (rule bexI [OF _ p(1)], rule exI [of _ ?w])
    show "p_id q = p_id p \<and> tcp_out (p_conn q) = tcp_out (p_conn p) @ ?w \<and>
     (if p_id q = src then ?w = []
      else \<forall>lid dial nows far. length nows = length (delta_frames delta) \<longrightarrow>
             reader_loop lid dial nows ?w far = far\<lparr>bd_inbox := bd_inbox far @ map (Pair lid) delta\<rparr>)"
      using p(2) p1(2) reads_delta [OF assms(3)] by (auto simp: carried_def split: if_splits)
  qed
qed

subsection \<open>A peer that takes its bytes\<close>

text \<open>Sockets that take the length and then the frame in one write each.\<close>

fun takes :: "bytes \<Rightarrow> send_script \<Rightarrow> bool" where
  "takes f (started, t0, t1, (n1, WriteOk k1, a1) # (n2, WriteOk k2, a2) # turns, finished) \<longleftrightarrow> k1 = 4 \<and> k2 = length f"
| "takes f _ \<longleftrightarrow> False"

definition prompt :: "bytes list \<Rightarrow> tcp_conn \<Rightarrow> bool" where
  "prompt fs c \<longleftrightarrow> \<not> tcp_shut c \<and> (\<exists>now later. tcp_script c = now @ later \<and> list_all2 takes fs now)"

lemma send_frame_by_prompt:
  assumes "fits f" and "takes f (started, t0, t1, turns, finished)"
  shows "\<exists>sent ts. send_frame_by f dl t0 t1 turns = (sent, Some (Inr (), ts))"
proof -
  from assms(2) obtain n1 a1 n2 a2 ts where
    t: "turns = (n1, WriteOk 4, a1) # (n2, WriteOk (length f), a2) # ts"
    by (auto elim: takes.elims)
  have ne: "le_bytes 4 (of_nat (length f) :: u32) \<noteq> []" using length_le_bytes [of 4] by (metis list.size(3) zero_neq_numeral)
  have fin: "write_all_by [] dl lp True ts' = ([], Some (Inr (), ts'))" for lp ts' by (cases ts') auto
  show ?thesis
    using assms(1) ne fin by (cases "f = []") (auto simp: send_frame_by_def fits_def t)
qed


lemma conn_send_prompt:
  assumes "prompt (f # fs) c" and "fits f"
  shows "\<exists>spent c'. conn_send f dl c = Some (Inr (), spent, c') \<and> prompt fs c'"
proof -
  from assms(1) obtain s now later where s: "tcp_script c = s # now @ later" "takes f s" "list_all2 takes fs now"
    and up: "\<not> tcp_shut c"
    by (auto simp: prompt_def list_all2_Cons1)
  obtain started t0 t1 turns finished where sp: "s = (started, t0, t1, turns, finished)" by (cases s)
  from send_frame_by_prompt [OF assms(2) s(2) [unfolded sp], of "dl started"] obtain sent ts where
    "send_frame_by f (dl started) t0 t1 turns = (sent, Some (Inr (), ts))" by blast
  with s sp up show ?thesis by (auto simp: conn_send_def prompt_def)
qed

lemma send_peers_kept:
  "send_peers src f tick ps = Some (left, ps') \<Longrightarrow> p \<in> set ps \<Longrightarrow> p_id p \<noteq> src \<Longrightarrow>
     prompt (f # fs) (p_conn p) \<Longrightarrow> fits f \<Longrightarrow> \<exists>q\<in>set ps'. prompt fs (p_conn q) \<and> carried [f] p q"
proof (induction src f tick ps arbitrary: left ps' rule: send_peers.induct)
  case (2 src f tick r ps)
  show ?case
  proof (cases "p_id r = src")
    case True
    with 2 show ?thesis by (fastforce split: option.splits)
  next
    case False
    with 2(3) obtain sent spent c left' ps'' where
      c: "conn_send f (\<lambda>started. started + min (p_burst_left r) tick) (p_conn r) = Some (sent, spent, c)"
      and s: "send_peers src f (tick - spent) ps = Some (left', ps'')"
      and ps': "ps' = (case sent of Inr _ \<Rightarrow> r\<lparr>p_conn := c, p_burst_left := p_burst_left r - spent\<rparr> # ps'' | Inl _ \<Rightarrow> ps'')"
      by (auto split: option.splits)
    have sub: "set ps'' \<subseteq> set ps'" using ps' by (auto split: sum.splits)
    show ?thesis
    proof (cases "p = r")
      case True
      with conn_send_prompt [OF 2(6,7)] c have "sent = Inr ()" "prompt fs c" by (metis option.inject prod.inject)+
      with True 2(7) conn_send_ok [of f _ "p_conn r" "()" spent c] c ps' show ?thesis
        by (auto simp: carried_def)
    next
      case False
      with 2(4) have "p \<in> set ps" by simp
      from 2(2) [OF \<open>p_id r \<noteq> src\<close> c refl refl s this 2(5-7)] sub show ?thesis by blast
    qed
  qed
qed simp

lemma send_each_kept:
  "send_each src fs d = Some d' \<Longrightarrow> p \<in> set (bd_peers d) \<Longrightarrow> p_id p \<noteq> src \<Longrightarrow> prompt fs (p_conn p) \<Longrightarrow>
     \<forall>f\<in>set fs. fits f \<Longrightarrow> \<exists>q\<in>set (bd_peers d'). carried fs p q"
proof (induction fs arbitrary: d p)
  case Nil
  then show ?case by (auto intro!: bexI [of _ p] carried_refl)
next
  case (Cons f fs)
  then obtain d1 where d1: "send_except src f d = Some d1" "send_each src fs d1 = Some d'"
    by (auto simp: Option.bind_eq_Some_conv)
  from d1(1) obtain left where "send_peers src f (bd_tick_write_left d) (bd_peers d) = Some (left, bd_peers d1)"
    by (auto simp: send_except_def split: option.splits)
  from send_peers_kept [OF this Cons.prems(2,3,4)] Cons.prems(5) obtain p1 where
    p1: "p1 \<in> set (bd_peers d1)" "prompt fs (p_conn p1)" "carried [f] p p1" by auto
  then have "p_id p1 \<noteq> src" using Cons.prems(3) by (simp add: carried_def)
  from Cons.IH [OF d1(2) p1(1) this p1(2)] Cons.prems(5) carried_trans [OF p1(3)] show ?case by fastforce
qed

text \<open>A peer that takes its bytes keeps its link. Whatever the other peers do, and however little is
  left of the tick's write budget, a peer whose socket takes each length and each frame of a relayed
  change in one write is still linked when the relay returns, with the whole change written.\<close>

theorem prompt_peer_kept:
  assumes "relay src delta d = Some d'" and "p \<in> set (bd_peers d)" and "p_id p \<noteq> src"
    and "prompt (delta_frames delta) (p_conn p)" and "\<forall>f\<in>set (delta_frames delta). fits f"
  shows "\<exists>q\<in>set (bd_peers d'). p_id q = p_id p \<and>
    tcp_out (p_conn q) = tcp_out (p_conn p) @ concat (map framed (delta_frames delta))"
proof -
  let ?a = "burst_allowance (identities_encoded_len delta)"
  let ?p = "p\<lparr>p_burst_left := min ?a (bd_tick_write_left d)\<rparr>"
  from assms(1) have "send_each src (delta_frames delta) (begin_burst ?a d) = Some d'" by (simp add: relay_def)
  from send_each_kept [OF this, of ?p] assms show ?thesis by (auto simp: begin_burst_def carried_def)
qed


subsection \<open>Who may say what\<close>

type_synonym link_event = "instant \<times> peer_id \<times> socket_addr option \<times> control_msg"

definition run_links :: "link_event list \<Rightarrow> bcast \<Rightarrow> bcast" where
  "run_links = fold (\<lambda>(now, lid, dial, m). handle_control now lid dial m)"

lemma run_links_simps [simp]:
  "run_links [] d = d"
  "run_links (es @ fs) d = run_links fs (run_links es d)"
  "run_links ((now, lid, dial, m) # es) d = run_links es (handle_control now lid dial m d)"
  by (simp_all add: run_links_def)

lemma self_node_links [simp]:
  "bd_self_node (handle_control now lid dial m d) = bd_self_node d"
  "bd_liveness_timeout (handle_control now lid dial m d) = bd_liveness_timeout d"
  by (cases m; simp add: handle_heartbeat_def handle_hint_def case_prod_beta)+

lemma run_links_fixed [simp]:
  "bd_self_node (run_links es d) = bd_self_node d"
  "bd_liveness_timeout (run_links es d) = bd_liveness_timeout d"
  by (induction es arbitrary: d) auto

lemma seen_handle:
  "seen (bd_membership (handle_control now lid dial m d)) n =
     (case m of
        Heartbeat k _ _ _ \<Rightarrow> if k = n \<and> n \<noteq> bd_self_node d then Some now else seen (bd_membership d) n
      | Leaving k \<Rightarrow> if k = n \<and> map_option fst (bd_link_peers d lid) = Some n then None else seen (bd_membership d) n
      | _ \<Rightarrow> seen (bd_membership d) n)"
proof (cases m)
  case (Heartbeat k a c name)
  then show ?thesis
    using seen_refines [of "bd_membership d" "EvRecord now k a c name"]
    by (auto simp: handle_heartbeat_def case_prod_beta)
next
  case (PeerHint k a c name)
  then show ?thesis
    using seen_refines [of "bd_membership d" "EvLearn k a c name"] by (auto simp: handle_hint_def case_prod_beta)
next
  case (Leaving k)
  then show ?thesis using seen_refines [of "bd_membership d" "EvRetire now k"] by auto
qed simp_all

text \<open>Whether a sequence of messages says nothing first-hand of a node: it holds no heartbeat naming it,
  and no departure naming it on a link that its own heartbeats have identified by then.\<close>

fun quiet :: "node_id \<Rightarrow> link_event list \<Rightarrow> bcast \<Rightarrow> bool" where
  "quiet n [] d = True"
| "quiet n ((now, lid, dial, m) # es) d =
     ((case m of
         Heartbeat k _ _ _ \<Rightarrow> k \<noteq> n
       | Leaving k \<Rightarrow> \<not> (k = n \<and> map_option fst (bd_link_peers d lid) = Some n)
       | _ \<Rightarrow> True) \<and> quiet n es (handle_control now lid dial m d))"

lemma quiet_append [simp]: "quiet n (es @ fs) d \<longleftrightarrow> quiet n es d \<and> quiet n fs (run_links es d)"
  by (induction n es d rule: quiet.induct) (auto simp del: handle_control.simps)

lemma quiet_seen: "quiet n es d \<Longrightarrow> seen (bd_membership (run_links es d)) n = seen (bd_membership d) n"
proof (induction n es d rule: quiet.induct)
  case (2 n now lid dial m es d)
  then show ?case by (cases m) (auto simp: seen_handle simp del: handle_control.simps)
qed simp

lemma seen_was_heard:
  "seen (bd_membership d) n = None \<Longrightarrow> seen (bd_membership (run_links es d)) n = Some t \<Longrightarrow>
   \<exists>pre lid dial a c name post. es = pre @ (t, lid, dial, Heartbeat n a c name) # post \<and> n \<noteq> bd_self_node d \<and>
     quiet n post (run_links (pre @ [(t, lid, dial, Heartbeat n a c name)]) d)"
proof (induction es rule: rev_induct)
  case (snoc e es)
  obtain now lid dial m where e: "e = (now, lid, dial, m)" by (cases e)
  let ?d = "run_links es d"
  show ?case
  proof (cases "\<exists>a c name. m = Heartbeat n a c name \<and> n \<noteq> bd_self_node d")
    case True
    then obtain a c name where m: "m = Heartbeat n a c name" "n \<noteq> bd_self_node d" by blast
    with snoc.prems(2) have "t = now" by (simp add: e seen_handle del: handle_control.simps)
    with m e show ?thesis
      by (intro exI [of _ es] exI [of _ lid] exI [of _ dial] exI [of _ a] exI [of _ c] exI [of _ name] exI [of _ "[]"]) simp
  next
    case False
    with snoc.prems(2) have s: "seen (bd_membership ?d) n = Some t" and "n \<noteq> bd_self_node d \<Longrightarrow> quiet n [e] ?d"
      by (auto simp: e seen_handle simp del: handle_control.simps split: control_msg.splits if_splits)
    moreover from snoc.IH [OF snoc.prems(1) s] obtain pre lid0 dial0 a c name post where
      ih: "es = pre @ (t, lid0, dial0, Heartbeat n a c name) # post" "n \<noteq> bd_self_node d"
      "quiet n post (run_links (pre @ [(t, lid0, dial0, Heartbeat n a c name)]) d)"
      by blast
    ultimately have "quiet n (post @ [e]) (run_links (pre @ [(t, lid0, dial0, Heartbeat n a c name)]) d)" by simp
    with ih(1,2) show ?thesis
      by (intro exI [of _ pre] exI [of _ lid0] exI [of _ dial0] exI [of _ a] exI [of _ c] exI [of _ name]
          exI [of _ "post @ [e]"]) simp
  qed
qed simp

lemma heard_is_seen:
  assumes "n \<noteq> bd_self_node d" and "quiet n post (run_links (pre @ [(t, lid, dial, Heartbeat n a c name)]) d)"
  shows "seen (bd_membership (run_links (pre @ (t, lid, dial, Heartbeat n a c name) # post) d)) n = Some t"
  using quiet_seen [OF assms(2)] assms(1) by (simp add: seen_handle del: handle_control.simps)

text \<open>C28. Liveness is first-hand and its end is the node's own word. Starting from a node never heard
  from, whatever messages arrive on whatever links, it is live exactly if a heartbeat naming it arrived
  no longer ago than the liveness timeout, and after it neither another heartbeat naming it nor a
  departure naming it on a link its own heartbeats identify. So a hint about it, a departure said of it
  on any other link, and whatever other nodes send change nothing: they neither start its liveness, nor
  prolong it, nor end it.\<close>

theorem live_means_heard:
  assumes "seen (bd_membership d) n = None"
  shows "bd_live_addr_of now (run_links es d) n \<noteq> None \<longleftrightarrow>
    n \<noteq> bd_self_node d \<and>
    (\<exists>pre t lid dial a c name post. es = pre @ (t, lid, dial, Heartbeat n a c name) # post \<and>
       now - t \<le> bd_liveness_timeout d \<and>
       quiet n post (run_links (pre @ [(t, lid, dial, Heartbeat n a c name)]) d))"
  (is "?live \<longleftrightarrow> ?heard")
proof
  assume ?live
  then obtain t where "seen (bd_membership (run_links es d)) n = Some t" "now - t \<le> bd_liveness_timeout d"
    unfolding bd_live_addr_of_def live_addr_of_iff set_live_members by auto
  with seen_was_heard [OF assms this(1)] show ?heard by blast
next
  assume ?heard
  then obtain t where "seen (bd_membership (run_links es d)) n = Some t" "now - t \<le> bd_liveness_timeout d"
    using heard_is_seen by blast
  then show ?live unfolding bd_live_addr_of_def live_addr_of_iff set_live_members by auto
qed


subsection \<open>The steps of dissemination\<close>

text \<open>A running reader handles a frame or ends; the maintenance tick and the accept and dial paths do
  the rest, each under the dissemination lock, in any order.\<close>

inductive bcast_step :: "bcast \<Rightarrow> bcast \<Rightarrow> bool" where
  frame: "(lid, dial) \<in> set (bd_readers d) \<Longrightarrow> bcast_step d (handle_control now lid dial m d)"
| reader_ends: "(lid, dial) \<in> set (bd_readers d) \<Longrightarrow> bcast_step d (reader_exit lid dial d)"
| accepted: "add_peer now su c ids d = Some (r, d') \<Longrightarrow> bcast_step d d'"
| dialled: "add_outbound_peer now su c addr ids d = Some (r, d') \<Longrightarrow> bcast_step d d'"
| tick: "bcast_step d (begin_tick d)"
| beat: "emit_heartbeat d = Some d' \<Longrightarrow> bcast_step d d'"
| hints: "relay_hints d = Some d' \<Longrightarrow> bcast_step d d'"
| leaving: "announce_leaving d = Some d' \<Longrightarrow> bcast_step d d'"
| announced: "announce delta d = Some d' \<Longrightarrow> bcast_step d d'"
| relayed: "relay src delta d = Some d' \<Longrightarrow> bcast_step d d'"
| replied: "reply dest delta d = Some d' \<Longrightarrow> bcast_step d d'"
| deduped: "bcast_step d (snd (dedup_links d))"
| pumped: "bcast_step d (snd (pump d))"
| named: "bcast_step d (set_self_name name d)"
| bound_stream: "bcast_step d (set_self_addr addr d)"
| bound_control: "bcast_step d (set_self_control_addr addr d)"

definition own_place :: "node_id \<Rightarrow> bcast \<Rightarrow> bool" where
  "own_place self d \<longleftrightarrow> bd_self_node d = self \<and> \<not> known (bd_membership d) self \<and>
     (\<forall>lid. map_option fst (bd_link_peers d lid) \<noteq> Some self) \<and>
     (\<forall>h\<in>set (bd_hints d). fst (snd h) \<noteq> self) \<and>
     (\<forall>a. bd_dial_identity d a \<noteq> Some self) \<and>
     set (bd_conflicts d) \<subseteq> {self} \<and> length (bd_same_id_addrs d) \<le> MAX_SAME_ID_ADDRS"

text \<open>What sending may change.\<close>

definition sends_only :: "bcast \<Rightarrow> bcast \<Rightarrow> bool" where
  "sends_only d d' \<longleftrightarrow> (\<exists>t ps. d' = d\<lparr>bd_tick_write_left := t, bd_peers := ps\<rparr>)"

lemma sends_only_refl: "sends_only d d"
  unfolding sends_only_def by (intro exI [of _ "bd_tick_write_left d"] exI [of _ "bd_peers d"]) simp

lemma sends_only_trans: "sends_only d e \<Longrightarrow> sends_only e f \<Longrightarrow> sends_only d f"
  by (force simp: sends_only_def)

lemma own_place_sends: "sends_only d d' \<Longrightarrow> own_place self d' = own_place self d"
  by (auto simp: sends_only_def own_place_def)

lemma send_except_only: "send_except src f d = Some d' \<Longrightarrow> sends_only d d'"
  by (auto simp: send_except_def sends_only_def split: option.splits)

lemma send_each_only: "send_each src fs d = Some d' \<Longrightarrow> sends_only d d'"
  by (induction fs arbitrary: d)
     (auto simp: Option.bind_eq_Some_conv intro: sends_only_refl sends_only_trans send_except_only)

lemma relay_each_only: "relay_each hs d = Some d' \<Longrightarrow> sends_only d d'"
  by (induction hs d rule: relay_each.induct)
     (auto simp: Option.bind_eq_Some_conv split: if_splits intro: sends_only_refl sends_only_trans send_except_only)

lemma begin_burst_only: "sends_only d (begin_burst a d)"
  unfolding sends_only_def begin_burst_def by (metis (no_types) bcast.unfold_congs(10) bcast.surjective bcast.update_convs(10))

lemma reply_each_only: "reply_each dest fs d = Some d' \<Longrightarrow> sends_only d d'"
proof (induction dest fs d rule: reply_each.induct)
  case (2 dest f fs d)
  show ?case
  proof (cases "find (\<lambda>p. p_id p = dest) (bd_peers d)")
    case None
    with 2 show ?thesis by (auto intro: sends_only_refl)
  next
    case (Some p)
    with 2(2) obtain sent spent c where
      c: "conn_send f (\<lambda>started. started + min (p_burst_left p) (bd_tick_write_left d)) (p_conn p) = Some (sent, spent, c)"
      by (auto split: option.splits)
    show ?thesis
    proof (cases sent)
      case (Inl e)
      with 2(2) Some c show ?thesis by (auto simp: sends_only_def Let_def)
    next
      case (Inr u)
      with 2(1) [OF Some c refl refl refl refl Inr refl refl] 2(2) Some c show ?thesis
        by (auto simp: Let_def sends_only_def)
    qed
  qed
qed (auto intro: sends_only_refl)


lemma known_step:
  "known (snd (ms_record now ms n a c name)) k \<longleftrightarrow> k = n \<or> known ms k"
  "known (snd (learn ms n a c name)) k \<longleftrightarrow> k = n \<or> known ms k"
  "known (snd (retire now ms n)) k \<longleftrightarrow> known ms k"
  by (auto simp: known_def ms_record_def learn_def retire_def Let_def split: option.splits)

lemma own_place_handle:
  assumes "own_place self d"
  shows "own_place self (handle_control now lid dial m d)"
proof (cases m)
  case (Heartbeat n a c name)
  with assms show ?thesis
    by (auto simp: handle_heartbeat_def case_prod_beta own_place_def known_step split: option.split)
next
  case (PeerHint n a c name)
  with assms show ?thesis
    by (auto simp: handle_hint_def case_prod_beta own_place_def known_step List.insert_def)
qed (use assms in \<open>auto simp: own_place_def known_step\<close>)

lemma adopt_only:
  assumes "adopt now su c addr ids d = Some (r, d')"
  shows "\<exists>pid readers ps. d' = d\<lparr>bd_next_peer_id := pid, bd_readers := readers, bd_peers := ps\<rparr>"
proof (cases "and_then (su_write_timeout su) (\<lambda>_. and_then (su_endpoints su) (\<lambda>(local, peer).
             and_then (su_clone su) (\<lambda>_. Inr (link_key local peer))))")
  case (Inl e)
  with assms show ?thesis
    by (intro exI [of _ "bd_next_peer_id d"] exI [of _ "bd_readers d"] exI [of _ "bd_peers d"])
       (auto simp: adopt_def)
next
  case (Inr key)
  let ?d1 = "d\<lparr>bd_next_peer_id := bd_next_peer_id d + 1, bd_readers := bd_readers d @ [(bd_next_peer_id d, addr)]\<rparr>"
  from assms Inr have "d' = ?d1 \<or> (\<exists>ps. d' = ?d1\<lparr>bd_peers := ps\<rparr>)"
    by (auto simp: adopt_def Let_def split: option.splits prod.splits sum.splits)
  moreover have "?d1 = ?d1\<lparr>bd_peers := bd_peers d\<rparr>" by simp
  ultimately show ?thesis by metis
qed

lemma own_place_adopt:
  assumes "adopt now su c addr ids d = Some (r, d')"
  shows "own_place self d' = own_place self d"
  using adopt_only [OF assms] by (auto simp: own_place_def)

lemma own_place_connected [simp]: "own_place self (d\<lparr>bd_connected := s\<rparr>) = own_place self d"
  by (simp add: own_place_def)

lemma own_place_burst [simp]: "own_place self (begin_burst a d) = own_place self d"
  using own_place_sends [OF begin_burst_only] .

lemmas burst_defs = emit_heartbeat_def announce_leaving_def broadcast_def announce_def relay_def reply_def relay_hints_def

lemma own_place_burst_steps:
  assumes "emit_heartbeat d = Some d' \<or> announce_leaving d = Some d' \<or> announce delta d = Some d' \<or>
    relay src delta d = Some d' \<or> reply dest delta d = Some d' \<or> relay_hints d = Some d'" and "own_place self d"
  shows "own_place self d'"
proof -
  have "own_place self (d\<lparr>bd_hints := []\<rparr>)" using assms(2) by (simp add: own_place_def)
  with assms show ?thesis
    by (auto simp: burst_defs Let_def
        dest!: own_place_sends [OF send_except_only] own_place_sends [OF send_each_only]
          own_place_sends [OF reply_each_only] own_place_sends [OF relay_each_only])
qed

lemma own_place_step: "bcast_step d d' \<Longrightarrow> own_place self d \<Longrightarrow> own_place self d'"
proof (induction rule: bcast_step.induct)
  case (frame lid dial d now m)
  then show ?case by (simp add: own_place_handle)
next
  case (reader_ends lid dial d)
  then show ?case by (auto simp: reader_exit_def own_place_def)
next
  case (accepted now su c ids d r d')
  then show ?case by (simp add: add_peer_def own_place_adopt)
next
  case (dialled now su c addr ids d r d')
  then show ?case
    by (auto simp: add_outbound_peer_def dest: own_place_adopt [of _ _ _ _ _ _ _ _ self]
        split: option.splits prod.splits sum.splits)
next
  case (deduped d)
  then show ?case by (simp add: own_place_def dedup_links_def)
next
  case (beat d d')
  then show ?case using own_place_burst_steps by blast
next
  case (hints d d')
  then show ?case using own_place_burst_steps by blast
next
  case (leaving d d')
  then show ?case using own_place_burst_steps by blast
next
  case (announced delta d d')
  then show ?case using own_place_burst_steps by blast
next
  case (relayed src delta d d')
  then show ?case using own_place_burst_steps by blast
next
  case (replied dest delta d d')
  then show ?case using own_place_burst_steps by blast
qed (simp_all add: own_place_def begin_tick_def pump_def set_self_name_def set_self_addr_def set_self_control_addr_def)

text \<open>C10. A node's own identity is its own. In every state dissemination can reach, by any interleaving
  of frames from any peers, adoptions, ticks and bursts: the node is not in its own membership, so
  no twin's address is ever handed out for it; no link and no dialled address is taken to be itself; no
  hint about itself is queued; only its own id can be reported in conflict by a reader; and gossip adds
  at most eight addresses to the dial candidates for a twin.\<close>

theorem own_identity_protected:
  assumes "bcast_step\<^sup>*\<^sup>* (bcast_new self addr timeout) d"
  shows "bd_live_addr_of now d self = None \<and> self \<notin> linked_nodes d \<and> bd_dial_identity d a \<noteq> Some self \<and>
    (\<forall>h\<in>set (bd_hints d). fst (snd h) \<noteq> self) \<and> set (bd_conflicts d) \<subseteq> {self} \<and>
    length (bd_same_id_addrs d) \<le> MAX_SAME_ID_ADDRS"
proof -
  have "own_place self d"
    using assms
  proof (induction rule: rtranclp_induct)
    case base
    then show ?case by (simp add: own_place_def bcast_new_def known_def membership_new_def)
  qed (rule own_place_step)
  then show ?thesis
    by (auto simp: own_place_def known_def bd_live_addr_of_def live_addr_of_def linked_nodes_def map_filter_def)
qed


subsection \<open>Witnesses\<close>

definition link_addr :: "u8 \<Rightarrow> socket_addr" where
  "link_addr i = SockV4 10 0 0 i 7000"

definition prompt_script :: "bytes \<Rightarrow> send_script" where
  "prompt_script f = (0, 0, 0, [(0, WriteOk 4, 0), (0, WriteOk (length f), 0)], 0)"

definition sample_link :: "peer_id \<Rightarrow> link_key \<Rightarrow> bool \<Rightarrow> bytes list \<Rightarrow> peer" where
  "sample_link pid key out fs =
     \<lparr>p_id = pid, p_conn = \<lparr>tcp_out = [], tcp_shut = False, tcp_script = map prompt_script fs\<rparr>,
      p_key = key, p_outbound = out, p_burst_left = 0\<rparr>"

text \<open>Two nodes that dialled each other: links \<open>1\<close> and \<open>2\<close> of the first are \<open>7\<close> and \<open>9\<close> of the second.\<close>

definition sample_a :: bcast where
  "sample_a = (bcast_new 1 (link_addr 1) 10)
     \<lparr>bd_peers := [sample_link 1 (link_addr 1, link_addr 3) True [], sample_link 2 (link_addr 1, link_addr 2) False []],
      bd_link_peers := [1 \<mapsto> (2, link_addr 2), 2 \<mapsto> (2, link_addr 2)]\<rparr>"

definition sample_b :: bcast where
  "sample_b = (bcast_new 2 (link_addr 2) 10)
     \<lparr>bd_peers := [sample_link 7 (link_addr 1, link_addr 2) True [], sample_link 9 (link_addr 1, link_addr 3) False []],
      bd_link_peers := [7 \<mapsto> (1, link_addr 1), 9 \<mapsto> (1, link_addr 1)]\<rparr>"

lemma link_view_code:
  "link_view d n = set (map (\<lambda>p. (p_key p, p_outbound p))
     (filter (\<lambda>p. map_option fst (bd_link_peers d (p_id p)) = Some n) (bd_peers d)))"
  by (auto simp: link_view_def)

lemma sample_views:
  "link_view sample_a 2 = {((link_addr 1, link_addr 3), True), ((link_addr 1, link_addr 2), False)}"
  "link_view sample_b 1 = {((link_addr 1, link_addr 3), False), ((link_addr 1, link_addr 2), True)}"
  by (simp_all add: link_view_code sample_a_def sample_b_def sample_link_def insert_commute)

lemma sample_conflicts: "conflicted sample_a = []" "conflicted sample_b = []"
  by (simp_all add: conflicted_def sample_a_def sample_b_def sample_link_def bcast_new_def add_addr_def
      map_filter_def Let_def)

theorem dedup_agrees_witness:
  "\<exists>k out. link_view (snd (dedup_links sample_a)) 2 = {(k, out)} \<and> link_view (snd (dedup_links sample_b)) 1 = {(k, \<not> out)}"
proof -
  have self: "bd_self_node sample_a = 1" "bd_self_node sample_b = 2"
    by (simp_all add: sample_a_def sample_b_def bcast_new_def)
  have "link_view sample_a 2 = (\<lambda>(k, out). (k, \<not> out)) ` link_view sample_b 1" unfolding sample_views by auto
  with dedup_agrees [of sample_a sample_b, unfolded self] sample_conflicts show ?thesis by (simp add: sample_views)
qed

definition sample_delta :: "channel_identity list" where
  "sample_delta = [\<lparr>ci_name = ascii ''c'', ci_owner = 1, ci_region_size = 0, ci_mtu = 0, ci_earliest_index = 0,
     ci_registered_at_nanos = 5, ci_epoch = 0, ci_deleted = False, ci_member_of = None\<rparr>]"

definition sample_relay :: bcast where
  "sample_relay = (bcast_new 1 (link_addr 1) 10)
     \<lparr>bd_peers := [sample_link 5 (link_addr 1, link_addr 2) True (delta_frames sample_delta)]\<rparr>"

lemma sample_frames: "\<exists>f. delta_frames sample_delta = [f] \<and> fits f"
proof -
  have "chunks MAX_IDENTITIES_PER_FRAME sample_delta = [sample_delta]"
    by (simp add: chunks.simps sample_delta_def MAX_IDENTITIES_PER_FRAME_def)
  then show ?thesis
    by (simp add: delta_frames_def fits_def MAX_FRAME_LEN_def encode_control_def enc_simps sample_delta_def
        identities_image_def identity_image_def)
qed

lemma sample_prompt: "prompt (delta_frames sample_delta) (p_conn (sample_link pid key out (delta_frames sample_delta)))"
proof -
  have "list_all2 takes fs (map prompt_script fs)" for fs
    by (simp add: prompt_script_def list_all2_map2 list_all2_same)
  then show ?thesis unfolding prompt_def sample_link_def by auto
qed

lemma sample_relayed: "\<exists>d' q. relay 9 sample_delta sample_relay = Some d' \<and> bd_peers d' = [q] \<and> p_id q = 5"
proof -
  obtain f where f: "delta_frames sample_delta = [f]" "fits f" using sample_frames by blast
  have "\<exists>spent c'. conn_send f dl (p_conn (sample_link 5 key out [f])) = Some (Inr (), spent, c')" for dl key out
    using conn_send_prompt [OF sample_prompt [unfolded f(1)] f(2)] by blast
  then show ?thesis
    by (fastforce simp: relay_def f(1) send_except_def begin_burst_def sample_relay_def sample_link_def
        split: option.splits)
qed

lemma sample_delta_ok: "list_all identity_ok sample_delta"
  by (simp add: sample_delta_def identity_ok_def str_ok_def opt_str_ok_def short_def utf8_char_def utf8_tail_def)


theorem relay_delivers_witness:
  "\<exists>d' q w. relay 9 sample_delta sample_relay = Some d' \<and> bd_peers d' = [q] \<and> tcp_out (p_conn q) = w \<and>
     reader_loop 3 None [0] w (bcast_new 2 (link_addr 2) 10) =
       (bcast_new 2 (link_addr 2) 10)\<lparr>bd_inbox := map (Pair 3) sample_delta\<rparr>"
proof -
  obtain d' q where d': "relay 9 sample_delta sample_relay = Some d'" "bd_peers d' = [q]" "p_id q = 5"
    using sample_relayed by blast
  obtain f where f: "delta_frames sample_delta = [f]" using sample_frames by blast
  from relay_delivers [OF d'(1) _ sample_delta_ok, of q] d'(2,3) obtain w where
    "tcp_out (p_conn q) = w" "\<forall>lid dial nows far. length nows = length (delta_frames sample_delta) \<longrightarrow>
       reader_loop lid dial nows w far = far\<lparr>bd_inbox := bd_inbox far @ map (Pair lid) sample_delta\<rparr>"
    by (auto simp: sample_relay_def sample_link_def)
  moreover have "bd_inbox (bcast_new 2 (link_addr 2) 10) = []" by (simp add: bcast_new_def)
  ultimately show ?thesis using d'(1,2) by (auto simp: f simp del: reader_loop.simps)
qed

theorem prompt_peer_kept_witness:
  "\<exists>d' q. relay 9 sample_delta sample_relay = Some d' \<and> q \<in> set (bd_peers d') \<and> p_id q = 5 \<and>
     tcp_out (p_conn q) = concat (map framed (delta_frames sample_delta))"
proof -
  obtain d' where d': "relay 9 sample_delta sample_relay = Some d'" using sample_relayed by blast
  let ?p = "sample_link 5 (link_addr 1, link_addr 2) True (delta_frames sample_delta)"
  have p: "?p \<in> set (bd_peers sample_relay)" "p_id ?p \<noteq> 9" "p_id ?p = 5" "tcp_out (p_conn ?p) = []"
    by (simp_all add: sample_relay_def) (simp_all add: sample_link_def)
  have "\<forall>f\<in>set (delta_frames sample_delta). fits f" using sample_frames by auto
  from prompt_peer_kept [OF d' p(1,2) sample_prompt this] d' p(3,4) show ?thesis by auto
qed

theorem live_means_heard_witness:
  "let d = bcast_new 1 (link_addr 1) 10; e = (100, 5, None, Heartbeat 2 (link_addr 2) (link_addr 3) []);
       es = [e, (101, 6, None, Leaving 2), (102, 6, None, PeerHint 2 (link_addr 4) (link_addr 4) [])] in
   bd_live_addr_of 103 (run_links es d) 2 \<noteq> None \<and>
   bd_live_addr_of 103 (run_links (es @ [(102, 5, None, Leaving 2)]) d) 2 = None"
proof -
  let ?d = "bcast_new 1 (link_addr 1) 10"
  let ?e = "(100, 5, None, Heartbeat 2 (link_addr 2) (link_addr 3) [])"
  let ?es = "[(101, 6, None, Leaving 2), (102, 6, None, PeerHint 2 (link_addr 4) (link_addr 4) [])]"
  let ?l = "(102, 5, None, Leaving 2)"
  have s: "seen (bd_membership ?d) 2 = None" "bd_liveness_timeout ?d = 10" "bd_self_node ?d = 1"
    by (simp_all add: bcast_new_def seen_def membership_new_def)
  have p: "map_option fst (bd_link_peers (run_links [?e] ?d) 5) = Some 2" "bd_link_peers (run_links [?e] ?d) 6 = None"
    by (simp_all add: bcast_new_def handle_heartbeat_def membership_new_def ms_record_def)
  have q: "quiet 2 ?es (run_links ([] @ [?e]) ?d)" "\<not> quiet 2 (?es @ [?l]) (run_links ([] @ [?e]) ?d)"
  proof -
    define D where "D = run_links ([] @ [?e]) ?d"
    have "map_option fst (bd_link_peers D 5) = Some 2" "bd_link_peers D 6 = None" using p by (simp_all only: D_def append_Nil)
    then show "quiet 2 ?es (run_links ([] @ [?e]) ?d)" "\<not> quiet 2 (?es @ [?l]) (run_links ([] @ [?e]) ?d)"
      unfolding D_def [symmetric] by (auto simp: handle_hint_def case_prod_beta)
  qed
  have "bd_live_addr_of 103 (run_links (?e # ?es) ?d) 2 \<noteq> None"
    unfolding live_means_heard [OF s(1)] s(2,3)
    by (rule conjI, simp, intro exI conjI, rule append_Nil [symmetric], simp, rule q(1))
  moreover have "bd_live_addr_of 103 (run_links (?e # ?es @ [?l]) ?d) 2 = None"
  proof (rule ccontr)
    assume "bd_live_addr_of 103 (run_links (?e # ?es @ [?l]) ?d) 2 \<noteq> None"
    then obtain pre t lid dial a c name post where
      h: "?e # ?es @ [?l] = pre @ (t, lid, dial, Heartbeat 2 a c name) # post"
        "quiet 2 post (run_links (pre @ [(t, lid, dial, Heartbeat 2 a c name)]) ?d)"
      unfolding live_means_heard [OF s(1)] by blast
    from h(1) have "pre = [] \<and> ?e = (t, lid, dial, Heartbeat 2 a c name) \<and> post = ?es @ [?l]"
      by (auto simp: Cons_eq_append_conv append_eq_Cons_conv)
    with h(2) q(2) show False by metis
  qed
  ultimately show ?thesis unfolding Let_def append.simps by (rule conjI)
qed

theorem own_identity_protected_witness:
  "let d = begin_tick (bcast_new 1 (link_addr 1) 10) in
   bcast_step\<^sup>*\<^sup>* (bcast_new 1 (link_addr 1) 10) d \<and> bd_live_addr_of 7 d 1 = None"
proof -
  have "bcast_step\<^sup>*\<^sup>* (bcast_new 1 (link_addr 1) 10) (begin_tick (bcast_new 1 (link_addr 1) 10))"
    by (intro r_into_rtranclp tick)
  with own_identity_protected [OF this] show ?thesis by (simp add: Let_def)
qed

end
