(* ===== verification/Node_Paths.thy ===== *)
theory Node_Paths
  imports Xchannel Socket_Addr
begin

text \<open>
  Where a node keeps what it owns: the default data directory (\<open>xchannel-net-core/src/paths.rs\<close>), the
  channel names and the paths made from them (\<open>xchannel-net/src/node.rs\<close>), and the persisted node
  identity (\<open>xchannel-net/src/node_identity.rs\<close>). The file system and the random source answer through
  arguments; the longest name the log header holds, \<open>xchannel::CHANNEL_NAME_MAX\<close>, is an argument too.
\<close>

subsection \<open>Paths\<close>

text \<open>\<open>PathBuf::join\<close> on Unix: an absolute second path replaces the first.\<close>

definition path_join :: "path \<Rightarrow> path \<Rightarrow> path" where
  "path_join p q =
     (if q \<noteq> [] \<and> hd q = 47 then q
      else if p = [] \<or> last p = 47 then p @ q
      else p @ 47 # q)"

definition DATA_DIR_NAME :: path where
  "DATA_DIR_NAME = ascii ''.xchannel-net''"

definition CLIENT_SOCKET_NAME :: path where
  "CLIENT_SOCKET_NAME = ascii ''client.sock''"

definition data_dir_in :: "path option \<Rightarrow> path io_result" where
  "data_dir_in home =
     (case home of
        Some h \<Rightarrow> if h \<noteq> [] then Inr (path_join h DATA_DIR_NAME)
                  else Inl (IoError NotFound ''HOME is not set, so there is no default data directory'')
      | None \<Rightarrow> Inl (IoError NotFound ''HOME is not set, so there is no default data directory''))"

definition default_data_dir :: "path option \<Rightarrow> path io_result" where
  "default_data_dir home = data_dir_in home"

definition default_client_path :: "path option \<Rightarrow> path io_result" where
  "default_client_path home = and_then (default_data_dir home) (\<lambda>d. Inr (path_join d CLIENT_SOCKET_NAME))"

subsection \<open>Channel names\<close>

definition is_ascii_alphanumeric :: "u8 \<Rightarrow> bool" where
  "is_ascii_alphanumeric b \<longleftrightarrow> 48 \<le> b \<and> b \<le> 57 \<or> 65 \<le> b \<and> b \<le> 90 \<or> 97 \<le> b \<and> b \<le> 122"

definition validate_channel_name :: "nat \<Rightarrow> rstring \<Rightarrow> unit io_result" where
  "validate_channel_name name_max name =
     (if 1 \<le> length name \<and> length name \<le> name_max \<and> hd name \<noteq> 46 \<and>
         list_all (\<lambda>b. is_ascii_alphanumeric b \<or> b = 46 \<or> b = 95 \<or> b = 45) name
      then Inr ()
      else Inl (IoError InvalidInput ''channel name must be chars of [A-Za-z0-9._-] with no leading dot''))"

definition CHANNEL_LOG_FILE :: path where
  "CHANNEL_LOG_FILE = ascii ''log''"

definition DISCOVERY_DIR :: path where
  "DISCOVERY_DIR = ascii ''.discovery''"

definition REPLICAS_DIR :: path where
  "REPLICAS_DIR = ascii ''.replicas''"

definition channel_dir :: "nat \<Rightarrow> path \<Rightarrow> rstring \<Rightarrow> path io_result" where
  "channel_dir name_max data_dir name =
     and_then (validate_channel_name name_max name) (\<lambda>_. Inr (path_join data_dir name))"

definition channel_path :: "nat \<Rightarrow> path \<Rightarrow> rstring \<Rightarrow> path io_result" where
  "channel_path name_max data_dir name =
     and_then (channel_dir name_max data_dir name) (\<lambda>d. Inr (path_join d CHANNEL_LOG_FILE))"

definition replica_dir :: "nat \<Rightarrow> path \<Rightarrow> rstring \<Rightarrow> path io_result" where
  "replica_dir name_max data_dir name =
     and_then (validate_channel_name name_max name)
       (\<lambda>_. Inr (path_join (path_join data_dir REPLICAS_DIR) name))"

definition replica_path :: "nat \<Rightarrow> path \<Rightarrow> rstring \<Rightarrow> path io_result" where
  "replica_path name_max data_dir name =
     and_then (replica_dir name_max data_dir name) (\<lambda>d. Inr (path_join d CHANNEL_LOG_FILE))"

definition discovery_log :: "path \<Rightarrow> path" where
  "discovery_log data_dir = path_join (path_join data_dir DISCOVERY_DIR) CHANNEL_LOG_FILE"

subsection \<open>The persisted identity\<close>

record node_identity =
  ni_id :: u64
  ni_created_at_ms :: u64
  ni_name :: rstring
  ni_generated :: bool

definition NODE_ID_FILE :: path where
  "NODE_ID_FILE = ascii ''.node_id''"

definition id_path :: "path \<Rightarrow> path" where
  "id_path data_dir = path_join data_dir NODE_ID_FILE"

text \<open>\<open>str::lines\<close>: a final newline ends the last line, and a carriage return before it is dropped.\<close>

fun lines_acc :: "bytes \<Rightarrow> bytes \<Rightarrow> bytes list" where
  "lines_acc acc [] = (if acc = [] then [] else [rev acc])"
| "lines_acc acc (b # bs) =
     (if b = 10 then rev (if acc \<noteq> [] \<and> hd acc = 13 then tl acc else acc) # lines_acc [] bs else lines_acc (b # acc) bs)"

definition lines :: "bytes \<Rightarrow> bytes list" where
  "lines s = lines_acc [] s"

text \<open>\<open>str::trim\<close>, for the white space of ASCII; the file holds no other.\<close>

definition is_space :: "u8 \<Rightarrow> bool" where
  "is_space b \<longleftrightarrow> b = 32 \<or> 9 \<le> b \<and> b \<le> 13"

definition trim :: "bytes \<Rightarrow> bytes" where
  "trim s = rev (dropWhile is_space (rev (dropWhile is_space s)))"

definition split_once :: "u8 \<Rightarrow> bytes \<Rightarrow> (bytes \<times> bytes) option" where
  "split_once c s =
     (case dropWhile (\<lambda>b. b \<noteq> c) s of
        [] \<Rightarrow> None
      | _ # r \<Rightarrow> Some (takeWhile (\<lambda>b. b \<noteq> c) s, r))"

text \<open>\<open>str::parse::<u64>\<close>: an optional plus sign, then decimal digits that fit.\<close>

fun digits_value :: "nat \<Rightarrow> bytes \<Rightarrow> nat option" where
  "digits_value acc [] = Some acc"
| "digits_value acc (b # bs) = (if 48 \<le> b \<and> b \<le> 57 then digits_value (10 * acc + unat (b - 48)) bs else None)"

definition parse_u64 :: "bytes \<Rightarrow> u64 option" where
  "parse_u64 s =
     (let ds = (if s \<noteq> [] \<and> hd s = 43 then tl s else s)
      in if ds = [] then None
         else (case digits_value 0 ds of
                 Some v \<Rightarrow> if v < 2 ^ 64 then Some (of_nat v) else None
               | None \<Rightarrow> None))"

definition read_line :: "bytes \<Rightarrow> u64 option \<times> u64 \<Rightarrow> u64 option \<times> u64" where
  "read_line line st =
     (case split_once 61 (trim line) of
        Some (k, v) \<Rightarrow>
          if k = ascii ''id'' then (parse_u64 (trim v), snd st)
          else if k = ascii ''created_at_ms'' then
            (fst st, case parse_u64 (trim v) of Some c \<Rightarrow> c | None \<Rightarrow> 0)
          else st
      | None \<Rightarrow> st)"

definition read_file :: "bytes io_result \<Rightarrow> (u64 \<times> u64) option io_result" where
  "read_file content =
     (case content of
        Inl e \<Rightarrow> if ekind e = NotFound then Inr None else Inl e
      | Inr text \<Rightarrow>
          (case fold read_line (lines text) (None, 0) of
             (None, _) \<Rightarrow> Inl (IoError InvalidData ''no usable `id=` line - refusing to guess the identity of this node'')
           | (Some i, created) \<Rightarrow> Inr (Some (i, created))))"

definition identity_text :: "u64 \<Rightarrow> u64 \<Rightarrow> bytes" where
  "identity_text i created = ascii ''id='' @ show_dec (unat i) @ 10 # ascii ''created_at_ms='' @ show_dec (unat created) @ [10]"

text \<open>\<open>resolve\<close>: with what the identity file holds, what \<open>/dev/urandom\<close> gives, the clock and the answer of
  the write. The second component is the text written, if any.\<close>

definition resolve_identity ::
  "u64 option \<Rightarrow> rstring \<Rightarrow> bytes io_result \<Rightarrow> u64 io_result \<Rightarrow> u64 \<Rightarrow> unit io_result \<Rightarrow>
     node_identity io_result \<times> bytes option" where
  "resolve_identity configured name content random now_ms write =
     (case configured of
        Some i \<Rightarrow> (Inr \<lparr>ni_id = i, ni_created_at_ms = 0, ni_name = name, ni_generated = False\<rparr>, None)
      | None \<Rightarrow>
          (case read_file content of
             Inl e \<Rightarrow> (Inl e, None)
           | Inr (Some (i, created)) \<Rightarrow>
               (Inr \<lparr>ni_id = i, ni_created_at_ms = created, ni_name = name, ni_generated = True\<rparr>, None)
           | Inr None \<Rightarrow>
               (case random of
                  Inl e \<Rightarrow> (Inl e, None)
                | Inr i \<Rightarrow>
                    (and_then write (\<lambda>_. Inr \<lparr>ni_id = i, ni_created_at_ms = now_ms, ni_name = name, ni_generated = True\<rparr>),
                     Some (identity_text i now_ms)))))"

definition discard :: "unit io_result \<Rightarrow> unit io_result" where
  "discard removed =
     (case removed of Inl e \<Rightarrow> if ekind e = NotFound then Inr () else Inl e | Inr u \<Rightarrow> Inr u)"


subsection \<open>Separation of names\<close>

definition valid_name :: "nat \<Rightarrow> rstring \<Rightarrow> bool" where
  "valid_name name_max name \<longleftrightarrow> validate_channel_name name_max name = Inr ()"

definition name_byte :: "u8 \<Rightarrow> bool" where
  "name_byte b \<longleftrightarrow> is_ascii_alphanumeric b \<or> b = 46 \<or> b = 95 \<or> b = 45"

lemma valid_nameD:
  assumes "valid_name M n"
  shows "n \<noteq> []" and "hd n \<noteq> 46" and "\<forall>b\<in>set n. name_byte b"
  using assms by (auto simp: valid_name_def validate_channel_name_def name_byte_def list_all_iff split: if_splits)

lemma name_byte_not_slash: "name_byte b \<Longrightarrow> b \<noteq> 47"
  by (auto simp: name_byte_def is_ascii_alphanumeric_def)

lemma valid_name_no_slash: "valid_name M n \<Longrightarrow> 47 \<notin> set n"
  using valid_nameD(3) name_byte_not_slash by blast

lemma last_valid_name: "valid_name M n \<Longrightarrow> last n \<noteq> 47"
  using valid_nameD(1) valid_name_no_slash last_in_set by metis

lemma hd_valid_name: "valid_name M n \<Longrightarrow> hd n \<noteq> 47"
  using valid_nameD(1) valid_name_no_slash hd_in_set by metis

definition dir_prefix :: "path \<Rightarrow> path" where
  "dir_prefix p = (if p = [] \<or> last p = 47 then p else p @ [47])"

lemma path_join_relative: "q \<noteq> [] \<Longrightarrow> hd q \<noteq> 47 \<Longrightarrow> path_join p q = dir_prefix p @ q"
  by (simp add: path_join_def dir_prefix_def)

lemma join_log: "valid_name M n \<Longrightarrow> path_join (p @ n) CHANNEL_LOG_FILE = p @ n @ ascii ''/log''"
  using valid_nameD(1) [of M n] last_valid_name [of M n] by (simp add: path_join_def CHANNEL_LOG_FILE_def)

lemma channel_path_valid:
  "valid_name M n \<Longrightarrow> channel_path M d n = Inr (dir_prefix d @ n @ ascii ''/log'')"
  using valid_nameD(1) hd_valid_name join_log
  by (simp add: channel_path_def channel_dir_def valid_name_def path_join_relative del: ascii_simps)

lemma replica_path_valid:
  "valid_name M n \<Longrightarrow> replica_path M d n = Inr (dir_prefix d @ ascii ''.replicas/'' @ n @ ascii ''/log'')"
proof -
  assume v: "valid_name M n"
  have "path_join (path_join d REPLICAS_DIR) n = (dir_prefix d @ ascii ''.replicas/'') @ n"
    using valid_nameD(1) [OF v] hd_valid_name [OF v] by (simp add: path_join_def dir_prefix_def REPLICAS_DIR_def)
  with v join_log [OF v, of "dir_prefix d @ ascii ''.replicas/''"] show ?thesis
    by (simp add: replica_path_def replica_dir_def valid_name_def del: ascii_simps)
qed

lemma discovery_log_eq: "discovery_log d = dir_prefix d @ ascii ''.discovery/log''"
  by (simp add: discovery_log_def path_join_def dir_prefix_def DISCOVERY_DIR_def CHANNEL_LOG_FILE_def)

lemma id_path_eq: "id_path d = dir_prefix d @ ascii ''.node_id''"
  by (simp add: id_path_def path_join_def dir_prefix_def NODE_ID_FILE_def)

text \<open>C29. Names do not collide on disk. The log of a valid name is inside a directory of its own, one
  component below the data directory: the name has no separator and is neither the current nor the
  parent directory. Two names never share an origin log or a replica log, and no two of an origin log, a
  replica log, the discovery log and the identity file, whatever their names, are the same file.\<close>

theorem channel_paths_separate:
  assumes "valid_name M n" and "valid_name M m"
  shows "channel_path M d n = Inr (dir_prefix d @ n @ ascii ''/log'') \<and>
    47 \<notin> set n \<and> n \<notin> {[], ascii ''.'', ascii ''..''} \<and>
    (channel_path M d n = channel_path M d m \<longleftrightarrow> n = m) \<and> (replica_path M d n = replica_path M d m \<longleftrightarrow> n = m) \<and>
    channel_path M d n \<noteq> replica_path M d m \<and> channel_path M d n \<noteq> Inr (discovery_log d) \<and>
    channel_path M d n \<noteq> Inr (id_path d) \<and> replica_path M d n \<noteq> Inr (discovery_log d) \<and>
    replica_path M d n \<noteq> Inr (id_path d) \<and> discovery_log d \<noteq> id_path d"
proof -
  obtain b bs where n: "n = b # bs" "b \<noteq> 46" using valid_nameD(1,2) [OF assms(1)] by (cases n) auto
  then have "n \<notin> {[], ascii ''.'', ascii ''..''}" by simp
  with n valid_name_no_slash [OF assms(1)] channel_path_valid [OF assms(1), of d] channel_path_valid [OF assms(2), of d]
    replica_path_valid [OF assms(1), of d] replica_path_valid [OF assms(2), of d]
  show ?thesis by (simp add: discovery_log_eq id_path_eq)
qed

subsection \<open>The identity file\<close>

lemma digits_value_show: "digits_value acc (show_dec n @ rest) = digits_value (acc * 10 ^ length (show_dec n) + n) rest"
proof (induction "10 :: nat" n arbitrary: rest rule: show_radix.induct)
  case (1 n)
  have d: "48 \<le> digit_char k \<and> digit_char k \<le> 57 \<and> unat (digit_char k - 48) = k" if "k < 10" for k
  proof -
    have "digit_char k - 48 = of_nat k" using that by (simp add: digit_char_def)
    moreover have "unat (digit_char k) = 48 + k"
      using that unat_of_nat_small [of "48 + k", where ?'a = 8] by (simp add: digit_char_def)
    ultimately show ?thesis using that unat_of_nat_small [of k, where ?'a = 8] by (simp add: word_le_nat_alt)
  qed
  show ?case
  proof (cases "n < 10")
    case True
    then show ?thesis using d [of n] by (simp add: show_radix.simps [of 10 n] mult.commute)
  next
    case False
    let ?l = "length (show_dec (n div 10))"
    have "digits_value acc (show_dec (n div 10) @ digit_char (n mod 10) # rest) =
        digits_value (10 * (acc * 10 ^ ?l + n div 10) + n mod 10) rest"
      using 1 False d [of "n mod 10"] by simp
    also have "10 * (acc * 10 ^ ?l + n div 10) + n mod 10 = acc * 10 ^ Suc ?l + n" by (simp add: algebra_simps)
    finally show ?thesis using False by (simp add: show_radix.simps [of 10 n])
  qed
qed

lemma show_dec_bytes: "b \<in> set (show_dec n) \<Longrightarrow> 48 \<le> b \<and> b \<le> 57"
proof -
  assume "b \<in> set (show_dec n)"
  then obtain k where k: "k < 10" "b = digit_char k" using set_show_radix [of 10 b n] by auto
  then have "unat b = 48 + k" using unat_of_nat_small [of "48 + k", where ?'a = 8] by (simp add: digit_char_def)
  with k(1) show ?thesis by (simp add: word_le_nat_alt)
qed

lemma parse_show_dec: "parse_u64 (show_dec (unat (w :: u64))) = Some w"
proof -
  have "hd (show_dec (unat w)) \<noteq> 43" using show_dec_bytes [OF hd_in_set, of "unat w"] by auto
  with digits_value_show [of 0 "unat w" "[]"] unat_bound [of w] show ?thesis
    by (simp add: parse_u64_def Let_def)
qed

lemma trim_id: "(\<forall>b\<in>set s. \<not> is_space b) \<Longrightarrow> trim s = s"
proof -
  assume s: "\<forall>b\<in>set s. \<not> is_space b"
  then have "dropWhile is_space s = s" "dropWhile is_space (rev s) = rev s"
    by (metis dropWhile_eq_Cons_conv dropWhile_eq_self_iff hd_in_set set_rev)+
  then show ?thesis by (simp add: trim_def)
qed

lemma lines_acc_line: "10 \<notin> set s \<Longrightarrow> 13 \<notin> set s \<union> set acc \<Longrightarrow>
  lines_acc acc (s @ 10 # rest) = rev (rev s @ acc) # lines_acc [] rest"
  by (induction s arbitrary: acc) (auto dest: hd_in_set)

lemma split_once_at: "c \<notin> set k \<Longrightarrow> split_once c (k @ c # v) = Some (k, v)"
  by (induction k) (auto simp: split_once_def split: list.splits)


lemma read_key_line:
  assumes "\<forall>b\<in>set (k @ v). \<not> is_space b" and "61 \<notin> set k"
  shows "read_line (k @ 61 # v) st =
    (if k = ascii ''id'' then (parse_u64 v, snd st)
     else if k = ascii ''created_at_ms'' then (fst st, case parse_u64 v of Some c \<Rightarrow> c | None \<Rightarrow> 0)
     else st)"
proof -
  have "trim (k @ 61 # v) = k @ 61 # v" "trim v = v"
    by (rule trim_id; use assms(1) in \<open>auto simp: is_space_def\<close>)+
  then show ?thesis by (simp add: read_line_def split_once_at [OF assms(2)])
qed

lemma show_dec_no_space: "b \<in> set (show_dec n) \<Longrightarrow> \<not> is_space b \<and> b \<noteq> 10 \<and> b \<noteq> 13"
  using show_dec_bytes [of b n] by (auto simp: is_space_def word_le_nat_alt)

lemma lines_identity:
  "lines (identity_text i c) = [ascii ''id='' @ show_dec (unat i), ascii ''created_at_ms='' @ show_dec (unat c)]"
proof -
  let ?l1 = "ascii ''id='' @ show_dec (unat i)" and ?l2 = "ascii ''created_at_ms='' @ show_dec (unat c)"
  have "identity_text i c = ?l1 @ 10 # ?l2 @ 10 # []" by (simp add: identity_text_def)
  moreover have "10 \<notin> set ?l1" "13 \<notin> set ?l1" "10 \<notin> set ?l2" "13 \<notin> set ?l2"
    using show_dec_no_space by (auto dest: show_dec_no_space)
  ultimately show ?thesis
    using lines_acc_line [of ?l1 "[]" "?l2 @ 10 # []"] lines_acc_line [of ?l2 "[]" "[]"]
    by (simp add: lines_def del: ascii_simps)
qed

lemma read_identity_text: "read_file (Inr (identity_text i c)) = Inr (Some (i, c))"
proof -
  have k: "ascii ''id='' @ v = ascii ''id'' @ 61 # v" "ascii ''created_at_ms='' @ v = ascii ''created_at_ms'' @ 61 # v" for v
    by simp_all
  have "read_line (ascii ''id'' @ 61 # show_dec (unat i)) st = (Some i, snd st)" for st
    by (subst read_key_line) (auto simp: parse_show_dec is_space_def dest: show_dec_no_space)
  moreover have "read_line (ascii ''created_at_ms'' @ 61 # show_dec (unat c)) st = (fst st, c)" for st
    by (subst read_key_line) (auto simp: parse_show_dec is_space_def dest: show_dec_no_space)
  ultimately show ?thesis by (simp add: read_file_def lines_identity k del: ascii_simps)
qed

text \<open>A generated identity survives restarts, and is never replaced behind the operator's back. The
  first start without a configured id takes the random one and writes the identity file; every later
  start on that file takes the same id and writes nothing. A file that cannot be read, or holds no
  usable id, stops the start with an error and nothing is written; a configured id always wins.\<close>

theorem identity_survives_restart:
  "resolve_identity None name (Inl (IoError NotFound msg)) (Inr i) ms (Inr ()) =
     (Inr \<lparr>ni_id = i, ni_created_at_ms = ms, ni_name = name, ni_generated = True\<rparr>, Some (identity_text i ms)) \<and>
   resolve_identity None name' (Inr (identity_text i ms)) random ms' write =
     (Inr \<lparr>ni_id = i, ni_created_at_ms = ms, ni_name = name', ni_generated = True\<rparr>, None) \<and>
   ((\<exists>e. read_file content = Inl e) \<longrightarrow>
      (\<exists>e. resolve_identity None name' content random ms' write = (Inl e, None))) \<and>
   resolve_identity (Some j) name' content random ms' write =
     (Inr \<lparr>ni_id = j, ni_created_at_ms = 0, ni_name = name', ni_generated = False\<rparr>, None)"
  by (auto simp: resolve_identity_def read_identity_text) (simp add: read_file_def)

subsection \<open>Witnesses\<close>

lemma sample_names: "valid_name 48 (ascii ''md.aapl'')" "valid_name 48 (ascii ''md.aapl.1'')"
  by (simp_all add: valid_name_def validate_channel_name_def is_ascii_alphanumeric_def)

theorem channel_paths_separate_witness:
  "channel_path 48 (ascii ''/d'') (ascii ''md.aapl'') \<noteq> channel_path 48 (ascii ''/d'') (ascii ''md.aapl.1'') \<and>
   replica_path 48 (ascii ''/d'') (ascii ''md.aapl'') \<noteq> Inr (discovery_log (ascii ''/d''))"
proof -
  have "ascii ''md.aapl'' \<noteq> ascii ''md.aapl.1''" by simp
  with channel_paths_separate [OF sample_names, of "ascii ''/d''"] show ?thesis by blast
qed

theorem identity_survives_restart_witness:
  "resolve_identity None [] (Inr (identity_text 7 9)) (Inr 1) 2 (Inr ()) =
     (Inr \<lparr>ni_id = 7, ni_created_at_ms = 9, ni_name = [], ni_generated = True\<rparr>, None) \<and>
   (\<exists>e. resolve_identity None [] (Inr []) (Inr 1) 2 (Inr ()) = (Inl e, None))"
proof -
  have "\<exists>e. read_file (Inr []) = Inl e" by (simp add: read_file_def lines_def)
  with identity_survives_restart [of "[]" "''''" 7 9 "[]" "Inr 1" 2 "Inr ()" "Inr []" 3] show ?thesis by simp
qed

end
