(* ===== verification/Node.thy ===== *)
theory Node
  imports Registry Broadcast Node_Paths Stream_Proto Mux
begin

text \<open>
  The node manager, \<open>xchannel-net/src/node.rs\<close>: its state and the operations on names. Creating,
  claiming, retiring and reclaiming a channel; the discovery log; one pass of the gossip a maintenance
  tick merges; the duplicate-identity verdict; resolution of a name to an address.

  \<^item> The state behind the node's locks is one record, \<open>node\<close>. An operation takes the locks it needs one
    after the other; the model runs an operation without interruption.
  \<^item> The file system is \<open>nd_fs\<close>, acted on through \<open>fs_api\<close> (the calls of \<open>std::fs\<close>) and through the
    writers and readers of xchannel. Clock readings are arguments: \<open>now\<close> for \<open>Instant::now\<close>, \<open>nanos\<close> for
    the wall clock.
  \<^item> An operation that sends to peers may not return (\<open>None\<close>), as in \<open>Broadcast\<close>.
  \<^item> Printed diagnostics (\<open>eprintln!\<close>) are left out.
\<close>

subsection \<open>State\<close>

record mux_idle =
  idle_max_spins :: u32
  idle_max_yields :: u32
  idle_min_park :: duration
  idle_max_park :: duration

record node_config =
  cfg_node_id :: node_id
  cfg_data_dir :: path
  cfg_control_addr :: socket_addr
  cfg_stream_addr :: socket_addr
  cfg_advertise_control_addr :: "socket_addr option"
  cfg_advertise_stream_addr :: "socket_addr option"
  cfg_client_path :: path
  cfg_seeds :: "socket_addr list"
  cfg_reclaim_after :: duration
  cfg_promoted_topics :: "rstring list"
  cfg_mux_idle :: mux_idle
  cfg_node_name :: rstring
  cfg_id_generated :: bool

record dial_penalty =
  dp_attempted_at :: instant
  dp_next :: instant
  dp_gap :: duration

record rebuild_stats =
  rb_gap :: u64
  rb_diverged :: u64
  rb_last_at_ms :: u64

record sub_shared =
  sh_replica_path :: path
  sh_synced :: u64
  sh_head_at_connect :: u64
  sh_last_record_at_ms :: u64
  sh_rebuilds :: rebuild_stats
  sh_stopped :: bool
  sh_connected :: bool
  sh_establishing :: bool

text \<open>A subscription handle is a key of \<open>nd_shared\<close>, the store of what its holders share; \<open>nd_next_handle\<close>
  is the key of the next one. A hosted server's connection guard is its slot among \<open>nd_conns\<close>.\<close>

record ('t, 'w, 'r) node =
  nd_config :: node_config
  nd_fs :: 't
  nd_discovery :: "'w option"
  nd_discovery_generation :: u64
  nd_last_live_owners :: "node_id set"
  nd_attach_backoff :: "rstring \<rightharpoonup> dial_penalty"
  nd_dup_reported :: "node_id list"
  nd_owner_unreachable_since :: "node_id \<rightharpoonup> instant"
  nd_dial_backoff :: "socket_addr \<rightharpoonup> dial_penalty"
  nd_dial_cursor_seeds :: nat
  nd_dial_cursor_learned :: nat
  nd_dial_cursor_twins :: nat
  nd_hosted :: "rstring \<rightharpoonup> channel_source"
  nd_registry :: registry
  nd_bcast :: bcast
  nd_bound_stream_addr :: "socket_addr option"
  nd_subscriptions :: "rstring \<rightharpoonup> nat"
  nd_shared :: "nat \<rightharpoonup> sub_shared"
  nd_muxes :: "(rstring, ('w, 'r) mux) rbt"
  nd_topic_reap :: "(rstring, duration) rbt"
  nd_member_dead_since :: "member_key \<rightharpoonup> instant"
  nd_conns :: nat
  nd_duty_servers :: "'r server_poll_item list"
  nd_duty_clients :: "(nat \<times> 'w client_poll_item) list"
  nd_conducted :: "(rstring \<times> nat) list"
  nd_next_handle :: nat

definition LIVENESS_TIMEOUT :: duration where
  "LIVENESS_TIMEOUT = 10 * 10 ^ 9"

definition MAX_CONNECTIONS :: nat where
  "MAX_CONNECTIONS = 4096"

definition node_new :: "node_config \<Rightarrow> 't \<Rightarrow> u64 \<Rightarrow> ('t, 'w, 'r) node" where
  "node_new cfg fs nanos =
     \<lparr>nd_config = cfg, nd_fs = fs, nd_discovery = None, nd_discovery_generation = nanos,
      nd_last_live_owners = {}, nd_attach_backoff = Map.empty, nd_dup_reported = [],
      nd_owner_unreachable_since = Map.empty, nd_dial_backoff = Map.empty,
      nd_dial_cursor_seeds = 0, nd_dial_cursor_learned = 0, nd_dial_cursor_twins = 0,
      nd_hosted = Map.empty, nd_registry = registry_new,
      nd_bcast = set_self_name (cfg_node_name cfg)
        (bcast_new (cfg_node_id cfg) (cfg_stream_addr cfg) LIVENESS_TIMEOUT),
      nd_bound_stream_addr = None, nd_subscriptions = Map.empty, nd_shared = Map.empty,
      nd_muxes = RBT.empty, nd_topic_reap = RBT.empty, nd_member_dead_since = Map.empty, nd_conns = 0,
      nd_duty_servers = [], nd_duty_clients = [], nd_conducted = [], nd_next_handle = 0\<rparr>"

abbreviation self_id :: "('t, 'w, 'r) node \<Rightarrow> node_id" where
  "self_id n \<equiv> cfg_node_id (nd_config n)"

subsection \<open>Sequencing\<close>

text \<open>An action of the node: an error (\<open>Inl\<close>) keeps the effects so far, as an early return does.\<close>

type_synonym ('n, 'a) act = "'n \<Rightarrow> ('a io_result \<times> 'n) option"

definition act_return :: "'a \<Rightarrow> ('n, 'a) act" where
  "act_return x = (\<lambda>n. Some (Inr x, n))"

definition act_bind :: "('n, 'a) act \<Rightarrow> ('a \<Rightarrow> ('n, 'b) act) \<Rightarrow> ('n, 'b) act" where
  "act_bind a f = (\<lambda>n. case a n of
       None \<Rightarrow> None
     | Some (Inl e, n') \<Rightarrow> Some (Inl e, n')
     | Some (Inr x, n') \<Rightarrow> f x n')"

definition act_lift :: "'a io_result \<Rightarrow> ('n, 'a) act" where
  "act_lift r = (\<lambda>n. Some (r, n))"

definition act_total :: "('n \<Rightarrow> 'a io_result \<times> 'n) \<Rightarrow> ('n, 'a) act" where
  "act_total f = (\<lambda>n. Some (f n))"

definition act_modify :: "('n \<Rightarrow> 'n) \<Rightarrow> ('n, unit) act" where
  "act_modify f = (\<lambda>n. Some (Inr (), f n))"

lemma act_bind_Some:
  "act_bind a f n = Some (r, n') \<longleftrightarrow>
     (\<exists>e. a n = Some (Inl e, n') \<and> r = Inl e) \<or> (\<exists>x n1. a n = Some (Inr x, n1) \<and> f x n1 = Some (r, n'))"
  by (auto simp: act_bind_def split: option.splits prod.splits sum.splits)

lemma act_simps [simp]:
  "act_return x n = Some (Inr x, n)"
  "act_lift r n = Some (r, n)"
  "act_total g n = Some (g n)"
  "act_modify h n = Some (Inr (), h n)"
  by (simp_all add: act_return_def act_lift_def act_total_def act_modify_def)

subsection \<open>Directories\<close>

record 't fs_api =
  fs_is_dir :: "'t \<Rightarrow> path \<Rightarrow> bool"
  fs_exists :: "'t \<Rightarrow> path \<Rightarrow> bool"
  fs_create_dir_all :: "'t \<Rightarrow> path \<Rightarrow> unit io_result \<times> 't"
  fs_set_private :: "'t \<Rightarrow> path \<Rightarrow> unit io_result \<times> 't"
  fs_remove_dir_all :: "'t \<Rightarrow> path \<Rightarrow> unit io_result \<times> 't"

definition ensure_private_dir :: "'t fs_api \<Rightarrow> path \<Rightarrow> 't \<Rightarrow> unit io_result \<times> 't" where
  "ensure_private_dir fs p t =
     (let existed = fs_is_dir fs t p in
      case fs_create_dir_all fs t p of
        (Inl e, t1) \<Rightarrow> (Inl e, t1)
      | (Inr _, t1) \<Rightarrow> if existed then (Inr (), t1) else fs_set_private fs t1 p)"

definition on_fs :: "('t \<Rightarrow> 'a io_result \<times> 't) \<Rightarrow> ('t, 'w, 'r) node \<Rightarrow> 'a io_result \<times> ('t, 'w, 'r) node" where
  "on_fs f n = (case f (nd_fs n) of (r, t) \<Rightarrow> (r, n\<lparr>nd_fs := t\<rparr>))"

text \<open>\<open>Path::parent\<close> of a log path, the directory it was made from.\<close>

definition path_parent :: "path \<Rightarrow> path option" where
  "path_parent p = (if 47 \<in> set p then Some (rev (tl (dropWhile (\<lambda>b. b \<noteq> 47) (rev p)))) else None)"

subsection \<open>Discovery\<close>

definition DISCOVERY_REGION_SIZE :: nat where
  "DISCOVERY_REGION_SIZE = 2 ^ 20"

definition DISCOVERY_KEEP_FILES :: u64 where
  "DISCOVERY_KEEP_FILES = 4"

definition discovery_config :: "u64 \<Rightarrow> writer_config" where
  "discovery_config generation =
     \<lparr>wc_region_size = DISCOVERY_REGION_SIZE, wc_mtu = 0,
      wc_file_roll_size = Some (of_nat (DISCOVERY_REGION_SIZE * 2)), wc_base_record_index = None,
      wc_generation = Some generation, wc_channel_name = [], wc_keep_files = Some DISCOVERY_KEEP_FILES\<rparr>"

text \<open>The writer, opened (and any older log removed) on first use.\<close>

definition open_discovery ::
  "'t fs_api \<Rightarrow> ('t, 'w) writer_api \<Rightarrow> ('t, 'w, 'r) node \<Rightarrow> 'w io_result \<times> ('t, 'w, 'r) node" where
  "open_discovery fs wapi n =
     (case nd_discovery n of
        Some w \<Rightarrow> (Inr w, n)
      | None \<Rightarrow>
          let dir = path_join (cfg_data_dir (nd_config n)) DISCOVERY_DIR;
              (_, t1) = fs_remove_dir_all fs (nd_fs n) dir
          in case ensure_private_dir fs dir t1 of
               (Inl e, t2) \<Rightarrow> (Inl e, n\<lparr>nd_fs := t2\<rparr>)
             | (Inr _, t2) \<Rightarrow>
                 (case wr_build wapi t2 (discovery_log (cfg_data_dir (nd_config n)))
                         (discovery_config (nd_discovery_generation n)) of
                    (Inl e, t3) \<Rightarrow> (Inl e, n\<lparr>nd_fs := t3\<rparr>)
                  | (Inr w, t3) \<Rightarrow> (Inr w, n\<lparr>nd_fs := t3, nd_discovery := Some w\<rparr>)))"

definition publish_change ::
  "'t fs_api \<Rightarrow> ('t, 'w) writer_api \<Rightarrow> channel_change \<Rightarrow> ('t, 'w, 'r) node \<Rightarrow> ('t, 'w, 'r) node" where
  "publish_change fs wapi change n =
     (case open_discovery fs wapi n of
        (Inl e, n1) \<Rightarrow> n1
      | (Inr w, n1) \<Rightarrow>
          (case encode_change change of
             (msg_type, payload) \<Rightarrow>
               (case wr_try_reserve wapi (nd_fs n1) w (length payload) of
                  (Inl e, t2, w2) \<Rightarrow> n1\<lparr>nd_fs := t2, nd_discovery := Some w2\<rparr>
                | (Inr _, t2, w2) \<Rightarrow>
                    (case wr_commit wapi t2 w2 payload msg_type (of_nat (length payload)) 0 of
                       (_, t3, w3) \<Rightarrow> n1\<lparr>nd_fs := t3, nd_discovery := Some w3\<rparr>))))"

definition owner_is_live :: "instant \<Rightarrow> ('t, 'w, 'r) node \<Rightarrow> node_id \<Rightarrow> bool" where
  "owner_is_live now n owner \<longleftrightarrow> owner = self_id n \<or> bd_live_addr_of now (nd_bcast n) owner \<noteq> None"

definition info_of :: "bool \<Rightarrow> channel_identity \<Rightarrow> channel_info" where
  "info_of owner_live i =
     \<lparr>info_name = ci_name i, info_owner = ci_owner i, info_epoch = ci_epoch i, info_owner_live = owner_live,
      info_member_of = ci_member_of i, info_region_size = ci_region_size i, info_mtu = ci_mtu i,
      info_earliest_index = ci_earliest_index i\<rparr>"

definition change_of :: "instant \<Rightarrow> ('t, 'w, 'r) node \<Rightarrow> channel_identity \<Rightarrow> channel_change" where
  "change_of now n i =
     (if ci_deleted i then Removed (ci_name i) (ci_epoch i)
      else Upserted (info_of (owner_is_live now n (ci_owner i)) i))"

definition merge_and_publish ::
  "'t fs_api \<Rightarrow> ('t, 'w) writer_api \<Rightarrow> instant \<Rightarrow> channel_identity \<Rightarrow> ('t, 'w, 'r) node \<Rightarrow>
     merged \<times> ('t, 'w, 'r) node" where
  "merge_and_publish fs wapi now incoming n =
     (case merge_tracked (nd_registry n) incoming of
        (m, reg) \<Rightarrow>
          let n1 = n\<lparr>nd_registry := reg\<rparr>
          in (m, if changed m then publish_change fs wapi (change_of now n1 (winner m)) n1 else n1))"

text \<open>The listing and the position in the log both under the registry lock.\<close>

definition list_channels ::
  "'t fs_api \<Rightarrow> ('t, 'w) writer_api \<Rightarrow> instant \<Rightarrow> rstring \<Rightarrow> ('t, 'w, 'r) node \<Rightarrow>
     (channel_info list \<times> discovery_cursor) io_result \<times> ('t, 'w, 'r) node" where
  "list_channels fs wapi now pfx n =
     (let live = bd_live_members now (nd_bcast n);
          channels = map (\<lambda>i. info_of (ci_owner i = self_id n \<or> ci_owner i \<in> set live) i)
                       (with_prefix (nd_registry n) pfx)
      in case open_discovery fs wapi n of
           (Inl e, n1) \<Rightarrow> (Inl e, n1)
         | (Inr w, n1) \<Rightarrow>
             (Inr (channels, \<lparr>dc_log_path = from_utf8_lossy (discovery_log (cfg_data_dir (nd_config n))),
                dc_generation = nd_discovery_generation n, dc_from = wr_next_index wapi w\<rparr>), n1))"


subsection \<open>Subscription handles\<close>

definition stop_sub :: "nat \<Rightarrow> ('t, 'w, 'r) node \<Rightarrow> ('t, 'w, 'r) node" where
  "stop_sub h n = n\<lparr>nd_shared := (nd_shared n)(h := map_option (\<lambda>s. s\<lparr>sh_stopped := True\<rparr>) (nd_shared n h))\<rparr>"

definition sub_is_active :: "nat \<Rightarrow> ('t, 'w, 'r) node \<Rightarrow> bool" where
  "sub_is_active h n = (case nd_shared n h of Some s \<Rightarrow> \<not> sh_stopped s | None \<Rightarrow> False)"

definition unsubscribe :: "rstring \<Rightarrow> ('t, 'w, 'r) node \<Rightarrow> bool \<times> ('t, 'w, 'r) node" where
  "unsubscribe name n =
     (case nd_subscriptions n name of
        Some h \<Rightarrow> (True, stop_sub h (n\<lparr>nd_subscriptions := (nd_subscriptions n)(name := None)\<rparr>))
      | None \<Rightarrow> (False, n))"

definition attach_now :: "rstring \<Rightarrow> ('t, 'w, 'r) node \<Rightarrow> ('t, 'w, 'r) node" where
  "attach_now name n = n\<lparr>nd_attach_backoff := (nd_attach_backoff n)(name := None)\<rparr>"

definition retire_subscription :: "rstring \<Rightarrow> ('t, 'w, 'r) node \<Rightarrow> ('t, 'w, 'r) node" where
  "retire_subscription name n = attach_now name (snd (unsubscribe name n))"

subsection \<open>Connection slots\<close>

text \<open>A slot is taken by counting first and comparing what the counter was: one atomic operation that
  decides. A refusal has still counted itself, and gives that back by another, \<open>release_conn\<close>, as the guard
  of a slot that was given does when it is dropped; another thread may look at the counter in between.\<close>

definition acquire_conn :: "('t, 'w, 'r) node \<Rightarrow> bool \<times> ('t, 'w, 'r) node" where
  "acquire_conn n = (\<not> nd_conns n \<ge> MAX_CONNECTIONS, n\<lparr>nd_conns := nd_conns n + 1\<rparr>)"

definition release_conn :: "('t, 'w, 'r) node \<Rightarrow> ('t, 'w, 'r) node" where
  "release_conn n = n\<lparr>nd_conns := nd_conns n - 1\<rparr>"

subsection \<open>Claiming and hosting\<close>

definition node_announce :: "channel_identity list \<Rightarrow> (('t, 'w, 'r) node, unit) act" where
  "node_announce delta n =
     map_option (\<lambda>d. (Inr (), n\<lparr>nd_bcast := d\<rparr>)) (announce delta (nd_bcast n))"

text \<open>A claim is one thread's run. It holds the registry's lock for the merge only; another thread may change
  the registry, and publish, before this one publishes (theory \<open>Discovery\<close>).\<close>

definition claim_name ::
  "'t fs_api \<Rightarrow> ('t, 'w) writer_api \<Rightarrow> instant \<Rightarrow> u64 \<Rightarrow> rstring \<Rightarrow> u32 \<Rightarrow> u32 \<Rightarrow> rstring option \<Rightarrow>
     ('t, 'w, 'r) node \<Rightarrow> channel_identity io_result \<times> ('t, 'w, 'r) node" where
  "claim_name fs wapi now nanos name region_size mtu member_of n =
     (let identity = \<lparr>ci_name = name, ci_owner = self_id n, ci_region_size = region_size, ci_mtu = mtu,
            ci_earliest_index = 0, ci_registered_at_nanos = nanos, ci_epoch = claim_epoch (nd_registry n) name,
            ci_deleted = False, ci_member_of = member_of\<rparr>;
          (m, reg) = merge_tracked (nd_registry n) identity;
          n1 = n\<lparr>nd_registry := reg\<rparr>;
          n2 = (if changed m then publish_change fs wapi (change_of now n1 (winner m)) n1 else n1)
      in if ci_owner (winner m) \<noteq> self_id n \<or> ci_deleted (winner m)
         then (Inl (IoError AlreadyExists ''channel already registered - registration rejected''), n2)
         else (Inr identity, n2))"

definition announce_hosted ::
  "channel_identity \<Rightarrow> path \<Rightarrow> u64 \<Rightarrow> u32 \<Rightarrow> (('t, 'w, 'r) node, unit) act" where
  "announce_hosted identity p file_roll_size keep_files =
     act_bind (node_announce [identity]) (\<lambda>_.
     act_modify (\<lambda>n. n\<lparr>nd_hosted := (nd_hosted n)(ci_name identity \<mapsto>
       \<lparr>cs_path = p, cs_region_size = ci_region_size identity, cs_mtu = ci_mtu identity,
        cs_file_roll_size = file_roll_size, cs_keep_files = keep_files\<rparr>)\<rparr>))"

definition ensure_parent :: "'t fs_api \<Rightarrow> path \<Rightarrow> (('t, 'w, 'r) node, unit) act" where
  "ensure_parent fs p =
     (case path_parent p of
        None \<Rightarrow> act_return ()
      | Some d \<Rightarrow> act_total (on_fs (ensure_private_dir fs d)))"

definition origin_config :: "channel_identity \<Rightarrow> channel_options \<Rightarrow> writer_config" where
  "origin_config identity options =
     \<lparr>wc_region_size = unat (co_region_size options), wc_mtu = ucast (co_mtu options),
      wc_file_roll_size = Some (co_file_roll_size options), wc_base_record_index = Some 0,
      wc_generation = Some (ci_epoch identity), wc_channel_name = ci_name identity,
      wc_keep_files = (if co_keep_files options > 0 then Some (ucast (co_keep_files options)) else None)\<rparr>"

text \<open>The outside of an operation on channels: the file system, the writers of xchannel, its
  \<open>precreate\<close>, and the longest name it stamps.\<close>

record ('t, 'w) outside =
  os_fs :: "'t fs_api"
  os_writer :: "('t, 'w) writer_api"
  os_precreate :: "'t \<Rightarrow> path \<Rightarrow> writer_config \<Rightarrow> unit io_result \<times> 't"
  os_name_max :: nat

definition node_channel_path :: "('t, 'w) outside \<Rightarrow> ('t, 'w, 'r) node \<Rightarrow> rstring \<Rightarrow> path io_result" where
  "node_channel_path os n name = channel_path (os_name_max os) (cfg_data_dir (nd_config n)) name"

definition node_replica_path :: "('t, 'w) outside \<Rightarrow> ('t, 'w, 'r) node \<Rightarrow> rstring \<Rightarrow> path io_result" where
  "node_replica_path os n name = replica_path (os_name_max os) (cfg_data_dir (nd_config n)) name"

definition create_origin ::
  "('t, 'w) outside \<Rightarrow> instant \<Rightarrow> u64 \<Rightarrow> rstring \<Rightarrow> channel_options \<Rightarrow> rstring option \<Rightarrow>
     (('t, 'w, 'r) node, path) act" where
  "create_origin os now nanos name options member_of = (\<lambda>n.
     act_bind (act_lift (node_channel_path os n name)) (\<lambda>p.
     act_bind (act_total (claim_name (os_fs os) (os_writer os) now nanos name (co_region_size options)
                 (co_mtu options) member_of)) (\<lambda>identity.
     act_bind (ensure_parent (os_fs os) p) (\<lambda>_.
     act_bind (act_lift (wr_name_check (os_writer os) name)) (\<lambda>_.
     act_bind (act_total (on_fs (\<lambda>t. os_precreate os t p (origin_config identity options)))) (\<lambda>_.
     act_bind (announce_hosted identity p (co_file_roll_size options) (co_keep_files options)) (\<lambda>_.
     act_return p)))))) n)"

definition create_for_client ::
  "('t, 'w) outside \<Rightarrow> instant \<Rightarrow> u64 \<Rightarrow> rstring \<Rightarrow> channel_options \<Rightarrow> (('t, 'w, 'r) node, path) act" where
  "create_for_client os now nanos name options = create_origin os now nanos name options None"

text \<open>\<open>host_channel\<close>: \<open>configure\<close> is the caller's closure over the builder; the daemon's settings are
  applied after it.\<close>

definition host_config :: "channel_identity \<Rightarrow> u32 \<Rightarrow> u32 \<Rightarrow> writer_config \<Rightarrow> writer_config" where
  "host_config identity region_size mtu c =
     c\<lparr>wc_region_size := unat region_size, wc_mtu := ucast mtu, wc_base_record_index := Some 0,
       wc_generation := Some (ci_epoch identity), wc_channel_name := ci_name identity\<rparr>"

definition host_channel ::
  "('t, 'w) outside \<Rightarrow> instant \<Rightarrow> u64 \<Rightarrow> rstring \<Rightarrow> u32 \<Rightarrow> u32 \<Rightarrow> writer_config \<Rightarrow> (('t, 'w, 'r) node, 'w) act" where
  "host_channel os now nanos name region_size mtu configured = (\<lambda>n.
     act_bind (act_lift (node_channel_path os n name)) (\<lambda>p.
     act_bind (act_total (claim_name (os_fs os) (os_writer os) now nanos name region_size mtu None)) (\<lambda>identity.
     act_bind (ensure_parent (os_fs os) p) (\<lambda>_.
     act_bind (act_lift (wr_name_check (os_writer os) name)) (\<lambda>_.
     act_bind (act_total (on_fs (\<lambda>t. wr_build (os_writer os) t p (host_config identity region_size mtu configured)))) (\<lambda>w.
     act_bind (announce_hosted identity p 0 0) (\<lambda>_.
     act_return w)))))) n)"

subsection \<open>Retiring and reclaiming\<close>

definition disseminate_tombstone ::
  "('t, 'w) outside \<Rightarrow> instant \<Rightarrow> channel_identity \<Rightarrow> (('t, 'w, 'r) node, unit) act" where
  "disseminate_tombstone os now tombstone =
     act_bind (act_modify (\<lambda>n. publish_change (os_fs os) (os_writer os) (change_of now n tombstone) n)) (\<lambda>_.
     node_announce [tombstone])"

definition remove_channel_dir :: "('t, 'w) outside \<Rightarrow> rstring \<Rightarrow> ('t, 'w, 'r) node \<Rightarrow> ('t, 'w, 'r) node" where
  "remove_channel_dir os name n =
     (case channel_dir (os_name_max os) (cfg_data_dir (nd_config n)) name of
        Inl _ \<Rightarrow> n
      | Inr dir \<Rightarrow> n\<lparr>nd_fs := snd (fs_remove_dir_all (os_fs os) (nd_fs n) dir)\<rparr>)"

definition node_deregister ::
  "('t, 'w) outside \<Rightarrow> instant \<Rightarrow> rstring \<Rightarrow> (('t, 'w, 'r) node, bool) act" where
  "node_deregister os now name = (\<lambda>n.
     case deregister (nd_registry n) name (self_id n) of
       (None, reg) \<Rightarrow> Some (Inr False, n\<lparr>nd_registry := reg\<rparr>)
     | (Some tombstone, reg) \<Rightarrow>
         act_bind (act_modify (\<lambda>n. n\<lparr>nd_registry := reg, nd_hosted := (nd_hosted n)(name := None)\<rparr>)) (\<lambda>_.
         act_bind (disseminate_tombstone os now tombstone) (\<lambda>_.
         act_bind (act_modify (remove_channel_dir os name)) (\<lambda>_.
         act_return True))) n)"

definition unreachable_for ::
  "instant \<Rightarrow> node_id \<Rightarrow> ('t, 'w, 'r) node \<Rightarrow> duration \<times> ('t, 'w, 'r) node" where
  "unreachable_for now owner n =
     (case bd_silent_for now (nd_bcast n) owner of
        Some silence \<Rightarrow> (silence, n)
      | None \<Rightarrow>
          (case nd_owner_unreachable_since n owner of
             Some t \<Rightarrow> (now - t, n)
           | None \<Rightarrow> (0, n\<lparr>nd_owner_unreachable_since := (nd_owner_unreachable_since n)(owner \<mapsto> now)\<rparr>)))"

definition force_deregister ::
  "('t, 'w) outside \<Rightarrow> instant \<Rightarrow> rstring \<Rightarrow> (('t, 'w, 'r) node, bool) act" where
  "force_deregister os now name = (\<lambda>n.
     case get (nd_registry n) name of
       None \<Rightarrow> Some (Inr False, n)
     | Some i \<Rightarrow>
         if ci_owner i = self_id n then
           Some (Inl (IoError InvalidInput ''channel is owned by this node - use deregister''), n)
         else if bd_live_addr_of now (nd_bcast n) (ci_owner i) \<noteq> None then
           Some (Inl (IoError ResourceBusy ''owner is a live member - it has not gone anywhere''), n)
         else
           let (away, n1) = unreachable_for now (ci_owner i) n in
           if away < cfg_reclaim_after (nd_config n) then
             Some (Inl (IoError ResourceBusy ''owner has been unreachable for less than required to reclaim it''), n1)
           else
             (case reap (nd_registry n1) name of
                (None, reg) \<Rightarrow> Some (Inr False, n1\<lparr>nd_registry := reg\<rparr>)
              | (Some tombstone, reg) \<Rightarrow>
                  act_bind (disseminate_tombstone os now tombstone) (\<lambda>_.
                  act_bind (act_modify (retire_subscription name)) (\<lambda>_.
                  act_return True)) (n1\<lparr>nd_registry := reg\<rparr>)))"

definition note_unreachable_owners :: "instant \<Rightarrow> ('t, 'w, 'r) node \<Rightarrow> ('t, 'w, 'r) node" where
  "note_unreachable_owners now n =
     (let owners = ci_owner ` {i \<in> set (registry_iter (nd_registry n)). \<not> ci_deleted i \<and> ci_owner i \<noteq> self_id n};
          live = set (bd_live_members now (nd_bcast n))
      in n\<lparr>nd_owner_unreachable_since := (\<lambda>node.
             if node \<in> owners \<and> node \<notin> live
             then (case nd_owner_unreachable_since n node of Some t \<Rightarrow> Some t | None \<Rightarrow> Some now)
             else None)\<rparr>)"


text \<open>One member of a topic with a reap threshold; a dissemination that does not return is \<open>None\<close>.\<close>

definition reap_member ::
  "('t, 'w) outside \<Rightarrow> instant \<Rightarrow> duration \<Rightarrow> channel_identity \<Rightarrow> ('t, 'w, 'r) node \<Rightarrow> ('t, 'w, 'r) node option" where
  "reap_member os now reap_after m n =
     (let key = (ci_name m, ci_epoch m) in
      if owner_is_live now n (ci_owner m)
      then Some (n\<lparr>nd_member_dead_since := (nd_member_dead_since n)(key := None)\<rparr>)
      else
        let since = (case nd_member_dead_since n key of Some t \<Rightarrow> t | None \<Rightarrow> now) in
        if now - since \<ge> reap_after then
          (case reap (nd_registry n) (ci_name m) of
             (None, reg) \<Rightarrow>
               Some (n\<lparr>nd_member_dead_since := (nd_member_dead_since n)(key := None), nd_registry := reg\<rparr>)
           | (Some tombstone, reg) \<Rightarrow>
               map_option snd (disseminate_tombstone os now tombstone
                 (n\<lparr>nd_member_dead_since := (nd_member_dead_since n)(key := None), nd_registry := reg\<rparr>)))
        else Some (n\<lparr>nd_member_dead_since := (nd_member_dead_since n)(key \<mapsto> since)\<rparr>))"

definition topic_members :: "rstring \<Rightarrow> ('t, 'w, 'r) node \<Rightarrow> channel_identity list" where
  "topic_members topic n =
     filter (\<lambda>i. \<not> ci_deleted i \<and> ci_member_of i = Some topic) (registry_iter (nd_registry n))"

fun reap_members ::
  "('t, 'w) outside \<Rightarrow> instant \<Rightarrow> duration \<Rightarrow> channel_identity list \<Rightarrow> ('t, 'w, 'r) node \<Rightarrow> ('t, 'w, 'r) node option" where
  "reap_members os now reap_after [] n = Some n"
| "reap_members os now reap_after (m # ms) n =
     Option.bind (reap_member os now reap_after m n) (reap_members os now reap_after ms)"

fun reap_topics ::
  "('t, 'w) outside \<Rightarrow> instant \<Rightarrow> (rstring \<times> duration) list \<Rightarrow> ('t, 'w, 'r) node \<Rightarrow> ('t, 'w, 'r) node option" where
  "reap_topics os now [] n = Some n"
| "reap_topics os now ((topic, reap_after) # ts) n =
     Option.bind (reap_members os now reap_after (topic_members topic n) n) (reap_topics os now ts)"

definition reap_dead_members ::
  "('t, 'w) outside \<Rightarrow> instant \<Rightarrow> ('t, 'w, 'r) node \<Rightarrow> ('t, 'w, 'r) node option" where
  "reap_dead_members os now n = reap_topics os now (RBT.entries (nd_topic_reap n)) n"

subsection \<open>Gossip\<close>

definition lost_to :: "channel_identity \<Rightarrow> channel_identity \<Rightarrow> bool" where
  "lost_to incoming w \<longleftrightarrow>
     (ci_epoch incoming, ci_deleted incoming, ci_registered_at_nanos incoming, ci_owner incoming) \<noteq>
     (ci_epoch w, ci_deleted w, ci_registered_at_nanos w, ci_owner w)"

text \<open>The maps keyed by link are iterated in key order (the code's order is unspecified).\<close>

type_synonym deltas = "(peer_id, channel_identity list) rbt"

definition push_delta :: "peer_id \<Rightarrow> channel_identity \<Rightarrow> deltas \<Rightarrow> deltas" where
  "push_delta link i ds =
     RBT.insert link ((case RBT.lookup ds link of Some l \<Rightarrow> l | None \<Rightarrow> []) @ [i]) ds"

record ('t, 'w, 'r) gossip =
  gs_node :: "('t, 'w, 'r) node"
  gs_relay :: deltas
  gs_reply :: deltas
  gs_retired :: "rstring list"

definition gossip_one ::
  "'t fs_api \<Rightarrow> ('t, 'w) writer_api \<Rightarrow> instant \<Rightarrow> peer_id \<times> channel_identity \<Rightarrow> ('t, 'w, 'r) gossip \<Rightarrow> ('t, 'w, 'r) gossip" where
  "gossip_one fs wapi now fi g =
     (case fi of (link, i) \<Rightarrow>
       (case merge_and_publish fs wapi now i (gs_node g) of
          (m, n) \<Rightarrow>
            \<lparr>gs_node = n,
             gs_relay = (if changed m then push_delta link (winner m) (gs_relay g) else gs_relay g),
             gs_reply = (if \<not> changed m \<and> lost_to i (winner m) then push_delta link (winner m) (gs_reply g) else gs_reply g),
             gs_retired = (if ci_deleted (winner m) then gs_retired g @ [ci_name i] else gs_retired g)\<rparr>))"

definition gossip_merge ::
  "'t fs_api \<Rightarrow> ('t, 'w) writer_api \<Rightarrow> instant \<Rightarrow> (peer_id \<times> channel_identity) list \<Rightarrow> ('t, 'w, 'r) node \<Rightarrow> ('t, 'w, 'r) gossip" where
  "gossip_merge fs wapi now pumped n =
     fold (gossip_one fs wapi now) pumped
       \<lparr>gs_node = n, gs_relay = RBT.empty, gs_reply = RBT.empty, gs_retired = []\<rparr>"

fun send_deltas ::
  "(peer_id \<Rightarrow> channel_identity list \<Rightarrow> bcast \<Rightarrow> bcast option) \<Rightarrow> (peer_id \<times> channel_identity list) list \<Rightarrow> bcast \<Rightarrow> bcast option" where
  "send_deltas send [] d = Some d"
| "send_deltas send ((link, delta) # ds) d = Option.bind (send link delta d) (send_deltas send ds)"

definition gossip_pass ::
  "'t fs_api \<Rightarrow> ('t, 'w) writer_api \<Rightarrow> instant \<Rightarrow> (peer_id \<times> channel_identity) list \<Rightarrow> ('t, 'w, 'r) node \<Rightarrow> ('t, 'w, 'r) node option" where
  "gossip_pass fs wapi now pumped n =
     (let g = gossip_merge fs wapi now pumped n in
      Option.bind (send_deltas relay (RBT.entries (gs_relay g)) (nd_bcast (gs_node g))) (\<lambda>d1.
      Option.bind (send_deltas reply (RBT.entries (gs_reply g)) d1) (\<lambda>d2.
        Some (fold retire_subscription (gs_retired g) ((gs_node g)\<lparr>nd_bcast := d2\<rparr>)))))"

subsection \<open>Duplicate identities\<close>

datatype on_duplicate_identity = Continue | StepAside

text \<open>\<open>removed\<close> is what the file system answers when the identity file is removed.\<close>

definition report_duplicate_identity ::
  "unit io_result \<Rightarrow> node_id list \<Rightarrow> ('t, 'w, 'r) node \<Rightarrow> on_duplicate_identity \<times> ('t, 'w, 'r) node" where
  "report_duplicate_identity removed conflicts n =
     (let n1 = n\<lparr>nd_dup_reported := fold List.insert conflicts (nd_dup_reported n)\<rparr> in
      if self_id n \<notin> set conflicts then (Continue, n1)
      else if \<not> cfg_id_generated (nd_config n) then (Continue, n1)
      else if nd_hosted n \<noteq> Map.empty then (Continue, n1)
      else (case discard removed of Inr _ \<Rightarrow> (StepAside, n1) | Inl _ \<Rightarrow> (Continue, n1)))"

text \<open>The dissemination half of a maintenance tick: what it pumped, and whether a restart was asked for.\<close>

definition tick_links :: "bcast \<Rightarrow> (node_id list \<times> bcast) option" where
  "tick_links d =
     Option.bind (emit_heartbeat (begin_tick d)) (\<lambda>d1.
     Option.bind (relay_hints d1) (\<lambda>d2. Some (dedup_links d2)))"

definition tick_pump ::
  "unit io_result \<Rightarrow> ('t, 'w, 'r) node \<Rightarrow> ((peer_id \<times> channel_identity) list \<times> bool \<times> ('t, 'w, 'r) node) option" where
  "tick_pump removed n =
     (case tick_links (nd_bcast n) of
        None \<Rightarrow> None
      | Some (conflicts, d) \<Rightarrow>
          let (verdict, n1) = (if conflicts \<noteq> [] then report_duplicate_identity removed conflicts (n\<lparr>nd_bcast := d\<rparr>)
                               else (Continue, n\<lparr>nd_bcast := d\<rparr>));
              (pumped, d2) = pump (nd_bcast n1)
          in Some (pumped, verdict = StepAside, n1\<lparr>nd_bcast := d2\<rparr>))"

subsection \<open>Resolution\<close>

text \<open>The loop of \<open>resolve\<close> over the states of the node at each turn, each with the clock; \<open>None\<close> when it
  has not returned by the last of them.\<close>

fun resolve_loop ::
  "rstring \<Rightarrow> instant option \<Rightarrow> bool \<Rightarrow> (instant \<times> ('t, 'w, 'r) node) list \<Rightarrow>
     (channel_identity \<times> socket_addr) io_result option" where
  "resolve_loop name deadline owner_unreachable [] = None"
| "resolve_loop name deadline owner_unreachable ((now, n) # turns) =
     (let found = get (nd_registry n) name;
          addr = (case found of
             None \<Rightarrow> None
           | Some i \<Rightarrow> if ci_owner i = self_id n then nd_bound_stream_addr n
                       else bd_live_addr_of now (nd_bcast n) (ci_owner i));
          unreachable = (case found of
             Some i \<Rightarrow> if ci_owner i = self_id n then owner_unreachable else addr = None
           | None \<Rightarrow> owner_unreachable)
      in case (found, addr) of
           (Some i, Some a) \<Rightarrow> Some (Inr (i, a))
         | _ \<Rightarrow>
             (case deadline of
                Some dl \<Rightarrow>
                  if now \<ge> dl then
                    Some (Inl (if unreachable
                      then IoError HostUnreachable ''channel known but its owner is not a live member''
                      else IoError TimedOut ''channel not resolvable within timeout''))
                  else resolve_loop name deadline unreachable turns
              | None \<Rightarrow> resolve_loop name deadline unreachable turns))"

definition resolve ::
  "rstring \<Rightarrow> duration option \<Rightarrow> instant \<Rightarrow> (instant \<times> ('t, 'w, 'r) node) list \<Rightarrow>
     (channel_identity \<times> socket_addr) io_result option" where
  "resolve name timeout start turns = resolve_loop name (map_option (\<lambda>t. start + t) timeout) False turns"

end
