(* ===== verification/Node_Props.thy ===== *)
theory Node_Props
  imports Node
begin

text \<open>
  What the node's operations on names guarantee: claims are exact, retiring and reclaiming are safe, and
  gossip makes two nodes agree and then stops. The samples here serve the witnesses of the other theories.
\<close>

subsection \<open>Frames\<close>

lemma open_discovery_sel [simp]:
  "nd_registry (snd (open_discovery fs wapi n)) = nd_registry n"
  "nd_bcast (snd (open_discovery fs wapi n)) = nd_bcast n"
  "nd_config (snd (open_discovery fs wapi n)) = nd_config n"
  "nd_hosted (snd (open_discovery fs wapi n)) = nd_hosted n"
  "nd_owner_unreachable_since (snd (open_discovery fs wapi n)) = nd_owner_unreachable_since n"
  by (simp_all add: open_discovery_def Let_def case_prod_beta split: option.split sum.split)

lemma publish_change_sel [simp]:
  "nd_registry (publish_change fs wapi c n) = nd_registry n"
  "nd_bcast (publish_change fs wapi c n) = nd_bcast n"
  "nd_config (publish_change fs wapi c n) = nd_config n"
  "nd_hosted (publish_change fs wapi c n) = nd_hosted n"
  "nd_owner_unreachable_since (publish_change fs wapi c n) = nd_owner_unreachable_since n"
  by (simp_all add: publish_change_def case_prod_beta split: sum.split)

subsection \<open>Gossip between two nodes\<close>

lemma merge_and_publish_sel:
  "fst (merge_and_publish fs wapi now i n) = fst (merge_tracked (nd_registry n) i)"
  "nd_registry (snd (merge_and_publish fs wapi now i n)) = snd (merge (nd_registry n) i)"
  by (simp_all add: merge_and_publish_def Let_def case_prod_beta snd_merge_tracked)

definition delta_for :: "deltas \<Rightarrow> peer_id \<Rightarrow> channel_identity list" where
  "delta_for ds link = (case RBT.lookup ds link of Some l \<Rightarrow> l | None \<Rightarrow> [])"

lemma delta_for_push [simp]:
  "delta_for (push_delta link i ds) k = (if k = link then delta_for ds k @ [i] else delta_for ds k)"
  by (simp add: delta_for_def push_delta_def)

lemma delta_for_empty [simp]: "delta_for RBT.empty k = []"
  by (simp add: delta_for_def)

definition win :: "registry \<Rightarrow> channel_identity \<Rightarrow> channel_identity" where
  "win r i = fst (merge r i)"

definition moves :: "registry \<Rightarrow> channel_identity \<Rightarrow> bool" where
  "moves r i = changed (fst (merge_tracked r i))"

text \<open>What a pass over one link's identities sends, as a function of the registry alone.\<close>

fun relays :: "registry \<Rightarrow> channel_identity list \<Rightarrow> channel_identity list" where
  "relays r [] = []"
| "relays r (i # is) = (if moves r i then [win r i] else []) @ relays (snd (merge r i)) is"

fun replies :: "registry \<Rightarrow> channel_identity list \<Rightarrow> channel_identity list" where
  "replies r [] = []"
| "replies r (i # is) = (if \<not> moves r i \<and> lost_to i (win r i) then [win r i] else []) @ replies (snd (merge r i)) is"

lemma gossip_fold:
  "let g' = fold (gossip_one fs wapi now) (map (Pair link) is) g; r = nd_registry (gs_node g) in
   nd_registry (gs_node g') = merge_all r is \<and>
   delta_for (gs_relay g') link = delta_for (gs_relay g) link @ relays r is \<and>
   delta_for (gs_reply g') link = delta_for (gs_reply g) link @ replies r is"
proof (induction "is" arbitrary: g)
  case Nil
  then show ?case by (simp add: merge_all_def)
next
  case (Cons i "is")
  let ?g1 = "gossip_one fs wapi now (link, i) g"
  have "nd_registry (gs_node ?g1) = snd (merge (nd_registry (gs_node g)) i)"
    by (simp add: gossip_one_def case_prod_beta merge_and_publish_sel)
  moreover have "delta_for (gs_relay ?g1) link = delta_for (gs_relay g) link @
      (if moves (nd_registry (gs_node g)) i then [win (nd_registry (gs_node g)) i] else [])"
    by (simp add: gossip_one_def case_prod_beta merge_and_publish_sel moves_def win_def fst_merge_tracked)
  moreover have "delta_for (gs_reply ?g1) link = delta_for (gs_reply g) link @
      (if \<not> moves (nd_registry (gs_node g)) i \<and> lost_to i (win (nd_registry (gs_node g)) i)
       then [win (nd_registry (gs_node g)) i] else [])"
    by (simp add: gossip_one_def case_prod_beta merge_and_publish_sel moves_def win_def fst_merge_tracked)
  ultimately show ?case using Cons [of ?g1] by (simp add: Let_def merge_all_def)
qed

lemma gossip_merge_link:
  "nd_registry (gs_node (gossip_merge fs wapi now (map (Pair link) is) n)) = merge_all (nd_registry n) is"
  "delta_for (gs_relay (gossip_merge fs wapi now (map (Pair link) is) n)) link = relays (nd_registry n) is"
  "delta_for (gs_reply (gossip_merge fs wapi now (map (Pair link) is) n)) link = replies (nd_registry n) is"
  using gossip_fold [of fs wapi now link "is" "\<lparr>gs_node = n, gs_relay = RBT.empty, gs_reply = RBT.empty, gs_retired = []\<rparr>"]
  by (simp_all add: gossip_merge_def Let_def)

lemma lost_to_key: "lost_to i w \<longleftrightarrow> identity_key i \<noteq> identity_key w"
  by (auto simp: lost_to_def identity_key_eq_iff)

lemma merge_other: "k \<noteq> ci_name i \<Longrightarrow> registry_wf r \<Longrightarrow> get_raw (snd (merge r i)) k = get_raw r k"
  by (simp add: get_raw_merge)


lemma win_none: "get_raw r (ci_name i) = None \<Longrightarrow> win r i = i"
  by (simp add: win_def fst_merge)

lemma win_some: "get_raw r (ci_name i) = Some b \<Longrightarrow> win r i = (if identity_key i \<le> identity_key b then b else i)"
  by (simp add: win_def fst_merge resolve_collision_by_key)

lemma name_win: "registry_wf r \<Longrightarrow> ci_name (win r i) = ci_name i"
  by (cases "get_raw r (ci_name i)") (auto simp: win_none win_some dest: registry_wfD)

lemma moves_iff: "registry_wf r \<Longrightarrow> moves r i \<longleftrightarrow> get_raw r (ci_name i) \<noteq> Some (win r i)"
  using name_win [of r i] by (simp add: moves_def win_def registry_defs)

lemma win_cong: "get_raw r (ci_name i) = get_raw r' (ci_name i) \<Longrightarrow> win r i = win r' i"
  by (simp add: win_def fst_merge)

text \<open>Identities of different names do not interfere.\<close>

lemma deltas_distinct:
  "distinct (map ci_name is) \<Longrightarrow> registry_wf r \<Longrightarrow>
     relays r is = map (win r) (filter (moves r) is) \<and>
     replies r is = map (win r) (filter (\<lambda>i. \<not> moves r i \<and> lost_to i (win r i)) is)"
proof (induction "is" arbitrary: r)
  case (Cons i "is")
  let ?r = "snd (merge r i)"
  have eq: "get_raw ?r (ci_name j) = get_raw r (ci_name j)" if "j \<in> set is" for j
  proof (rule merge_other [OF _ Cons.prems(2)])
    show "ci_name j \<noteq> ci_name i" using Cons.prems(1) that by (metis distinct.simps(2) image_eqI list.simps(9) set_map)
  qed
  then have w: "win ?r j = win r j" and m: "moves ?r j = moves r j" if "j \<in> set is" for j
    using that win_cong [of ?r j r] Cons.prems(2) by (simp_all add: moves_iff)
  have "map (win ?r) (filter P' is) = map (win r) (filter P is)" if "\<And>j. j \<in> set is \<Longrightarrow> P' j = P j" for P P'
    using that w by (simp cong: filter_cong)
  with Cons.IH [of ?r] Cons.prems w m show ?case by simp
qed simp

text \<open>What one entry of the sender does to the receiver, by key.\<close>

lemma moves_key:
  "registry_wf r \<Longrightarrow> moves r i \<longleftrightarrow> \<not> (\<exists>b. get_raw r (ci_name i) = Some b \<and> identity_key i \<le> identity_key b)"
  by (cases "get_raw r (ci_name i)") (auto simp: moves_iff win_none win_some)

lemma moves_win: "registry_wf r \<Longrightarrow> moves r i \<Longrightarrow> win r i = i"
  by (cases "get_raw r (ci_name i)") (auto simp: moves_iff win_none win_some split: if_splits)

lemma reply_key:
  "registry_wf r \<Longrightarrow> \<not> moves r i \<and> lost_to i (win r i) \<longleftrightarrow>
     (\<exists>b. get_raw r (ci_name i) = Some b \<and> win r i = b \<and> identity_key i < identity_key b)"
  by (cases "get_raw r (ci_name i)") (auto simp: moves_key win_none win_some lost_to_key)

lemma key_merge_all:
  "registry_wf r \<Longrightarrow> map_option identity_key (get_raw (merge_all r xs) n) =
     (let S = set_option (get_raw r n) \<union> {x \<in> set xs. ci_name x = n}
      in if S = {} then None else Some (Max (identity_key ` S)))"
proof -
  assume wf: "registry_wf r"
  let ?c = "reg.candidates r xs n"
  have S: "set ?c = set_option (get_raw r n) \<union> {x \<in> set xs. ci_name x = n}" by (rule reg.set_candidates)
  have "?c = [] \<longleftrightarrow> set ?c = {}" by simp
  with reg.key_winner_of [of ?c] wf show ?thesis by (simp only: merge_all_def reg.lookup_joins Let_def S)
qed

lemma same_name_unique:
  "distinct (map ci_name is) \<Longrightarrow> i \<in> set is \<Longrightarrow> {x \<in> set is. ci_name x = ci_name i} = {i}"
  by (auto simp: distinct_map dest: inj_onD)

lemma replies_for:
  assumes "distinct (map ci_name is)" and "registry_wf r" and "i \<in> set is"
  shows "{x \<in> set (replies r is). ci_name x = ci_name i} =
    (if \<not> moves r i \<and> lost_to i (win r i) then {win r i} else {})"
proof -
  have "{x \<in> set (replies r is). ci_name x = ci_name i} =
      win r ` {j \<in> {j \<in> set is. ci_name j = ci_name i}. \<not> moves r j \<and> lost_to j (win r j)}"
    using deltas_distinct [OF assms(1,2)] name_win [OF assms(2)] by auto
  then show ?thesis unfolding same_name_unique [OF assms(1,3)] by auto
qed

lemma exchange_agrees:
  assumes wf: "registry_wf a" "registry_wf b" and "\<forall>i\<in>set is. get_raw a (ci_name i) = Some i"
    and d: "distinct (map ci_name is)" and i: "i \<in> set is"
  shows "map_option identity_key (get_raw (merge_all a (replies b is)) (ci_name i)) =
    map_option identity_key (get_raw (merge_all b is) (ci_name i))"
proof -
  have a: "get_raw a (ci_name i) = Some i" using assms(3) i by blast
  have A: "map_option identity_key (get_raw (merge_all a (replies b is)) (ci_name i)) =
      Some (Max (identity_key ` ({i} \<union> (if \<not> moves b i \<and> lost_to i (win b i) then {win b i} else {}))))"
    unfolding key_merge_all [OF wf(1)] replies_for [OF d wf(2) i] a by simp
  have B: "map_option identity_key (get_raw (merge_all b is) (ci_name i)) =
      Some (Max (identity_key ` (set_option (get_raw b (ci_name i)) \<union> {i})))"
    unfolding key_merge_all [OF wf(2)] same_name_unique [OF d i] by simp
  show ?thesis
  proof (cases "get_raw b (ci_name i)")
    case None
    then show ?thesis unfolding A B by (simp add: moves_key [OF wf(2)])
  next
    case (Some e)
    then show ?thesis
      unfolding A B
      by (cases "identity_key i" "identity_key e" rule: linorder_cases)
         (auto simp: moves_key [OF wf(2)] win_some lost_to_key max_def)
  qed
qed

lemma replies_stop:
  assumes wf: "registry_wf a" "registry_wf b" and own: "\<forall>i\<in>set is. get_raw a (ci_name i) = Some i"
    and d: "distinct (map ci_name is)"
  shows "replies a (replies b is) = []"
proof -
  have r: "replies b is = map (win b) (filter (\<lambda>i. \<not> moves b i \<and> lost_to i (win b i)) is)"
    using deltas_distinct [OF d wf(2)] by blast
  have "distinct (map ci_name (replies b is))"
    using d name_win [OF wf(2)] by (simp add: r comp_def distinct_map_filter)
  moreover have "moves a x" if "x \<in> set (replies b is)" for x
  proof -
    from that obtain i where i: "i \<in> set is" "x = win b i" "identity_key i < identity_key x"
      using reply_key [OF wf(2)] unfolding r by auto
    then have "get_raw a (ci_name x) = Some i" using own name_win [OF wf(2)] by simp
    with i(3) show ?thesis by (simp add: moves_key [OF wf(1)])
  qed
  ultimately show ?thesis using deltas_distinct [OF _ wf(1)] by simp
qed

text \<open>C8. An exchange settles the disagreement, and then stops. A node sends identities it holds, its
  whole registry or any part of it; the receiver merges them in one maintenance pass. It floods on
  exactly those that beat what it held, and sends back its own entry for exactly those that lost. Once
  the sender has merged the answer, both hold entries of the same epoch, liveness, registration time and
  owner for every name sent, and the answer provokes no answer.\<close>

theorem gossip_settles:
  assumes "registry_wf (nd_registry a)" and "registry_wf (nd_registry b)"
    and "\<forall>i\<in>set ids. get_raw (nd_registry a) (ci_name i) = Some i" and "distinct (map ci_name ids)"
  shows "let gb = gossip_merge fs wapi now (map (Pair l) ids) b;
             back = delta_for (gs_reply gb) l;
             ga = gossip_merge fs' wapi' now' (map (Pair k) back) a
         in (\<forall>i\<in>set ids. map_option identity_key (get_raw (nd_registry (gs_node ga)) (ci_name i)) =
                          map_option identity_key (get_raw (nd_registry (gs_node gb)) (ci_name i))) \<and>
            set (delta_for (gs_relay gb) l) = {i \<in> set ids. \<not> (\<exists>e. get_raw (nd_registry b) (ci_name i) = Some e \<and>
                identity_key i \<le> identity_key e)} \<and>
            delta_for (gs_reply ga) k = []"
proof -
  have "set (relays (nd_registry b) ids) = {i \<in> set ids. moves (nd_registry b) i}"
    using deltas_distinct [OF assms(4,2)] moves_win [OF assms(2)] by (auto simp: image_iff)
  then show ?thesis
    using exchange_agrees [OF assms(1,2,3,4)] replies_stop [OF assms]
    by (simp add: Let_def gossip_merge_link moves_key [OF assms(2)])
qed


subsection \<open>Claiming a name\<close>

lemma get_raw_win: "registry_wf r \<Longrightarrow> get_raw (snd (merge r i)) k = (if k = ci_name i then Some (win r i) else get_raw r k)"
  by (simp add: get_raw_merge win_def fst_merge)

text \<open>C14. A claim is exact. When it succeeds the name is live here and owned by this node, at the
  generation it asked for; the entry is the one it returned or an earlier registration of its own. When
  it fails, it fails with \<open>AlreadyExists\<close>, the registry is as it was, and the name is another node's
  (or its generations are exhausted). No other name is touched.\<close>

theorem claim_exact:
  assumes "registry_wf (nd_registry n)"
    and "claim_name fs wapi now nanos name region_size mtu member_of n = (r, n')"
  shows "(\<forall>k. k \<noteq> name \<longrightarrow> get_raw (nd_registry n') k = get_raw (nd_registry n) k) \<and>
    (case r of
       Inr i \<Rightarrow> ci_name i = name \<and> ci_owner i = self_id n \<and> ci_epoch i = claim_epoch (nd_registry n) name \<and>
         (\<exists>e. get (nd_registry n') name = Some e \<and> ci_owner e = self_id n \<and> ci_epoch e = ci_epoch i \<and>
              (e = i \<or> get (nd_registry n) name = Some e))
     | Inl err \<Rightarrow> ekind err = AlreadyExists \<and> get_raw (nd_registry n') name = get_raw (nd_registry n) name \<and>
         (\<exists>e. get_raw (nd_registry n) name = Some e \<and>
              (ci_owner e \<noteq> self_id n \<and> \<not> ci_deleted e \<or> ci_deleted e \<and> ci_epoch e = -1)))"
proof -
  let ?r = "nd_registry n"
  define i where "i = \<lparr>ci_name = name, ci_owner = self_id n, ci_region_size = region_size, ci_mtu = mtu,
    ci_earliest_index = 0, ci_registered_at_nanos = nanos, ci_epoch = claim_epoch ?r name,
    ci_deleted = False, ci_member_of = member_of\<rparr>"
  have i: "ci_name i = name" "ci_owner i = self_id n" "ci_epoch i = claim_epoch ?r name" "\<not> ci_deleted i"
    by (simp_all add: i_def)
  from assms(2) have reg: "nd_registry n' = snd (merge ?r i)"
    and res: "r = (if ci_owner (win ?r i) \<noteq> self_id n \<or> ci_deleted (win ?r i)
      then Inl (IoError AlreadyExists ''channel already registered - registration rejected'') else Inr i)"
    by (auto simp: claim_name_def Let_def case_prod_beta snd_merge_tracked fst_merge_tracked win_def
        i_def [symmetric] split: if_splits)
  have raw: "get_raw (nd_registry n') k = (if k = name then Some (win ?r i) else get_raw ?r k)" for k
    using get_raw_win [OF assms(1)] by (simp add: reg i)
  show ?thesis
  proof (cases "get_raw ?r name")
    case None
    then have "win ?r i = i" using win_none [of ?r i] i by simp
    with res raw i show ?thesis by (auto simp: get_conv_raw)
  next
    case (Some e)
    then have w: "win ?r i = (if identity_key i \<le> identity_key e then e else i)" using win_some [of ?r i e] i by simp
    have ep: "ci_epoch i = (if ci_deleted e then ci_epoch e + 1 else ci_epoch e)"
      using Some by (simp add: i claim_epoch_def get_raw_def)
    have "ci_epoch e = -1" if "identity_key i \<le> identity_key e" "ci_deleted e"
    proof (rule ccontr)
      assume "ci_epoch e \<noteq> -1"
      then have "ci_epoch e < ci_epoch i" using ep that(2) word_less_add_1 [of "ci_epoch e"] by simp
      with that(1) show False by (auto simp: identity_key_def less_eq_prod_def word_less_def)
    qed
    with Some w ep res raw i show ?thesis by (auto simp: get_conv_raw split: if_splits)
  qed
qed

subsection \<open>Reclaiming another node's name\<close>

lemma disseminate_registry:
  "disseminate_tombstone os now t n = Some (r, n') \<Longrightarrow> r = Inr () \<and> nd_registry n' = nd_registry n"
  by (auto simp: disseminate_tombstone_def node_announce_def act_bind_Some)

lemma retire_registry [simp]: "nd_registry (retire_subscription name n) = nd_registry n"
  by (simp add: retire_subscription_def attach_now_def unsubscribe_def stop_sub_def split: option.split)

definition away :: "instant \<Rightarrow> ('t, 'w, 'r) node \<Rightarrow> node_id \<Rightarrow> duration" where
  "away now n owner =
     (case bd_silent_for now (nd_bcast n) owner of
        Some silence \<Rightarrow> silence
      | None \<Rightarrow> (case nd_owner_unreachable_since n owner of Some t \<Rightarrow> now - t | None \<Rightarrow> 0))"

lemma unreachable_for_away:
  "fst (unreachable_for now owner n) = away now n owner"
  "nd_registry (snd (unreachable_for now owner n)) = nd_registry n"
  by (simp_all add: unreachable_for_def away_def split: option.split)

text \<open>C13. Reclaiming is guarded by what this node observed of the owner. A forced deregistration
  succeeds only for a live name of another node that is not a live member and has been silent, or known
  and unreachable, for at least \<open>reclaim_after\<close>: an owner only just heard of is never reclaimed unless
  the floor is zero. It leaves the name tombstoned, so that the next claim is one generation later, and
  every other name as it was; in every other case no name changes.\<close>

theorem force_deregister_safe:
  assumes "registry_wf (nd_registry n)" and "force_deregister os now name n = Some (r, n')"
  shows "(r = Inr True \<longrightarrow>
      (\<exists>i. get (nd_registry n) name = Some i \<and> ci_owner i \<noteq> self_id n \<and>
         bd_live_addr_of now (nd_bcast n) (ci_owner i) = None \<and>
         cfg_reclaim_after (nd_config n) \<le> away now n (ci_owner i) \<and>
         get_raw (nd_registry n') name = Some (i\<lparr>ci_deleted := True\<rparr>) \<and>
         claim_epoch (nd_registry n') name = ci_epoch i + 1)) \<and>
    (\<forall>k. r = Inr True \<and> k = name \<or> get_raw (nd_registry n') k = get_raw (nd_registry n) k)"
proof (cases "get (nd_registry n) name")
  case None
  with assms(2) show ?thesis by (auto simp: force_deregister_def)
next
  case (Some i)
  then have raw: "get_raw (nd_registry n) name = Some i" "\<not> ci_deleted i"
    by (auto simp: get_conv_raw split: option.splits if_splits)
  let ?ok = "ci_owner i \<noteq> self_id n \<and> bd_live_addr_of now (nd_bcast n) (ci_owner i) = None \<and>
    cfg_reclaim_after (nd_config n) \<le> away now n (ci_owner i)"
  show ?thesis
  proof (cases ?ok)
    case False
    with assms(2) Some have "r \<noteq> Inr True \<and> nd_registry n' = nd_registry n"
      using unreachable_for_away [of now "ci_owner i" n]
      by (auto simp: force_deregister_def case_prod_beta Let_def split: if_splits)
    then show ?thesis by simp
  next
    case True
    let ?t = "i\<lparr>ci_deleted := True\<rparr>"
    have "ci_name i = name" using registry_wfD [OF assms(1) raw(1)] .
    then obtain reg where reap: "reap (nd_registry n) name = (Some ?t, reg)"
      "get_raw reg name = Some ?t" "\<forall>k. k \<noteq> name \<longrightarrow> get_raw reg k = get_raw (nd_registry n) k"
      using reap_cases [OF assms(1), of name] merge_tombstone [OF assms(1) raw(1,2)] Some
        get_raw_merge [OF assms(1), of ?t] by auto
    with assms(2) Some True have "nd_registry n' = reg" "r = Inr True"
      using unreachable_for_away [of now "ci_owner i" n]
      by (auto simp: force_deregister_def case_prod_beta Let_def act_bind_Some dest!: disseminate_registry)
    with reap True Some show ?thesis by (auto simp: claim_epoch_def get_raw_def)
  qed
qed

subsection \<open>Witnesses\<close>

text \<open>A directory tree over the reference logs: removing a directory removes every log below it.\<close>

definition tree_fs :: "files fs_api" where
  "tree_fs =
     \<lparr>fs_is_dir = (\<lambda>t p. \<exists>q l. t (p @ 47 # q) = Some l), fs_exists = (\<lambda>t p. t p \<noteq> None),
      fs_create_dir_all = (\<lambda>t p. (Inr (), t)), fs_set_private = (\<lambda>t p. (Inr (), t)),
      fs_remove_dir_all = (\<lambda>t p. (Inr (), \<lambda>q. if prefix (p @ [47]) q then None else t q))\<rparr>"

definition sample_outside :: "(files, seg_writer) outside" where
  "sample_outside =
     \<lparr>os_fs = tree_fs, os_writer = seg_writer_api,
      os_precreate = (\<lambda>t p c. case wr_build seg_writer_api t p c of (Inl e, t') \<Rightarrow> (Inl e, t') | (Inr w, t') \<Rightarrow> (Inr (), t')),
      os_name_max = 48\<rparr>"

definition sample_config :: "node_id \<Rightarrow> node_config" where
  "sample_config self =
     \<lparr>cfg_node_id = self, cfg_data_dir = ascii ''/d'', cfg_control_addr = SockV4 10 0 0 1 7000,
      cfg_stream_addr = SockV4 10 0 0 1 7001, cfg_advertise_control_addr = None, cfg_advertise_stream_addr = None,
      cfg_client_path = ascii ''/d/client.sock'', cfg_seeds = [], cfg_reclaim_after = 60, cfg_promoted_topics = [],
      cfg_mux_idle = \<lparr>idle_max_spins = 0, idle_max_yields = 0, idle_min_park = 1, idle_max_park = 1\<rparr>,
      cfg_node_name = [], cfg_id_generated = True\<rparr>"

definition sample_node :: "node_id \<Rightarrow> registry \<Rightarrow> (files, seg_writer, seg_reader) node" where
  "sample_node self reg = (node_new (sample_config self) Map.empty 5)\<lparr>nd_registry := reg\<rparr>"

lemma sample_node_sel [simp]:
  "nd_registry (sample_node self reg) = reg"
  "cfg_node_id (nd_config (sample_node self reg)) = self"
  "cfg_reclaim_after (nd_config (sample_node self reg)) = 60"
  "nd_owner_unreachable_since (sample_node self reg) = Map.empty"
  "bd_peers (nd_bcast (sample_node self reg)) = []"
  "bd_silent_for now (nd_bcast (sample_node self reg)) owner = None"
  "bd_live_addr_of now (nd_bcast (sample_node self reg)) owner = None"
  by (simp_all add: sample_node_def node_new_def sample_config_def bd_silent_for_def bd_live_addr_of_def
      set_self_name_def bcast_new_def silent_for_def live_addr_of_def membership_new_def)

lemma announce_alone: "bd_peers d = [] \<Longrightarrow> \<exists>d'. announce delta d = Some d'"
proof -
  have "\<exists>d'. send_each l fs d = Some d'" if "bd_peers d = []" for l fs and d :: bcast
    using that by (induction fs arbitrary: d) (simp_all add: send_except_def)
  then show "bd_peers d = [] \<Longrightarrow> \<exists>d'. announce delta d = Some d'" by (simp add: announce_def begin_burst_def)
qed

text \<open>Node 7 tells node 3, which holds an earlier claim of the name.\<close>

theorem gossip_settles_witness:
  "let a = sample_node 7 sample_registry; b = sample_node 3 (snd (merge registry_new (sample_identity 3 50 0)));
       gb = gossip_merge tree_fs seg_writer_api 0 [(1, sample_identity 7 100 0)] b;
       ga = gossip_merge tree_fs seg_writer_api 0 (map (Pair 2) (delta_for (gs_reply gb) 1)) a
   in map_option identity_key (get_raw (nd_registry (gs_node ga)) (ascii ''fills'')) =
        map_option identity_key (get_raw (nd_registry (gs_node gb)) (ascii ''fills'')) \<and>
      delta_for (gs_relay gb) 1 = [] \<and> delta_for (gs_reply ga) 2 = []"
proof -
  let ?b = "snd (merge registry_new (sample_identity 3 50 0))"
  have "registry_wf ?b" "get_raw ?b (ascii ''fills'') = Some (sample_identity 3 50 0)"
    by (simp_all add: get_raw_merge del: ascii_simps)
  moreover have "identity_key (sample_identity 7 100 0) \<le> identity_key (sample_identity 3 50 0)"
    by (simp add: identity_key_def sample_identity_def)
  ultimately show ?thesis
    using gossip_settles [of "sample_node 7 sample_registry" "sample_node 3 ?b" "[sample_identity 7 100 0]"
        tree_fs seg_writer_api 0 1 tree_fs seg_writer_api 0 2] sample_registry_facts
    by (simp add: Let_def conj_commute cong: conj_cong del: ascii_simps)
qed

text \<open>Node 9 claims a name nobody has.\<close>

theorem claim_exact_witness:
  "\<exists>i e n'. claim_name tree_fs seg_writer_api 0 200 (ascii ''fills'') 4096 512 None (sample_node 9 registry_new) = (Inr i, n') \<and>
     get (nd_registry n') (ascii ''fills'') = Some e \<and> ci_owner e = 9 \<and> ci_epoch e = ci_epoch i"
proof -
  obtain r n' where c: "claim_name tree_fs seg_writer_api 0 200 (ascii ''fills'') 4096 512 None (sample_node 9 registry_new) = (r, n')"
    by fastforce
  with claim_exact [OF _ c] show ?thesis by (cases r) (auto simp del: ascii_simps)
qed

text \<open>Node 9 reclaims a name of node 7, once that has been known and unreachable for longer than required.\<close>

theorem force_deregister_safe_witness:
  "\<exists>n'. force_deregister sample_outside 70 (ascii ''fills'')
       ((sample_node 9 sample_registry)\<lparr>nd_owner_unreachable_since := [7 \<mapsto> 5]\<rparr>) = Some (Inr True, n') \<and>
     claim_epoch (nd_registry n') (ascii ''fills'') = 1"
proof -
  let ?n = "(sample_node 9 sample_registry)\<lparr>nd_owner_unreachable_since := [7 \<mapsto> 5]\<rparr>"
  have away: "unreachable_for 70 7 ?n = (65, ?n)" by (simp add: unreachable_for_def)
  have "\<exists>n'. disseminate_tombstone sample_outside 70 t (?n\<lparr>nd_registry := reg\<rparr>) = Some (Inr (), n')" for t reg
    using announce_alone [of "nd_bcast (sample_node 9 sample_registry)" "[t]"]
    by (auto simp: disseminate_tombstone_def act_bind_def node_announce_def)
  then obtain n2 where n2: "disseminate_tombstone sample_outside 70 ((sample_identity 7 100 0)\<lparr>ci_deleted := True\<rparr>)
      (?n\<lparr>nd_registry := snd (merge sample_registry ((sample_identity 7 100 0)\<lparr>ci_deleted := True\<rparr>))\<rparr>) = Some (Inr (), n2)"
    by blast
  then obtain n' where n': "force_deregister sample_outside 70 (ascii ''fills'') ?n = Some (Inr True, n')"
    by (simp add: force_deregister_def away reap_cases act_bind_def del: ascii_simps)
  with force_deregister_safe [OF _ n'] sample_registry_facts show ?thesis by (auto simp del: ascii_simps)
qed

end
