(* ===== verification/Node_Dial.thy ===== *)
theory Node_Dial
  imports Node_Props
begin

text \<open>
  How a node forms its links, the dialling half of \<open>xchannel-net/src/node.rs\<close>: binding the planes,
  accepting a peer, the penalty of an address, and the walk of a candidate list under a budget that a
  maintenance tick makes for its seeds, the peers it learned of and the addresses that claim its own id.

  A dial is given its clock readings and what the connect answered. A write of the join that does not
  return is \<open>None\<close>, as in \<open>Broadcast\<close>.
\<close>

subsection \<open>Constants\<close>

definition ms :: "nat \<Rightarrow> duration" where
  "ms k = k * 10 ^ 6"

definition secs :: "nat \<Rightarrow> duration" where
  "secs k = k * 10 ^ 9"

definition CONNECT_TIMEOUT :: duration where
  "CONNECT_TIMEOUT = ms 500"

definition MAX_DIALS_PER_TICK :: nat where
  "MAX_DIALS_PER_TICK = 2"

definition MAX_TWIN_DIALS_PER_TICK :: nat where
  "MAX_TWIN_DIALS_PER_TICK = 1"

definition TICK_RESERVE :: duration where
  "TICK_RESERVE = secs 3"

definition DIAL_BACKOFF_MIN :: duration where
  "DIAL_BACKOFF_MIN = secs 1"

definition DIAL_BACKOFF_MAX :: duration where
  "DIAL_BACKOFF_MAX = secs 60"

lemmas dial_constants =
  ms_def secs_def CONNECT_TIMEOUT_def MAX_DIALS_PER_TICK_def MAX_TWIN_DIALS_PER_TICK_def TICK_RESERVE_def
  DIAL_BACKOFF_MIN_def DIAL_BACKOFF_MAX_def LIVENESS_TIMEOUT_def

subsection \<open>Binding and accepting\<close>

text \<open>\<open>bound\<close> is what the listener answers: the address it is bound to.\<close>

definition bind_stream :: "socket_addr io_result \<Rightarrow> ('t, 'w, 'r) node \<Rightarrow> unit io_result \<times> ('t, 'w, 'r) node" where
  "bind_stream bound n =
     (case bound of
        Inl e \<Rightarrow> (Inl e, n)
      | Inr addr \<Rightarrow>
          let advertised = (case cfg_advertise_stream_addr (nd_config n) of Some a \<Rightarrow> a | None \<Rightarrow> addr)
          in (Inr (), n\<lparr>nd_bcast := set_self_addr advertised (nd_bcast n), nd_bound_stream_addr := Some addr\<rparr>))"

definition bind_control :: "socket_addr io_result \<Rightarrow> ('t, 'w, 'r) node \<Rightarrow> unit io_result \<times> ('t, 'w, 'r) node" where
  "bind_control bound n =
     (case bound of
        Inl e \<Rightarrow> (Inl e, n)
      | Inr addr \<Rightarrow>
          let advertised = (case cfg_advertise_control_addr (nd_config n) of Some a \<Rightarrow> a | None \<Rightarrow> addr)
          in (Inr (), n\<lparr>nd_bcast := set_self_control_addr advertised (nd_bcast n)\<rparr>))"

definition registry_snapshot :: "('t, 'w, 'r) node \<Rightarrow> channel_identity list" where
  "registry_snapshot n = registry_iter (nd_registry n)"

text \<open>One turn of \<open>serve_control\<close>.\<close>

definition accept_control ::
  "instant \<Rightarrow> socket_setup \<Rightarrow> tcp_conn \<Rightarrow> ('t, 'w, 'r) node \<Rightarrow> ('t, 'w, 'r) node option" where
  "accept_control now su conn n =
     map_option (\<lambda>(_, d). n\<lparr>nd_bcast := d\<rparr>) (add_peer now su conn (registry_snapshot n) (nd_bcast n))"

definition connect_control_peer ::
  "socket_addr \<Rightarrow> (instant \<times> socket_setup \<times> tcp_conn) io_result \<Rightarrow> (('t, 'w, 'r) node, unit) act" where
  "connect_control_peer addr connected n =
     (if is_connected (nd_bcast n) addr then Some (Inr (), n)
      else
        (case connected of
           Inl e \<Rightarrow> Some (Inl e, n)
         | Inr (now, su, conn) \<Rightarrow>
             map_option (\<lambda>(r, d). (r, n\<lparr>nd_bcast := d\<rparr>))
               (add_outbound_peer now su conn addr (registry_snapshot n) (nd_bcast n))))"

text \<open>The departure; \<open>remove_file\<close> is what the file system does with the client socket.\<close>

definition shutdown :: "('t \<Rightarrow> path \<Rightarrow> 't) \<Rightarrow> ('t, 'w, 'r) node \<Rightarrow> ('t, 'w, 'r) node option" where
  "shutdown remove_file n =
     map_option (\<lambda>d. n\<lparr>nd_bcast := d, nd_fs := remove_file (nd_fs n) (cfg_client_path (nd_config n))\<rparr>)
       (announce_leaving (nd_bcast n))"

subsection \<open>Dialling\<close>

definition should_dial :: "('t, 'w, 'r) node \<Rightarrow> socket_addr \<Rightarrow> bool" where
  "should_dial n addr =
     (let d = nd_bcast n in
      if is_connected d addr then False
      else if addr = bd_self_control_addr d then False
      else (case node_at d addr of Some node \<Rightarrow> node \<notin> linked_nodes d | None \<Rightarrow> True))"

text \<open>The gap before the next attempt: doubled up to the ceiling while attempts keep coming, the floor
  for an address not tried of late. \<open>at\<close> is the clock when the age of the last attempt is read.\<close>

definition backoff_gap :: "duration \<Rightarrow> duration \<Rightarrow> dial_penalty option \<Rightarrow> instant \<Rightarrow> duration" where
  "backoff_gap lo hi p at =
     (case p of
        Some p \<Rightarrow> if at - dp_attempted_at p < hi * 2 then min (dp_gap p * 2) hi else lo
      | None \<Rightarrow> lo)"

record dial_turn =
  dt_due :: instant
  dt_now :: instant
  dt_seen :: instant
  dt_conn :: "(instant \<times> socket_setup \<times> tcp_conn) option"

definition charge_dial :: "dial_turn \<Rightarrow> socket_addr \<Rightarrow> ('t, 'w, 'r) node \<Rightarrow> ('t, 'w, 'r) node" where
  "charge_dial t addr n =
     (let gap = backoff_gap DIAL_BACKOFF_MIN DIAL_BACKOFF_MAX (nd_dial_backoff n addr) (dt_seen t)
      in n\<lparr>nd_dial_backoff := (nd_dial_backoff n)(addr \<mapsto>
             \<lparr>dp_attempted_at = dt_now t, dp_next = dt_now t + gap, dp_gap = gap\<rparr>)\<rparr>)"

definition dial_peer :: "dial_turn \<Rightarrow> socket_addr \<Rightarrow> ('t, 'w, 'r) node \<Rightarrow> ('t, 'w, 'r) node option" where
  "dial_peer t addr n =
     (let n1 = charge_dial t addr n in
      case dt_conn t of
        None \<Rightarrow> Some n1
      | Some (now, su, conn) \<Rightarrow>
          map_option (\<lambda>(_, d). n1\<lparr>nd_bcast := d\<rparr>)
            (add_outbound_peer now su conn addr (registry_snapshot n1) (nd_bcast n1)))"

definition dial_due :: "instant \<Rightarrow> ('t, 'w, 'r) node \<Rightarrow> socket_addr \<Rightarrow> bool" where
  "dial_due now n addr = (case nd_dial_backoff n addr of None \<Rightarrow> True | Some p \<Rightarrow> dp_next p \<le> now)"

fun is_unspecified :: "socket_addr \<Rightarrow> bool" where
  "is_unspecified (SockV4 a b c d p) \<longleftrightarrow> a = 0 \<and> b = 0 \<and> c = 0 \<and> d = 0"
| "is_unspecified (SockV6 segs p f s) \<longleftrightarrow> list_all (\<lambda>x. x = 0) segs"

text \<open>The walk of a rotated list: the addresses dialled, in order (\<open>spent\<close> is their number).\<close>

fun dial_walk ::
  "nat \<Rightarrow> socket_addr list \<Rightarrow> (socket_addr \<times> dial_turn) list \<Rightarrow> ('t, 'w, 'r) node \<Rightarrow>
     (socket_addr list \<times> ('t, 'w, 'r) node) option" where
  "dial_walk budget dialled [] n = Some (dialled, n)"
| "dial_walk budget dialled ((addr, t) # rest) n =
     (if length dialled = budget then Some (dialled, n)
      else if is_unspecified addr \<or> \<not> dial_due (dt_due t) n addr \<or> \<not> should_dial n addr
      then dial_walk budget dialled rest n
      else Option.bind (dial_peer t addr n) (dial_walk budget (dialled @ [addr]) rest))"

definition dial_some ::
  "socket_addr list \<Rightarrow> nat \<Rightarrow> nat \<Rightarrow> (nat \<Rightarrow> dial_turn) \<Rightarrow> ('t, 'w, 'r) node \<Rightarrow>
     (socket_addr list \<times> nat \<times> ('t, 'w, 'r) node) option" where
  "dial_some candidates cursor budget turns n =
     (if candidates = [] then Some ([], cursor, n)
      else
        let start = cursor mod length candidates
        in map_option (\<lambda>(dialled, n'). (dialled, start + length dialled, n'))
             (dial_walk budget [] (zip (rotate start candidates) (map turns [0..<length candidates])) n))"

lemma should_dial_iff:
  "should_dial n addr \<longleftrightarrow> \<not> is_connected (nd_bcast n) addr \<and> addr \<noteq> bd_self_control_addr (nd_bcast n) \<and>
     (\<forall>node. node_at (nd_bcast n) addr = Some node \<longrightarrow> node \<notin> linked_nodes (nd_bcast n))"
  by (simp add: should_dial_def Let_def split: option.split)

definition connect_learned_peers ::
  "(nat \<Rightarrow> dial_turn) \<Rightarrow> (nat \<Rightarrow> dial_turn) \<Rightarrow> ('t, 'w, 'r) node \<Rightarrow> (socket_addr list \<times> ('t, 'w, 'r) node) option" where
  "connect_learned_peers turns twin_turns n =
     (let candidates = map snd (unconnected_peers (nd_bcast n));
          twins = same_id_candidates (nd_bcast n)
      in Option.bind (dial_some candidates (nd_dial_cursor_learned n) MAX_DIALS_PER_TICK turns n) (\<lambda>(ds, c, n1).
         Option.bind (dial_some twins (nd_dial_cursor_twins n1) MAX_TWIN_DIALS_PER_TICK twin_turns
                        (n1\<lparr>nd_dial_cursor_learned := c\<rparr>)) (\<lambda>(es, c', n2).
         Some (ds @ es, n2\<lparr>nd_dial_cursor_twins := c'\<rparr>))))"

definition connect_seeds ::
  "(nat \<Rightarrow> dial_turn) \<Rightarrow> ('t, 'w, 'r) node \<Rightarrow> (socket_addr list \<times> ('t, 'w, 'r) node) option" where
  "connect_seeds turns n =
     map_option (\<lambda>(ds, c, n1). (ds, n1\<lparr>nd_dial_cursor_seeds := c\<rparr>))
       (dial_some (cfg_seeds (nd_config n)) (nd_dial_cursor_seeds n) MAX_DIALS_PER_TICK turns n)"

subsection \<open>What one walk does\<close>

lemma charge_dial_sel [simp]:
  "nd_bcast (charge_dial t a n) = nd_bcast n" "nd_registry (charge_dial t a n) = nd_registry n"
  "nd_config (charge_dial t a n) = nd_config n"
  by (simp_all add: charge_dial_def Let_def)

lemma dial_peer_backoff:
  "dial_peer t a n = Some n' \<Longrightarrow> nd_dial_backoff n' = nd_dial_backoff (charge_dial t a n) \<and> nd_config n' = nd_config n"
  by (auto simp: dial_peer_def Let_def split: option.splits)

text \<open>Penalties within bounds, each due one gap after its attempt.\<close>

definition penalties_ok :: "('t, 'w, 'r) node \<Rightarrow> bool" where
  "penalties_ok n \<longleftrightarrow> (\<forall>a p. nd_dial_backoff n a = Some p \<longrightarrow>
     DIAL_BACKOFF_MIN \<le> dp_gap p \<and> dp_gap p \<le> DIAL_BACKOFF_MAX \<and> dp_next p = dp_attempted_at p + dp_gap p)"

lemma backoff_gap_bounds:
  "0 < lo \<Longrightarrow> lo \<le> hi \<Longrightarrow> (\<forall>p. q = Some p \<longrightarrow> lo \<le> dp_gap p) \<Longrightarrow> lo \<le> backoff_gap lo hi q at \<and> backoff_gap lo hi q at \<le> hi"
  by (auto simp: backoff_gap_def split: option.split)

lemma charge_penalties_ok: "penalties_ok n \<Longrightarrow> penalties_ok (charge_dial t a n)"
  using backoff_gap_bounds [of DIAL_BACKOFF_MIN DIAL_BACKOFF_MAX "nd_dial_backoff n a" "dt_seen t"]
  by (auto simp: penalties_ok_def charge_dial_def Let_def dial_constants)

text \<open>Adopting a dialled link changes nothing another address is judged by, except that its peer may
  come to be linked.\<close>

lemma add_outbound_effect:
  assumes "add_outbound_peer now su c addr ids d = Some (r, d')"
  shows "bd_connected d' - {addr} = bd_connected d - {addr}" and "bd_self_control_addr d' = bd_self_control_addr d"
    and "bd_membership d' = bd_membership d" and "bd_dial_identity d' = bd_dial_identity d"
    and "bd_link_peers d' = bd_link_peers d" and "bd_self_node d' = bd_self_node d"
    and "(bd_peers d' = bd_peers d \<or> (\<exists>p. p_id p = bd_next_peer_id d \<and> bd_peers d' = bd_peers d @ [p])) \<and>
      bd_next_peer_id d' \<in> {bd_next_peer_id d, bd_next_peer_id d + 1}"
  using assms
  by (auto simp: add_outbound_peer_def adopt_def Let_def split: option.splits sum.splits prod.splits)

lemma linked_nodes_iff: "x \<in> linked_nodes d \<longleftrightarrow> (\<exists>p\<in>set (bd_peers d). \<exists>c. bd_link_peers d (p_id p) = Some (x, c))"
  by (force simp: linked_nodes_def map_filter_def image_iff)

lemma linked_nodes_grow:
  "add_outbound_peer now su c addr ids d = Some (r, d') \<Longrightarrow> linked_nodes d \<subseteq> linked_nodes d'"
  using add_outbound_effect(5,7) [of now su c addr ids d r d'] by (auto simp: linked_nodes_iff)

lemma dial_peer_others:
  assumes "dial_peer t c n = Some n1" and "a \<noteq> c"
  shows "dial_due x n1 a = dial_due x n a" and "should_dial n1 a \<Longrightarrow> should_dial n a"
proof -
  show "dial_due x n1 a = dial_due x n a"
    using dial_peer_backoff [OF assms(1)] assms(2) by (simp add: dial_due_def charge_dial_def Let_def)
  assume s: "should_dial n1 a"
  show "should_dial n a"
  proof (cases "dt_conn t")
    case None
    then have "n1 = charge_dial t c n" using assms(1) by (simp add: dial_peer_def Let_def)
    with s show ?thesis by (simp add: should_dial_def Let_def)
  next
    case (Some k)
    then obtain now su conn r d where d: "n1 = (charge_dial t c n)\<lparr>nd_bcast := d\<rparr>"
      "add_outbound_peer now su conn c (registry_snapshot (charge_dial t c n)) (nd_bcast n) = Some (r, d)"
      using assms(1) by (cases k) (auto simp: dial_peer_def Let_def)
    note e = add_outbound_effect [OF d(2)]
    have "a \<in> bd_connected d \<longleftrightarrow> a \<in> bd_connected (nd_bcast n)" using e(1) assms(2) by blast
    with s e(2,3,4) linked_nodes_grow [OF d(2)] show ?thesis
      by (auto simp: should_dial_def Let_def is_connected_def node_at_def d(1) split: option.splits if_splits)
  qed
qed

text \<open>What a walk of \<open>cs\<close> from \<open>n\<close> that dials \<open>es\<close> has done: every address dialled was due, unlinked and
  not this node's own when the walk began; the penalties of the others are as they were.\<close>

definition walked ::
  "(socket_addr \<times> dial_turn) list \<Rightarrow> ('t, 'w, 'r) node \<Rightarrow> socket_addr list \<Rightarrow> ('t, 'w, 'r) node \<Rightarrow> bool" where
  "walked cs n es n' \<longleftrightarrow> nd_config n' = nd_config n \<and>
     (\<forall>a. a \<notin> set es \<longrightarrow> nd_dial_backoff n' a = nd_dial_backoff n a) \<and>
     (penalties_ok n \<longrightarrow> penalties_ok n') \<and>
     (\<forall>a\<in>set es. \<not> is_unspecified a \<and> (\<exists>t. (a, t) \<in> set cs \<and> dial_due (dt_due t) n a \<and> should_dial n a))"

lemma walked_more: "walked cs n es n' \<Longrightarrow> walked (c # cs) n es n'"
  by (auto simp: walked_def)

lemma walked_dial:
  assumes n1: "dial_peer t a n = Some n1" and w: "walked cs n1 es n'"
    and ok: "\<not> is_unspecified a" "dial_due (dt_due t) n a" "should_dial n a"
  shows "walked ((a, t) # cs) n (a # es) n'"
proof -
  have b: "nd_dial_backoff n1 = nd_dial_backoff (charge_dial t a n)" "nd_config n1 = nd_config n"
    using dial_peer_backoff [OF n1] by simp_all
  have "penalties_ok n1 = penalties_ok (charge_dial t a n)" by (simp only: penalties_ok_def b(1))
  then have "penalties_ok n \<longrightarrow> penalties_ok n1" using charge_penalties_ok [of n t a] by blast
  moreover have "nd_dial_backoff n1 c = nd_dial_backoff n c" if "c \<noteq> a" for c
    using that by (simp add: b(1) charge_dial_def Let_def)
  moreover have "\<exists>s. (c, s) \<in> set ((a, t) # cs) \<and> dial_due (dt_due s) n c \<and> should_dial n c" if "c \<in> set (a # es)" for c
  proof (cases "c = a")
    case False
    with that w obtain s where "(c, s) \<in> set cs" "dial_due (dt_due s) n1 c" "should_dial n1 c" by (auto simp: walked_def)
    with dial_peer_others [OF n1 False] show ?thesis by auto
  qed (use ok in auto)
  ultimately show ?thesis using w b(2) ok(1) unfolding walked_def by simp
qed

lemma dial_walk_dials:
  assumes "dial_walk budget ds cs n = Some (ds', n')" and "length ds \<le> budget"
  shows "\<exists>es. ds' = ds @ es \<and> length ds' \<le> budget \<and> walked cs n es n'"
  using assms
proof (induction budget ds cs n rule: dial_walk.induct)
  case (2 budget ds a t rest n)
  let ?skip = "is_unspecified a \<or> \<not> dial_due (dt_due t) n a \<or> \<not> should_dial n a"
  consider (full) "length ds = budget" | (skip) "length ds \<noteq> budget" ?skip | (dial) "length ds \<noteq> budget" "\<not> ?skip" by blast
  then show ?case
  proof cases
    case full
    with "2.prems" show ?thesis by (auto simp: walked_def)
  next
    case skip
    from skip "2.prems" have "dial_walk budget ds rest n = Some (ds', n')" by auto
    from "2.IH"(1) [OF skip this "2.prems"(2)] walked_more show ?thesis by blast
  next
    case dial
    with "2.prems" obtain n1 where n1: "dial_peer t a n = Some n1"
      and w: "dial_walk budget (ds @ [a]) rest n1 = Some (ds', n')" by (auto simp: bind_eq_Some_conv)
    from "2.IH"(2) [OF dial n1 w] "2.prems"(2) dial(1) obtain es where
      "ds' = (ds @ [a]) @ es" "length ds' \<le> budget" "walked rest n1 es n'" by auto
    with walked_dial [OF n1, of rest es n'] dial(2) show ?thesis by (intro exI [of _ "a # es"]) auto
  qed
qed (auto simp: walked_def)

lemma dial_some_dials:
  assumes "dial_some cs cursor budget turns n = Some (ds, cursor', n')"
  shows "length ds \<le> budget" and "penalties_ok n \<Longrightarrow> penalties_ok n'" and "nd_config n' = nd_config n"
    and "a \<in> set ds \<Longrightarrow> a \<in> set cs \<and> \<not> is_unspecified a \<and> should_dial n a \<and> (\<exists>i<length cs. dial_due (dt_due (turns i)) n a)"
    and "a \<notin> set ds \<Longrightarrow> nd_dial_backoff n' a = nd_dial_backoff n a"
proof -
  let ?l = "zip (rotate (cursor mod length cs) cs) (map turns [0..<length cs])"
  have "length ds \<le> budget \<and> (walked ?l n ds n' \<or> cs = [] \<and> ds = [] \<and> n' = n)"
    using assms dial_walk_dials [of budget "[]" ?l n ds n'] by (auto simp: dial_some_def Let_def split: if_splits)
  moreover have "b \<in> set cs \<and> t \<in> turns ` {..<length cs}" if "(b, t) \<in> set ?l" for b t
    using set_zip_leftD [OF that] set_zip_rightD [OF that] by (simp add: lessThan_atLeast0)
  ultimately show "length ds \<le> budget" "penalties_ok n \<Longrightarrow> penalties_ok n'" "nd_config n' = nd_config n"
    "a \<in> set ds \<Longrightarrow> a \<in> set cs \<and> \<not> is_unspecified a \<and> should_dial n a \<and> (\<exists>i<length cs. dial_due (dt_due (turns i)) n a)"
    "a \<notin> set ds \<Longrightarrow> nd_dial_backoff n' a = nd_dial_backoff n a"
    by (auto simp: walked_def) blast+
qed

text \<open>C26. Dialling leaves the tick its time. The dials of one maintenance tick are at most five, whatever
  the seed list, the peers heard of and the addresses that claim this node's id; at the connect timeout
  each, with the reserve, that is within the liveness timeout. A seed is dialled only if it was due, had
  no link, and is neither this node's own control address nor a wildcard; every penalty stays between
  the floor and the ceiling, and the seeds not dialled keep theirs.\<close>

theorem tick_dials_bounded:
  assumes "connect_seeds seed_turns n = Some (ds, n1)" and "connect_learned_peers turns twin_turns n1 = Some (es, n2)"
  shows "length (ds @ es) * CONNECT_TIMEOUT + TICK_RESERVE \<le> LIVENESS_TIMEOUT \<and>
    (penalties_ok n \<longrightarrow> penalties_ok n2) \<and>
    (\<forall>a. (a \<in> set ds \<longrightarrow> a \<in> set (cfg_seeds (nd_config n)) \<and> \<not> is_unspecified a \<and> a \<noteq> bd_self_control_addr (nd_bcast n) \<and>
             \<not> is_connected (nd_bcast n) a \<and> (\<exists>i. dial_due (dt_due (seed_turns i)) n a)) \<and>
         (a \<notin> set ds \<longrightarrow> nd_dial_backoff n1 a = nd_dial_backoff n a))"
proof -
  from assms(1) obtain c m where s: "dial_some (cfg_seeds (nd_config n)) (nd_dial_cursor_seeds n) MAX_DIALS_PER_TICK seed_turns n = Some (ds, c, m)"
    "n1 = m\<lparr>nd_dial_cursor_seeds := c\<rparr>" by (auto simp: connect_seeds_def)
  from assms(2) obtain xs ys c1 c2 m1 m2 where
    l: "dial_some (map snd (unconnected_peers (nd_bcast n1))) (nd_dial_cursor_learned n1) MAX_DIALS_PER_TICK turns n1 = Some (xs, c1, m1)"
    and t: "dial_some (same_id_candidates (nd_bcast n1)) (nd_dial_cursor_twins m1) MAX_TWIN_DIALS_PER_TICK twin_turns
      (m1\<lparr>nd_dial_cursor_learned := c1\<rparr>) = Some (ys, c2, m2)"
    and e: "es = xs @ ys" "n2 = m2\<lparr>nd_dial_cursor_twins := c2\<rparr>"
    by (auto simp: connect_learned_peers_def Let_def bind_eq_Some_conv)
  have "length (ds @ es) \<le> 5"
    using dial_some_dials(1) [OF s(1)] dial_some_dials(1) [OF l] dial_some_dials(1) [OF t] e(1) by (simp add: dial_constants)
  then have "length (ds @ es) * CONNECT_TIMEOUT + TICK_RESERVE \<le> 5 * CONNECT_TIMEOUT + TICK_RESERVE" by simp
  also have "\<dots> \<le> LIVENESS_TIMEOUT" by (simp add: dial_constants)
  finally have time: "length (ds @ es) * CONNECT_TIMEOUT + TICK_RESERVE \<le> LIVENESS_TIMEOUT" .
  have pen: "penalties_ok n2" if "penalties_ok n"
    using that dial_some_dials(2) [OF s(1)] dial_some_dials(2) [OF l] dial_some_dials(2) [OF t] s(2) e(2)
    by (simp add: penalties_ok_def)
  show ?thesis
    using time pen dial_some_dials(4,5) [OF s(1)] s(2) unfolding should_dial_iff by simp blast
qed

subsection \<open>No candidate is starved\<close>

text \<open>The ids of the links to come are not yet identified, and there are at least \<open>m\<close> of them.\<close>

definition fresh_links :: "nat \<Rightarrow> bcast \<Rightarrow> bool" where
  "fresh_links m d \<longleftrightarrow> unat (bd_next_peer_id d) + m < 2 ^ 64 \<and>
     (\<forall>k. bd_next_peer_id d \<le> k \<longrightarrow> bd_link_peers d k = None)"

definition dialable :: "nat \<Rightarrow> (nat \<Rightarrow> dial_turn) \<Rightarrow> nat \<Rightarrow> ('t, 'w, 'r) node \<Rightarrow> socket_addr \<Rightarrow> bool" where
  "dialable len turns budget n a \<longleftrightarrow> \<not> is_unspecified a \<and> should_dial n a \<and>
     (\<forall>i<len. dial_due (dt_due (turns i)) n a) \<and> fresh_links budget (nd_bcast n)"

lemma fresh_links_adopt:
  assumes "add_outbound_peer now su c addr ids d = Some (r, d')" and "fresh_links (Suc m) d"
  shows "fresh_links m d' \<and> linked_nodes d' = linked_nodes d"
proof -
  note e = add_outbound_effect [OF assms(1)]
  have "unat (bd_next_peer_id d + 1) = Suc (unat (bd_next_peer_id d))"
    using assms(2) unat_plus_of_nat [of "bd_next_peer_id d" 1] by (simp add: fresh_links_def)
  then have "unat (bd_next_peer_id d') \<in> {unat (bd_next_peer_id d), Suc (unat (bd_next_peer_id d))}" using e(7) by auto
  with assms(2) have "fresh_links m d'" unfolding fresh_links_def e(5) by (auto simp: word_le_nat_alt)
  moreover have "linked_nodes d' = linked_nodes d"
    using e(5,7) assms(2) by (auto simp: linked_nodes_iff fresh_links_def)
  ultimately show ?thesis ..
qed

lemma dial_peer_keeps:
  assumes "dial_peer t c n = Some n1" and "a \<noteq> c" and "fresh_links (Suc m) (nd_bcast n)" and "should_dial n a"
  shows "should_dial n1 a \<and> fresh_links m (nd_bcast n1)"
proof (cases "dt_conn t")
  case None
  then have "n1 = charge_dial t c n" using assms(1) by (simp add: dial_peer_def Let_def)
  with assms(3,4) show ?thesis by (simp add: should_dial_def Let_def fresh_links_def)
next
  case (Some k)
  then obtain now su conn r d where d: "n1 = (charge_dial t c n)\<lparr>nd_bcast := d\<rparr>"
    "add_outbound_peer now su conn c (registry_snapshot (charge_dial t c n)) (nd_bcast n) = Some (r, d)"
    using assms(1) by (cases k) (auto simp: dial_peer_def Let_def)
  note e = add_outbound_effect [OF d(2)]
  have "a \<in> bd_connected d \<longleftrightarrow> a \<in> bd_connected (nd_bcast n)" using e(1) assms(2) by blast
  moreover have "node_at d a = node_at (nd_bcast n) a" by (simp only: node_at_def e(3,4))
  ultimately show ?thesis
    using assms(4) e(2) fresh_links_adopt [OF d(2) assms(3)] by (simp add: should_dial_iff is_connected_def d(1))
qed

lemma dial_walk_reaches:
  assumes "dial_walk budget ds cs n = Some (ds', n')" and "length ds \<le> budget"
    and "a \<in> fst ` set (take (budget - length ds) cs) \<or> a \<in> fst ` set cs \<and> length ds' < budget"
    and "\<forall>(b, t)\<in>set cs. dial_due (dt_due t) n a" and "\<not> is_unspecified a" and "should_dial n a"
    and "fresh_links (budget - length ds) (nd_bcast n)"
  shows "a \<in> set ds'"
  using assms
proof (induction budget ds cs n rule: dial_walk.induct)
  case (2 budget ds b t rest n)
  note p = "2.prems"
  have room: "length ds \<noteq> budget" using p(1,3) by auto
  then have less: "length ds < budget" using p(2) by simp
  let ?skip = "is_unspecified b \<or> \<not> dial_due (dt_due t) n b \<or> \<not> should_dial n b"
  have take: "take (budget - length ds) ((b, t) # rest) = (b, t) # take (budget - length (ds @ [b])) rest"
    using less by (simp add: take_Cons')
  show ?case
  proof (cases ?skip)
    case True
    then have "b \<noteq> a" using p(4,5,6) by auto
    with p(3) take have "a \<in> fst ` set (take (budget - length (ds @ [b])) rest) \<or> a \<in> fst ` set rest \<and> length ds' < budget"
      by auto
    moreover have "set (take (budget - length (ds @ [b])) rest) \<subseteq> set (take (budget - length ds) rest)"
      by (rule set_take_subset_set_take) simp
    ultimately show ?thesis using "2.IH"(1) [OF room True] p room True by auto
  next
    case False
    with p room obtain n1 where n1: "dial_peer t b n = Some n1"
      and w: "dial_walk budget (ds @ [b]) rest n1 = Some (ds', n')" by (auto simp: bind_eq_Some_conv)
    show ?thesis
    proof (cases "b = a")
      case True
      with dial_walk_dials [OF w] less show ?thesis by auto
    next
      case ne: False
      then have "should_dial n1 a \<and> fresh_links (budget - length (ds @ [b])) (nd_bcast n1)"
        using dial_peer_keeps [OF n1, of a "budget - length (ds @ [b])"] p(6,7) less by (simp add: Suc_diff_Suc)
      moreover have "a \<in> fst ` set (take (budget - length (ds @ [b])) rest) \<or> a \<in> fst ` set rest \<and> length ds' < budget"
        using p(3) take ne by auto
      ultimately show ?thesis
        using "2.IH"(2) [OF room False n1 w] less p(4,5) dial_peer_others(1) [OF n1, of a] ne by auto
    qed
  qed
qed auto

text \<open>Ticks over one list: the states the ticks begin in are whatever the node's other activity makes them.\<close>

fun dial_ticks ::
  "socket_addr list \<Rightarrow> nat \<Rightarrow> nat \<Rightarrow> ((nat \<Rightarrow> dial_turn) \<times> ('t, 'w, 'r) node) list \<Rightarrow> socket_addr list option" where
  "dial_ticks cs budget cursor [] = Some []"
| "dial_ticks cs budget cursor ((turns, n) # ts) =
     (case dial_some cs cursor budget turns n of
        None \<Rightarrow> None
      | Some (ds, cursor', _) \<Rightarrow> map_option ((@) ds) (dial_ticks cs budget cursor' ts))"

text \<open>How far ahead of the cursor position \<open>p\<close> is.\<close>

definition ahead :: "nat \<Rightarrow> nat \<Rightarrow> nat \<Rightarrow> nat" where
  "ahead len cursor p = (p + len - cursor mod len) mod len"

lemma mod_wrap: "x < 2 * len \<Longrightarrow> x mod len = (if x < len then x else x - len)" for x len :: nat
  by (simp add: le_mod_geq)

lemma ahead_if:
  assumes "p < len"
  shows "ahead len cursor p = (if cursor mod len \<le> p then p - cursor mod len else p + len - cursor mod len)"
proof -
  have "cursor mod len < len" using assms by simp
  then show ?thesis using mod_wrap [of "p + len - cursor mod len" len] assms by (auto simp: ahead_def)
qed

lemma ahead_less: "p < len \<Longrightarrow> ahead len cursor p < len"
  by (auto simp: ahead_def)

lemma ahead_position: "p < len \<Longrightarrow> (cursor mod len + ahead len cursor p) mod len = p"
  by (cases "cursor mod len \<le> p")
    (simp_all add: ahead_if le_add_diff_inverse less_imp_le [OF mod_less_divisor] trans_le_add2)

lemma ahead_advance:
  assumes p: "p < len" and "b \<le> ahead len cursor p"
  shows "ahead len (cursor mod len + b) p = ahead len cursor p - b"
proof -
  define s where "s = cursor mod len"
  have "s < len" using p by (simp add: s_def)
  moreover from this have "s + b < 2 * len" using assms ahead_less [OF p, of cursor] by simp
  ultimately show ?thesis
    using assms mod_wrap [of "s + b" len] unfolding ahead_if [OF p] s_def [symmetric] by (auto split: if_splits)
qed

lemma dial_some_reaches:
  assumes "dial_some cs cursor budget turns n = Some (ds, cursor', n')" and "p < length cs"
    and "dialable (length cs) turns budget n (cs ! p)" and "cs ! p \<notin> set ds"
  shows "budget \<le> ahead (length cs) cursor p \<and> ahead (length cs) cursor' p = ahead (length cs) cursor p - budget"
proof -
  let ?s = "cursor mod length cs" and ?j = "ahead (length cs) cursor p"
  let ?l = "zip (rotate ?s cs) (map turns [0..<length cs])"
  have ne: "cs \<noteq> []" using assms(2) by auto
  with assms(1) have w: "dial_walk budget [] ?l n = Some (ds, n')" and c: "cursor' = ?s + length ds"
    by (auto simp: dial_some_def Let_def)
  have at: "rotate ?s cs ! ?j = cs ! p"
    using nth_rotate [of ?j cs ?s] ahead_less [OF assms(2)] ahead_position [OF assms(2)] by simp
  have len: "?j < length ?l" using ahead_less [OF assms(2)] by simp
  have mem: "cs ! p \<in> fst ` set (take m ?l)" if "?j < m" for m
  proof -
    have "?l ! ?j \<in> set (take m ?l)" using len that by (auto simp: in_set_conv_nth intro!: exI [of _ ?j])
    moreover have "fst (?l ! ?j) = cs ! p" using at len by simp
    ultimately show ?thesis by (metis imageI)
  qed
  have due: "\<forall>(b, t)\<in>set ?l. dial_due (dt_due t) n (cs ! p)"
    using assms(3) by (auto simp: dialable_def dest!: set_zip_rightD)
  have no: "\<not> (cs ! p \<in> fst ` set (take (budget - length []) ?l) \<or> cs ! p \<in> fst ` set ?l \<and> length ds < budget)"
    using dial_walk_reaches [OF w, of "cs ! p"] due assms(3,4) by (auto simp: dialable_def)
  have "budget \<le> ?j" using no mem [of budget] by (cases "?j < budget") auto
  moreover have "length ds = budget"
    using no mem [of "length ?l"] len dial_walk_dials [OF w] by fastforce
  ultimately show ?thesis using ahead_advance [OF assms(2)] c by simp
qed

text \<open>C25. No candidate is starved by the ones before it. An address of a candidate list that stays
  dialable is dialled within as many ticks as it takes the budget to cover the list once, whatever the
  other addresses do: however many of them are dead, in backoff or already linked, and wherever the
  walk began.\<close>

theorem dialling_is_fair:
  assumes "dial_ticks cs budget cursor ticks = Some dialled" and "p < length cs"
    and "\<forall>(turns, n)\<in>set ticks. dialable (length cs) turns budget n (cs ! p)"
    and "length cs \<le> budget * length ticks"
  shows "cs ! p \<in> set dialled"
proof -
  have "ahead (length cs) cursor p < budget * length ticks" using ahead_less [OF assms(2)] assms(4) by (rule order_less_le_trans)
  with assms(1,3) show ?thesis
  proof (induction ticks arbitrary: cursor dialled)
    case (Cons tick ts)
    obtain turns n where tick: "tick = (turns, n)" by (cases tick)
    with Cons.prems(1) obtain ds cursor' n' rest where s: "dial_some cs cursor budget turns n = Some (ds, cursor', n')"
      and r: "dial_ticks cs budget cursor' ts = Some rest" "dialled = ds @ rest"
      by (auto split: option.splits)
    show ?case
    proof (cases "cs ! p \<in> set ds")
      case False
      have "dialable (length cs) turns budget n (cs ! p)" using Cons.prems(2) tick by simp
      from dial_some_reaches [OF s assms(2) this False] Cons.prems(3)
      have "ahead (length cs) cursor' p < budget * length ts" by auto
      with Cons.IH [OF r(1)] Cons.prems(2) r(2) show ?thesis by auto
    qed (simp add: r)
  qed simp
qed

subsection \<open>Backoff\<close>

text \<open>The dials one address gets, as the tick makes them: each only when it is due.\<close>

fun dials_of :: "socket_addr \<Rightarrow> dial_turn list \<Rightarrow> ('t, 'w, 'r) node \<Rightarrow> bool" where
  "dials_of a [] n \<longleftrightarrow> True"
| "dials_of a (t # ts) n \<longleftrightarrow> dial_due (dt_due t) n a \<and> dt_due t \<le> dt_now t \<and> dials_of a ts (charge_dial t a n)"

text \<open>The address is never left alone for long enough to be forgiven.\<close>

fun kept_at :: "dial_turn list \<Rightarrow> bool" where
  "kept_at (t # u # ts) \<longleftrightarrow> dt_seen u - dt_now t < DIAL_BACKOFF_MAX * 2 \<and> kept_at (u # ts)"
| "kept_at ts \<longleftrightarrow> True"

definition grown :: "nat \<Rightarrow> duration" where
  "grown k = min (DIAL_BACKOFF_MIN * 2 ^ k) DIAL_BACKOFF_MAX"

lemma grown_Suc: "min (grown k * 2) DIAL_BACKOFF_MAX = grown (Suc k)"
  by (auto simp: grown_def min_def)

lemma dials_spaced:
  assumes "dials_of a ts n" and "kept_at (t # ts)" and "nd_dial_backoff n a = Some p"
    and "dp_attempted_at p = dt_now t" and "dp_gap p = grown k" and "dp_next p = dt_now t + grown k"
    and "Suc i < length (t # ts)"
  shows "dt_now ((t # ts) ! i) + grown (k + i) \<le> dt_now ((t # ts) ! Suc i)"
  using assms
proof (induction ts arbitrary: t n p k i)
  case (Cons u ts)
  note P = Cons.prems
  show ?case
  proof (cases i)
    case 0
    with P show ?thesis by (auto simp: dial_due_def)
  next
    case (Suc j)
    have "backoff_gap DIAL_BACKOFF_MIN DIAL_BACKOFF_MAX (nd_dial_backoff n a) (dt_seen u) = grown (Suc k)"
      using P(2-5) by (simp add: backoff_gap_def grown_Suc)
    then have "nd_dial_backoff (charge_dial u a n) a =
      Some \<lparr>dp_attempted_at = dt_now u, dp_next = dt_now u + grown (Suc k), dp_gap = grown (Suc k)\<rparr>"
      by (simp add: charge_dial_def Let_def)
    from Cons.IH [OF _ _ this, of u "Suc k" j] P(1,2,7) Suc show ?thesis by simp
  qed
qed simp

text \<open>A dead address costs less and less. Between the \<open>i\<close>-th attempt at an address the node had no
  penalty for and the next lie at least \<open>2^i\<close> seconds, up to the ceiling of a minute, as long as the
  attempts keep coming often enough for the address not to be forgiven.\<close>

theorem dial_backoff_doubles:
  assumes "dials_of a ts n" and "kept_at ts" and "nd_dial_backoff n a = None" and "Suc i < length ts"
  shows "dt_now (ts ! i) + min (secs (2 ^ i)) DIAL_BACKOFF_MAX \<le> dt_now (ts ! Suc i)"
proof (cases ts)
  case (Cons t us)
  have g: "grown i = min (secs (2 ^ i)) DIAL_BACKOFF_MAX" for i by (simp add: grown_def dial_constants)
  have "nd_dial_backoff (charge_dial t a n) a =
    Some \<lparr>dp_attempted_at = dt_now t, dp_next = dt_now t + grown 0, dp_gap = grown 0\<rparr>"
    using assms(3) by (simp add: charge_dial_def Let_def backoff_gap_def grown_def dial_constants)
  from dials_spaced [OF _ _ this, of us t 0 i] assms Cons g show ?thesis by simp
qed (use assms(4) in simp)

subsection \<open>Witnesses\<close>

text \<open>Three dead seeds.\<close>

definition dead_seeds :: "socket_addr list" where
  "dead_seeds = [SockV4 10 0 0 2 7000, SockV4 10 0 0 3 7000, SockV4 10 0 0 4 7000]"

definition refused :: "instant \<Rightarrow> dial_turn" where
  "refused now = \<lparr>dt_due = now, dt_now = now, dt_seen = now, dt_conn = None\<rparr>"

definition seeking_node :: "(files, seg_writer, seg_reader) node" where
  "seeking_node = (let n = sample_node 9 registry_new in n\<lparr>nd_config := (nd_config n)\<lparr>cfg_seeds := dead_seeds\<rparr>\<rparr>)"

lemma seeking_node_sel [simp]:
  "nd_dial_backoff seeking_node = Map.empty" "cfg_seeds (nd_config seeking_node) = dead_seeds"
  "nd_dial_cursor_seeds seeking_node = 0" "nd_dial_cursor_learned seeking_node = 0" "nd_dial_cursor_twins seeking_node = 0"
  "bd_self_control_addr (nd_bcast seeking_node) = SockV4 10 0 0 1 7001" "bd_connected (nd_bcast seeking_node) = {}"
  "node_at (nd_bcast seeking_node) a = None" "unconnected_peers (nd_bcast seeking_node) = []"
  "same_id_candidates (nd_bcast seeking_node) = []" "bd_link_peers (nd_bcast seeking_node) = Map.empty"
  "bd_next_peer_id (nd_bcast seeking_node) = 1"
  by (simp_all add: seeking_node_def Let_def sample_node_def node_new_def sample_config_def set_self_name_def
      bcast_new_def node_at_def ms_node_at_def membership_new_def unconnected_peers_def known_peers_def
      same_id_candidates_def NO_PEER_def RBT.entries.rep_eq RBT.empty.rep_eq)

lemma dial_peer_refused [simp]: "dial_peer (refused now) a n = Some (charge_dial (refused now) a n)"
  by (simp add: dial_peer_def refused_def)

lemma seeking_walk:
  assumes "x \<in> set dead_seeds" and "y \<in> set dead_seeds" and "x \<noteq> y"
  shows "dial_walk 2 [] ((x, refused a) # (y, refused b) # rest) seeking_node =
    Some ([x, y], charge_dial (refused b) y (charge_dial (refused a) x seeking_node))"
proof -
  have ok: "\<not> is_unspecified z \<and> z \<noteq> SockV4 10 0 0 1 7001" if "z \<in> set dead_seeds" for z
    using that by (auto simp: dead_seeds_def)
  have full: "dial_walk 2 [x, y] rest n = Some ([x, y], n)" for n :: "(files, seg_writer, seg_reader) node"
    by (cases rest) auto
  show ?thesis
    using ok [OF assms(1)] ok [OF assms(2)] assms(3)
    by (simp add: full dial_due_def should_dial_iff is_connected_def charge_dial_def Let_def)
qed

theorem tick_dials_bounded_witness:
  "\<exists>n1 n2. connect_seeds (\<lambda>_. refused 0) seeking_node = Some (take 2 dead_seeds, n1) \<and>
     connect_learned_peers (\<lambda>_. refused 0) (\<lambda>_. refused 0) n1 = Some ([], n2) \<and> penalties_ok n2 \<and>
     length (take 2 dead_seeds @ []) * CONNECT_TIMEOUT + TICK_RESERVE \<le> LIVENESS_TIMEOUT"
proof -
  obtain n1 where s: "connect_seeds (\<lambda>_. refused 0) seeking_node = Some (take 2 dead_seeds, n1)"
    and "nd_bcast n1 = nd_bcast seeking_node"
    using seeking_walk [of "dead_seeds ! 0" "dead_seeds ! 1" 0 0 "[(dead_seeds ! 2, refused 0)]"]
    by (simp add: connect_seeds_def dial_some_def MAX_DIALS_PER_TICK_def dead_seeds_def del: dial_walk.simps)
  then obtain n2 where l: "connect_learned_peers (\<lambda>_. refused 0) (\<lambda>_. refused 0) n1 = Some ([], n2)"
    by (simp add: connect_learned_peers_def dial_some_def)
  have "penalties_ok seeking_node" by (simp add: penalties_ok_def)
  with tick_dials_bounded [OF s l] s l show ?thesis by blast
qed

theorem dialling_is_fair_witness:
  "\<exists>ds. dial_ticks dead_seeds 2 0 [(\<lambda>_. refused 0, seeking_node), (\<lambda>_. refused 1, seeking_node)] = Some ds \<and>
     SockV4 10 0 0 4 7000 \<in> set ds"
proof -
  let ?ticks = "[(\<lambda>_. refused 0, seeking_node), (\<lambda>_. refused 1, seeking_node)]"
  obtain ds where ds: "dial_ticks dead_seeds 2 0 ?ticks = Some ds"
    using seeking_walk [of "dead_seeds ! 0" "dead_seeds ! 1" 0 0 "[(dead_seeds ! 2, refused 0)]"]
      seeking_walk [of "dead_seeds ! 2" "dead_seeds ! 0" 1 1 "[(dead_seeds ! 1, refused 1)]"]
    by (simp add: dial_some_def dead_seeds_def rotate_drop_take del: dial_walk.simps)
  moreover have "\<forall>(turns, n)\<in>set ?ticks. dialable (length dead_seeds) turns 2 n (dead_seeds ! 2)"
    by (simp add: dialable_def dead_seeds_def should_dial_iff is_connected_def dial_due_def fresh_links_def)
  ultimately show ?thesis using dialling_is_fair [OF ds, of 2] by (simp add: dead_seeds_def)
qed

theorem dial_backoff_doubles_witness:
  "let ts = map refused [0, secs 1, secs 3, secs 7]; a = SockV4 10 0 0 2 7000
   in dials_of a ts seeking_node \<and> kept_at ts \<and> dt_now (ts ! 2) + secs 4 \<le> dt_now (ts ! 3)"
proof -
  let ?ts = "map refused [0, secs 1, secs 3, secs 7]" and ?a = "SockV4 10 0 0 2 7000"
  have "dials_of ?a ?ts seeking_node" "kept_at ?ts"
    by (simp_all add: refused_def dial_due_def charge_dial_def Let_def backoff_gap_def dial_constants)
  with dial_backoff_doubles [of ?a ?ts seeking_node 2] show ?thesis
    by (simp add: dial_constants)
qed

end
