(* ===== verification/Node_Subs.thy ===== *)
theory Node_Subs
  imports Node_Dial
begin

text \<open>
  Subscriptions of a node, \<open>xchannel-net/src/node.rs\<close>: asking for one, the throttled retries, one
  establishment attempt, and the half of the duty cycle that applies what the sources send. An attempt
  runs on a thread of its own beside the conductor and the duty cycle, so it is cut into the phases
  between which the others may act, and \<open>sub_step\<close> interleaves them.

  \<^item> A handle is a key of \<open>nd_shared\<close>, kept after its last holder is gone: the last \<open>Subscription\<close> dropped
    stops it, so a weak reference that cannot be upgraded and a stopped one are treated alike, as the
    code does.
  \<^item> A replica is written through the sink of a poll item, or of the client an attempt has opened.
\<close>

unbundle bit_operations_syntax

subsection \<open>The throttle\<close>

datatype establish_why = Caller | Retry

definition ATTACH_BACKOFF_MIN :: duration where
  "ATTACH_BACKOFF_MIN = ms 250"

definition ATTACH_BACKOFF_MAX :: duration where
  "ATTACH_BACKOFF_MAX = secs 4"

definition MAX_BATCH_PER_POLL_ITEM :: nat where
  "MAX_BATCH_PER_POLL_ITEM = 256"

definition jitter_for :: "rstring \<Rightarrow> duration \<Rightarrow> duration" where
  "jitter_for name gap =
     (let h = fold (\<lambda>b h. (h XOR ucast b) * 0x100000001b3) name (0xcbf29ce484222325 :: u64);
          half = of_nat (max (gap div 1000) 1) div 2
      in unat (h mod max half 1) * 1000)"

text \<open>The clock at the check, at the charge, and when the age of the last attempt is read.\<close>

record attach_clock =
  ac_checked :: instant
  ac_now :: instant
  ac_seen :: instant

definition attach_due :: "attach_clock \<Rightarrow> rstring \<Rightarrow> ('t, 'w, 'r) node \<Rightarrow> bool \<times> ('t, 'w, 'r) node" where
  "attach_due c name n =
     (if (case nd_attach_backoff n name of Some p \<Rightarrow> ac_checked c < dp_next p | None \<Rightarrow> False) then (False, n)
      else
        let gap = backoff_gap ATTACH_BACKOFF_MIN ATTACH_BACKOFF_MAX (nd_attach_backoff n name) (ac_seen c)
        in (True, n\<lparr>nd_attach_backoff := (nd_attach_backoff n)(name \<mapsto>
              \<lparr>dp_attempted_at = ac_now c, dp_next = ac_now c + gap + jitter_for name gap, dp_gap = gap\<rparr>)\<rparr>))"

subsection \<open>Asking for a subscription\<close>

definition with_shared :: "nat \<Rightarrow> (sub_shared \<Rightarrow> sub_shared) \<Rightarrow> ('t, 'w, 'r) node \<Rightarrow> ('t, 'w, 'r) node" where
  "with_shared h f n = n\<lparr>nd_shared := (nd_shared n)(h := map_option f (nd_shared n h))\<rparr>"

definition flag :: "(sub_shared \<Rightarrow> bool) \<Rightarrow> nat \<Rightarrow> ('t, 'w, 'r) node \<Rightarrow> bool" where
  "flag f h n = (case nd_shared n h of Some s \<Rightarrow> f s | None \<Rightarrow> False)"

definition set_establishing :: "bool \<Rightarrow> nat \<Rightarrow> ('t, 'w, 'r) node \<Rightarrow> ('t, 'w, 'r) node" where
  "set_establishing b h = with_shared h (\<lambda>s. s\<lparr>sh_establishing := b\<rparr>)"

definition set_connected :: "bool \<Rightarrow> nat \<Rightarrow> ('t, 'w, 'r) node \<Rightarrow> ('t, 'w, 'r) node" where
  "set_connected b h = with_shared h (\<lambda>s. s\<lparr>sh_connected := b\<rparr>)"

text \<open>\<open>spawned\<close> is whether the system gave the thread. The result says whether an attempt was started.\<close>

definition spawn_establish ::
  "attach_clock \<Rightarrow> bool \<Rightarrow> rstring \<Rightarrow> nat \<Rightarrow> establish_why \<Rightarrow> ('t, 'w, 'r) node \<Rightarrow> bool \<times> ('t, 'w, 'r) node" where
  "spawn_establish c spawned name h why n =
     (let n1 = (if why = Caller then attach_now name n else n) in
      if flag sh_establishing h n1 then (False, n1)
      else
        let n2 = set_establishing True h n1;
            (due, n3) = (if why = Retry then attach_due c name n2 else (True, n2))
        in if due \<and> spawned then (True, n3) else (False, set_establishing False h n3))"

definition sub_new :: "path \<Rightarrow> sub_shared" where
  "sub_new p =
     \<lparr>sh_replica_path = p, sh_synced = 0, sh_head_at_connect = 0, sh_last_record_at_ms = 0,
      sh_rebuilds = \<lparr>rb_gap = 0, rb_diverged = 0, rb_last_at_ms = 0\<rparr>,
      sh_stopped = False, sh_connected = False, sh_establishing = False\<rparr>"

text \<open>\<open>resolved\<close> is what \<open>resolve\<close> returned; the node is the one at that moment.\<close>

definition subscribe_as ::
  "('t, 'w) outside \<Rightarrow> (channel_identity \<times> socket_addr) io_result \<Rightarrow> attach_clock \<Rightarrow> bool \<Rightarrow> rstring \<Rightarrow> establish_why \<Rightarrow>
     (('t, 'w, 'r) node, nat \<times> bool) act" where
  "subscribe_as os resolved c spawned name why = (\<lambda>n.
     act_bind (act_lift resolved) (\<lambda>_.
     act_bind (act_lift (node_replica_path os n name)) (\<lambda>p.
     act_bind (ensure_parent (os_fs os) p) (\<lambda>_ n1.
       let h = nd_next_handle n1;
           n2 = n1\<lparr>nd_shared := (nd_shared n1)(h \<mapsto> sub_new p), nd_next_handle := Suc h,
                  nd_conducted := nd_conducted n1 @ [(name, h)]\<rparr>;
           (started, n3) = spawn_establish c spawned name h why n2
       in Some (Inr (h, started), n3)))) n)"

definition node_subscribe ::
  "('t, 'w) outside \<Rightarrow> (channel_identity \<times> socket_addr) io_result \<Rightarrow> attach_clock \<Rightarrow> bool \<Rightarrow> rstring \<Rightarrow>
     (('t, 'w, 'r) node, nat \<times> bool) act" where
  "node_subscribe os resolved c spawned name = subscribe_as os resolved c spawned name Caller"

text \<open>The conductor's pass over what is wanted; \<open>turns i\<close> is the clock and the thread of entry \<open>i\<close>.\<close>

fun service_walk ::
  "((rstring \<times> nat) \<times> attach_clock \<times> bool) list \<Rightarrow> ('t, 'w, 'r) node \<Rightarrow> (rstring \<times> nat) list \<times> ('t, 'w, 'r) node" where
  "service_walk [] n = ([], n)"
| "service_walk (((name, h), c, spawned) # rest) n =
     (if flag sh_stopped h n \<or> flag sh_connected h n then service_walk rest n
      else
        let (started, n1) = spawn_establish c spawned name h Retry n;
            (hs, n2) = service_walk rest n1
        in (if started then (name, h) # hs else hs, n2))"

definition service_subscriptions ::
  "(nat \<Rightarrow> attach_clock \<times> bool) \<Rightarrow> ('t, 'w, 'r) node \<Rightarrow> (rstring \<times> nat) list \<times> ('t, 'w, 'r) node" where
  "service_subscriptions turns n =
     (let wanted = filter (\<lambda>(_, h). sub_is_active h n) (nd_conducted n)
      in service_walk (zip wanted (map turns [0..<length wanted])) (n\<lparr>nd_conducted := wanted\<rparr>))"

subsection \<open>One establishment attempt\<close>

definition position_config :: "u32 \<Rightarrow> writer_config" where
  "position_config region_size =
     \<lparr>wc_region_size = unat region_size, wc_mtu = 0, wc_file_roll_size = None, wc_base_record_index = None,
      wc_generation = None, wc_channel_name = [], wc_keep_files = None\<rparr>"

definition replica_position ::
  "('t, 'w) outside \<Rightarrow> path \<Rightarrow> u32 \<Rightarrow> 't \<Rightarrow> (record_index \<times> u64) io_result \<times> 't" where
  "replica_position os p region_size t =
     (if \<not> fs_exists (os_fs os) t p then (Inr (0, 0), t)
      else
        (case wr_build (os_writer os) t p (position_config region_size) of
           (Inl e, t1) \<Rightarrow> (Inl e, t1)
         | (Inr w, t1) \<Rightarrow> (Inr (wr_next_index (os_writer os) w, wr_generation (os_writer os) w), t1)))"

definition rebuild_record :: "u64 \<Rightarrow> bool \<Rightarrow> rebuild_stats \<Rightarrow> rebuild_stats" where
  "rebuild_record now_ms was_diverged r =
     (if was_diverged then r\<lparr>rb_diverged := rb_diverged r + 1\<rparr> else r\<lparr>rb_gap := rb_gap r + 1\<rparr>)\<lparr>rb_last_at_ms := now_ms\<rparr>"

text \<open>Where an attempt stands. From \<open>Opened\<close> to the handing over it holds the sink of the replica.\<close>

datatype 'w attempt =
    Started
  | Checked
  | Resolved channel_identity
  | Positioned record_index u64
  | Opened "'w stream_client"
  | Handing "'w client_poll_item"
  | Refused bool
  | Ended

definition est_check :: "nat \<Rightarrow> ('t, 'w, 'r) node \<Rightarrow> 'w attempt" where
  "est_check h n = (if flag sh_stopped h n \<or> flag sh_connected h n then Ended else Checked)"

definition est_resolve :: "(channel_identity \<times> socket_addr) io_result \<Rightarrow> 'w attempt" where
  "est_resolve resolved = (case resolved of Inl _ \<Rightarrow> Ended | Inr (i, _) \<Rightarrow> Resolved i)"

definition est_position ::
  "('t, 'w) outside \<Rightarrow> nat \<Rightarrow> channel_identity \<Rightarrow> ('t, 'w, 'r) node \<Rightarrow> 'w attempt \<times> ('t, 'w, 'r) node" where
  "est_position os h i n =
     (let p = (case nd_shared n h of Some s \<Rightarrow> sh_replica_path s | None \<Rightarrow> []);
          (r, t) = replica_position os p (ci_region_size i) (nd_fs n);
          (from, generation) = (case r of Inr x \<Rightarrow> x | Inl _ \<Rightarrow> (0, 0))
      in (Positioned from generation, with_shared h (\<lambda>s. s\<lparr>sh_synced := from\<rparr>) (n\<lparr>nd_fs := t\<rparr>)))"

text \<open>\<open>connected\<close> is whether the dial succeeded and took the read timeout.\<close>

definition est_handshake ::
  "('t, 'w) outside \<Rightarrow> ('t, 'r) reader_api \<Rightarrow> bool \<Rightarrow> (bytes \<Rightarrow> unit io_result) \<Rightarrow> bytes io_result \<Rightarrow> nat \<Rightarrow> rstring \<Rightarrow>
     record_index \<Rightarrow> u64 \<Rightarrow> ('t, 'w, 'r) node \<Rightarrow> 'w attempt \<times> ('t, 'w, 'r) node" where
  "est_handshake os rapi connected send recv h name from generation n =
     (if \<not> connected then (Ended, n)
      else
        let p = (case nd_shared n h of Some s \<Rightarrow> sh_replica_path s | None \<Rightarrow> []) in
        (case Stream_Proto.subscribe rapi (os_writer os) send recv name from generation p (nd_fs n) of
           (Inr client, t) \<Rightarrow>
             (Opened client, with_shared h (\<lambda>s. s\<lparr>sh_head_at_connect := sc_head client\<rparr>) (n\<lparr>nd_fs := t\<rparr>))
         | (Inl (Rebuild was_diverged _ _ _), t) \<Rightarrow> (Refused was_diverged, n\<lparr>nd_fs := t\<rparr>)
         | (Inl (SubIo _), t) \<Rightarrow> (Ended, n\<lparr>nd_fs := t\<rparr>)))"

text \<open>\<open>adopted\<close> is whether the socket could be made non-blocking. The flag is published, then the item.\<close>

definition est_adopt :: "bool \<Rightarrow> nat \<Rightarrow> 'w stream_client \<Rightarrow> ('t, 'w, 'r) node \<Rightarrow> 'w attempt \<times> ('t, 'w, 'r) node" where
  "est_adopt adopted h client n =
     (if adopted then (Handing (client_adopt client), set_connected True h n) else (Ended, n))"

definition est_hand :: "nat \<Rightarrow> rstring \<Rightarrow> 'w client_poll_item \<Rightarrow> ('t, 'w, 'r) node \<Rightarrow> 'w attempt \<times> ('t, 'w, 'r) node" where
  "est_hand h name item n =
     (Ended, n\<lparr>nd_attach_backoff := (nd_attach_backoff n)(name := None), nd_duty_clients := nd_duty_clients n @ [(h, item)]\<rparr>)"

definition est_rebuild ::
  "('t, 'w) outside \<Rightarrow> u64 \<Rightarrow> nat \<Rightarrow> rstring \<Rightarrow> bool \<Rightarrow> ('t, 'w, 'r) node \<Rightarrow> 'w attempt \<times> ('t, 'w, 'r) node" where
  "est_rebuild os now_ms h name was_diverged n =
     (let n1 = (case replica_dir (os_name_max os) (cfg_data_dir (nd_config n)) name of
                  Inl _ \<Rightarrow> n
                | Inr dir \<Rightarrow>
                    n\<lparr>nd_fs := snd (ensure_private_dir (os_fs os) dir (snd (fs_remove_dir_all (os_fs os) (nd_fs n) dir)))\<rparr>)
      in (Ended, with_shared h (\<lambda>s. s\<lparr>sh_synced := 0, sh_rebuilds := rebuild_record now_ms was_diverged (sh_rebuilds s)\<rparr>) n1))"

text \<open>What the outside answers to one phase.\<close>

record answers =
  an_resolved :: "(channel_identity \<times> socket_addr) io_result"
  an_connected :: bool
  an_send :: "bytes \<Rightarrow> unit io_result"
  an_recv :: "bytes io_result"
  an_adopted :: bool
  an_now_ms :: u64

fun est_phase ::
  "('t, 'w) outside \<Rightarrow> ('t, 'r) reader_api \<Rightarrow> answers \<Rightarrow> nat \<Rightarrow> rstring \<Rightarrow> 'w attempt \<Rightarrow> ('t, 'w, 'r) node \<Rightarrow>
     'w attempt \<times> ('t, 'w, 'r) node" where
  "est_phase os rapi x h name Started n = (est_check h n, n)"
| "est_phase os rapi x h name Checked n = (est_resolve (an_resolved x), n)"
| "est_phase os rapi x h name (Resolved i) n = est_position os h i n"
| "est_phase os rapi x h name (Positioned from g) n =
     est_handshake os rapi (an_connected x) (an_send x) (an_recv x) h name from g n"
| "est_phase os rapi x h name (Opened client) n = est_adopt (an_adopted x) h client n"
| "est_phase os rapi x h name (Handing item) n = est_hand h name item n"
| "est_phase os rapi x h name (Refused was_diverged) n = est_rebuild os (an_now_ms x) h name was_diverged n"
| "est_phase os rapi x h name Ended n = (Ended, n)"

text \<open>The attempt from start to end, nothing coming between its phases; the longest has six.\<close>

definition establish ::
  "('t, 'w) outside \<Rightarrow> ('t, 'r) reader_api \<Rightarrow> answers \<Rightarrow> nat \<Rightarrow> rstring \<Rightarrow> ('t, 'w, 'r) node \<Rightarrow> ('t, 'w, 'r) node" where
  "establish os rapi x h name n =
     snd (((\<lambda>(a, m). est_phase os rapi x h name a m) ^^ 6) (Started, n))"

subsection \<open>The duty cycle's sinks\<close>

text \<open>One sink's turn: the records applied and the item, unless it is dropped.\<close>

definition poll_client ::
  "('t, 'w) writer_api \<Rightarrow> u64 \<Rightarrow> read_result list \<Rightarrow> nat \<Rightarrow> 'w client_poll_item \<Rightarrow> ('t, 'w, 'r) node \<Rightarrow>
     nat \<times> 'w client_poll_item option \<times> ('t, 'w, 'r) node" where
  "poll_client api now_ms reads h item n =
     (if flag sh_stopped h n then (0, None, n)
      else
        (case client_poll api MAX_BATCH_PER_POLL_ITEM 0 (nd_fs n) item reads of
           (Inl _, t, _, _) \<Rightarrow> (0, None, n\<lparr>nd_fs := t\<rparr>)
         | (Inr k, t, item', _) \<Rightarrow>
             (k, Some item',
              if k > 0 then with_shared h (\<lambda>s. s\<lparr>sh_synced := sink_expected_index (cp_sink item'),
                   sh_last_record_at_ms := now_ms\<rparr>) (n\<lparr>nd_fs := t\<rparr>)
              else n\<lparr>nd_fs := t\<rparr>)))"

text \<open>The drain: a dropped item is gone before its flag is cleared.\<close>

fun poll_clients ::
  "('t, 'w) writer_api \<Rightarrow> ((nat \<times> 'w client_poll_item) \<times> u64 \<times> read_result list) list \<Rightarrow> ('t, 'w, 'r) node \<Rightarrow>
     nat \<times> (nat \<times> 'w client_poll_item) list \<times> ('t, 'w, 'r) node" where
  "poll_clients api [] n = (0, [], n)"
| "poll_clients api (((h, item), now_ms, reads) # rest) n =
     (case poll_client api now_ms reads h item n of
        (k, Some item', n1) \<Rightarrow>
          (case poll_clients api rest n1 of (work, live, n2) \<Rightarrow> (k + work, (h, item') # live, n2))
      | (k, None, n1) \<Rightarrow> poll_clients api rest (set_connected False h n1))"

subsection \<open>Interleaving\<close>

text \<open>The node, the attempts in flight, and the sinks the duty cycle holds: \<open>None\<close> is one whose item is
  dropped and whose flag is not yet cleared.\<close>

record ('t, 'w, 'r) sub_sys =
  su_node :: "('t, 'w, 'r) node"
  su_attempts :: "(nat \<times> rstring \<times> 'w attempt) list"
  su_clients :: "(nat \<times> 'w client_poll_item option) list"

text \<open>Any other activity of the node leaves the subscriptions' state alone.\<close>

inductive sub_step ::
  "('t, 'w) outside \<Rightarrow> ('t, 'r) reader_api \<Rightarrow> ('t, 'w, 'r) sub_sys \<Rightarrow> ('t, 'w, 'r) sub_sys \<Rightarrow> bool" for os rapi where
  asked: "subscribe_as os resolved c spawned name why (su_node S) = Some (Inr (h, started), n) \<Longrightarrow>
     sub_step os rapi S (S\<lparr>su_node := n,
       su_attempts := su_attempts S @ (if started then [(h, name, Started)] else [])\<rparr>)"
| refused: "subscribe_as os resolved c spawned name why (su_node S) = Some (Inl e, n) \<Longrightarrow>
     sub_step os rapi S (S\<lparr>su_node := n\<rparr>)"
| serviced: "service_subscriptions turns (su_node S) = (started, n) \<Longrightarrow>
     sub_step os rapi S (S\<lparr>su_node := n,
       su_attempts := su_attempts S @ map (\<lambda>(name, h). (h, name, Started)) started\<rparr>)"
| unwanted: "sub_step os rapi S (S\<lparr>su_node := stop_sub h (su_node S)\<rparr>)"
| attempted: "su_attempts S = xs @ (h, name, a) # ys \<Longrightarrow> est_phase os rapi x h name a (su_node S) = (a', n) \<Longrightarrow>
     sub_step os rapi S (S\<lparr>su_node := n, su_attempts := xs @ (h, name, a') # ys\<rparr>)"
| finished: "su_attempts S = xs @ (h, name, Ended) # ys \<Longrightarrow>
     sub_step os rapi S (S\<lparr>su_node := set_establishing False h (su_node S), su_attempts := xs @ ys\<rparr>)"
| taken: "sub_step os rapi S (S\<lparr>su_node := (su_node S)\<lparr>nd_duty_clients := []\<rparr>,
     su_clients := su_clients S @ map (\<lambda>(h, item). (h, Some item)) (nd_duty_clients (su_node S))\<rparr>)"
| polled: "su_clients S = xs @ (h, Some item) # ys \<Longrightarrow>
     poll_client (os_writer os) now_ms reads h item (su_node S) = (k, r, n) \<Longrightarrow>
     sub_step os rapi S (S\<lparr>su_node := n, su_clients := xs @ (h, r) # ys\<rparr>)"
| cleared: "su_clients S = xs @ (h, None) # ys \<Longrightarrow>
     sub_step os rapi S (S\<lparr>su_node := set_connected False h (su_node S), su_clients := xs @ ys\<rparr>)"
| elsewhere: "nd_shared n = nd_shared (su_node S) \<Longrightarrow> nd_conducted n = nd_conducted (su_node S) \<Longrightarrow>
     nd_duty_clients n = nd_duty_clients (su_node S) \<Longrightarrow> nd_next_handle n = nd_next_handle (su_node S) \<Longrightarrow>
     sub_step os rapi S (S\<lparr>su_node := n\<rparr>)"

text \<open>The handles a replica writer is live for.\<close>

fun holds_writer :: "'w attempt \<Rightarrow> bool" where
  "holds_writer (Opened _) = True"
| "holds_writer (Handing _) = True"
| "holds_writer _ = False"

definition writers :: "('t, 'w, 'r) sub_sys \<Rightarrow> nat list" where
  "writers S = map fst (filter (\<lambda>(h, name, a). holds_writer a) (su_attempts S)) @
     map fst (nd_duty_clients (su_node S)) @ map fst (filter (\<lambda>(h, item). item \<noteq> None) (su_clients S))"

text \<open>The invariant, on the three parts of a state. Between its check and the handing over the attempt is
  alone with its handle: no second attempt, no item, and the flag is down.\<close>

fun unconnected_phase :: "'w attempt \<Rightarrow> bool" where
  "unconnected_phase Started = False"
| "unconnected_phase (Handing _) = False"
| "unconnected_phase Ended = False"
| "unconnected_phase _ = True"

definition handed :: "('t, 'w, 'r) node \<Rightarrow> (nat \<times> 'w client_poll_item option) list \<Rightarrow> nat list" where
  "handed n C = map fst (nd_duty_clients n) @ map fst C"

definition phase_ok :: "('t, 'w, 'r) node \<Rightarrow> (nat \<times> 'w client_poll_item option) list \<Rightarrow> nat \<times> rstring \<times> 'w attempt \<Rightarrow> bool" where
  "phase_ok n C = (\<lambda>(h, name, a). flag sh_establishing h n \<and> (unconnected_phase a \<longrightarrow> \<not> flag sh_connected h n) \<and>
     (\<forall>item. a = Handing item \<longrightarrow> flag sh_connected h n \<and> h \<notin> set (handed n C)))"

definition subs_ok ::
  "('t, 'w, 'r) node \<Rightarrow> (nat \<times> rstring \<times> 'w attempt) list \<Rightarrow> (nat \<times> 'w client_poll_item option) list \<Rightarrow> bool" where
  "subs_ok n A C \<longleftrightarrow>
     (\<forall>h. nd_shared n h = None \<longleftrightarrow> nd_next_handle n \<le> h) \<and> (\<forall>(name, h)\<in>set (nd_conducted n). h < nd_next_handle n) \<and>
     distinct (map fst A) \<and> (\<forall>x\<in>set A. phase_ok n C x) \<and>
     distinct (handed n C) \<and> (\<forall>h\<in>set (handed n C). flag sh_connected h n)"

lemma flag_with_shared:
  "flag f k (with_shared h g n) =
     (if k = h then (case nd_shared n h of Some s \<Rightarrow> f (g s) | None \<Rightarrow> False) else flag f k n)"
  by (auto simp: flag_def with_shared_def split: option.splits)

lemma with_shared_sel [simp]:
  "nd_shared (with_shared h g n) k = None \<longleftrightarrow> nd_shared n k = None"
  "nd_conducted (with_shared h g n) = nd_conducted n" "nd_duty_clients (with_shared h g n) = nd_duty_clients n"
  "nd_next_handle (with_shared h g n) = nd_next_handle n" "nd_fs (with_shared h g n) = nd_fs n"
  by (auto simp: with_shared_def)

text \<open>What leaves the flags, the handles and the queues as they are keeps the invariant.\<close>

definition same_subs :: "('t, 'w, 'r) node \<Rightarrow> ('t, 'w, 'r) node \<Rightarrow> bool" where
  "same_subs n n' \<longleftrightarrow> (\<forall>h. nd_shared n' h = None \<longleftrightarrow> nd_shared n h = None) \<and>
     (\<forall>h. flag sh_connected h n' = flag sh_connected h n \<and> flag sh_establishing h n' = flag sh_establishing h n) \<and>
     set (nd_conducted n') \<subseteq> set (nd_conducted n) \<and>
     nd_duty_clients n' = nd_duty_clients n \<and> nd_next_handle n' = nd_next_handle n"

lemma same_subs_ok: "subs_ok n A C \<Longrightarrow> same_subs n n' \<Longrightarrow> subs_ok n' A C"
  by (auto simp: subs_ok_def same_subs_def phase_ok_def handed_def)

lemma same_subs_refl [simp]: "same_subs n n"
  by (simp add: same_subs_def)

lemma same_subs_trans: "same_subs a b \<Longrightarrow> same_subs b c \<Longrightarrow> same_subs a c"
  by (auto simp: same_subs_def)

interpretation subs: preserving same_subs "\<lambda>n. subs_ok n A C" for A C
  by unfold_locales (auto intro: same_subs_trans same_subs_ok)

lemma same_subs_with_shared:
  assumes "\<And>s. sh_connected (g s) = sh_connected s" "\<And>s. sh_establishing (g s) = sh_establishing s"
  shows "same_subs n (with_shared h g n)"
  using assms by (auto simp: same_subs_def with_shared_def flag_def split: option.splits)

lemma same_subs_fs [simp]: "same_subs n (n\<lparr>nd_fs := t\<rparr>)" "same_subs n (n\<lparr>nd_attach_backoff := b\<rparr>)"
  by (simp_all add: same_subs_def flag_def)

lemmas same_subs_intros = same_subs_trans [OF same_subs_fs(1) same_subs_with_shared] same_subs_with_shared

lemma attach_due_same: "attach_due c name n = (b, n') \<Longrightarrow> same_subs n n'"
  by (auto simp: attach_due_def Let_def split: if_splits)

lemma stop_sub_same: "same_subs n (stop_sub h n)"
  using same_subs_with_shared [of "\<lambda>s. s\<lparr>sh_stopped := True\<rparr>"] by (simp add: stop_sub_def with_shared_def)

lemma est_position_same: "est_position os h i n = (a, n') \<Longrightarrow> same_subs n n' \<and> unconnected_phase a"
  by (auto simp: est_position_def Let_def intro!: same_subs_intros split: prod.splits)

lemma est_handshake_same:
  "est_handshake os rapi b send recv h name from g n = (a, n') \<Longrightarrow> same_subs n n' \<and> (\<forall>item. a \<noteq> Handing item)"
  by (auto simp: est_handshake_def Let_def intro!: same_subs_intros split: if_splits prod.splits sum.splits subscribe_error.splits)

lemma est_rebuild_same: "est_rebuild os now h name d n = (a, n') \<Longrightarrow> same_subs n n' \<and> a = Ended"
  by (auto simp: est_rebuild_def Let_def intro!: same_subs_intros split: sum.splits)

lemma poll_client_same: "poll_client api now reads h item n = (k, r, n') \<Longrightarrow> same_subs n n'"
  by (auto simp: poll_client_def Let_def intro!: same_subs_intros split: if_splits prod.splits sum.splits)

lemma set_flags [simp]:
  "flag sh_establishing k (set_establishing b h n) = (if k = h then b \<and> nd_shared n h \<noteq> None else flag sh_establishing k n)"
  "flag sh_connected k (set_establishing b h n) = flag sh_connected k n"
  "flag sh_connected k (set_connected b h n) = (if k = h then b \<and> nd_shared n h \<noteq> None else flag sh_connected k n)"
  "flag sh_establishing k (set_connected b h n) = flag sh_establishing k n"
  by (auto simp: set_establishing_def set_connected_def with_shared_def flag_def split: option.splits)

lemma set_flags_sel [simp]:
  "nd_shared (set_establishing b h n) k = None \<longleftrightarrow> nd_shared n k = None"
  "nd_conducted (set_establishing b h n) = nd_conducted n" "nd_duty_clients (set_establishing b h n) = nd_duty_clients n"
  "nd_next_handle (set_establishing b h n) = nd_next_handle n"
  "nd_shared (set_connected b h n) k = None \<longleftrightarrow> nd_shared n k = None"
  "nd_conducted (set_connected b h n) = nd_conducted n" "nd_duty_clients (set_connected b h n) = nd_duty_clients n"
  "nd_next_handle (set_connected b h n) = nd_next_handle n"
  by (simp_all add: set_establishing_def set_connected_def)

text \<open>Starting an attempt.\<close>

lemma spawn_ok:
  assumes "subs_ok n A C" and "h < nd_next_handle n" and "spawn_establish c sp name h why n = (started, n')"
  shows "subs_ok n' (A @ (if started then [(h, name, Started)] else [])) C \<and> nd_next_handle n' = nd_next_handle n"
proof -
  define n1 where "n1 = (if why = Caller then attach_now name n else n)"
  have "same_subs n n1" by (simp add: n1_def attach_now_def)
  with assms have ok: "subs_ok n1 A C" "nd_next_handle n1 = nd_next_handle n"
    by (auto intro: same_subs_ok simp: same_subs_def)
  show ?thesis
  proof (cases "flag sh_establishing h n1")
    case True
    with assms(3) ok show ?thesis by (simp add: spawn_establish_def Let_def flip: n1_def)
  next
    case False
    define n2 where "n2 = set_establishing True h n1"
    obtain due n3 where d: "(if why = Retry then attach_due c name n2 else (True, n2)) = (due, n3)" by fastforce
    then have s3: "same_subs n2 n3" by (auto split: if_splits intro: attach_due_same)
    from assms(3) False d have e: "started = (due \<and> sp)" "n' = (if due \<and> sp then n3 else set_establishing False h n3)"
      by (auto simp: spawn_establish_def Let_def simp flip: n1_def n2_def split: if_splits)
    have new: "h \<notin> fst ` set A" using ok(1) False by (force simp: subs_ok_def phase_ok_def)
    have h: "nd_shared n1 h \<noteq> None" using ok assms(2) by (simp add: subs_ok_def)
    show ?thesis
    proof (cases started)
      case True
      have "subs_ok n2 (A @ [(h, name, Started)]) C"
        using ok(1) new h unfolding subs_ok_def n2_def
        by (auto simp: phase_ok_def handed_def)
      with True e s3 ok(2) show ?thesis
        by (auto intro: same_subs_ok simp: same_subs_def n2_def)
    next
      case False
      have "same_subs n1 n'"
        using False e s3 \<open>\<not> flag sh_establishing h n1\<close>
        by (auto simp: same_subs_def n2_def split: if_splits)
      with False ok show ?thesis by (auto intro: same_subs_ok simp: same_subs_def)
    qed
  qed
qed

lemma ensure_parent_same: "ensure_parent fs p n = Some (r, n') \<Longrightarrow> same_subs n n'"
  by (auto simp: ensure_parent_def on_fs_def split: option.splits prod.splits)

lemma fresh_ok:
  assumes "subs_ok n A C"
  defines "h \<equiv> nd_next_handle n"
  shows "subs_ok (n\<lparr>nd_shared := (nd_shared n)(h \<mapsto> sub_new p), nd_next_handle := Suc h,
    nd_conducted := nd_conducted n @ [(name, h)]\<rparr>) A C"
proof -
  have "nd_shared n h = None" using assms by (simp add: subs_ok_def)
  then have "flag f h n = False" for f by (simp add: flag_def)
  then have "flag f k (n\<lparr>nd_shared := (nd_shared n)(h \<mapsto> sub_new p), nd_next_handle := Suc h,
    nd_conducted := nd_conducted n @ [(name, h)]\<rparr>) = flag f k n" if "f \<in> {sh_connected, sh_establishing}" for f k
    using that by (auto simp: flag_def sub_new_def)
  with assms show ?thesis by (fastforce simp: subs_ok_def phase_ok_def handed_def)
qed

lemma subscribe_as_ok:
  assumes "subs_ok n A C" and "subscribe_as os resolved c sp name why n = Some (r, n')"
  shows "(\<forall>h started. r = Inr (h, started) \<longrightarrow> subs_ok n' (A @ (if started then [(h, name, Started)] else [])) C) \<and>
    (\<forall>e. r = Inl e \<longrightarrow> subs_ok n' A C)"
proof (cases r)
  case (Inl e)
  with assms(2) have "same_subs n n'"
    by (auto simp: subscribe_as_def act_bind_Some Let_def split: prod.splits dest: ensure_parent_same)
  with Inl assms(1) same_subs_ok show ?thesis by auto
next
  case (Inr x)
  obtain h started where x: "r = Inr (h, started)" using Inr by (cases x) auto
  with assms(2) obtain p n1 where n1: "ensure_parent (os_fs os) p n = Some (Inr (), n1)" "h = nd_next_handle n1"
    and n': "spawn_establish c sp name h why (n1\<lparr>nd_shared := (nd_shared n1)(h \<mapsto> sub_new p), nd_next_handle := Suc h,
      nd_conducted := nd_conducted n1 @ [(name, h)]\<rparr>) = (started, n')"
    by (fastforce simp: subscribe_as_def act_bind_Some Let_def case_prod_beta prod_eq_iff)
  have "subs_ok n1 A C" using same_subs_ok [OF assms(1) ensure_parent_same [OF n1(1)]] .
  from spawn_ok [OF fresh_ok [OF this] _ n' [unfolded n1(2)]] x n1(2) show ?thesis by simp
qed

lemma service_walk_ok:
  assumes "subs_ok n A C" and "\<forall>((name, h), c)\<in>set ws. h < nd_next_handle n" and "service_walk ws n = (started, n')"
  shows "subs_ok n' (A @ map (\<lambda>(name, h). (h, name, Started)) started) C"
  using assms
proof (induction ws n arbitrary: A started n' rule: service_walk.induct)
  case (2 name h c sp rest n)
  show ?case
  proof (cases "flag sh_stopped h n \<or> flag sh_connected h n")
    case True
    with 2 show ?thesis by auto
  next
    case False
    obtain s n1 where s: "spawn_establish c sp name h Retry n = (s, n1)" by fastforce
    obtain hs n2 where w: "service_walk rest n1 = (hs, n2)" by fastforce
    from spawn_ok [OF "2.prems"(1) _ s] "2.prems"(2)
    have "subs_ok n1 (A @ (if s then [(h, name, Started)] else [])) C" "nd_next_handle n1 = nd_next_handle n" by auto
    with "2.IH"(2) [OF False s [symmetric] refl, of "A @ (if s then [(h, name, Started)] else [])" hs n2] "2.prems" False s w
    show ?thesis by (cases s) auto
  qed
qed simp

lemma service_ok:
  assumes "subs_ok n A C" and "service_subscriptions turns n = (started, n')"
  shows "subs_ok n' (A @ map (\<lambda>(name, h). (h, name, Started)) started) C"
proof -
  let ?w = "filter (\<lambda>(_, h). sub_is_active h n) (nd_conducted n)"
  have "same_subs n (n\<lparr>nd_conducted := ?w\<rparr>)" by (auto simp: same_subs_def flag_def)
  with assms(1) have ok: "subs_ok (n\<lparr>nd_conducted := ?w\<rparr>) A C" by (rule same_subs_ok)
  have "h < nd_next_handle n" if "((name, h), c) \<in> set (zip ?w (map turns [0..<length ?w]))" for name h c
    using set_zip_leftD [OF that] assms(1) by (auto simp: subs_ok_def)
  then have "\<forall>((name, h), c)\<in>set (zip ?w (map turns [0..<length ?w])). h < nd_next_handle (n\<lparr>nd_conducted := ?w\<rparr>)"
    by fastforce
  from service_walk_ok [OF ok this assms(2) [unfolded service_subscriptions_def Let_def]] show ?thesis .
qed

text \<open>An attempt's phases.\<close>

lemma replace_ok:
  assumes "subs_ok n (xs @ (h, name, a) # ys) C" and "unconnected_phase a" and "\<And>item. a' \<noteq> Handing item"
  shows "subs_ok n (xs @ (h, name, a') # ys) C"
  using assms by (auto simp: subs_ok_def phase_ok_def)

lemma handed_set [simp]:
  "handed (set_connected b h n) C = handed n C" "handed (set_establishing b h n) C = handed n C"
  by (simp_all add: handed_def)

lemma phase_ok_other:
  "fst x \<noteq> h \<Longrightarrow> phase_ok (set_connected b h n) C x = phase_ok n C x"
  "fst x \<noteq> h \<Longrightarrow> phase_ok (set_establishing b h n) C x = phase_ok n C x"
  by (simp_all add: phase_ok_def case_prod_beta)

lemma others_apart:
  assumes "subs_ok n (xs @ (h, y) # ys) C" and "x \<in> set xs \<union> set ys"
  shows "fst x \<noteq> h" and "phase_ok n C x"
  using assms by (force simp: subs_ok_def)+

lemma adopt_ok:
  assumes "subs_ok n (xs @ (h, name, Opened client) # ys) C"
  shows "subs_ok (set_connected True h n) (xs @ (h, name, Handing item) # ys) C"
proof -
  have c: "\<not> flag sh_connected h n" "flag sh_establishing h n" using assms by (auto simp: subs_ok_def phase_ok_def)
  then have d: "nd_shared n h \<noteq> None" by (auto simp: flag_def split: option.splits)
  have e: "h \<notin> set (handed n C)" using assms c by (auto simp: subs_ok_def)
  have "phase_ok (set_connected True h n) C x" if "x \<in> set xs \<union> set ys" for x
    using others_apart [OF assms that] by (simp add: phase_ok_other)
  moreover have "phase_ok (set_connected True h n) C (h, name, Handing item)" using c d e by (simp add: phase_ok_def)
  ultimately have "\<forall>x\<in>set (xs @ (h, name, Handing item) # ys). phase_ok (set_connected True h n) C x" by auto
  with assms e d show ?thesis unfolding subs_ok_def by auto
qed

lemma hand_ok:
  assumes "subs_ok n (xs @ (h, name, Handing item) # ys) C"
  shows "subs_ok (n\<lparr>nd_attach_backoff := b, nd_duty_clients := nd_duty_clients n @ [(h, item)]\<rparr>) (xs @ (h, name, Ended) # ys) C"
    (is "subs_ok ?n _ _")
proof -
  have c: "flag sh_connected h n" "flag sh_establishing h n" "h \<notin> set (handed n C)"
    using assms by (auto simp: subs_ok_def phase_ok_def)
  have f: "flag g k ?n = flag g k n" for g k by (simp add: flag_def)
  have s: "set (handed ?n C) = insert h (set (handed n C))" "distinct (handed ?n C) = distinct (h # handed n C)"
    by (auto simp: handed_def)
  have "phase_ok ?n C x" if "x \<in> set xs \<union> set ys" for x
    using others_apart [OF assms that] s(1) by (auto simp: phase_ok_def f)
  moreover have "phase_ok ?n C (h, name, Ended)" using c f by (simp add: phase_ok_def)
  ultimately have "\<forall>x\<in>set (xs @ (h, name, Ended) # ys). phase_ok ?n C x" by auto
  with assms c show ?thesis unfolding subs_ok_def s f by auto
qed

lemma est_phase_ok:
  assumes "subs_ok n (xs @ (h, name, a) # ys) C" and "est_phase os rapi x h name a n = (a', n')"
  shows "subs_ok n' (xs @ (h, name, a') # ys) C"
proof (cases a)
  case Started
  with assms show ?thesis by (auto simp: est_check_def subs_ok_def phase_ok_def split: if_splits)
next
  case Checked
  have "a' \<noteq> Handing item" for item
    using assms(2) Checked by (auto simp: est_resolve_def split: sum.splits prod.splits)
  with assms Checked replace_ok [OF assms(1)] show ?thesis by auto
next
  case (Resolved i)
  with assms(2) est_position_same [of os h i n a' n'] have "same_subs n n'" "\<And>item. a' \<noteq> Handing item" by auto
  with same_subs_ok [OF replace_ok [OF assms(1)]] Resolved show ?thesis by simp
next
  case (Positioned ix g)
  with assms(2) have "est_handshake os rapi (an_connected x) (an_send x) (an_recv x) h name ix g n = (a', n')" by simp
  from est_handshake_same [OF this] have "same_subs n n'" "\<And>item. a' \<noteq> Handing item" by auto
  with same_subs_ok [OF replace_ok [OF assms(1)]] Positioned show ?thesis by simp
next
  case (Opened client)
  show ?thesis
  proof (cases "an_adopted x")
    case True
    with assms Opened adopt_ok show ?thesis by (auto simp: est_adopt_def)
  next
    case False
    with assms Opened replace_ok [OF assms(1), of Ended] show ?thesis by (auto simp: est_adopt_def)
  qed
next
  case (Handing item)
  with assms hand_ok show ?thesis by (auto simp: est_hand_def)
next
  case (Refused d)
  with assms(2) est_rebuild_same [of os "an_now_ms x" h name d n a' n'] have "same_subs n n'" "a' = Ended" by auto
  with same_subs_ok [OF replace_ok [OF assms(1)]] Refused show ?thesis by simp
qed (use assms in simp)

lemma finished_ok:
  assumes "subs_ok n (xs @ (h, name, Ended) # ys) C"
  shows "subs_ok (set_establishing False h n) (xs @ ys) C"
proof -
  have "\<forall>x\<in>set (xs @ ys). phase_ok (set_establishing False h n) C x"
    using others_apart [OF assms] by (auto simp: phase_ok_other)
  with assms show ?thesis unfolding subs_ok_def by auto
qed

lemma cleared_ok:
  assumes "subs_ok n A (xs @ (h, None) # ys)"
  shows "subs_ok (set_connected False h n) A (xs @ ys)"
proof -
  let ?C = "xs @ (h, None) # ys"
  have h: "h \<in> set (handed n ?C)" by (simp add: handed_def)
  then have c: "flag sh_connected h n" using assms by (auto simp: subs_ok_def)
  have s: "distinct (handed n (xs @ ys))" "h \<notin> set (handed n (xs @ ys))" "set (handed n (xs @ ys)) \<subseteq> set (handed n ?C)"
    using assms by (auto simp: subs_ok_def handed_def)
  have "phase_ok (set_connected False h n) (xs @ ys) x" if "x \<in> set A" for x
  proof -
    obtain k name a where x: "x = (k, name, a)" by (cases x) auto
    from assms that have p: "phase_ok n ?C x" by (auto simp: subs_ok_def)
    show ?thesis
    proof (cases "k = h")
      case True
      with p c h x show ?thesis by (cases a) (auto simp: phase_ok_def)
    next
      case False
      with p x s(3) show ?thesis by (auto simp: phase_ok_def)
    qed
  qed
  with assms s show ?thesis unfolding subs_ok_def by auto
qed

lemma sub_step_ok:
  assumes "sub_step os rapi S S'" and "subs_ok (su_node S) (su_attempts S) (su_clients S)"
  shows "subs_ok (su_node S') (su_attempts S') (su_clients S')"
  using assms
proof (cases rule: sub_step.cases)
  case (asked resolved c spawned name why h started n)
  with subscribe_as_ok [OF assms(2) asked(2)] show ?thesis by simp
next
  case (refused resolved c spawned name why e n)
  with subscribe_as_ok [OF assms(2) refused(2)] show ?thesis by simp
next
  case (taken)
  with assms(2) show ?thesis
    by (auto simp: subs_ok_def phase_ok_def handed_def flag_def comp_def case_prod_beta)
next
  case (polled xs h item ys now_ms reads k r n)
  have "subs_ok n (su_attempts S) (su_clients S)"
    using same_subs_ok [OF assms(2) poll_client_same [OF polled(3)]] .
  then have "subs_ok n (su_attempts S) (xs @ (h, r) # ys)"
    unfolding polled(2) by (auto simp: subs_ok_def phase_ok_def handed_def)
  with polled(1) show ?thesis by simp
next
  case (elsewhere n)
  then have "same_subs (su_node S) n" by (simp add: same_subs_def flag_def)
  with assms(2) elsewhere(1) show ?thesis by (auto intro: same_subs_ok)
qed (use assms(2) in \<open>auto simp: stop_sub_same dest: service_ok est_phase_ok finished_ok cleared_ok
      intro: same_subs_ok\<close>)

text \<open>C15. One writer per subscription. However the callers, the conductor, the establishment threads and the
  duty cycle interleave, a subscription has at most one attempt in flight and at most one live writer of
  its replica; when an attempt is about to discard the replica no writer of that subscription is live;
  and a handle whose flag is down has no item in the duty cycle.\<close>

theorem one_writer_per_subscription:
  assumes "(sub_step os rapi)\<^sup>*\<^sup>* \<lparr>su_node = node_new cfg fs nanos, su_attempts = [], su_clients = []\<rparr> S"
  shows "distinct (map fst (su_attempts S)) \<and> distinct (writers S) \<and>
    (\<forall>h name d. (h, name, Refused d) \<in> set (su_attempts S) \<longrightarrow> h \<notin> set (writers S)) \<and>
    (\<forall>h item. (h, item) \<in> set (nd_duty_clients (su_node S)) \<or> (h, Some item) \<in> set (su_clients S) \<longrightarrow>
       flag sh_connected h (su_node S))"
proof -
  let ?n = "su_node S" and ?A = "su_attempts S" and ?C = "su_clients S"
  have "subs_ok (node_new cfg fs nanos) [] []" by (simp add: subs_ok_def handed_def node_new_def)
  with assms have ok: "subs_ok ?n ?A ?C" by (induction rule: rtranclp_induct) (auto dest: sub_step_ok)
  define W where "W = map fst (filter (\<lambda>(h, name, a). holds_writer a) ?A)"
  define D where "D = map fst (nd_duty_clients ?n) @ map fst (filter (\<lambda>(h, item). item \<noteq> None) ?C)"
  have D: "distinct D" "set D \<subseteq> set (handed ?n ?C)"
    using ok by (auto simp: D_def subs_ok_def handed_def distinct_map_filter)
  have W: "distinct W" using ok by (simp add: W_def subs_ok_def distinct_map_filter)
  have disj: "h \<notin> set (handed ?n ?C)" if "(h, name, a) \<in> set ?A" "holds_writer a \<or> unconnected_phase a" for h name a
    using ok that by (cases a) (fastforce simp: subs_ok_def phase_ok_def)+
  have alone: "b = a" if "(h, name, a) \<in> set ?A" "(h, name', b) \<in> set ?A" for h name name' a b
    using ok that eq_key_imp_eq_value [of ?A h "(name, a)" "(name', b)"] by (simp add: subs_ok_def)
  have held: "\<exists>name a. (h, name, a) \<in> set ?A \<and> holds_writer a" if "h \<in> set W" for h
    using that unfolding W_def by auto blast
  have split: "writers S = W @ D" by (simp add: writers_def W_def D_def)
  have "h \<notin> set D" if "h \<in> set W" for h using held [OF that] disj D(2) by blast
  then have "distinct (writers S)" unfolding split distinct_append using W D(1) by auto
  moreover have "h \<notin> set (writers S)" if r: "(h, name, Refused d) \<in> set ?A" for h name d
  proof -
    have "h \<notin> set W"
    proof
      assume "h \<in> set W"
      then obtain name' a where "(h, name', a) \<in> set ?A" "holds_writer a" using held by blast
      with alone [OF r this(1)] show False by simp
    qed
    moreover have "h \<notin> set D" using disj [OF r] D(2) by auto
    ultimately show ?thesis by (simp add: split)
  qed
  moreover have "flag sh_connected h ?n"
    if "(h, item) \<in> set (nd_duty_clients ?n) \<or> (h, Some item) \<in> set ?C" for h item
  proof -
    have "h \<in> set (handed ?n ?C)" using that by (auto simp: handed_def intro: rev_image_eqI)
    with ok show ?thesis by (simp add: subs_ok_def)
  qed
  moreover have "distinct (map fst ?A)" using ok by (simp add: subs_ok_def)
  ultimately show ?thesis by blast
qed

subsection \<open>Two subscriptions to one channel\<close>

definition sample_ack :: stream_msg where
  "sample_ack = SubscribeAck (ascii ''fills'') STREAM_ID 0 0 4096 512 0 0 7"

definition sample_answers :: answers where
  "sample_answers = \<lparr>an_resolved = Inr (sample_identity 7 100 0, SockV4 10 0 0 7 7001), an_connected = True,
     an_send = (\<lambda>_. Inr ()), an_recv = Inr (encode_stream sample_ack), an_adopted = True, an_now_ms = 0\<rparr>"

definition empty_replica :: seglog where
  "empty_replica = \<lparr>sl_base = 0, sl_generation = 7, sl_name = ascii ''fills'', sl_entries = [], sl_rolled = False\<rparr>"

lemma sample_ack_decodes: "decode_stream (encode_stream sample_ack) = Inr sample_ack"
proof -
  have m: "stream_ok sample_ack" "length (encode_stream sample_ack) < 2 ^ 64"
    by (simp_all add: sample_ack_def str_ok_def short_def utf8_char_def utf8_tail_def encode_stream_def enc_simps)
  show ?thesis
    using stream_codec.frame_round_trip [OF m(1)] m(2) by (simp add: sample_ack_def decode_stream_def encode_stream_def)
qed

lemma sample_subscribe:
  assumes "t p = None \<or> t p = Some empty_replica"
  shows "\<exists>w. Stream_Proto.subscribe seg_reader_api seg_writer_api (\<lambda>_. Inr ()) (Inr (encode_stream sample_ack))
    (ascii ''fills'') k g p t = (Inr w, t(p \<mapsto> empty_replica))"
  using assms
  by (auto simp: Stream_Proto.subscribe_def sample_ack_decodes) (auto simp: sample_ack_def sink_open_def seg_writer_api_def seg_reader_api_def
      sink_config_def empty_replica_def fun_upd_idem)

lemma sample_run:
  assumes "su_attempts S = xs @ (h, ascii ''fills'', Started) # ys"
    and s: "nd_shared (su_node S) h = Some s" "sh_replica_path s = p" "\<not> sh_stopped s" "\<not> sh_connected s"
    and f: "nd_fs (su_node S) p = None \<or> nd_fs (su_node S) p = Some empty_replica"
  shows "\<exists>n client. (sub_step sample_outside seg_reader_api)\<^sup>*\<^sup>* S
      (S\<lparr>su_node := n, su_attempts := xs @ (h, ascii ''fills'', Opened client) # ys\<rparr>) \<and>
    nd_fs n p = Some empty_replica \<and> (\<forall>k. map_option sh_replica_path (nd_shared n k) = map_option sh_replica_path (nd_shared (su_node S) k)) \<and>
    (\<forall>k. k \<noteq> h \<longrightarrow> nd_shared n k = nd_shared (su_node S) k) \<and> nd_duty_clients n = nd_duty_clients (su_node S)"
proof -
  let ?name = "ascii ''fills''" and ?phase = "est_phase sample_outside seg_reader_api sample_answers h (ascii ''fills'')"
  let ?st = "\<lambda>n a. S\<lparr>su_node := n, su_attempts := xs @ (h, ?name, a) # ys\<rparr>"
  have S: "S = ?st (su_node S) Started" using assms(1) by (cases S) simp
  have go: "sub_step sample_outside seg_reader_api (?st n a) (?st n' a')" if "?phase a n = (a', n')" for n n' a a'
    using sub_step.attempted [of "?st n a" xs h ?name a ys sample_outside seg_reader_api sample_answers a' n'] that by simp
  let ?i = "sample_identity 7 100 0"
  have 1: "?phase Started (su_node S) = (Checked, su_node S)" using s by (simp add: est_check_def flag_def)
  have 2: "?phase Checked (su_node S) = (Resolved ?i, su_node S)" by (simp add: est_resolve_def sample_answers_def)
  obtain k g n2 where 3: "?phase (Resolved ?i) (su_node S) = (Positioned k g, n2)"
    and n2: "nd_fs n2 = nd_fs (su_node S)" "nd_shared n2 = (nd_shared (su_node S))(h \<mapsto> s\<lparr>sh_synced := k\<rparr>)"
      "nd_duty_clients n2 = nd_duty_clients (su_node S)"
    using s f by (auto simp: est_position_def Let_def replica_position_def sample_outside_def tree_fs_def seg_writer_api_def
        with_shared_def)
  obtain w where w: "Stream_Proto.subscribe seg_reader_api seg_writer_api (\<lambda>_. Inr ()) (Inr (encode_stream sample_ack))
    ?name k g p (nd_fs n2) = (Inr w, (nd_fs n2)(p \<mapsto> empty_replica))"
    using sample_subscribe [of "nd_fs n2" p k g] f n2(1) by auto
  obtain n3 where 4: "?phase (Positioned k g) n2 = (Opened w, n3)"
    and n3: "nd_fs n3 = (nd_fs n2)(p \<mapsto> empty_replica)"
      "nd_shared n3 = (nd_shared n2)(h \<mapsto> s\<lparr>sh_synced := k, sh_head_at_connect := sc_head w\<rparr>)"
      "nd_duty_clients n3 = nd_duty_clients n2"
    using w n2 s by (simp add: est_handshake_def sample_answers_def sample_outside_def with_shared_def)
  have "(sub_step sample_outside seg_reader_api)\<^sup>*\<^sup>* (?st (su_node S) Started) (?st n3 (Opened w))"
    using go [OF 1] go [OF 2] go [OF 3] go [OF 4] by (meson converse_rtranclp_into_rtranclp r_into_rtranclp)
  then have "(sub_step sample_outside seg_reader_api)\<^sup>*\<^sup>* S (?st n3 (Opened w))" unfolding S [symmetric] .
  moreover have "nd_fs n3 p = Some empty_replica" using n3(1) by simp
  moreover have "\<forall>k. map_option sh_replica_path (nd_shared n3 k) = map_option sh_replica_path (nd_shared (su_node S) k)"
    "\<forall>k. k \<noteq> h \<longrightarrow> nd_shared n3 k = nd_shared (su_node S) k"
    "nd_duty_clients n3 = nd_duty_clients (su_node S)" using n2(2,3) n3(2,3) s by simp_all
  ultimately show ?thesis by blast
qed

lemma sample_asked:
  assumes "node_replica_path sample_outside n (ascii ''fills'') = Inr p"
  shows "\<exists>n'. subscribe_as sample_outside (Inr x) c True (ascii ''fills'') Caller n = Some (Inr (nd_next_handle n, True), n') \<and>
    nd_fs n' = nd_fs n \<and> nd_config n' = nd_config n \<and> nd_next_handle n' = Suc (nd_next_handle n) \<and>
    nd_duty_clients n' = nd_duty_clients n \<and>
    nd_shared n' = (nd_shared n)(nd_next_handle n \<mapsto> (sub_new p)\<lparr>sh_establishing := True\<rparr>)"
proof -
  have "ensure_parent (os_fs sample_outside) p n = Some (Inr (), n)"
    by (simp add: ensure_parent_def on_fs_def ensure_private_dir_def Let_def sample_outside_def tree_fs_def split: option.split)
  then show ?thesis
    by (simp add: subscribe_as_def act_bind_def assms Let_def spawn_establish_def attach_now_def flag_def sub_new_def
        set_establishing_def with_shared_def del: ascii_simps)
qed

abbreviation sample_sys :: "(files, seg_writer, seg_reader) sub_sys" where
  "sample_sys \<equiv> \<lparr>su_node = node_new (sample_config 9) Map.empty 5, su_attempts = [], su_clients = []\<rparr>"

lemma two_writers_run:
  "\<exists>S p. (sub_step sample_outside seg_reader_api)\<^sup>*\<^sup>* sample_sys S \<and> writers S = [0, 1] \<and>
     map_option sh_replica_path (nd_shared (su_node S) 0) = Some p \<and> map_option sh_replica_path (nd_shared (su_node S) 1) = Some p"
proof -
  let ?step = "sub_step sample_outside seg_reader_api" and ?f = "ascii ''fills''"
    and ?c = "\<lparr>ac_checked = 0, ac_now = 0, ac_seen = 0\<rparr>" and ?x = "(sample_identity 7 100 0, SockV4 10 0 0 7 7001)"
  let ?n0 = "node_new (sample_config 9) Map.empty 5 :: (files, seg_writer, seg_reader) node"
  obtain p where p: "\<And>n :: (files, seg_writer, seg_reader) node. nd_config n = sample_config 9 \<Longrightarrow> node_replica_path sample_outside n ?f = Inr p"
  proof -
    have "valid_name 48 ?f" by (simp add: valid_name_def validate_channel_name_def name_byte_def is_ascii_alphanumeric_def)
    from replica_path_valid [OF this] show ?thesis
      using that by (simp add: node_replica_path_def sample_outside_def sample_config_def del: ascii_simps)
  qed
  have "nd_config ?n0 = sample_config 9" by (simp add: node_new_def)
  from sample_asked [OF p [OF this], of ?x ?c] obtain n1 where
    1: "subscribe_as sample_outside (Inr ?x) ?c True ?f Caller ?n0 = Some (Inr (0, True), n1)"
    and n1: "nd_fs n1 = Map.empty" "nd_config n1 = sample_config 9" "nd_next_handle n1 = 1" "nd_duty_clients n1 = []"
      "nd_shared n1 = [0 \<mapsto> (sub_new p)\<lparr>sh_establishing := True\<rparr>]"
    by (auto simp: node_new_def)
  from sample_asked [OF p [OF n1(2)], of ?x ?c] n1 obtain n2 where
    2: "subscribe_as sample_outside (Inr ?x) ?c True ?f Caller n1 = Some (Inr (1, True), n2)"
    and n2: "nd_fs n2 = Map.empty" "nd_duty_clients n2 = []"
      "nd_shared n2 = [0 \<mapsto> (sub_new p)\<lparr>sh_establishing := True\<rparr>, 1 \<mapsto> (sub_new p)\<lparr>sh_establishing := True\<rparr>]"
    by auto
  let ?S2 = "\<lparr>su_node = n2, su_attempts = [(0, ?f, Started), (1, ?f, Started)], su_clients = []\<rparr>"
  have r2: "?step\<^sup>*\<^sup>* sample_sys ?S2"
    using sub_step.asked [of sample_outside "Inr ?x" ?c True ?f Caller sample_sys 0 True n1 seg_reader_api]
      sub_step.asked [of sample_outside "Inr ?x" ?c True ?f Caller
        "\<lparr>su_node = n1, su_attempts = [(0, ?f, Started)], su_clients = []\<rparr>" 1 True n2 seg_reader_api] 1 2
    by (auto intro: converse_rtranclp_into_rtranclp)
  have s: "sh_replica_path ((sub_new p)\<lparr>sh_establishing := True\<rparr>) = p" by (simp add: sub_new_def)
  note run = sample_run [where s = "(sub_new p)\<lparr>sh_establishing := True\<rparr>" and p = p]
  obtain n3 w0 where 3: "?step\<^sup>*\<^sup>* ?S2 (?S2\<lparr>su_node := n3, su_attempts := [] @ (0, ?f, Opened w0) # [(1, ?f, Started)]\<rparr>)"
    and n3: "nd_fs n3 p = Some empty_replica" "nd_duty_clients n3 = nd_duty_clients n2"
      "\<forall>k. map_option sh_replica_path (nd_shared n3 k) = map_option sh_replica_path (nd_shared n2 k)"
      "\<forall>k. k \<noteq> 0 \<longrightarrow> nd_shared n3 k = nd_shared n2 k"
    using run [of ?S2 "[]" 0 "[(1, ?f, Started)]"] n2 s by (auto simp: sub_new_def simp del: ascii_simps)
  let ?S3 = "?S2\<lparr>su_node := n3, su_attempts := [] @ (0, ?f, Opened w0) # [(1, ?f, Started)]\<rparr>"
  have s1: "nd_shared n3 1 = Some ((sub_new p)\<lparr>sh_establishing := True\<rparr>)" using n3(4) n2(3) by simp
  obtain n4 w1 where 4: "?step\<^sup>*\<^sup>* ?S3 (?S3\<lparr>su_node := n4, su_attempts := [(0, ?f, Opened w0)] @ (1, ?f, Opened w1) # []\<rparr>)"
    and n4: "nd_duty_clients n4 = nd_duty_clients n3"
      "\<forall>k. map_option sh_replica_path (nd_shared n4 k) = map_option sh_replica_path (nd_shared n3 k)"
    using run [of ?S3 "[(0, ?f, Opened w0)]" 1 "[]"] n3(1) s1 s by (auto simp: sub_new_def simp del: ascii_simps)
  have paths: "map_option sh_replica_path (nd_shared n4 0) = Some p" "map_option sh_replica_path (nd_shared n4 1) = Some p"
    using n4(2) n3(3) n2(3) s by simp_all
  let ?S4 = "?S3\<lparr>su_node := n4, su_attempts := [(0, ?f, Opened w0)] @ (1, ?f, Opened w1) # []\<rparr>"
  have "writers ?S4 = [0, 1]" using n4(1) n3(2) n2(2) by (simp add: writers_def)
  moreover note rtranclp_trans [OF r2 rtranclp_trans [OF 3 4]]
  ultimately show ?thesis using paths by (intro exI [of _ ?S4] exI [of _ p]) (simp del: ascii_simps)
qed

text \<open>C37. The flag guards a subscription, not a replica. Two callers that ask for one channel before either
  is connected each get a handle of their own, and a state can be reached in which both hold a live writer
  of the same replica file.\<close>

theorem two_writers_of_one_replica:
  "\<exists>S h k p. (sub_step sample_outside seg_reader_api)\<^sup>*\<^sup>* sample_sys S \<and> h \<noteq> k \<and> {h, k} \<subseteq> set (writers S) \<and>
     map_option sh_replica_path (nd_shared (su_node S) h) = Some p \<and> map_option sh_replica_path (nd_shared (su_node S) k) = Some p"
proof -
  obtain S p where "(sub_step sample_outside seg_reader_api)\<^sup>*\<^sup>* sample_sys S" "writers S = [0, 1]"
    "map_option sh_replica_path (nd_shared (su_node S) 0) = Some p" "map_option sh_replica_path (nd_shared (su_node S) 1) = Some p"
    using two_writers_run by blast
  then show ?thesis by (intro exI [of _ S] exI [of _ 0] exI [of _ 1] exI [of _ p]) simp
qed

theorem one_writer_per_subscription_witness:
  "\<exists>S. (sub_step sample_outside seg_reader_api)\<^sup>*\<^sup>* sample_sys S \<and> writers S = [0, 1] \<and> distinct (writers S)"
  using two_writers_run one_writer_per_subscription [of sample_outside seg_reader_api "sample_config 9" Map.empty 5] by blast

subsection \<open>A replica is discarded only on the source's word\<close>

definition rebuilds_of :: "nat \<Rightarrow> ('t, 'w, 'r) node \<Rightarrow> rebuild_stats option" where
  "rebuilds_of h n = map_option sh_rebuilds (nd_shared n h)"

definition source_refuses :: "bytes io_result \<Rightarrow> bool" where
  "source_refuses recv \<longleftrightarrow> (case and_then recv decode_stream of
       Inr (Gap _ _ _) \<Rightarrow> True | Inr (Diverged _ _ _) \<Rightarrow> True | _ \<Rightarrow> False)"

lemma rebuilds_of_with_shared:
  "(\<And>s. sh_rebuilds (g s) = sh_rebuilds s) \<Longrightarrow> rebuilds_of k (with_shared h g n) = rebuilds_of k n"
  by (auto simp: rebuilds_of_def with_shared_def map_option_case split: option.split)

lemma rebuilds_of_fs [simp]: "rebuilds_of k (n\<lparr>nd_fs := t\<rparr>) = rebuilds_of k n"
  by (simp add: rebuilds_of_def)

lemma subscribe_opens:
  assumes "Stream_Proto.subscribe rapi wapi send recv name k g p t = (r, t')"
  shows "(t' = t \<or> (\<exists>c. t' = snd (wr_build wapi t p c))) \<and> (\<forall>d a b m. r = Inl (Rebuild d a b m) \<longrightarrow> source_refuses recv)"
  using assms
  by (auto simp: Stream_Proto.subscribe_def sink_open_def source_refuses_def
      split: sum.splits stream_msg.splits prod.splits if_splits) (metis snd_conv)+

lemma est_phase_keeps:
  assumes "\<And>t p c. Q t \<Longrightarrow> Q (snd (wr_build (os_writer os) t p c))" and "Q (nd_fs n)" and "\<not> source_refuses (an_recv x)"
    and "\<And>d. a \<noteq> Refused d" and "est_phase os rapi x h name a n = (a', n')"
  shows "Q (nd_fs n') \<and> rebuilds_of k n' = rebuilds_of k n \<and> (\<forall>d. a' \<noteq> Refused d)"
proof (cases a)
  case (Resolved i)
  have "Q (snd (replica_position os p r (nd_fs n)))" for p r
    using assms(1) [OF assms(2), of p "position_config r"] assms(2)
    by (auto simp: replica_position_def split: prod.splits sum.splits)
  with assms(5) Resolved show ?thesis
    by (auto simp: est_position_def Let_def rebuilds_of_with_shared split: prod.splits) (metis snd_conv)
next
  case (Positioned ix g)
  then have e: "est_handshake os rapi (an_connected x) (an_send x) (an_recv x) h name ix g n = (a', n')" using assms(5) by simp
  obtain p where p: "p = (case nd_shared n h of Some s \<Rightarrow> sh_replica_path s | None \<Rightarrow> [])" by blast
  obtain r t where s: "Stream_Proto.subscribe rapi (os_writer os) (an_send x) (an_recv x) name ix g p (nd_fs n) = (r, t)" by fastforce
  from subscribe_opens [OF s] assms(1-3) have "Q t" "\<And>d a b m. r \<noteq> Inl (Rebuild d a b m)" by auto
  with e s assms(2) show ?thesis
    by (auto simp: est_handshake_def Let_def rebuilds_of_with_shared simp flip: p split: if_splits sum.splits subscribe_error.splits)
next
  case (Opened client)
  with assms show ?thesis
    by (auto simp: est_adopt_def set_connected_def rebuilds_of_with_shared split: if_splits)
next
  case (Handing item)
  with assms show ?thesis by (auto simp: est_hand_def rebuilds_of_def)
qed (use assms in \<open>auto simp: est_check_def est_resolve_def split: if_splits sum.splits prod.splits\<close>)

text \<open>C16. A dropped connection costs no history. Whatever fails in an attempt, unless the source itself
  answered that it cannot extend the replica, everything that opening a log preserves is preserved: the
  replica's files are not discarded, and no rebuild is counted.\<close>

theorem replica_discarded_only_when_refused:
  assumes "\<And>t p c. Q t \<Longrightarrow> Q (snd (wr_build (os_writer os) t p c))" and "Q (nd_fs n)" and "\<not> source_refuses (an_recv x)"
  shows "Q (nd_fs (establish os rapi x h name n)) \<and> rebuilds_of k (establish os rapi x h name n) = rebuilds_of k n"
proof -
  let ?f = "\<lambda>(a, m). est_phase os rapi x h name a m"
  have "Q (nd_fs (snd ((?f ^^ i) (Started, n)))) \<and> rebuilds_of k (snd ((?f ^^ i) (Started, n))) = rebuilds_of k n \<and>
    (\<forall>d. fst ((?f ^^ i) (Started, n)) \<noteq> Refused d)" for i
  proof (induction i)
    case (Suc i)
    obtain a m where s: "(?f ^^ i) (Started, n) = (a, m)" by fastforce
    obtain a' m' where p: "est_phase os rapi x h name a m = (a', m')" by fastforce
    from Suc s assms(1,3) p est_phase_keeps [of Q os m x a rapi h name a' m' k] show ?case by simp
  qed (simp add: assms(2))
  then show ?thesis by (simp add: establish_def)
qed

theorem replica_discarded_only_when_refused_witness:
  "let t = [[1] \<mapsto> empty_replica]; n = (sample_node 9 registry_new)\<lparr>nd_fs := t, nd_shared := [0 \<mapsto> sub_new [1]]\<rparr>;
       x = sample_answers\<lparr>an_recv := Inl (IoError TimedOut ''no answer'')\<rparr>
   in nd_fs (establish sample_outside seg_reader_api x 0 (ascii ''fills'') n) [1] = Some empty_replica \<and>
      rebuilds_of 0 (establish sample_outside seg_reader_api x 0 (ascii ''fills'') n) = Some \<lparr>rb_gap = 0, rb_diverged = 0, rb_last_at_ms = 0\<rparr>"
proof -
  let ?n = "(sample_node 9 registry_new)\<lparr>nd_fs := [[1] \<mapsto> empty_replica], nd_shared := [0 \<mapsto> sub_new [1]]\<rparr>"
    and ?x = "sample_answers\<lparr>an_recv := Inl (IoError TimedOut ''no answer'')\<rparr>"
  have "snd (wr_build (os_writer sample_outside) t p c) [1] = Some empty_replica" if "t [1] = Some empty_replica" for t p c
    using that by (auto simp: sample_outside_def seg_writer_api_def Let_def split: option.splits)
  then show ?thesis
    using replica_discarded_only_when_refused [of "\<lambda>t. t [1] = Some empty_replica" sample_outside ?n ?x seg_reader_api 0 "ascii ''fills''" 0]
    by (simp add: source_refuses_def rebuilds_of_def sub_new_def Let_def and_then_def)
qed

subsection \<open>Retries\<close>

definition attach_ok :: "('t, 'w, 'r) node \<Rightarrow> bool" where
  "attach_ok n \<longleftrightarrow> (\<forall>name p. nd_attach_backoff n name = Some p \<longrightarrow> ATTACH_BACKOFF_MIN \<le> dp_gap p \<and> dp_gap p \<le> ATTACH_BACKOFF_MAX)"

lemma jitter_bound:
  assumes "2000 \<le> gap" and "gap div 1000 < 2 ^ 64"
  shows "2 * jitter_for name gap < gap"
proof -
  define h where "h = fold (\<lambda>b h. (h XOR ucast b) * 0x100000001b3) name (0xcbf29ce484222325 :: u64)"
  define half :: u64 where "half = of_nat (gap div 1000) div 2"
  have u: "unat half = gap div 1000 div 2"
    using assms(2) by (simp add: half_def unat_div unat_of_nat_small)
  with assms(1) have pos: "0 < unat half" by simp
  have "max (gap div 1000) 1 = gap div 1000" using assms(1) by (simp add: max_def)
  moreover have "max half 1 = half" using pos by (intro max_absorb1) (simp add: word_le_nat_alt)
  ultimately have "jitter_for name gap = unat (h mod half) * 1000"
    unfolding jitter_for_def h_def [symmetric] Let_def by (simp flip: half_def)
  moreover have "unat (h mod half) < unat half" using pos by (simp add: unat_mod_distrib)
  ultimately show ?thesis using u by simp
qed

text \<open>Retries of one subscription are spaced and always come. A retry that is let through puts the next
  one off by at least 250 ms and by less than six seconds, and from then on exactly the passing of that
  moment lets it through. The jitter is added to the ceiling: for some names a wait at the ceiling of
  four seconds comes to more than five.\<close>

theorem attach_retry_spaced:
  assumes "attach_ok n" and "attach_due c name n = (True, n')"
  shows "attach_ok n' \<and> (\<exists>p. nd_attach_backoff n' name = Some p \<and>
      ac_now c + ATTACH_BACKOFF_MIN \<le> dp_next p \<and> dp_next p < ac_now c + secs 6 \<and>
      (\<forall>c'. fst (attach_due c' name n') \<longleftrightarrow> dp_next p \<le> ac_checked c')) \<and>
    secs 5 < ATTACH_BACKOFF_MAX + jitter_for (ascii ''trades'') ATTACH_BACKOFF_MAX"
proof -
  define gap where "gap = backoff_gap ATTACH_BACKOFF_MIN ATTACH_BACKOFF_MAX (nd_attach_backoff n name) (ac_seen c)"
  have n': "n' = n\<lparr>nd_attach_backoff := (nd_attach_backoff n)(name \<mapsto>
      \<lparr>dp_attempted_at = ac_now c, dp_next = ac_now c + gap + jitter_for name gap, dp_gap = gap\<rparr>)\<rparr>"
    using assms(2) by (auto simp: attach_due_def Let_def gap_def split: if_splits)
  have g: "ATTACH_BACKOFF_MIN \<le> gap \<and> gap \<le> ATTACH_BACKOFF_MAX"
    unfolding gap_def using assms(1)
    by (intro backoff_gap_bounds) (auto simp: attach_ok_def ATTACH_BACKOFF_MIN_def ATTACH_BACKOFF_MAX_def ms_def secs_def)
  then have "2 * jitter_for name gap < gap"
    using div_le_dividend [of gap 1000]
    by (intro jitter_bound) (auto simp: ATTACH_BACKOFF_MIN_def ATTACH_BACKOFF_MAX_def ms_def secs_def)
  moreover have "attach_ok n'" using assms(1) g by (auto simp: attach_ok_def n')
  moreover have "secs 5 < ATTACH_BACKOFF_MAX + jitter_for (ascii ''trades'') ATTACH_BACKOFF_MAX"
    by (simp add: jitter_for_def ATTACH_BACKOFF_MAX_def ms_def secs_def Let_def)
  ultimately show ?thesis
    using g by (auto simp: n' attach_due_def Let_def ATTACH_BACKOFF_MAX_def secs_def)
qed

theorem attach_retry_spaced_witness:
  "let n = sample_node 9 registry_new; c = \<lparr>ac_checked = 5, ac_now = 5, ac_seen = 5\<rparr>; n' = snd (attach_due c (ascii ''fills'') n)
   in attach_due c (ascii ''fills'') n = (True, n') \<and> attach_ok n' \<and> fst (attach_due (c\<lparr>ac_checked := secs 7\<rparr>) (ascii ''fills'') n')"
proof -
  let ?n = "sample_node 9 registry_new :: (files, seg_writer, seg_reader) node"
    and ?c = "\<lparr>ac_checked = 5, ac_now = 5, ac_seen = 5\<rparr>" and ?f = "ascii ''fills''"
  have e: "nd_attach_backoff ?n = Map.empty" by (simp add: sample_node_def node_new_def)
  then have ok: "attach_ok ?n" by (simp add: attach_ok_def)
  obtain n' where n': "attach_due ?c ?f ?n = (True, n')" using e by (simp add: attach_due_def Let_def)
  note t = attach_retry_spaced [OF ok n']
  from t have "attach_ok n'" by (rule conjunct1)
  moreover from t obtain p :: dial_penalty where p: "dp_next p < ac_now ?c + secs 6" "\<forall>c'. fst (attach_due c' ?f n') \<longleftrightarrow> dp_next p \<le> ac_checked c'"
    by blast
  moreover have "fst (attach_due (?c\<lparr>ac_checked := secs 7\<rparr>) ?f n')"
    using p(1) p(2) [rule_format, of "?c\<lparr>ac_checked := secs 7\<rparr>"] by (simp add: secs_def)
  ultimately show ?thesis using n' by (simp add: Let_def)
qed

end
