(* ===== verification/Node_Topics.thy ===== *)
theory Node_Topics
  imports Node_Subs Mux_Props
begin

text \<open>
  Topics a node hosts, \<open>xchannel-net/src/node.rs\<close>: creating and retiring one, the pass that attaches and
  detaches members, the sweep that merges them, what the loop does when it is idle, and the
  reconstruction of topics and origins from the data directory.

  \<^item> The muxes are values of \<open>nd_muxes\<close>; a handle is the topic's name. The sweep is in key order (the
    code's order is unspecified).
  \<^item> A read of a member's or a topic's log is given the files at its moment, as in \<open>Mux\<close>.
  \<^item> \<open>geom\<close> is what a reader of xchannel reports of its header: the region size and the mtu.
  \<^item> The thread a promoted topic gets is not modelled; the sweep leaves such a topic out.
\<close>

subsection \<open>Idle\<close>

datatype idle_action = Spin | Yield | Park duration

definition DURATION_MAX :: duration where
  "DURATION_MAX = (2 ^ 64 - 1) * 10 ^ 9 + 999999999"

definition idle_default :: mux_idle where
  "idle_default = \<lparr>idle_max_spins = 512, idle_max_yields = 128, idle_min_park = 50 * 1000, idle_max_park = ms 5\<rparr>"

definition action :: "mux_idle \<Rightarrow> u32 \<Rightarrow> idle_action" where
  "action idle round =
     (if round < idle_max_spins idle then Spin
      else
        let after_spins = round - idle_max_spins idle in
        if after_spins < idle_max_yields idle \<or> idle_max_park idle = 0 then Yield
        else
          let steps = min (after_spins - idle_max_yields idle) 20
          in Park (min (min (idle_min_park idle * 2 ^ unat steps) DURATION_MAX) (idle_max_park idle)))"

subsection \<open>Creating\<close>

definition MAX_BATCH_PER_MEMBER :: nat where
  "MAX_BATCH_PER_MEMBER = 256"

definition open_mux ::
  "('t, 'r) reader_api \<Rightarrow> ('t, 'w) outside \<Rightarrow> 't list \<Rightarrow> path \<Rightarrow> rstring \<Rightarrow> topic_geometry \<Rightarrow> nat \<Rightarrow>
     (('t, 'w, 'r) node, ('w, 'r) mux) act" where
  "open_mux rapi os ts p name g batch n =
     map_option (\<lambda>(r, t). (r, n\<lparr>nd_fs := t\<rparr>)) (mux_open rapi (os_writer os) (nd_fs n) ts p name g batch)"

definition put_mux :: "rstring \<Rightarrow> ('w, 'r) mux \<Rightarrow> ('t, 'w, 'r) node \<Rightarrow> ('t, 'w, 'r) node" where
  "put_mux topic m n = n\<lparr>nd_muxes := RBT.insert topic m (nd_muxes n)\<rparr>"

definition create_topic ::
  "('t, 'r) reader_api \<Rightarrow> ('t, 'w) outside \<Rightarrow> instant \<Rightarrow> u64 \<Rightarrow> 't list \<Rightarrow> rstring \<Rightarrow> topic_options \<Rightarrow>
     (('t, 'w, 'r) node, path) act" where
  "create_topic rapi os now nanos ts name options =
     act_bind (create_for_client os now nanos name (to_channel options)) (\<lambda>p.
     let batch = (if to_max_batch_per_member options = 0 then MAX_BATCH_PER_MEMBER
                  else unat (to_max_batch_per_member options))
     in act_bind (open_mux rapi os ts p name (geometry_of (to_channel options)) batch) (\<lambda>m.
        act_bind (act_modify (put_mux name m)) (\<lambda>_.
        act_bind (act_modify (\<lambda>n. if to_member_reap_after_ms options \<noteq> 0
                    then n\<lparr>nd_topic_reap := RBT.insert name (ms (unat (to_member_reap_after_ms options))) (nd_topic_reap n)\<rparr>
                    else n)) (\<lambda>_.
        act_return p))))"

definition mux_of :: "rstring \<Rightarrow> ('t, 'w, 'r) node \<Rightarrow> ('w, 'r) mux option" where
  "mux_of topic n = RBT.lookup (nd_muxes n) topic"

text \<open>A step of a topic's mux on the node's files; nothing happens when the topic is not hosted. \<open>seen\<close>
  are the files at each read of the member.\<close>

record 't sightings =
  sg_open :: 't
  sg_head :: 't
  sg_reads :: "'t list"

definition attach_member ::
  "('t, 'r) reader_api \<Rightarrow> ('t, 'w) outside \<Rightarrow> 't sightings \<Rightarrow> rstring \<Rightarrow> rstring \<Rightarrow> u64 \<Rightarrow> path \<Rightarrow>
     (('t, 'w, 'r) node, unit) act" where
  "attach_member rapi os sg topic name epoch p n =
     (case mux_of topic n of
        None \<Rightarrow> Some (Inr (), n)
      | Some m \<Rightarrow>
          map_option (\<lambda>(r, t, m'). (r, put_mux topic m' (n\<lparr>nd_fs := t\<rparr>)))
            (add_member rapi (os_writer os) (sg_open sg) (sg_head sg) (sg_reads sg) name epoch p (nd_fs n, m)))"

definition publish_to_topic ::
  "('t, 'r) reader_api \<Rightarrow> ('t, 'w) outside \<Rightarrow> instant \<Rightarrow> u64 \<Rightarrow> 't sightings \<Rightarrow> rstring \<Rightarrow> rstring \<Rightarrow> channel_options \<Rightarrow>
     (('t, 'w, 'r) node, path) act" where
  "publish_to_topic rapi os now nanos sg topic member options =
     act_bind (create_origin os now nanos member options (Some topic)) (\<lambda>p n.
     act_bind (attach_member rapi os sg topic member
                 (case get_raw (nd_registry n) member of Some i \<Rightarrow> ci_epoch i | None \<Rightarrow> 0) p) (\<lambda>_.
     act_return p) n)"

subsection \<open>The attach pass\<close>

definition live_owners_noting_revivals ::
  "node_id set \<Rightarrow> ('t, 'w, 'r) node \<Rightarrow> ('t, 'w, 'r) node" where
  "live_owners_noting_revivals live_now n =
     (let revived = live_now - nd_last_live_owners n;
          names = {ci_name i |i. i \<in> set (registry_iter (nd_registry n)) \<and> ci_owner i \<in> revived}
      in n\<lparr>nd_last_live_owners := live_now,
           nd_attach_backoff := (\<lambda>name. if name \<in> names then None else nd_attach_backoff n name)\<rparr>)"

text \<open>Putting a handle under a name drops, and so stops, the one it replaces.\<close>

definition insert_sub :: "rstring \<Rightarrow> nat \<Rightarrow> ('t, 'w, 'r) node \<Rightarrow> ('t, 'w, 'r) node" where
  "insert_sub name h n =
     (let n1 = (case nd_subscriptions n name of Some old \<Rightarrow> stop_sub old n | None \<Rightarrow> n)
      in n1\<lparr>nd_subscriptions := (nd_subscriptions n1)(name \<mapsto> h)\<rparr>)"

definition drop_sub :: "rstring \<Rightarrow> ('t, 'w, 'r) node \<Rightarrow> ('t, 'w, 'r) node" where
  "drop_sub name n = snd (unsubscribe name n)"

text \<open>What the pass is given for one member: the clock of the throttle, whether a thread is to be had, and
  the files at its reads.\<close>

record 't attach_turn =
  at_now :: instant
  at_clock :: attach_clock
  at_spawned :: bool
  at_sight :: "'t sightings"

definition ensure_member_subscription ::
  "('t, 'w) outside \<Rightarrow> 't attach_turn \<Rightarrow> rstring \<Rightarrow> ('t, 'w, 'r) node \<Rightarrow> ('t, 'w, 'r) node" where
  "ensure_member_subscription os a name n =
     (if (case nd_subscriptions n name of Some h \<Rightarrow> sub_is_active h n | None \<Rightarrow> False) then n
      else
        (case Option.bind (resolve name (Some 0) (at_now a) [(at_now a, n)])
                (\<lambda>resolved. subscribe_as os resolved (at_clock a) (at_spawned a) name Retry n) of
           Some (Inr (h, _), n') \<Rightarrow> insert_sub name h n'
         | Some (Inl _, n') \<Rightarrow> n'
         | None \<Rightarrow> n))"

definition attach_one ::
  "('t, 'r) reader_api \<Rightarrow> ('t, 'w) outside \<Rightarrow> node_id set \<Rightarrow> rstring \<Rightarrow> 't attach_turn \<Rightarrow> channel_identity \<Rightarrow>
     ('t, 'w, 'r) node \<Rightarrow> ('t, 'w, 'r) node option" where
  "attach_one rapi os live_nodes topic a m n =
     (let remote = (ci_owner m \<noteq> self_id n);
          n1 = (if remote \<and> ci_owner m \<in> live_nodes then ensure_member_subscription os a (ci_name m) n else n)
      in if (case mux_of topic n1 of Some x \<Rightarrow> has_member x (ci_name m) (ci_epoch m) | None \<Rightarrow> True) then Some n1
         else
           (case (if remote then and_then (node_replica_path os n1 (ci_name m))
                    (\<lambda>p. if fs_exists (os_fs os) (nd_fs n1) p then Inr p else Inl (IoError NotFound ''no replica yet''))
                  else node_channel_path os n1 (ci_name m)) of
              Inl _ \<Rightarrow> Some n1
            | Inr p \<Rightarrow> map_option snd (attach_member rapi os (at_sight a) topic (ci_name m) (ci_epoch m) p n1)))"

fun attach_all ::
  "('t, 'r) reader_api \<Rightarrow> ('t, 'w) outside \<Rightarrow> node_id set \<Rightarrow> rstring \<Rightarrow> (channel_identity \<Rightarrow> 't attach_turn) \<Rightarrow>
     channel_identity list \<Rightarrow> ('t, 'w, 'r) node \<Rightarrow> ('t, 'w, 'r) node option" where
  "attach_all rapi os live_nodes topic turn [] n = Some n"
| "attach_all rapi os live_nodes topic turn (m # rest) n =
     Option.bind (attach_one rapi os live_nodes topic (turn m) m n) (attach_all rapi os live_nodes topic turn rest)"

definition has_left :: "rstring \<Rightarrow> rstring \<Rightarrow> ('t, 'w, 'r) node \<Rightarrow> bool" where
  "has_left topic name n =
     (case get_raw (nd_registry n) name of Some i \<Rightarrow> ci_deleted i \<or> ci_member_of i \<noteq> Some topic | None \<Rightarrow> False)"

definition detach_one ::
  "('t, 'r) reader_api \<Rightarrow> ('t, 'w) outside \<Rightarrow> rstring \<Rightarrow> (member_key \<Rightarrow> 't list) \<Rightarrow> member_key set \<Rightarrow> member_key \<Rightarrow>
     ('t, 'w, 'r) node \<Rightarrow> ('t, 'w, 'r) node option" where
  "detach_one rapi os topic reads live_set key n =
     (if key \<in> live_set \<or> \<not> has_left topic (fst key) n then Some n
      else
        (case mux_of topic n of
           None \<Rightarrow> Some n
         | Some m \<Rightarrow>
             map_option (\<lambda>(_, (t, m'), _). drop_sub (fst key) (put_mux topic m' (n\<lparr>nd_fs := t\<rparr>)))
               (remove_member rapi (os_writer os) (reads key) (fst key) (snd key) (nd_fs n, m))))"

fun detach_all ::
  "('t, 'r) reader_api \<Rightarrow> ('t, 'w) outside \<Rightarrow> rstring \<Rightarrow> (member_key \<Rightarrow> 't list) \<Rightarrow> member_key set \<Rightarrow> member_key list \<Rightarrow>
     ('t, 'w, 'r) node \<Rightarrow> ('t, 'w, 'r) node option" where
  "detach_all rapi os topic reads live_set [] n = Some n"
| "detach_all rapi os topic reads live_set (k # ks) n =
     Option.bind (detach_one rapi os topic reads live_set k n) (detach_all rapi os topic reads live_set ks)"

definition slot_keys :: "('w, 'r) mux \<Rightarrow> member_key list" where
  "slot_keys m = map (\<lambda>s. (mt_name s, mt_epoch s)) (mx_slots m)"

definition attach_topic ::
  "('t, 'r) reader_api \<Rightarrow> ('t, 'w) outside \<Rightarrow> node_id set \<Rightarrow> (channel_identity \<Rightarrow> 't attach_turn) \<Rightarrow> (member_key \<Rightarrow> 't list) \<Rightarrow>
     rstring \<Rightarrow> ('t, 'w, 'r) node \<Rightarrow> ('t, 'w, 'r) node option" where
  "attach_topic rapi os live_nodes turn reads topic n =
     (let live = topic_members topic n;
          live_set = set (map (\<lambda>m. (ci_name m, ci_epoch m)) live)
      in Option.bind (attach_all rapi os live_nodes topic turn live n) (\<lambda>n1.
         detach_all rapi os topic reads live_set (case mux_of topic n1 of Some m \<Rightarrow> slot_keys m | None \<Rightarrow> []) n1))"

fun attach_topics ::
  "('t, 'r) reader_api \<Rightarrow> ('t, 'w) outside \<Rightarrow> node_id set \<Rightarrow> (channel_identity \<Rightarrow> 't attach_turn) \<Rightarrow> (member_key \<Rightarrow> 't list) \<Rightarrow>
     rstring list \<Rightarrow> ('t, 'w, 'r) node \<Rightarrow> ('t, 'w, 'r) node option" where
  "attach_topics rapi os live_nodes turn reads [] n = Some n"
| "attach_topics rapi os live_nodes turn reads (topic # rest) n =
     Option.bind (attach_topic rapi os live_nodes turn reads topic n) (attach_topics rapi os live_nodes turn reads rest)"

definition attach_pending_members ::
  "('t, 'r) reader_api \<Rightarrow> ('t, 'w) outside \<Rightarrow> instant \<Rightarrow> (channel_identity \<Rightarrow> 't attach_turn) \<Rightarrow> (member_key \<Rightarrow> 't list) \<Rightarrow>
     ('t, 'w, 'r) node \<Rightarrow> ('t, 'w, 'r) node option" where
  "attach_pending_members rapi os now turn reads n =
     (let live_nodes = set (bd_live_members now (nd_bcast n));
          n1 = live_owners_noting_revivals live_nodes n
      in attach_topics rapi os live_nodes turn reads (map fst (RBT.entries (nd_muxes n1))) n1)"

subsection \<open>The sweep\<close>

fun sweep ::
  "('t, 'r) reader_api \<Rightarrow> ('t, 'w) outside \<Rightarrow> (rstring \<Rightarrow> 't list) \<Rightarrow> rstring list \<Rightarrow> nat \<Rightarrow> io_error option \<Rightarrow>
     ('t, 'w, 'r) node \<Rightarrow> ((nat \<times> io_error option) \<times> ('t, 'w, 'r) node) option" where
  "sweep rapi os reads [] work failure n = Some ((work, failure), n)"
| "sweep rapi os reads (topic # rest) work failure n =
     (if topic \<in> set (cfg_promoted_topics (nd_config n)) then sweep rapi os reads rest work failure n
      else
        (case mux_of topic n of
           None \<Rightarrow> sweep rapi os reads rest work failure n
         | Some m \<Rightarrow>
             (case mux_poll rapi (os_writer os) (reads topic) (nd_fs n, m) of
                None \<Rightarrow> None
              | Some (r, (t, m'), _) \<Rightarrow>
                  let n1 = put_mux topic m' (n\<lparr>nd_fs := t\<rparr>) in
                  (case r of
                     Inr k \<Rightarrow> sweep rapi os reads rest (work + k) failure n1
                   | Inl e \<Rightarrow> sweep rapi os reads rest work (case failure of None \<Rightarrow> Some e | Some e0 \<Rightarrow> Some e0) n1))))"

definition poll_muxes ::
  "('t, 'r) reader_api \<Rightarrow> ('t, 'w) outside \<Rightarrow> (rstring \<Rightarrow> 't list) \<Rightarrow> (('t, 'w, 'r) node, nat) act" where
  "poll_muxes rapi os reads n =
     map_option (\<lambda>((work, failure), n'). (case failure of Some e \<Rightarrow> if work = 0 then Inl e else Inr work | None \<Rightarrow> Inr work, n'))
       (sweep rapi os reads (map fst (RBT.entries (nd_muxes n))) 0 None n)"

text \<open>One turn of \<open>run_mux\<close>: what the sweep did, the idle action if it did nothing, and the next round.\<close>

definition mux_turn ::
  "mux_idle \<Rightarrow> nat io_result \<Rightarrow> u32 \<Rightarrow> idle_action option \<times> u32" where
  "mux_turn idle polled round =
     (case polled of
        Inr k \<Rightarrow> if k > 0 then (None, 0) else (Some (action idle round), if round = -1 then round else round + 1)
      | Inl _ \<Rightarrow> (Some (action idle round), if round = -1 then round else round + 1))"

subsection \<open>Status and retirement\<close>

datatype member_state = Quiet | Active | Unreachable

record member_info =
  mi_name :: rstring
  mi_epoch :: u64
  mi_merged :: u64
  mi_head :: u64
  mi_lag :: u64
  mi_rejected :: u64
  mi_state :: member_state

record topic_status =
  ts_members :: "member_info list"
  ts_topic_head :: u64
  ts_gaps_emitted :: u64
  ts_slot_table_version :: u64
  ts_promoted :: bool

definition member_info_of :: "instant \<Rightarrow> ('t, 'w, 'r) node \<Rightarrow> member_stat \<Rightarrow> member_info" where
  "member_info_of now n m =
     (let owner_live = (case get_raw (nd_registry n) (stat_name m) of
            Some i \<Rightarrow> ci_owner i = self_id n \<or> bd_live_addr_of now (nd_bcast n) (ci_owner i) \<noteq> None
          | None \<Rightarrow> False)
      in \<lparr>mi_name = stat_name m, mi_epoch = stat_epoch m, mi_merged = stat_merged m, mi_head = stat_head m,
          mi_lag = stat_lag m, mi_rejected = stat_rejected m,
          mi_state = (if \<not> owner_live then Unreachable else if stat_lag m = 0 then Quiet else Active)\<rparr>)"

definition node_topic_status ::
  "('t, 'r) reader_api \<Rightarrow> ('t, 'w) outside \<Rightarrow> instant \<Rightarrow> rstring \<Rightarrow> ('t, 'w, 'r) node \<Rightarrow> topic_status io_result option" where
  "node_topic_status rapi os now topic n =
     map_option (\<lambda>m. and_then (mux_status_of rapi (os_writer os) (nd_fs n) m) (\<lambda>s.
         Inr \<lparr>ts_members = map (member_info_of now n) (mxs_members s), ts_topic_head = mxs_topic_head s,
              ts_gaps_emitted = mxs_gaps_emitted s, ts_slot_table_version = mxs_slot_table_version s,
              ts_promoted = (topic \<in> set (cfg_promoted_topics (nd_config n)))\<rparr>))
       (mux_of topic n)"

definition finish_mux ::
  "('t, 'r) reader_api \<Rightarrow> ('t, 'w) outside \<Rightarrow> 't list \<Rightarrow> ('w, 'r) mux \<Rightarrow> (('t, 'w, 'r) node, unit) act" where
  "finish_mux rapi os reads m n =
     map_option (\<lambda>(r, (t, _), _). (r, n\<lparr>nd_fs := t\<rparr>)) (mux_finish rapi (os_writer os) reads (nd_fs n, m))"

definition deregister_topic ::
  "('t, 'r) reader_api \<Rightarrow> ('t, 'w) outside \<Rightarrow> instant \<Rightarrow> 't list \<Rightarrow> rstring \<Rightarrow> (('t, 'w, 'r) node, bool) act" where
  "deregister_topic rapi os now reads topic n =
     (case mux_of topic n of
        None \<Rightarrow> Some (Inr False, n)
      | Some m \<Rightarrow>
          act_bind (act_modify (\<lambda>n. n\<lparr>nd_muxes := RBT.delete topic (nd_muxes n)\<rparr>)) (\<lambda>_.
          act_bind (finish_mux rapi os reads m) (\<lambda>_.
          act_bind (act_modify (\<lambda>n. n\<lparr>nd_topic_reap := RBT.delete topic (nd_topic_reap n)\<rparr>)) (\<lambda>_.
          act_bind (act_modify (\<lambda>n. fold drop_sub (map ci_name (filter (\<lambda>i. ci_member_of i = Some topic)
                      (registry_iter (nd_registry n)))) n)) (\<lambda>_ n1.
          act_bind (case deregister (nd_registry n1) topic (self_id n1) of
                      (None, reg) \<Rightarrow> act_modify (\<lambda>n. n\<lparr>nd_registry := reg\<rparr>)
                    | (Some tombstone, reg) \<Rightarrow>
                        act_bind (act_modify (\<lambda>n. n\<lparr>nd_registry := reg, nd_hosted := (nd_hosted n)(topic := None)\<rparr>)) (\<lambda>_.
                        disseminate_tombstone os now tombstone)) (\<lambda>_.
          act_bind (act_modify (remove_channel_dir os topic)) (\<lambda>_.
          act_return True)) n1)))) n)"

subsection \<open>Reconstruction\<close>

definition stamped_name :: "('t, 'r) reader_api \<Rightarrow> 't \<Rightarrow> path \<Rightarrow> rstring io_result" where
  "stamped_name rapi t p = and_then (rd_open rapi t p) (\<lambda>r. Inr (rd_name rapi r))"

definition verify_stamped_name :: "('t, 'r) reader_api \<Rightarrow> 't \<Rightarrow> path \<Rightarrow> rstring \<Rightarrow> unit io_result" where
  "verify_stamped_name rapi t p expected =
     and_then (stamped_name rapi t p) (\<lambda>stamped.
       if stamped \<noteq> expected
       then Inl (IoError InvalidData ''refusing to serve one channel's records under another's name'') else Inr ())"

definition read_geometry :: "('t, 'r) reader_api \<Rightarrow> ('r \<Rightarrow> nat \<times> u32) \<Rightarrow> 't \<Rightarrow> path \<Rightarrow> (u32 \<times> u32) io_result" where
  "read_geometry rapi geom t p =
     and_then (rd_open rapi t p) (\<lambda>r. case geom r of (region_size, mtu) \<Rightarrow> Inr (of_nat region_size, mtu))"

definition reregister_origin ::
  "('t, 'r) reader_api \<Rightarrow> ('r \<Rightarrow> nat \<times> u32) \<Rightarrow> ('t, 'w) outside \<Rightarrow> instant \<Rightarrow> u64 \<Rightarrow> rstring \<Rightarrow> (('t, 'w, 'r) node, unit) act" where
  "reregister_origin rapi geom os now nanos name n =
     (if nd_hosted n name \<noteq> None then Some (Inr (), n)
      else
        act_bind (act_lift (node_channel_path os n name)) (\<lambda>p.
        act_bind (act_lift (verify_stamped_name rapi (nd_fs n) p name)) (\<lambda>_.
        act_bind (act_lift (read_geometry rapi geom (nd_fs n) p)) (\<lambda>(region_size, mtu).
        act_bind (act_total (claim_name (os_fs os) (os_writer os) now nanos name region_size mtu None)) (\<lambda>identity.
        announce_hosted identity p 0 0)))) n)"

text \<open>A member of a topic found on disk: one with an origin here is registered again, then the mux reads
  its origin or else its replica. \<open>sgs\<close> are the files at the reads of the first and of the second.\<close>

definition rehost_member_origin ::
  "('t, 'r) reader_api \<Rightarrow> ('r \<Rightarrow> nat \<times> u32) \<Rightarrow> ('t, 'w) outside \<Rightarrow> instant \<Rightarrow> u64 \<Rightarrow> rstring \<Rightarrow> rstring \<Rightarrow>
     ('t, 'w, 'r) node \<Rightarrow> ('t, 'w, 'r) node option" where
  "rehost_member_origin rapi geom os now nanos topic member n =
     (case node_channel_path os n member of
        Inl _ \<Rightarrow> Some n
      | Inr p \<Rightarrow>
          if \<not> fs_exists (os_fs os) (nd_fs n) p \<or> verify_stamped_name rapi (nd_fs n) p member \<noteq> Inr () then Some n
          else
            (case read_geometry rapi geom (nd_fs n) p of
               Inl _ \<Rightarrow> Some n
             | Inr (region_size, mtu) \<Rightarrow>
                 (case claim_name (os_fs os) (os_writer os) now nanos member region_size mtu (Some topic) n of
                    (Inl _, n1) \<Rightarrow> Some n1
                  | (Inr i, n1) \<Rightarrow> map_option snd (announce_hosted i p 0 0 n1))))"

definition rehost_member_slot ::
  "('t, 'r) reader_api \<Rightarrow> ('t, 'w) outside \<Rightarrow> 't sightings \<times> 't sightings \<Rightarrow> rstring \<Rightarrow> member_key \<Rightarrow>
     ('t, 'w, 'r) node \<Rightarrow> ('t, 'w, 'r) node option" where
  "rehost_member_slot rapi os sgs topic key n =
     (let try = (\<lambda>sg p n. case p of
            Inl e \<Rightarrow> Some (Inl e, n)
          | Inr p \<Rightarrow> attach_member rapi os sg topic (fst key) (snd key) p n)
      in case try (fst sgs) (node_channel_path os n (fst key)) n of
           None \<Rightarrow> None
         | Some (Inr _, n1) \<Rightarrow> Some n1
         | Some (Inl _, n1) \<Rightarrow> map_option snd (try (snd sgs) (node_replica_path os n1 (fst key)) n1))"

fun rehost_members ::
  "('t, 'r) reader_api \<Rightarrow> ('r \<Rightarrow> nat \<times> u32) \<Rightarrow> ('t, 'w) outside \<Rightarrow> instant \<Rightarrow> u64 \<Rightarrow> (member_key \<Rightarrow> 't sightings \<times> 't sightings) \<Rightarrow>
     rstring \<Rightarrow> member_key list \<Rightarrow> (('t, 'w, 'r) node, unit) act" where
  "rehost_members rapi geom os now nanos sight topic [] n = Some (Inr (), n)"
| "rehost_members rapi geom os now nanos sight topic (k # ks) n =
     Option.bind (rehost_member_origin rapi geom os now nanos topic (fst k) n) (\<lambda>n1.
     Option.bind (rehost_member_slot rapi os (sight k) topic k n1) (\<lambda>n2.
     rehost_members rapi geom os now nanos sight topic ks n2))"

definition rehost_topic ::
  "('t, 'r) reader_api \<Rightarrow> ('r \<Rightarrow> nat \<times> u32) \<Rightarrow> ('t, 'w) outside \<Rightarrow> instant \<Rightarrow> u64 \<Rightarrow> 't list \<Rightarrow>
     (member_key \<Rightarrow> 't sightings \<times> 't sightings) \<Rightarrow> rstring \<Rightarrow> topic_config \<Rightarrow> (('t, 'w, 'r) node, unit) act" where
  "rehost_topic rapi geom os now nanos ts sight name cfg n =
     (if mux_of name n \<noteq> None then Some (Inr (), n)
      else
        act_bind (act_lift (node_channel_path os n name)) (\<lambda>p.
        act_bind (act_lift (verify_stamped_name rapi (nd_fs n) p name)) (\<lambda>_.
        act_bind (act_total (claim_name (os_fs os) (os_writer os) now nanos name
                    (tgeo_region_size (tc_geometry cfg)) (tgeo_mtu (tc_geometry cfg)) None)) (\<lambda>identity.
        act_bind (announce_hosted identity p (tgeo_file_roll_size (tc_geometry cfg)) (tgeo_keep_files (tc_geometry cfg))) (\<lambda>_.
        act_bind (open_mux rapi os ts p name (tc_geometry cfg) MAX_BATCH_PER_MEMBER) (\<lambda>m.
        act_bind (act_modify (put_mux name m)) (\<lambda>_.
        rehost_members rapi geom os now nanos sight name (tc_members cfg))))))) n)"

text \<open>\<open>listing\<close> is the data directory: the entries with a readable name, and whether each is a directory.\<close>

definition scan_names :: "nat \<Rightarrow> (rstring \<times> bool) list \<Rightarrow> rstring list" where
  "scan_names name_max listing =
     filter (\<lambda>name. \<not> prefix (ascii ''.'') name \<and> validate_channel_name name_max name = Inr ())
       (map fst (filter snd listing))"

fun classify ::
  "('t, 'r) reader_api \<Rightarrow> ('t, 'w) outside \<Rightarrow> (rstring \<Rightarrow> 't list) \<Rightarrow> rstring list \<Rightarrow> ('t, 'w, 'r) node \<Rightarrow>
     ((rstring \<times> topic_config) list \<times> rstring list) option" where
  "classify rapi os reads [] n = Some ([], [])"
| "classify rapi os reads (name # names) n =
     (case node_channel_path os n name of
        Inl _ \<Rightarrow> classify rapi os reads names n
      | Inr p \<Rightarrow>
          (case topic_config_of rapi (nd_fs n) (reads name) p of
             None \<Rightarrow> None
           | Some found \<Rightarrow>
               map_option (\<lambda>(topics, origins).
                   case found of
                     Inr (Some cfg) \<Rightarrow> ((name, cfg) # topics, origins)
                   | Inr None \<Rightarrow> (topics, name # origins)
                   | Inl _ \<Rightarrow> (topics, origins))
                 (classify rapi os reads names n)))"

record reconstructed =
  rc_topics :: nat
  rc_origins :: nat
  rc_skipped :: nat

text \<open>A best-effort pass: how many succeeded and how many were skipped.\<close>

fun each :: "('a \<Rightarrow> ('n, unit) act) \<Rightarrow> 'a list \<Rightarrow> 'n \<Rightarrow> ((nat \<times> nat) \<times> 'n) option" where
  "each f [] n = Some ((0, 0), n)"
| "each f (x # xs) n =
     (case f x n of
        None \<Rightarrow> None
      | Some (r, n1) \<Rightarrow>
          map_option (\<lambda>((good, bad), n2). (case r of Inr _ \<Rightarrow> (Suc good, bad) | Inl _ \<Rightarrow> (good, Suc bad), n2)) (each f xs n1))"

definition reconstruct_from_disk ::
  "('t, 'r) reader_api \<Rightarrow> ('r \<Rightarrow> nat \<times> u32) \<Rightarrow> ('t, 'w) outside \<Rightarrow> instant \<Rightarrow> u64 \<Rightarrow> (rstring \<Rightarrow> 't list) \<Rightarrow>
     (member_key \<Rightarrow> 't sightings \<times> 't sightings) \<Rightarrow> (rstring \<times> bool) list option \<Rightarrow>
     ('t, 'w, 'r) node \<Rightarrow> (reconstructed \<times> ('t, 'w, 'r) node) option" where
  "reconstruct_from_disk rapi geom os now nanos reads sight listing n =
     (case listing of
        None \<Rightarrow> Some (\<lparr>rc_topics = 0, rc_origins = 0, rc_skipped = 0\<rparr>, n)
      | Some entries \<Rightarrow>
          Option.bind (classify rapi os reads (scan_names (os_name_max os) entries) n) (\<lambda>(topics, origins).
          Option.bind (each (\<lambda>(name, cfg). rehost_topic rapi geom os now nanos (reads name) sight name cfg) topics n)
            (\<lambda>((good, bad), n1).
          Option.bind (each (reregister_origin rapi geom os now nanos) origins n1) (\<lambda>((good', bad'), n2).
            Some (\<lparr>rc_topics = good, rc_origins = good', rc_skipped = bad + bad'\<rparr>, n2)))))"

subsection \<open>Which members a topic has\<close>

text \<open>The steps of a mux keep its slots' keys and its next ref, on every outcome.\<close>

definition same_keys :: "('w, 'r) mux \<Rightarrow> ('w, 'r) mux \<Rightarrow> bool" where
  "same_keys m m' \<longleftrightarrow> slot_keys m' = slot_keys m \<and> mx_next_ref m' = mx_next_ref m"

definition keeps :: "('t, 'w, 'r, 'a) mstep \<Rightarrow> bool" where
  "keeps f \<longleftrightarrow> (\<forall>st. same_keys (snd st) (snd (snd (f st))))"

named_theorems keeps_intros

lemma same_keys_trans: "same_keys a b \<Longrightarrow> same_keys b c \<Longrightarrow> same_keys a c"
  by (simp add: same_keys_def)

lemma keeps_then_do [keeps_intros]:
  assumes "keeps f" and "keeps g"
  shows "keeps (then_do f g)"
proof -
  have "same_keys (snd st) (snd (snd (then_do f g st)))" for st
  proof -
    obtain r st' where f: "f st = (r, st')" by (cases "f st")
    with assms(1) have "same_keys (snd st) (snd st')" unfolding keeps_def by (metis snd_conv)
    moreover have "same_keys (snd st') (snd (snd (g st')))" using assms(2) unfolding keeps_def by blast
    ultimately show ?thesis using f unfolding then_do_def by (cases r) (auto intro: same_keys_trans)
  qed
  then show ?thesis by (simp add: keeps_def)
qed

lemma keeps_modify [keeps_intros]: "(\<And>m. same_keys m (f m)) \<Longrightarrow> keeps (modify f)"
  by (auto simp: keeps_def modify_def)

lemma keeps_return [keeps_intros]: "keeps (\<lambda>st. (r, st))"
  by (simp add: keeps_def same_keys_def)

lemma keeps_commit_record [keeps_intros]: "keeps (commit_record api ty p)"
  by (auto simp: keeps_def same_keys_def slot_keys_def commit_record_def split: prod.splits sum.splits)

lemma keeps_emit_slot_table [keeps_intros]: "keeps (emit_slot_table api)"
proof -
  have "keeps (then_do (commit_record api ty p)
    (modify (\<lambda>m. m\<lparr>mx_slot_table_version := mx_slot_table_version m + 1, mx_since_slot_table := 0\<rparr>)))" for ty p
    by (intro keeps_intros) (simp add: same_keys_def slot_keys_def)
  then show ?thesis unfolding keeps_def emit_slot_table_def by (metis case_prod_beta prod.collapse)
qed

lemma keepsD: "keeps f \<Longrightarrow> f (t, m) = (r, t', m') \<Longrightarrow> same_keys m m'"
  unfolding keeps_def by (metis snd_conv)

lemma keeps_roll_if_full [keeps_intros]: "keeps (roll_if_full api)"
proof -
  have "same_keys m m'" if "roll_if_full api (t, m) = (r, t', m')" for t m r t' m'
  proof -
    have "same_keys (m\<lparr>mx_topic := w, mx_bytes_in_segment := 0\<rparr>) m'"
      if "emit_slot_table api (t1, m\<lparr>mx_topic := w, mx_bytes_in_segment := 0\<rparr>) = (r, t', m')" for t1 w
      using keepsD [OF keeps_emit_slot_table that] .
    with that show ?thesis
      by (auto simp: roll_if_full_def same_keys_def slot_keys_def split: if_splits prod.splits sum.splits)
  qed
  then show ?thesis unfolding keeps_def by (metis prod.collapse)
qed

lemma keeps_emit_mark [keeps_intros]: "keeps (emit_mark api ref mark)"
  by (cases mark) (auto simp: emit_mark_def emit_topic_gap_def emit_member_regressed_def same_keys_def slot_keys_def
      intro!: keeps_intros)

lemma same_keys_upd: "(\<And>s. (mt_name (f s), mt_epoch (f s)) = (mt_name s, mt_epoch s)) \<Longrightarrow> same_keys m (upd_slot i f m)"
  by (cases "i < length (mx_slots m)") (auto simp: same_keys_def slot_keys_def upd_slot_def map_update list_update_beyond
      intro!: nth_equalityI simp: nth_list_update)

lemma keeps_merge_commit [keeps_intros]: "keeps (merge_commit api i frame payload)"
proof -
  have r: "keeps (\<lambda>(t, m). if mx_since_slot_table m \<ge> SLOT_TABLE_REFRESH then emit_slot_table api (t, m) else (Inr (), t, m))"
    using keeps_emit_slot_table [of api] by (auto simp: keeps_def same_keys_def)
  have u: "same_keys m ((upd_slot i (\<lambda>s. s\<lparr>mt_cursor := rf_index frame + 1\<rparr>) m)\<lparr>mx_since_slot_table := mx_since_slot_table m + 1\<rparr>)" for m
    using same_keys_upd [of "\<lambda>s. s\<lparr>mt_cursor := rf_index frame + 1\<rparr>" m i] by (simp add: same_keys_def slot_keys_def)
  show ?thesis unfolding merge_commit_def by (intro keeps_intros r u)
qed

lemma merge_one_keys:
  "merge_one rapi wapi ss i (t, m) = Some (r, (t', m'), ss') \<Longrightarrow> same_keys m m'"
proof (induction ss arbitrary: t m)
  case (Cons s ss)
  let ?src = "\<lambda>x. upd_slot i (\<lambda>s. s\<lparr>mt_source := x\<rparr>) m"
  let ?rej = "\<lambda>x k. upd_slot i (\<lambda>s. s\<lparr>mt_rejected := mt_rejected s + 1, mt_cursor := k\<rparr>) (?src x)"
  have s: "same_keys m (?src x)" for x by (rule same_keys_upd) simp
  have j: "same_keys m (?rej x k)" for x k by (rule same_keys_trans [OF s same_keys_upd]) simp
  obtain a x where n: "try_next_frame rapi s (mt_source (mx_slots m ! i)) = (a, x)" by fastforce
  consider (none) "merge_one rapi wapi (s # ss) i (t, m) = Some (r, (t, ?src x), ss)" "m' = ?src x"
    | (skip) f :: record_frame where "merge_one rapi wapi ss i (t, ?rej x (rf_index f + 1)) = Some (r, (t', m'), ss')"
    | (commit) f p where "merge_commit wapi i f p (t, ?src x) = (r, t', m')"
    using Cons.prems n by (auto simp: Let_def split: sum.splits option.splits if_splits prod.splits)
  then show ?case
  proof cases
    case none
    then show ?thesis using s by simp
  next
    case skip
    show ?thesis using same_keys_trans [OF j Cons.IH [OF skip]] .
  next
    case commit
    show ?thesis using same_keys_trans [OF s keepsD [OF keeps_merge_commit commit]] .
  qed
qed simp

lemma drain_keys: "drain rapi wapi ss i (t, m) = Some (r, (t', m'), ss') \<Longrightarrow> same_keys m m'"
proof (induction rapi wapi ss i "(t, m)" arbitrary: t m rule: drain.induct)
  case (1 rapi wapi ss i t m)
  obtain o1 where o1: "merge_one rapi wapi ss i (t, m) = o1" by blast
  from 1(2) o1 obtain q t1 m1 ss1 where q: "o1 = Some (q, (t1, m1), ss1)"
    by (cases o1) (auto simp: drain.simps [of rapi wapi ss i "(t, m)"])
  have k: "same_keys m m1" using merge_one_keys [OF o1 [unfolded q]] .
  consider (stop) "m' = m1" | (again) "q = Inr True" "drain rapi wapi ss1 i (t1, m1) = Some (r, (t', m'), ss')"
    using 1(2) o1 q by (auto simp: drain.simps [of rapi wapi ss i "(t, m)"] split: sum.splits bool.splits)
  then show ?case
  proof cases
    case again
    from 1(1) [OF o1 [unfolded q] refl again(1) refl refl again(2)] k show ?thesis by (auto intro: same_keys_trans)
  qed (use k in simp)
qed

lemma add_member_keys:
  assumes "add_member rapi wapi s0 s1 ss name epoch p (t, m) = Some (r, t', m')"
  shows "slot_keys m' = slot_keys m \<or> slot_keys m' = slot_keys m @ [(name, epoch)]"
proof -
  have e: "slot_keys m2 = slot_keys m1" if "then_do (emit_slot_table wapi) (emit_mark wapi ref mark) (t, m1) = (q, t2, m2)"
    for m1 ref mark q t2 m2
  proof -
    have "keeps (then_do (emit_slot_table wapi) (emit_mark wapi ref mark))" by (intro keeps_intros)
    from keepsD [OF this that] show ?thesis by (simp add: same_keys_def)
  qed
  from assms show ?thesis
    unfolding add_member_def Let_def
    by (auto split: if_splits sum.splits prod.splits option.splits dest!: e) (auto simp: slot_keys_def)
qed

lemma then_modify_keys:
  assumes "then_do f (then_do (modify g) h) (t, m) = (r, t', m')" and "keeps f" and "keeps h"
  shows "slot_keys m' = slot_keys m \<or> (\<exists>m1. same_keys m m1 \<and> slot_keys m' = slot_keys (g m1))"
proof -
  obtain q t1 m1 where f: "f (t, m) = (q, t1, m1)" by (cases "f (t, m)") auto
  have k: "same_keys m m1" using keepsD [OF assms(2) f] .
  show ?thesis
  proof (cases q)
    case Inl
    with f assms(1) k show ?thesis by (auto simp: then_do_def same_keys_def)
  next
    case Inr
    with f assms(1) have "h (t1, g m1) = (r, t', m')" by (simp add: then_do_def modify_def)
    with k keepsD [OF assms(3) this] show ?thesis by (auto simp: same_keys_def)
  qed
qed

lemma cut_keys:
  "slot_keys (m\<lparr>mx_slots := take pos (mx_slots m) @ drop (Suc pos) (mx_slots m)\<rparr>) =
     take pos (slot_keys m) @ drop (Suc pos) (slot_keys m)"
  by (simp add: slot_keys_def take_map drop_map)

lemma set_cut:
  assumes "i < length xs"
  shows "set (take i xs @ drop (Suc i) xs) \<subseteq> set xs \<and> set xs - {xs ! i} \<subseteq> set (take i xs @ drop (Suc i) xs)"
proof -
  have "set xs = set (take i xs) \<union> insert (xs ! i) (set (drop (Suc i) xs))"
    using id_take_nth_drop [OF assms] by (metis list.simps(15) set_append)
  then show ?thesis by auto
qed

lemma remove_member_keys:
  assumes "remove_member rapi wapi ss name epoch (t, m) = Some (r, (t', m'), ss')"
  shows "set (slot_keys m') \<subseteq> set (slot_keys m) \<and> set (slot_keys m) - {(name, epoch)} \<subseteq> set (slot_keys m')"
proof (cases "slot_position (mx_slots m) name epoch")
  case None
  with assms show ?thesis by (auto simp: remove_member_def)
next
  case (Some pos)
  then have pos: "pos < length (slot_keys m)" "slot_keys m ! pos = (name, epoch)"
    using slot_position_Some [OF Some] by (simp_all add: slot_keys_def slot_key_def)
  from assms Some obtain q t1 m1 ss1 where d: "drain rapi wapi ss pos (t, m) = Some (q, (t1, m1), ss1)"
    by (auto simp: remove_member_def split: option.splits)
  have k: "slot_keys m1 = slot_keys m" using drain_keys [OF d] by (simp add: same_keys_def)
  let ?cut = "\<lambda>m. m\<lparr>mx_slots := take pos (mx_slots m) @ drop (Suc pos) (mx_slots m)\<rparr>"
  have "slot_keys m' = slot_keys m \<or> slot_keys m' = take pos (slot_keys m) @ drop (Suc pos) (slot_keys m)"
  proof (cases q)
    case Inl
    with assms Some d k show ?thesis by (auto simp: remove_member_def)
  next
    case (Inr u)
    let ?s = "mx_slots m1 ! pos"
    have "then_do (emit_member_closed wapi (mt_member_ref ?s) (mt_cursor ?s))
      (then_do (modify ?cut) (then_do (emit_slot_table wapi) (\<lambda>st. (Inr True, st)))) (t1, m1) = (r, t', m')"
      using assms Some d Inr by (auto simp: remove_member_def Let_def split: prod.splits)
    moreover have "keeps (emit_member_closed wapi (mt_member_ref ?s) (mt_cursor ?s))"
      "keeps (then_do (emit_slot_table wapi) (\<lambda>st. (Inr True, st)))"
      unfolding emit_member_closed_def by (intro keeps_intros)+
    ultimately have "slot_keys m' = slot_keys m1 \<or> (\<exists>m2. same_keys m1 m2 \<and> slot_keys m' = slot_keys (?cut m2))"
      by (rule then_modify_keys)
    then show ?thesis unfolding cut_keys same_keys_def k by auto
  qed
  then show ?thesis using set_cut [OF pos(1)] unfolding pos(2) by (elim disjE) simp_all
qed

text \<open>What a pass may do to the memberships: members go only after the registry said they left, and come
  only as live members of that topic.\<close>

definition is_live_member :: "rstring \<Rightarrow> member_key \<Rightarrow> ('t, 'w, 'r) node \<Rightarrow> bool" where
  "is_live_member topic k n \<longleftrightarrow>
     (\<exists>i\<in>set (registry_iter (nd_registry n)). \<not> ci_deleted i \<and> ci_member_of i = Some topic \<and> (ci_name i, ci_epoch i) = k)"

definition topic_moves :: "rstring \<Rightarrow> ('t, 'w, 'r) node \<Rightarrow> ('w, 'r) mux \<Rightarrow> ('w, 'r) mux \<Rightarrow> bool" where
  "topic_moves topic n m m' \<longleftrightarrow>
     (\<forall>k. k \<in> set (slot_keys m) \<longrightarrow> k \<in> set (slot_keys m') \<or> has_left topic (fst k) n) \<and>
     (\<forall>k. k \<in> set (slot_keys m') \<longrightarrow> k \<in> set (slot_keys m) \<or> is_live_member topic k n)"

definition members_move :: "('t, 'w, 'r) node \<Rightarrow> ('t, 'w, 'r) node \<Rightarrow> bool" where
  "members_move n n' \<longleftrightarrow> nd_registry n' = nd_registry n \<and> self_id n' = self_id n \<and>
     (\<forall>topic. (case (mux_of topic n, mux_of topic n') of
        (None, None) \<Rightarrow> True | (Some m, Some m') \<Rightarrow> topic_moves topic n m m' | _ \<Rightarrow> False))"

lemma topic_moves_trans:
  "topic_moves topic n a b \<Longrightarrow> topic_moves topic n b c \<Longrightarrow> topic_moves topic n a c"
  unfolding topic_moves_def by blast

lemma members_move_refl:
  "nd_registry n' = nd_registry n \<Longrightarrow> nd_muxes n' = nd_muxes n \<Longrightarrow> nd_config n' = nd_config n \<Longrightarrow> members_move n n'"
  by (auto simp: members_move_def mux_of_def topic_moves_def split: option.split)

lemma topic_moves_cong: "nd_registry n' = nd_registry n \<Longrightarrow> topic_moves topic n' a b = topic_moves topic n a b"
  by (simp add: topic_moves_def has_left_def is_live_member_def)

lemma members_moveD:
  assumes "members_move n n'"
  shows "nd_registry n' = nd_registry n" and "self_id n' = self_id n"
    and "mux_of topic n = None \<Longrightarrow> mux_of topic n' = None"
    and "mux_of topic n = Some m \<Longrightarrow> \<exists>m'. mux_of topic n' = Some m' \<and> topic_moves topic n m m'"
proof -
  have c: "case (mux_of topic n, mux_of topic n') of
      (None, None) \<Rightarrow> True | (Some m, Some m') \<Rightarrow> topic_moves topic n m m' | _ \<Rightarrow> False"
    using assms unfolding members_move_def by blast
  show "nd_registry n' = nd_registry n" "self_id n' = self_id n" using assms by (simp_all add: members_move_def)
  show "mux_of topic n = None \<Longrightarrow> mux_of topic n' = None"
    "mux_of topic n = Some m \<Longrightarrow> \<exists>m'. mux_of topic n' = Some m' \<and> topic_moves topic n m m'"
    using c by (auto split: option.splits)
qed

lemma members_moveI:
  assumes "nd_registry n' = nd_registry n" and "self_id n' = self_id n"
    and "\<And>topic. mux_of topic n = None \<Longrightarrow> mux_of topic n' = None"
    and "\<And>topic m. mux_of topic n = Some m \<Longrightarrow> \<exists>m'. mux_of topic n' = Some m' \<and> topic_moves topic n m m'"
  shows "members_move n n'"
proof -
  have "case (mux_of topic n, mux_of topic n') of
      (None, None) \<Rightarrow> True | (Some m, Some m') \<Rightarrow> topic_moves topic n m m' | _ \<Rightarrow> False" for topic
    using assms(3,4) [of topic] by (cases "mux_of topic n") fastforce+
  with assms(1,2) show ?thesis by (simp add: members_move_def)
qed

lemma members_move_trans:
  assumes "members_move a b" and "members_move b c"
  shows "members_move a c"
proof (rule members_moveI)
  note A = members_moveD [OF assms(1)] and B = members_moveD [OF assms(2)]
  show "nd_registry c = nd_registry a" "self_id c = self_id a" using A B by simp_all
  show "mux_of topic a = None \<Longrightarrow> mux_of topic c = None" for topic using A(3) B(3) by blast
  show "\<exists>m'. mux_of topic c = Some m' \<and> topic_moves topic a m m'" if m: "mux_of topic a = Some m" for topic m
  proof -
    from A(4) [OF m] obtain m1 where m1: "mux_of topic b = Some m1" "topic_moves topic a m m1" by blast
    from B(4) [OF m1(1)] obtain m2 where "mux_of topic c = Some m2" "topic_moves topic a m1 m2"
      using topic_moves_cong [OF A(1)] by blast
    with topic_moves_trans [OF m1(2)] show ?thesis by blast
  qed
qed

lemma put_mux_moves:
  assumes "mux_of topic n = Some m" and "topic_moves topic n m m'"
  shows "members_move n (put_mux topic m' (n\<lparr>nd_fs := t\<rparr>))"
  using assms by (auto simp: members_move_def mux_of_def put_mux_def topic_moves_def split: option.split)

lemma stop_sub_sel [simp]:
  "nd_registry (stop_sub h n) = nd_registry n" "nd_muxes (stop_sub h n) = nd_muxes n" "nd_config (stop_sub h n) = nd_config n"
  by (simp_all add: stop_sub_def)

lemma drop_sub_moves: "members_move n (drop_sub name n)"
  by (rule members_move_refl) (auto simp: drop_sub_def unsubscribe_def split: option.split)

lemma spawn_establish_sel [simp]:
  "nd_registry (snd (spawn_establish c sp name h why n)) = nd_registry n"
  "nd_muxes (snd (spawn_establish c sp name h why n)) = nd_muxes n"
  "nd_config (snd (spawn_establish c sp name h why n)) = nd_config n"
  by (auto simp: spawn_establish_def attach_now_def attach_due_def set_establishing_def with_shared_def Let_def)

lemma subscribe_as_sel:
  assumes "subscribe_as os resolved c sp name why n = Some (r, n')"
  shows "nd_registry n' = nd_registry n \<and> nd_muxes n' = nd_muxes n \<and> nd_config n' = nd_config n"
proof -
  have p: "nd_registry m = nd_registry n \<and> nd_muxes m = nd_muxes n \<and> nd_config m = nd_config n"
    if "ensure_parent fs d n = Some (q, m)" for fs d q m
    using that by (auto simp: ensure_parent_def on_fs_def split: option.splits prod.splits)
  show ?thesis
    using assms by (auto simp: subscribe_as_def act_bind_Some Let_def case_prod_beta dest!: p)
qed

lemma ensure_member_moves: "members_move n (ensure_member_subscription os a name n)"
proof (rule members_move_refl)
  let ?n = "ensure_member_subscription os a name n"
  have "nd_registry ?n = nd_registry n \<and> nd_muxes ?n = nd_muxes n \<and> nd_config ?n = nd_config n"
    by (auto simp: ensure_member_subscription_def insert_sub_def Let_def bind_eq_Some_conv
        split: option.split sum.split dest: subscribe_as_sel)
  then show "nd_registry ?n = nd_registry n" "nd_muxes ?n = nd_muxes n" "nd_config ?n = nd_config n" by simp_all
qed

lemma attach_member_moves:
  assumes "attach_member rapi os sg topic name epoch p n = Some (r, n')" and "is_live_member topic (name, epoch) n"
  shows "members_move n n'"
proof (cases "mux_of topic n")
  case None
  with assms(1) show ?thesis by (auto simp: attach_member_def intro: members_move_refl)
next
  case (Some m)
  with assms(1) obtain t m' where
    a: "add_member rapi (os_writer os) (sg_open sg) (sg_head sg) (sg_reads sg) name epoch p (nd_fs n, m) = Some (r, t, m')"
    and n': "n' = put_mux topic m' (n\<lparr>nd_fs := t\<rparr>)" by (auto simp: attach_member_def)
  from add_member_keys [OF a] assms(2) have "topic_moves topic n m m'" by (auto simp: topic_moves_def)
  with put_mux_moves [OF Some] n' show ?thesis by simp
qed

lemma attach_one_moves:
  assumes "attach_one rapi os live topic a i n = Some n'" and "i \<in> set (topic_members topic n)"
  shows "members_move n n'"
proof -
  define n1 where "n1 = (if ci_owner i \<noteq> self_id n \<and> ci_owner i \<in> live then ensure_member_subscription os a (ci_name i) n else n)"
  have m1: "members_move n n1" using ensure_member_moves by (auto simp: n1_def intro: members_move_refl)
  then have "nd_registry n1 = nd_registry n" by (simp add: members_move_def)
  then have l: "is_live_member topic (ci_name i, ci_epoch i) n1" using assms(2) by (auto simp: topic_members_def is_live_member_def)
  consider "n' = n1" | p r where "attach_member rapi os (at_sight a) topic (ci_name i) (ci_epoch i) p n1 = Some (r, n')"
    using assms(1) unfolding attach_one_def Let_def n1_def [symmetric] by (auto split: if_splits sum.splits)
  then show ?thesis
  proof cases
    case 2
    show ?thesis using members_move_trans [OF m1 attach_member_moves [OF 2 l]] .
  qed (use m1 in simp)
qed

lemma attach_all_moves:
  assumes "attach_all rapi os live topic turn is n = Some n'" and "set is \<subseteq> set (topic_members topic n)"
  shows "members_move n n'"
  using assms
proof (induction "is" arbitrary: n)
  case (Cons i "is")
  from Cons.prems(1) obtain n1 where n1: "attach_one rapi os live topic (turn i) i n = Some n1"
    "attach_all rapi os live topic turn is n1 = Some n'" by (auto simp: bind_eq_Some_conv)
  have m: "members_move n n1" using attach_one_moves [OF n1(1)] Cons.prems(2) by simp
  then have "topic_members topic n1 = topic_members topic n" by (simp add: members_move_def topic_members_def)
  with Cons.IH [OF n1(2)] Cons.prems(2) m show ?case by (auto intro: members_move_trans)
qed (simp add: members_move_refl)

lemma detach_one_moves:
  assumes "detach_one rapi os topic reads live k n = Some n'"
  shows "members_move n n'"
proof (cases "k \<in> live \<or> \<not> has_left topic (fst k) n \<or> mux_of topic n = None")
  case True
  with assms show ?thesis by (auto simp: detach_one_def members_move_refl split: if_splits)
next
  case False
  then obtain m where m: "mux_of topic n = Some m" by auto
  with assms False obtain r t m' ss where
    r: "remove_member rapi (os_writer os) (reads k) (fst k) (snd k) (nd_fs n, m) = Some (r, (t, m'), ss)"
    and n': "n' = drop_sub (fst k) (put_mux topic m' (n\<lparr>nd_fs := t\<rparr>))" by (auto simp: detach_one_def)
  from remove_member_keys [OF r] False have "topic_moves topic n m m'" by (auto simp: topic_moves_def)
  from members_move_trans [OF put_mux_moves [OF m this] drop_sub_moves] n' show ?thesis by simp
qed

lemma detach_all_moves: "detach_all rapi os topic reads live ks n = Some n' \<Longrightarrow> members_move n n'"
  by (induction ks arbitrary: n) (auto simp: bind_eq_Some_conv members_move_refl dest!: detach_one_moves intro: members_move_trans)

lemma attach_topics_moves: "attach_topics rapi os live turn reads topics n = Some n' \<Longrightarrow> members_move n n'"
proof (induction topics arbitrary: n)
  case (Cons topic topics)
  then obtain n1 where n1: "attach_topic rapi os live turn reads topic n = Some n1"
    "attach_topics rapi os live turn reads topics n1 = Some n'" by (auto simp: bind_eq_Some_conv)
  then have "members_move n n1"
    by (auto simp: attach_topic_def Let_def bind_eq_Some_conv intro: members_move_trans attach_all_moves detach_all_moves)
  from members_move_trans [OF this Cons.IH [OF n1(2)]] show ?case .
qed (simp add: members_move_refl)

text \<open>C17. Absence retires nobody. An attach pass leaves the registry as it is; a member attached before it
  is still attached after it, unless the registry holds a tombstone of its name or says it belongs to
  another topic; and whoever is attached by it is a live member of that very topic, at the registry's
  generation.\<close>

theorem members_leave_only_when_told:
  assumes "attach_pending_members rapi os now turn reads n = Some n'"
  shows "nd_registry n' = nd_registry n \<and>
    (\<forall>topic m. mux_of topic n = Some m \<longrightarrow> (\<exists>m'. mux_of topic n' = Some m' \<and>
       (\<forall>k. k \<in> set (slot_keys m) \<longrightarrow> k \<in> set (slot_keys m') \<or> has_left topic (fst k) n) \<and>
       (\<forall>k. k \<in> set (slot_keys m') \<longrightarrow> k \<in> set (slot_keys m) \<or> is_live_member topic k n)))"
proof -
  let ?live = "set (bd_live_members now (nd_bcast n))"
  have "members_move n (live_owners_noting_revivals ?live n)"
    by (rule members_move_refl) (simp_all add: live_owners_noting_revivals_def Let_def)
  moreover have "members_move (live_owners_noting_revivals ?live n) n'"
    using assms by (auto simp: attach_pending_members_def Let_def dest: attach_topics_moves)
  ultimately have "members_move n n'" by (rule members_move_trans)
  from members_moveD(1,4) [OF this] show ?thesis unfolding topic_moves_def by blast
qed

subsection \<open>The sweep isolates topics\<close>

definition merged_by :: "nat io_result \<Rightarrow> nat" where
  "merged_by q = (case q of Inr k \<Rightarrow> k | Inl _ \<Rightarrow> 0)"

text \<open>Every topic's poll is run, on its own mux, with result \<open>q\<close>.\<close>

definition polled_each ::
  "('t, 'r) reader_api \<Rightarrow> ('t, 'w) outside \<Rightarrow> (rstring \<Rightarrow> 't list) \<Rightarrow> ('t, 'w, 'r) node \<Rightarrow> ('t, 'w, 'r) node \<Rightarrow>
     (rstring \<times> nat io_result) list \<Rightarrow> bool" where
  "polled_each rapi os reads n n' results \<longleftrightarrow>
     (\<forall>(topic, q)\<in>set results. \<exists>m m' t t' ss. mux_of topic n = Some m \<and> mux_of topic n' = Some m' \<and>
        mux_poll rapi (os_writer os) (reads topic) (t, m) = Some (q, (t', m'), ss)) \<and>
     (\<forall>topic. topic \<notin> fst ` set results \<longrightarrow> mux_of topic n' = mux_of topic n) \<and> nd_config n' = nd_config n"

definition first_failure :: "(rstring \<times> nat io_result) list \<Rightarrow> io_error option" where
  "first_failure results = (case filter (isl \<circ> snd) results of [] \<Rightarrow> None | x # _ \<Rightarrow> Some (projl (snd x)))"

definition or_else :: "'a option \<Rightarrow> 'a option \<Rightarrow> 'a option" where
  "or_else a b = (case a of Some x \<Rightarrow> Some x | None \<Rightarrow> b)"

lemma first_failure_simps [simp]:
  "first_failure [] = None"
  "first_failure ((topic, q) # results) = (case q of Inl e \<Rightarrow> Some e | Inr _ \<Rightarrow> first_failure results)"
  by (auto simp: first_failure_def split: sum.split)

definition sweepable :: "('t, 'w, 'r) node \<Rightarrow> rstring \<Rightarrow> bool" where
  "sweepable n topic \<longleftrightarrow> topic \<notin> set (cfg_promoted_topics (nd_config n)) \<and> mux_of topic n \<noteq> None"

lemma mux_of_put [simp]: "mux_of x (put_mux topic m n) = (if x = topic then Some m else mux_of x n)"
  by (simp add: mux_of_def put_mux_def)

lemma put_mux_sel [simp]: "nd_config (put_mux topic m n) = nd_config n"
  by (simp add: put_mux_def)

lemma mux_of_fs [simp]: "mux_of x (n\<lparr>nd_fs := t\<rparr>) = mux_of x n"
  by (simp add: mux_of_def)

lemma polled_each_Cons:
  assumes e: "polled_each rapi os reads (put_mux topic m' (n\<lparr>nd_fs := t'\<rparr>)) n' results" and new: "topic \<notin> fst ` set results"
    and m: "mux_of topic n = Some m" and p: "mux_poll rapi (os_writer os) (reads topic) (nd_fs n, m) = Some (q, (t', m'), ss)"
  shows "polled_each rapi os reads n n' ((topic, q) # results)"
proof -
  let ?n = "put_mux topic m' (n\<lparr>nd_fs := t'\<rparr>)"
  let ?done = "\<lambda>n (topic, q). \<exists>m m' t t' ss. mux_of topic n = Some m \<and> mux_of topic n' = Some m' \<and>
        mux_poll rapi (os_writer os) (reads topic) (t, m) = Some (q, (t', m'), ss)"
  from e have each: "\<And>x. x \<in> set results \<Longrightarrow> ?done ?n x"
    and rest: "\<And>x. x \<notin> fst ` set results \<Longrightarrow> mux_of x n' = mux_of x ?n" and cfg: "nd_config n' = nd_config ?n"
    unfolding polled_each_def by blast+
  have "mux_of topic n' = Some m'" using rest [OF new] by simp
  with m p have "?done n (topic, q)" by blast
  moreover have "?done n x" if "x \<in> set results" for x
  proof -
    have "fst x \<noteq> topic" using that new by (metis image_eqI)
    with each [OF that] show ?thesis by (cases x) auto
  qed
  moreover have "mux_of x n' = mux_of x n" if "x \<noteq> topic" "x \<notin> fst ` set results" for x using rest [OF that(2)] that(1) by simp
  ultimately show ?thesis using cfg unfolding polled_each_def by auto
qed

lemma sweep_each:
  assumes "sweep rapi os reads topics w f n = Some ((w', f'), n')" and "distinct topics"
  shows "\<exists>results. map fst results = filter (sweepable n) topics \<and> polled_each rapi os reads n n' results \<and>
    w' = w + sum_list (map (\<lambda>x. merged_by (snd x)) results) \<and>
    f' = or_else f (first_failure results)"
  using assms
proof (induction topics arbitrary: w f n)
  case Nil
  then show ?case by (auto simp: polled_each_def or_else_def split: option.split)
next
  case (Cons topic topics)
  show ?case
  proof (cases "sweepable n topic")
    case False
    then have "sweep rapi os reads topics w f n = Some ((w', f'), n')"
      using Cons.prems(1) by (auto simp: sweepable_def split: if_splits option.splits)
    from Cons.IH [OF this] Cons.prems(2) False show ?thesis by simp
  next
    case True
    then obtain m where m: "mux_of topic n = Some m" "topic \<notin> set (cfg_promoted_topics (nd_config n))"
      by (auto simp: sweepable_def)
    with Cons.prems(1) obtain q t' m' ss where
      p: "mux_poll rapi (os_writer os) (reads topic) (nd_fs n, m) = Some (q, (t', m'), ss)"
      by (auto split: option.splits)
    let ?n = "put_mux topic m' (n\<lparr>nd_fs := t'\<rparr>)"
    let ?f = "case q of Inr _ \<Rightarrow> f | Inl e \<Rightarrow> (case f of None \<Rightarrow> Some e | Some e0 \<Rightarrow> Some e0)"
    have "sweep rapi os reads topics (w + merged_by q) ?f ?n = Some ((w', f'), n')"
      using Cons.prems(1) m p by (auto simp: Let_def merged_by_def split: sum.splits)
    from Cons.IH [OF this] Cons.prems(2) obtain results where
      k: "map fst results = filter (sweepable ?n) topics" and e: "polled_each rapi os reads ?n n' results"
      and w: "w' = w + merged_by q + sum_list (map (\<lambda>x. merged_by (snd x)) results)"
      and f: "f' = or_else ?f (first_failure results)" unfolding distinct.simps by blast
    have other: "sweepable ?n x = sweepable n x" if "x \<in> set topics" for x
      using that Cons.prems(2) by (auto simp: sweepable_def)
    have notin: "topic \<notin> fst ` set results"
      using k Cons.prems(2) by (metis distinct.simps(2) filter_is_subset list.set_map subsetD)
    have "polled_each rapi os reads n n' ((topic, q) # results)" using polled_each_Cons [OF e notin m(1) p] .
    moreover have "map fst ((topic, q) # results) = filter (sweepable n) (topic # topics)"
      using k True other by (auto cong: filter_cong)
    ultimately show ?thesis
      using w f by (intro exI [of _ "(topic, q) # results"]) (cases q; cases f; simp add: or_else_def)
  qed
qed

text \<open>C24. One topic's failure is its own. A sweep polls every hosted topic that has no thread of its own
  exactly once, each on its own mux, whether or not another failed; it leaves every other mux alone,
  counts what all of them merged, and reports the first error exactly when nothing was merged anywhere.\<close>

theorem sweep_isolates_topics:
  assumes "poll_muxes rapi os reads n = Some (r, n')"
  shows "\<exists>results. map fst results = filter (sweepable n) (map fst (RBT.entries (nd_muxes n))) \<and>
    polled_each rapi os reads n n' results \<and>
    (case r of
       Inr k \<Rightarrow> k = sum_list (map (\<lambda>x. merged_by (snd x)) results) \<and> (k > 0 \<or> first_failure results = None)
     | Inl e \<Rightarrow> sum_list (map (\<lambda>x. merged_by (snd x)) results) = 0 \<and> first_failure results = Some e)"
proof -
  let ?topics = "map fst (RBT.entries (nd_muxes n))"
  from assms obtain w f where s: "sweep rapi os reads ?topics 0 None n = Some ((w, f), n')"
    and r: "r = (case f of Some e \<Rightarrow> if w = 0 then Inl e else Inr w | None \<Rightarrow> Inr w)"
    by (auto simp: poll_muxes_def)
  have "distinct ?topics" by (rule RBT.distinct_entries)
  from sweep_each [OF s this] obtain results where "map fst results = filter (sweepable n) ?topics"
    "polled_each rapi os reads n n' results" "w = sum_list (map (\<lambda>x. merged_by (snd x)) results)" "f = first_failure results"
    by (auto simp: or_else_def)
  moreover have "case r of Inr k \<Rightarrow> k = w \<and> (k > 0 \<or> f = None) | Inl e \<Rightarrow> w = 0 \<and> f = Some e"
    unfolding r by (cases f) auto
  ultimately show ?thesis by blast
qed

subsection \<open>Idling\<close>

lemma word_diff_mono: "c \<le> a \<Longrightarrow> a \<le> b \<Longrightarrow> a - c \<le> b - c" for a b c :: "'a::len word"
  using unat_sub [of c a] unat_sub [of c b] order_trans [of c a b] by (simp add: word_le_nat_alt diff_le_mono)

fun calmer :: "idle_action \<Rightarrow> idle_action \<Rightarrow> bool" where
  "calmer Spin a = True"
| "calmer Yield a = (a \<noteq> Spin)"
| "calmer (Park d) a = (case a of Park d' \<Rightarrow> d \<le> d' | _ \<Rightarrow> False)"

text \<open>The loop cools down and wakes at once. Consecutive idle rounds only ever go from spinning to
  yielding to parking, the parks never shrink and never exceed the configured ceiling; a round that
  merged anything starts again from spinning; and the round counter never wraps.\<close>

theorem idle_escalates:
  assumes "round \<le> round'"
  shows "calmer (action idle round) (action idle round') \<and>
    (\<forall>d. action idle round = Park d \<longrightarrow> d \<le> idle_max_park idle \<and> 0 < idle_max_park idle) \<and>
    mux_turn idle (Inr (Suc k)) round = (None, 0) \<and>
    (polled = Inr 0 \<or> isl polled \<longrightarrow>
       (case mux_turn idle polled round of (a, next_round) \<Rightarrow> a = Some (action idle round) \<and> round \<le> next_round))"
proof -
  let ?s = "idle_max_spins idle" and ?y = "idle_max_yields idle"
  have nx: "round \<le> (if round = -1 then round else round + 1)"
  proof (cases "round = -1")
    case False
    have "unat (-1 :: u32) = 2 ^ 32 - 1" by (simp add: unsigned_minus_1_eq_mask mask_eq_exp_minus_1)
    with False have "unat round \<noteq> 2 ^ 32 - 1" by (metis word_eq_iff_unsigned)
    with unat_bound [of round] have "unat round + 1 < 2 ^ 32" by simp
    with unat_plus_of_nat [of round 1] False show ?thesis by (simp add: word_le_nat_alt)
  qed simp
  have "calmer (action idle round) (action idle round')"
  proof (cases "round < ?s \<or> round - ?s < ?y \<or> idle_max_park idle = 0")
    case True
    then show ?thesis
    proof (cases "round < ?s")
      case False
      then have "\<not> round' < ?s" using assms by simp
      with True False show ?thesis by (auto simp: action_def Let_def)
    qed (simp add: action_def)
  next
    case False
    then have r: "\<not> round < ?s" "\<not> round - ?s < ?y" "idle_max_park idle \<noteq> 0" by auto
    moreover have m: "round - ?s \<le> round' - ?s" using assms r(1) by (intro word_diff_mono) simp_all
    ultimately have r': "\<not> round' < ?s" "\<not> round' - ?s < ?y" using assms by auto
    have "min (round - ?s - ?y) 20 \<le> min (round' - ?s - ?y) 20"
      using m r(1,2) assms by (intro min.mono word_diff_mono) simp_all
    then have "(2::nat) ^ unat (min (round - ?s - ?y) 20) \<le> 2 ^ unat (min (round' - ?s - ?y) 20)"
      by (intro power_increasing) (simp_all add: word_le_nat_alt)
    then have "idle_min_park idle * 2 ^ unat (min (round - ?s - ?y) 20) \<le> idle_min_park idle * 2 ^ unat (min (round' - ?s - ?y) 20)"
      by (intro mult_le_mono2)
    then have le: "min (min (idle_min_park idle * 2 ^ unat (min (round - ?s - ?y) 20)) DURATION_MAX) (idle_max_park idle) \<le>
      min (min (idle_min_park idle * 2 ^ unat (min (round' - ?s - ?y) 20)) DURATION_MAX) (idle_max_park idle)"
      by (intro min.mono order_refl)
    have park: "action idle x = Park (min (min (idle_min_park idle * 2 ^ unat (min (x - ?s - ?y) 20)) DURATION_MAX) (idle_max_park idle))"
      if "\<not> x < ?s" "\<not> x - ?s < ?y" for x using that r(3) by (simp add: action_def Let_def)
    show ?thesis using le unfolding park [OF r(1,2)] park [OF r'] by (simp only: calmer.simps idle_action.case)
  qed
  then show ?thesis using nx by (auto simp: mux_turn_def action_def Let_def split: sum.splits if_splits)
qed

subsection \<open>Refs\<close>

text \<open>Attempts to attach one member, one per pass.\<close>

fun attach_tries ::
  "('t, 'r) reader_api \<Rightarrow> ('t, 'w) outside \<Rightarrow> rstring \<Rightarrow> rstring \<Rightarrow> u64 \<Rightarrow> path \<Rightarrow> 't sightings list \<Rightarrow>
     ('t, 'w, 'r) node \<Rightarrow> ('t, 'w, 'r) node option" where
  "attach_tries rapi os topic name epoch p [] n = Some n"
| "attach_tries rapi os topic name epoch p (sg # sgs) n =
     Option.bind (attach_member rapi os sg topic name epoch p n) (\<lambda>(_, n1). attach_tries rapi os topic name epoch p sgs n1)"

lemma failed_attach:
  assumes "mux_of topic n = Some m" and "\<not> mx_finished m" and "\<not> has_member m name epoch" and "mx_next_ref m \<noteq> -1"
    and "source_open rapi (sg_open sg) p = Inl e"
  shows "\<exists>n1. attach_member rapi os sg topic name epoch p n = Some (Inl e, n1) \<and>
    mux_of topic n1 = Some (m\<lparr>mx_next_ref := mx_next_ref m + 1\<rparr>)"
  using assms by (simp add: attach_member_def add_member_def Let_def)

lemma attach_tries_refs:
  assumes "mux_of topic n = Some m" and "\<not> mx_finished m" and "\<not> has_member m name epoch"
    and "unat (mx_next_ref m) + length sgs < 2 ^ 16"
    and "\<forall>sg\<in>set sgs. isl (source_open rapi (sg_open sg) p)"
  shows "\<exists>n'. attach_tries rapi os topic name epoch p sgs n = Some n' \<and>
    mux_of topic n' = Some (m\<lparr>mx_next_ref := mx_next_ref m + of_nat (length sgs)\<rparr>)"
  using assms
proof (induction sgs arbitrary: n m)
  case (Cons sg sgs)
  obtain e where e: "source_open rapi (sg_open sg) p = Inl e" using Cons.prems(5) by (auto simp: isl_def)
  have u: "unat (mx_next_ref m + 1) = unat (mx_next_ref m) + 1"
    using Cons.prems(4) unat_plus_of_nat [of "mx_next_ref m" 1] by simp
  have "mx_next_ref m \<noteq> -1"
  proof
    assume "mx_next_ref m = -1"
    then have "mx_next_ref m + 1 = 0" by simp
    with u show False by simp
  qed
  from failed_attach [OF Cons.prems(1-3) this e, of os] obtain n1 where
    n1: "attach_member rapi os sg topic name epoch p n = Some (Inl e, n1)"
      "mux_of topic n1 = Some (m\<lparr>mx_next_ref := mx_next_ref m + 1\<rparr>)" by blast
  from Cons.IH [OF n1(2)] Cons.prems u n1(1) show ?case by (simp add: has_member_def add.assoc)
qed simp

text \<open>C38. A member that cannot be opened uses up the topic. A failed attachment keeps the member ref it
  took, and the pass tries again on every tick; once the failures reach the last ref, no other member can
  be attached to the topic any more, however sound its log.\<close>

theorem failed_attaches_exhaust_refs:
  assumes "mux_of topic n = Some m" and "\<not> mx_finished m" and "\<not> has_member m name epoch"
    and "unat (mx_next_ref m) + length sgs = 2 ^ 16 - 1"
    and "\<forall>sg\<in>set sgs. isl (source_open rapi (sg_open sg) p)"
  shows "\<exists>n'. attach_tries rapi os topic name epoch p sgs n = Some n' \<and>
    (\<forall>sg name' epoch' p'. \<not> has_member m name' epoch' \<longrightarrow>
       (\<exists>n''. attach_member rapi os sg topic name' epoch' p' n' =
          Some (Inl (IoError OtherError ''mux member_ref space exhausted''), n'')))"
proof -
  from attach_tries_refs [OF assms(1-3) _ assms(5), of os] assms(4) obtain n' where
    t: "attach_tries rapi os topic name epoch p sgs n = Some n'"
    and m': "mux_of topic n' = Some (m\<lparr>mx_next_ref := mx_next_ref m + of_nat (length sgs)\<rparr>)" by auto
  have "unat (mx_next_ref m + of_nat (length sgs)) = 2 ^ 16 - 1"
    using assms(4) unat_plus_of_nat [of "mx_next_ref m" "length sgs"] by simp
  also have "\<dots> = unat (-1 :: u16)" by (simp add: unsigned_minus_1_eq_mask mask_eq_exp_minus_1)
  finally have "mx_next_ref m + of_nat (length sgs) = -1" by (metis word_eq_iff_unsigned)
  with t m' assms(2) show ?thesis by (simp add: attach_member_def add_member_def has_member_def Let_def)
qed

subsection \<open>Names on disk\<close>

text \<open>What opening a log reports as its name, before and after the files change. The laws are those of the
  crate and the file system. A writer belongs to one log and carries the name it was built with
  (\<open>stamp\<close>), whatever the log at that path is called: opening it, and every reservation or commit
  through it, may roll the log and stamp that name on it, and renames no other log. A new directory or a
  removal gives no log a name.\<close>

definition reported :: "('t, 'r) reader_api \<Rightarrow> 't \<Rightarrow> 't \<Rightarrow> path \<Rightarrow> rstring \<Rightarrow> bool" where
  "reported rapi t t' p name \<longleftrightarrow> (stamped_name rapi t' p = Inr name \<longrightarrow> stamped_name rapi t p = Inr name)"

definition name_laws :: "('t, 'r) reader_api \<Rightarrow> ('t, 'w) outside \<Rightarrow> ('w \<Rightarrow> path \<times> rstring) \<Rightarrow> bool" where
  "name_laws rapi os stamp \<longleftrightarrow>
     (\<forall>t q c r t'. wr_build (os_writer os) t q c = (r, t') \<longrightarrow>
        (\<forall>w. r = Inr w \<longrightarrow> stamp w = (q, wc_channel_name c)) \<and>
        (\<forall>p name. reported rapi t t' p name \<or> (p, name) = (q, wc_channel_name c))) \<and>
     (\<forall>t w k r t' w'. wr_try_reserve (os_writer os) t w k = (r, t', w') \<longrightarrow>
        stamp w' = stamp w \<and> (\<forall>p name. reported rapi t t' p name \<or> (p, name) = stamp w)) \<and>
     (\<forall>t w buf ty len meta r t' w'. wr_commit (os_writer os) t w buf ty len meta = (r, t', w') \<longrightarrow>
        stamp w' = stamp w \<and> (\<forall>p name. reported rapi t t' p name \<or> (p, name) = stamp w)) \<and>
     (\<forall>t q r t' p name. fs_create_dir_all (os_fs os) t q = (r, t') \<longrightarrow> reported rapi t t' p name) \<and>
     (\<forall>t q r t' p name. fs_set_private (os_fs os) t q = (r, t') \<longrightarrow> reported rapi t t' p name) \<and>
     (\<forall>t q r t' p name. fs_remove_dir_all (os_fs os) t q = (r, t') \<longrightarrow> reported rapi t t' p name)"

lemma name_lawsD:
  assumes "name_laws rapi os stamp"
  shows "wr_build (os_writer os) t q c = (r0, t') \<Longrightarrow> (\<forall>w. r0 = Inr w \<longrightarrow> stamp w = (q, wc_channel_name c)) \<and>
      (\<forall>p name. reported rapi t t' p name \<or> (p, name) = (q, wc_channel_name c))"
    and "wr_try_reserve (os_writer os) t w k = (r, t', w') \<Longrightarrow>
      stamp w' = stamp w \<and> (\<forall>p name. reported rapi t t' p name \<or> (p, name) = stamp w)"
    and "wr_commit (os_writer os) t w buf ty len meta = (r, t', w') \<Longrightarrow>
      stamp w' = stamp w \<and> (\<forall>p name. reported rapi t t' p name \<or> (p, name) = stamp w)"
    and "fs_create_dir_all (os_fs os) t q = (r2, t') \<Longrightarrow> reported rapi t t' p name"
    and "fs_set_private (os_fs os) t q = (r2, t') \<Longrightarrow> reported rapi t t' p name"
    and "fs_remove_dir_all (os_fs os) t q = (r2, t') \<Longrightarrow> reported rapi t t' p name"
proof -
  note l = assms [unfolded name_laws_def]
  show "wr_build (os_writer os) t q c = (r0, t') \<Longrightarrow> (\<forall>w. r0 = Inr w \<longrightarrow> stamp w = (q, wc_channel_name c)) \<and>
      (\<forall>p name. reported rapi t t' p name \<or> (p, name) = (q, wc_channel_name c))"
    by (rule l [THEN conjunct1, THEN spec, THEN spec, THEN spec, THEN spec, THEN spec, THEN mp])
  show "wr_try_reserve (os_writer os) t w k = (r, t', w') \<Longrightarrow>
      stamp w' = stamp w \<and> (\<forall>p name. reported rapi t t' p name \<or> (p, name) = stamp w)"
    by (rule l [THEN conjunct2, THEN conjunct1, THEN spec, THEN spec, THEN spec, THEN spec, THEN spec, THEN spec, THEN mp])
  show "wr_commit (os_writer os) t w buf ty len meta = (r, t', w') \<Longrightarrow>
      stamp w' = stamp w \<and> (\<forall>p name. reported rapi t t' p name \<or> (p, name) = stamp w)"
    by (rule l [THEN conjunct2, THEN conjunct2, THEN conjunct1, THEN spec, THEN spec, THEN spec, THEN spec, THEN spec,
        THEN spec, THEN spec, THEN spec, THEN spec, THEN mp])
  show "fs_create_dir_all (os_fs os) t q = (r2, t') \<Longrightarrow> reported rapi t t' p name"
    by (rule l [THEN conjunct2, THEN conjunct2, THEN conjunct2, THEN conjunct1, rule_format])
  show "fs_set_private (os_fs os) t q = (r2, t') \<Longrightarrow> reported rapi t t' p name"
    by (rule l [THEN conjunct2, THEN conjunct2, THEN conjunct2, THEN conjunct2, THEN conjunct1, rule_format])
  show "fs_remove_dir_all (os_fs os) t q = (r2, t') \<Longrightarrow> reported rapi t t' p name"
    by (rule l [THEN conjunct2, THEN conjunct2, THEN conjunct2, THEN conjunct2, THEN conjunct2, rule_format])
qed

lemma reported_trans: "reported rapi a b p name \<Longrightarrow> reported rapi b c p name \<Longrightarrow> reported rapi a c p name"
  unfolding reported_def by blast

text \<open>The node goes on with its own names: since it started as \<open>n0\<close>, a log now at a channel's path under that
  channel's name was there under it, everything hosted since is such a log, and a writer the node holds
  carries no name (the discovery log's) or the name its log had then.\<close>

definition keeps_names :: "('t, 'r) reader_api \<Rightarrow> ('t, 'w) outside \<Rightarrow> ('t, 'w, 'r) node \<Rightarrow> 't \<Rightarrow> bool" where
  "keeps_names rapi os n0 t \<longleftrightarrow> (\<forall>p name. node_channel_path os n0 name = Inr p \<longrightarrow> reported rapi (nd_fs n0) t p name)"

definition own_stamp :: "('t, 'r) reader_api \<Rightarrow> ('t, 'w, 'r) node \<Rightarrow> path \<times> rstring \<Rightarrow> bool" where
  "own_stamp rapi n0 = (\<lambda>(q, name). name = [] \<or> stamped_name rapi (nd_fs n0) q = Inr name)"

definition hosts_own ::
  "('t, 'r) reader_api \<Rightarrow> ('t, 'w) outside \<Rightarrow> ('w \<Rightarrow> path \<times> rstring) \<Rightarrow> ('t, 'w, 'r) node \<Rightarrow> ('t, 'w, 'r) node \<Rightarrow> bool" where
  "hosts_own rapi os stamp n0 n \<longleftrightarrow> nd_config n = nd_config n0 \<and> keeps_names rapi os n0 (nd_fs n) \<and>
     (\<forall>name src. nd_hosted n name = Some src \<longrightarrow> nd_hosted n0 name = Some src \<or>
        node_channel_path os n0 name = Inr (cs_path src) \<and> stamped_name rapi (nd_fs n0) (cs_path src) = Inr name) \<and>
     (\<forall>w. nd_discovery n = Some w \<longrightarrow> own_stamp rapi n0 (stamp w)) \<and>
     (\<forall>topic m. mux_of topic n = Some m \<longrightarrow> own_stamp rapi n0 (stamp (mx_topic m)))"

lemma hosts_ownD:
  assumes "hosts_own rapi os stamp n0 n"
  shows "nd_config n = nd_config n0" "keeps_names rapi os n0 (nd_fs n)" "node_channel_path os n = node_channel_path os n0"
    "nd_discovery n = Some w \<Longrightarrow> own_stamp rapi n0 (stamp w)"
    "mux_of topic n = Some m \<Longrightarrow> own_stamp rapi n0 (stamp (mx_topic m))"
  using assms by (auto simp: hosts_own_def node_channel_path_def fun_eq_iff)

lemma keeps_names_refl [simp]: "keeps_names rapi os n0 (nd_fs n0)"
  by (simp add: keeps_names_def reported_def)

lemma keeps_names_trans: "keeps_names rapi os n0 t \<Longrightarrow> (\<And>p name. reported rapi t t' p name) \<Longrightarrow> keeps_names rapi os n0 t'"
  unfolding keeps_names_def by (blast intro: reported_trans)

lemma hosts_own_files:
  assumes "hosts_own rapi os stamp n0 n" "nd_config n' = nd_config n" "nd_hosted n' = nd_hosted n"
    and "keeps_names rapi os n0 (nd_fs n')" "nd_discovery n' = nd_discovery n" "nd_muxes n' = nd_muxes n"
  shows "hosts_own rapi os stamp n0 n'"
  using assms by (simp add: hosts_own_def mux_of_def)

lemma hosts_own_start: "nd_discovery n = None \<Longrightarrow> nd_muxes n = RBT.empty \<Longrightarrow> hosts_own rapi os stamp n n"
  by (simp add: hosts_own_def mux_of_def)

text \<open>What a pass verified of a log now, the log carried when it began.\<close>

lemma verified_at_start:
  assumes "hosts_own rapi os stamp n0 n" and "node_channel_path os n name = Inr p"
    and "verify_stamped_name rapi (nd_fs n) p name = Inr ()"
  shows "node_channel_path os n0 name = Inr p" "stamped_name rapi (nd_fs n0) p = Inr name"
proof -
  show p: "node_channel_path os n0 name = Inr p" using assms(2) hosts_ownD(3) [OF assms(1)] by simp
  have "stamped_name rapi (nd_fs n) p = Inr name"
    using assms(3) by (auto simp: verify_stamped_name_def and_then_def split: sum.splits if_splits)
  then show "stamped_name rapi (nd_fs n0) p = Inr name"
    using hosts_ownD(2) [OF assms(1)] p by (simp add: keeps_names_def reported_def)
qed

text \<open>Whatever stamps an own name only, keeps the names.\<close>

lemma own_stamped:
  assumes "\<forall>p name. reported rapi t t' p name \<or> (p, name) = st" and "own_stamp rapi n0 st" and "keeps_names rapi os n0 t"
  shows "keeps_names rapi os n0 t'"
  unfolding keeps_names_def
proof (intro allI impI)
  fix p name assume p: "node_channel_path os n0 name = Inr p"
  then have "name \<noteq> []"
    by (auto simp: node_channel_path_def channel_path_def channel_dir_def validate_channel_name_def and_then_def)
  from assms(1) consider "reported rapi t t' p name" | "st = (p, name)" by blast
  then show "reported rapi (nd_fs n0) t' p name"
  proof cases
    case 1
    with assms(3) p show ?thesis unfolding keeps_names_def by (blast intro: reported_trans)
  next
    case 2
    with assms(2) \<open>name \<noteq> []\<close> show ?thesis by (simp add: own_stamp_def reported_def)
  qed
qed

text \<open>A mux writes under the name it was opened with.\<close>

definition own_mux ::
  "('t, 'r) reader_api \<Rightarrow> ('t, 'w) outside \<Rightarrow> ('w \<Rightarrow> path \<times> rstring) \<Rightarrow> ('t, 'w, 'r) node \<Rightarrow> 't \<times> ('w, 'r) mux \<Rightarrow> bool" where
  "own_mux rapi os stamp n0 x \<longleftrightarrow> keeps_names rapi os n0 (fst x) \<and> own_stamp rapi n0 (stamp (mx_topic (snd x)))"

lemma own_commit:
  assumes "name_laws rapi os stamp" and "commit_record (os_writer os) ty payload x = (r, x')" and "own_mux rapi os stamp n0 x"
  shows "own_mux rapi os stamp n0 x'"
proof -
  obtain t m where x: "x = (t, m)" by fastforce
  obtain a t1 w1 where a: "wr_try_reserve (os_writer os) t (mx_topic m) (length payload) = (a, t1, w1)" by (metis prod_cases3)
  obtain b t2 w2 where b: "wr_commit (os_writer os) t1 w1 payload ty (of_nat (length payload)) 0 = (b, t2, w2)" by (metis prod_cases3)
  have k: "keeps_names rapi os n0 t" "own_stamp rapi n0 (stamp (mx_topic m))" using assms(3) by (simp_all add: own_mux_def x)
  note l1 = name_lawsD(2) [OF assms(1) a] and l2 = name_lawsD(3) [OF assms(1) b]
  have w1: "stamp w1 = stamp (mx_topic m)" "keeps_names rapi os n0 t1"
    using l1 own_stamped [OF conjunct2 [OF l1] k(2,1)] by simp_all
  have w2: "stamp w2 = stamp (mx_topic m)" "keeps_names rapi os n0 t2"
    using l2 w1(1) own_stamped [OF conjunct2 [OF l2] _ w1(2)] k(2) by simp_all
  show ?thesis
    using assms(2,3) w1 w2 by (auto simp: commit_record_def own_mux_def x a b split: sum.splits)
qed

lemma own_modify: "own_mux rapi os stamp n0 x \<Longrightarrow> modify f x = (r, x') \<Longrightarrow> (\<And>m. mx_topic (f m) = mx_topic m) \<Longrightarrow>
    own_mux rapi os stamp n0 x'"
  by (auto simp: own_mux_def modify_def split: prod.splits)

lemma own_then:
  assumes "then_do a b x = (r, x')" and "own_mux rapi os stamp n0 x"
    and "\<And>x r x'. a x = (r, x') \<Longrightarrow> own_mux rapi os stamp n0 x \<Longrightarrow> own_mux rapi os stamp n0 x'"
    and "\<And>x r x'. b x = (r, x') \<Longrightarrow> own_mux rapi os stamp n0 x \<Longrightarrow> own_mux rapi os stamp n0 x'"
  shows "own_mux rapi os stamp n0 x'"
proof -
  obtain q y where y: "a x = (q, y)" by (cases "a x")
  from assms(3) [OF y assms(2)] assms(1,4) show ?thesis by (cases q) (auto simp: then_do_def y)
qed

lemma own_emit_table:
  assumes "name_laws rapi os stamp" and "emit_slot_table (os_writer os) x = (r, x')" and "own_mux rapi os stamp n0 x"
  shows "own_mux rapi os stamp n0 x'"
  using assms(2) unfolding emit_slot_table_def case_prod_beta
  by (rule own_then) (use assms(3) own_commit [OF assms(1)] own_modify in \<open>auto elim!: own_modify\<close>)

lemma own_emit_mark:
  assumes "name_laws rapi os stamp" and "emit_mark (os_writer os) ref mark x = (r, x')" and "own_mux rapi os stamp n0 x"
  shows "own_mux rapi os stamp n0 x'"
proof (cases mark)
  case (MarkGap a b)
  from assms(2) show ?thesis unfolding MarkGap emit_mark_def emit_topic_gap_def mark.case
    by (rule own_then) (use assms(3) own_commit [OF assms(1)] in \<open>auto elim!: own_modify\<close>)
qed (use assms own_commit [OF assms(1)] in \<open>auto simp: emit_mark_def emit_member_regressed_def\<close>)

lemma own_add_member:
  assumes "name_laws rapi os stamp" and "add_member rapi' (os_writer os) s0 s1 ss name epoch p x = Some (r, x')"
    and "own_mux rapi os stamp n0 x"
  shows "own_mux rapi os stamp n0 x'"
proof -
  consider "fst x' = fst x" "mx_topic (snd x') = mx_topic (snd x)" | m1 ref mark where
      "then_do (emit_slot_table (os_writer os)) (emit_mark (os_writer os) ref mark) (fst x, m1) = (r, x')"
      "mx_topic m1 = mx_topic (snd x)"
    using assms(2) by (auto simp: add_member_def Let_def case_prod_beta split: if_splits sum.splits option.splits)
  then show ?thesis
  proof cases
    case 1
    with assms(3) show ?thesis by (simp add: own_mux_def)
  next
    case 2
    from 2(2) assms(3) have "own_mux rapi os stamp n0 (fst x, m1)" by (simp add: own_mux_def)
    from own_then [OF 2(1) this own_emit_table [OF assms(1)] own_emit_mark [OF assms(1)]] show ?thesis .
  qed
qed

lemma own_files:
  assumes "hosts_own rapi os stamp n0 n" and "keeps_names rapi os n0 t"
  shows "hosts_own rapi os stamp n0 (n\<lparr>nd_fs := t\<rparr>)"
    and "own_stamp rapi n0 (stamp w) \<Longrightarrow> hosts_own rapi os stamp n0 (n\<lparr>nd_fs := t, nd_discovery := Some w\<rparr>)"
  using assms by (simp_all add: hosts_own_def mux_of_def)

lemma own_private_dir:
  assumes "name_laws rapi os stamp" and "ensure_private_dir (os_fs os) dir t = (r, t')" and "keeps_names rapi os n0 t"
  shows "keeps_names rapi os n0 t'"
proof -
  obtain a t1 where a: "fs_create_dir_all (os_fs os) t dir = (a, t1)" by fastforce
  obtain b t2 where b: "fs_set_private (os_fs os) t1 dir = (b, t2)" by fastforce
  have k: "keeps_names rapi os n0 t1" using assms(3) name_lawsD(4) [OF assms(1) a] by (rule keeps_names_trans)
  have "keeps_names rapi os n0 t2" using k name_lawsD(5) [OF assms(1) b] by (rule keeps_names_trans)
  with k assms(2,3) show ?thesis by (auto simp: ensure_private_dir_def a b Let_def split: sum.splits if_splits)
qed

lemma own_open_discovery:
  assumes "name_laws rapi os stamp" and "open_discovery (os_fs os) (os_writer os) n = (r, n')"
    and "hosts_own rapi os stamp n0 n"
  shows "hosts_own rapi os stamp n0 n'" and "r = Inr w \<Longrightarrow> nd_discovery n' = Some w"
proof -
  show d: "r = Inr w \<Longrightarrow> nd_discovery n' = Some w" for w
    using assms(2) by (auto simp: open_discovery_def Let_def split: option.splits prod.splits sum.splits)
  show "hosts_own rapi os stamp n0 n'"
  proof (cases "nd_discovery n")
    case None
    let ?dir = "path_join (cfg_data_dir (nd_config n)) DISCOVERY_DIR"
    let ?log = "discovery_log (cfg_data_dir (nd_config n))"
    obtain a t1 where t1: "fs_remove_dir_all (os_fs os) (nd_fs n) ?dir = (a, t1)" by fastforce
    obtain b t2 where t2: "ensure_private_dir (os_fs os) ?dir t1 = (b, t2)" by fastforce
    obtain c t3 where t3: "wr_build (os_writer os) t2 ?log (discovery_config (nd_discovery_generation n)) = (c, t3)" by fastforce
    have k1: "keeps_names rapi os n0 t1" using hosts_ownD(2) [OF assms(3)] name_lawsD(6) [OF assms(1) t1] by (rule keeps_names_trans)
    have k2: "keeps_names rapi os n0 t2" using assms(1) t2 k1 by (rule own_private_dir)
    note l = name_lawsD(1) [OF assms(1) t3]
    have o: "own_stamp rapi n0 (?log, wc_channel_name (discovery_config (nd_discovery_generation n)))"
      by (simp add: own_stamp_def discovery_config_def)
    have k3: "keeps_names rapi os n0 t3" by (rule own_stamped [OF conjunct2 [OF l] o k2])
    have "own_stamp rapi n0 (stamp w)" if "c = Inr w" for w using l o that by simp
    with own_files [OF assms(3) k2] own_files [OF assms(3) k3] assms(2) None show ?thesis
      by (auto simp: open_discovery_def t1 t2 t3 split: sum.splits)
  qed (use assms(2,3) in \<open>simp add: open_discovery_def\<close>)
qed

lemma own_publish:
  assumes "name_laws rapi os stamp" and "hosts_own rapi os stamp n0 n"
  shows "hosts_own rapi os stamp n0 (publish_change (os_fs os) (os_writer os) change n)"
proof -
  obtain r n1 where o: "open_discovery (os_fs os) (os_writer os) n = (r, n1)" by fastforce
  note h = own_open_discovery [OF assms(1) o assms(2)]
  show ?thesis
  proof (cases r)
    case (Inr w)
    obtain ty payload where e: "encode_change change = (ty, payload)" by fastforce
    obtain a t2 w2 where t2: "wr_try_reserve (os_writer os) (nd_fs n1) w (length payload) = (a, t2, w2)" by (metis prod_cases3)
    obtain b t3 w3 where t3: "wr_commit (os_writer os) t2 w2 payload ty (of_nat (length payload)) 0 = (b, t3, w3)" by (metis prod_cases3)
    note l2 = name_lawsD(2) [OF assms(1) t2] and l3 = name_lawsD(3) [OF assms(1) t3]
    have w: "own_stamp rapi n0 (stamp w)" using hosts_ownD(4) [OF h(1) h(2) [OF Inr]] .
    have k2: "keeps_names rapi os n0 t2" by (rule own_stamped [OF conjunct2 [OF l2] w hosts_ownD(2) [OF h(1)]])
    have w2: "own_stamp rapi n0 (stamp w2)" using w l2 by simp
    have k3: "keeps_names rapi os n0 t3" by (rule own_stamped [OF conjunct2 [OF l3] w2 k2])
    show ?thesis using own_files(2) [OF h(1) k2 w2] own_files(2) [OF h(1) k3] w2 l3
      by (auto simp: publish_change_def o Inr e t2 t3 split: sum.split)
  qed (use h(1) in \<open>simp add: publish_change_def o\<close>)
qed

lemma own_claim:
  assumes "name_laws rapi os stamp" and "claim_name (os_fs os) (os_writer os) now nanos name rs mtu m n = (r, n')"
    and "hosts_own rapi os stamp n0 n"
  shows "hosts_own rapi os stamp n0 n'" and "r = Inr i \<Longrightarrow> ci_name i = name"
proof -
  let ?i = "\<lparr>ci_name = name, ci_owner = self_id n, ci_region_size = rs, ci_mtu = mtu,
            ci_earliest_index = 0, ci_registered_at_nanos = nanos, ci_epoch = claim_epoch (nd_registry n) name,
            ci_deleted = False, ci_member_of = m\<rparr>"
  obtain c reg where e: "merge_tracked (nd_registry n) ?i = (c, reg)" by fastforce
  let ?n = "n\<lparr>nd_registry := reg\<rparr>"
  have h: "hosts_own rapi os stamp n0 ?n"
    by (rule hosts_own_files [OF assms(3)]) (simp_all add: hosts_ownD(2) [OF assms(3)])
  with own_publish [OF assms(1) h] show "hosts_own rapi os stamp n0 n'"
    using assms(2) by (auto simp: claim_name_def Let_def e split: if_splits)
  show "r = Inr i \<Longrightarrow> ci_name i = name"
    using assms(2) by (auto simp: claim_name_def Let_def e split: if_splits)
qed

lemma own_announce:
  assumes "announce_hosted i p a b n = Some (r, n')" and "hosts_own rapi os stamp n0 n"
    and "node_channel_path os n0 (ci_name i) = Inr p" and "stamped_name rapi (nd_fs n0) p = Inr (ci_name i)"
  shows "hosts_own rapi os stamp n0 n'"
proof -
  have "nd_config n' = nd_config n" "nd_fs n' = nd_fs n" "nd_discovery n' = nd_discovery n" "nd_muxes n' = nd_muxes n"
    "\<And>name src. nd_hosted n' name = Some src \<Longrightarrow> nd_hosted n name = Some src \<or> name = ci_name i \<and> cs_path src = p"
    using assms(1) by (auto simp: announce_hosted_def act_bind_Some node_announce_def split: if_splits)
  with assms(2-4) show ?thesis unfolding hosts_own_def mux_of_def by metis
qed

lemma own_claim_announce:
  assumes l: "name_laws rapi os stamp"
    and "act_bind (act_total (claim_name (os_fs os) (os_writer os) now nanos name rs mtu m)) (\<lambda>i. act_bind (announce_hosted i p a b) g) n = Some (r, n')"
    and h0: "hosts_own rapi os stamp n0 n"
    and p: "node_channel_path os n0 name = Inr p" "stamped_name rapi (nd_fs n0) p = Inr name"
    and g: "\<And>x n1 r n2. g x n1 = Some (r, n2) \<Longrightarrow> hosts_own rapi os stamp n0 n1 \<Longrightarrow> hosts_own rapi os stamp n0 n2"
  shows "hosts_own rapi os stamp n0 n'"
proof -
  obtain q n1 where c: "claim_name (os_fs os) (os_writer os) now nanos name rs mtu m n = (q, n1)" by fastforce
  note h = own_claim(1) [OF l c h0]
  show ?thesis
  proof (cases q)
    case (Inl e)
    with assms(2) c h show ?thesis by (simp add: act_bind_def)
  next
    case (Inr i)
    have n: "ci_name i = name" using own_claim(2) [OF l c h0 Inr] .
    from assms(2) c Inr have "act_bind (announce_hosted i p a b) g n1 = Some (r, n')" by (simp add: act_bind_def)
    then consider e where "announce_hosted i p a b n1 = Some (Inl e, n')"
      | x n2 where "announce_hosted i p a b n1 = Some (Inr x, n2)" "g x n2 = Some (r, n')" by (auto simp: act_bind_Some)
    then show ?thesis using own_announce [OF _ h] p n g by cases blast+
  qed
qed

lemma own_put_mux:
  assumes "hosts_own rapi os stamp n0 n" and "own_mux rapi os stamp n0 (t, m)"
  shows "hosts_own rapi os stamp n0 (put_mux topic m (n\<lparr>nd_fs := t\<rparr>))"
  using assms by (auto simp: hosts_own_def own_mux_def put_mux_def mux_of_def)

lemma own_attach_member:
  assumes "name_laws rapi os stamp" and "attach_member rapi' os sg topic name epoch p n = Some (r, n')"
    and "hosts_own rapi os stamp n0 n"
  shows "hosts_own rapi os stamp n0 n'"
proof (cases "mux_of topic n")
  case (Some m)
  have "own_mux rapi os stamp n0 (nd_fs n, m)" using hosts_ownD(2,5) [OF assms(3)] Some by (simp add: own_mux_def)
  with assms(2,3) Some own_add_member [OF assms(1)] own_put_mux show ?thesis by (fastforce simp: attach_member_def)
qed (use assms(2,3) in \<open>simp add: attach_member_def\<close>)

lemma own_open_mux:
  assumes "name_laws rapi os stamp" and "open_mux rapi' os ts p name g batch n = Some (r, n')"
    and "stamped_name rapi (nd_fs n0) p = Inr name" and "hosts_own rapi os stamp n0 n"
  shows "hosts_own rapi os stamp n0 n'" and "r = Inr m \<Longrightarrow> own_stamp rapi n0 (stamp (mx_topic m))"
proof -
  have o: "own_stamp rapi n0 (p, wc_channel_name (mux_config name g))" by (simp add: own_stamp_def mux_config_def assms(3))
  have b: "keeps_names rapi os n0 t' \<and> (\<forall>w. q = Inr w \<longrightarrow> own_stamp rapi n0 (stamp w))"
    if w: "wr_build (os_writer os) (nd_fs n) p (mux_config name g) = (q, t')" for q t'
    using own_stamped [OF conjunct2 [OF name_lawsD(1) [OF assms(1) w]] o hosts_ownD(2) [OF assms(4)]]
      name_lawsD(1) [OF assms(1) w] o by simp
  have "keeps_names rapi os n0 (nd_fs n')"
    using assms(2) b hosts_ownD(2) [OF assms(4)]
    by (fastforce simp: open_mux_def mux_open_def split: option.splits sum.splits prod.splits if_splits)
  moreover have "\<exists>t. n' = n\<lparr>nd_fs := t\<rparr>" using assms(2) by (auto simp: open_mux_def)
  ultimately show "hosts_own rapi os stamp n0 n'" by (auto intro: hosts_own_files [OF assms(4)])
  show "r = Inr m \<Longrightarrow> own_stamp rapi n0 (stamp (mx_topic m))"
    using assms(2) b by (fastforce simp: open_mux_def mux_open_def split: option.splits sum.splits prod.splits if_splits)
qed

lemma own_rehost_member:
  assumes l: "name_laws rapi os stamp" and "rehost_member_origin rapi geom os now nanos topic member n = Some n'"
    and h0: "hosts_own rapi os stamp n0 n"
  shows "hosts_own rapi os stamp n0 n'"
proof -
  consider "n' = n" | p rs mtu q n1 where "node_channel_path os n member = Inr p" "verify_stamped_name rapi (nd_fs n) p member = Inr ()"
    "claim_name (os_fs os) (os_writer os) now nanos member rs mtu (Some topic) n = (q, n1)"
    "case q of Inl e \<Rightarrow> n' = n1 | Inr i \<Rightarrow> \<exists>r. announce_hosted i p 0 0 n1 = Some (r, n')"
    using assms(2) unfolding rehost_member_origin_def
    by (auto split: sum.splits if_splits prod.splits)
  then show ?thesis
  proof cases
    case 2
    note h = own_claim(1) [OF l 2(3) h0] and v = verified_at_start [OF h0 2(1,2)]
    show ?thesis
    proof (cases q)
      case (Inr i)
      with 2(4) obtain r where "announce_hosted i p 0 0 n1 = Some (r, n')" by auto
      moreover have "ci_name i = member" using own_claim(2) [OF l 2(3) h0 Inr] .
      ultimately show ?thesis using own_announce [OF _ h] v by blast
    qed (use 2 h in simp)
  qed (use h0 in simp)
qed

lemma own_rehost_slot:
  assumes "name_laws rapi os stamp" and "rehost_member_slot rapi os sgs topic key n = Some n'"
    and "hosts_own rapi os stamp n0 n"
  shows "hosts_own rapi os stamp n0 n'"
proof -
  let ?att = "\<lambda>sg p n. case p of Inl e \<Rightarrow> Some (Inl e, n)
          | Inr p \<Rightarrow> attach_member rapi os sg topic (fst key) (snd key) p n"
  have a: "hosts_own rapi os stamp n0 m'" if "?att sg q m = Some (r, m')" "hosts_own rapi os stamp n0 m" for sg q m r m'
    using that own_attach_member [OF assms(1)] by (auto split: sum.splits)
  from assms(2) obtain r n1 where "?att (fst sgs) (node_channel_path os n (fst key)) n = Some (r, n1)"
    and "n' = n1 \<or> (\<exists>q. ?att (snd sgs) (node_replica_path os n1 (fst key)) n1 = Some (q, n'))"
    by (auto simp: rehost_member_slot_def Let_def split: option.splits sum.splits)
  then show ?thesis using a assms(3) by blast
qed

lemma own_rehost_members:
  assumes l: "name_laws rapi os stamp"
  shows "rehost_members rapi geom os now nanos sight topic ks n = Some (r, n') \<Longrightarrow> hosts_own rapi os stamp n0 n \<Longrightarrow>
    hosts_own rapi os stamp n0 n'"
proof (induction ks arbitrary: n)
  case (Cons k ks)
  then obtain n1 n2 where n1: "rehost_member_origin rapi geom os now nanos topic (fst k) n = Some n1"
    and n2: "rehost_member_slot rapi os (sight k) topic k n1 = Some n2"
      "rehost_members rapi geom os now nanos sight topic ks n2 = Some (r, n')" by (auto simp: bind_eq_Some_conv)
  show ?case by (rule Cons.IH [OF n2(2) own_rehost_slot [OF l n2(1) own_rehost_member [OF l n1 Cons.prems(2)]]])
qed simp

lemma own_rehost_topic:
  assumes l: "name_laws rapi os stamp" and "rehost_topic rapi geom os now nanos ts sight name cfg n = Some (r, n')"
    and h0: "hosts_own rapi os stamp n0 n"
  shows "hosts_own rapi os stamp n0 n'"
proof (cases "mux_of name n = None")
  case True
  consider "n' = n" | p where "node_channel_path os n name = Inr p" "verify_stamped_name rapi (nd_fs n) p name = Inr ()"
    using assms True by (auto simp: rehost_topic_def act_bind_Some)
  then show ?thesis
  proof cases
    case (2 p)
    note s = verified_at_start [OF h0 2]
    have tail: "hosts_own rapi os stamp n0 n2" if "act_bind (open_mux rapi os ts p name (tc_geometry cfg) MAX_BATCH_PER_MEMBER) (\<lambda>m.
          act_bind (act_modify (put_mux name m)) (\<lambda>_.
          rehost_members rapi geom os now nanos sight name (tc_members cfg))) n1 = Some (q, n2)" "hosts_own rapi os stamp n0 n1" for n1 q n2
    proof -
      from that(1) consider e where "open_mux rapi os ts p name (tc_geometry cfg) MAX_BATCH_PER_MEMBER n1 = Some (Inl e, n2)"
        | m n3 where "open_mux rapi os ts p name (tc_geometry cfg) MAX_BATCH_PER_MEMBER n1 = Some (Inr m, n3)"
          "rehost_members rapi geom os now nanos sight name (tc_members cfg) (put_mux name m n3) = Some (q, n2)"
        by (auto simp: act_bind_Some)
      then show ?thesis
      proof cases
        case (2 m n3)
        note o = own_open_mux [OF l 2(1) s(2) that(2)]
        have "own_mux rapi os stamp n0 (nd_fs n3, m)" using hosts_ownD(2) [OF o(1)] o(2) [OF refl] by (simp add: own_mux_def)
        from own_put_mux [OF o(1) this, of name] own_rehost_members [OF l 2(2)] show ?thesis by simp
      qed (use own_open_mux(1) [OF l _ s(2) that(2)] in blast)
    qed
    show ?thesis
    proof (rule own_claim_announce [OF l _ h0 s tail])
      show "act_bind (act_total (claim_name (os_fs os) (os_writer os) now nanos name (tgeo_region_size (tc_geometry cfg))
            (tgeo_mtu (tc_geometry cfg)) None)) (\<lambda>identity. act_bind (announce_hosted identity p
            (tgeo_file_roll_size (tc_geometry cfg)) (tgeo_keep_files (tc_geometry cfg))) (\<lambda>_.
          act_bind (open_mux rapi os ts p name (tc_geometry cfg) MAX_BATCH_PER_MEMBER) (\<lambda>m.
          act_bind (act_modify (put_mux name m)) (\<lambda>_.
          rehost_members rapi geom os now nanos sight name (tc_members cfg))))) n = Some (r, n')"
        using assms(2) True 2 by (simp add: rehost_topic_def act_bind_def [of "act_lift _"])
    qed
  qed (use h0 in simp)
qed (use assms in \<open>simp add: rehost_topic_def\<close>)

lemma act_bind_return: "act_bind a act_return = a"
proof
  show "act_bind a act_return n = a n" for n
    by (auto simp: act_bind_def act_return_def split: option.split sum.split)
qed

lemma own_reregister:
  assumes l: "name_laws rapi os stamp" and "reregister_origin rapi geom os now nanos name n = Some (r, n')"
    and h0: "hosts_own rapi os stamp n0 n"
  shows "hosts_own rapi os stamp n0 n'"
proof (cases "nd_hosted n name = None")
  case True
  let ?path = "node_channel_path os n name"
  show ?thesis
  proof (cases "\<exists>p rs mtu. ?path = Inr p \<and> verify_stamped_name rapi (nd_fs n) p name = Inr () \<and>
      read_geometry rapi geom (nd_fs n) p = Inr (rs, mtu)")
    case yes: True
    then obtain p rs mtu where p: "?path = Inr p" "verify_stamped_name rapi (nd_fs n) p name = Inr ()"
      "read_geometry rapi geom (nd_fs n) p = Inr (rs, mtu)" by blast
    show ?thesis
      by (rule own_claim_announce [where g = act_return, OF l _ h0 verified_at_start [OF h0 p(1,2)]])
        (use assms(2) True p in \<open>simp_all add: act_bind_return reregister_origin_def act_bind_def [of "act_lift _"]\<close>)
  next
    case False
    with assms True show ?thesis by (auto simp: reregister_origin_def act_bind_Some)
  qed
qed (use assms in \<open>simp add: reregister_origin_def\<close>)

lemma own_each:
  assumes "each f xs n = Some (c, n')" and "hosts_own rapi os stamp n0 n"
    and "\<And>x n r n1. f x n = Some (r, n1) \<Longrightarrow> hosts_own rapi os stamp n0 n \<Longrightarrow> hosts_own rapi os stamp n0 n1"
  shows "hosts_own rapi os stamp n0 n'"
  using assms(1,2)
proof (induction xs arbitrary: n c)
  case (Cons x xs)
  then obtain r n1 c' where "f x n = Some (r, n1)" "each f xs n1 = Some (c', n')" by (auto split: option.splits)
  with Cons.IH Cons.prems(2) assms(3) show ?case by blast
qed simp

text \<open>C18. A restart serves no channel under another's name. Whatever the data directory holds, however its
  directories were renamed, every channel hosted after the reconstruction of a node just started was
  hosted before it, or is the log that stood at that channel's path when the pass began and carried that
  very name in its header. The hypotheses: a writer stamps no name but the one it was built with, and that
  on its own log only, which may be under another name; and a node just started holds no writer yet. That
  no writer of the pass misnames a log is part of what is shown.\<close>

theorem reconstruction_serves_own_names:
  assumes "name_laws rapi os stamp" and "nd_discovery n = None" and "nd_muxes n = RBT.empty"
    and "reconstruct_from_disk rapi geom os now nanos reads sight listing n = Some (c, n')"
    and "nd_hosted n' name = Some src"
  shows "nd_hosted n name = Some src \<or> node_channel_path os n name = Inr (cs_path src) \<and>
    (\<exists>r. rd_open rapi (nd_fs n) (cs_path src) = Inr r \<and> rd_name rapi r = name)"
proof -
  have h0: "hosts_own rapi os stamp n n" using assms(2,3) by (rule hosts_own_start)
  have "hosts_own rapi os stamp n n'"
  proof (cases listing)
    case (Some entries)
    with assms(4) obtain topics origins c1 n1 c2 where
      e: "each (\<lambda>(name, cfg). rehost_topic rapi geom os now nanos (reads name) sight name cfg) topics n = Some (c1, n1)"
      "each (reregister_origin rapi geom os now nanos) origins n1 = Some (c2, n')"
      by (fastforce simp: reconstruct_from_disk_def bind_eq_Some_conv)
    have "hosts_own rapi os stamp n n1"
      by (rule own_each [OF e(1) h0]) (auto intro: own_rehost_topic [OF assms(1)])
    then show ?thesis by (rule own_each [OF e(2)]) (rule own_reregister [OF assms(1)])
  qed (use assms(4) h0 in \<open>simp add: reconstruct_from_disk_def\<close>)
  with assms(5) consider "nd_hosted n name = Some src"
    | "node_channel_path os n name = Inr (cs_path src)" "stamped_name rapi (nd_fs n) (cs_path src) = Inr name"
    unfolding hosts_own_def by blast
  then show ?thesis
  proof cases
    case 2
    then show ?thesis by (cases "rd_open rapi (nd_fs n) (cs_path src)") (auto simp: stamped_name_def and_then_def)
  qed simp
qed

subsection \<open>Witnesses\<close>

definition topic_node :: "(files, seg_writer, seg_reader) node" where
  "topic_node = (sample_node 9 registry_new)\<lparr>nd_muxes := RBT.insert (ascii ''t'') sample_mux RBT.empty, nd_fs := fst sample_state\<rparr>"

lemma topic_node_sel [simp]:
  "mux_of topic topic_node = (if topic = ascii ''t'' then Some sample_mux else None)"
  "nd_registry topic_node = registry_new" "cfg_promoted_topics (sample_config s) = []"
  "nd_config topic_node = sample_config 9" "nd_hosted topic_node = Map.empty"
  "bd_live_members now (nd_bcast topic_node) = []" "nd_fs topic_node = fst sample_state"
  "map fst (RBT.entries (nd_muxes topic_node)) = [ascii ''t'']"
  by (simp_all add: topic_node_def mux_of_def sample_node_def node_new_def sample_config_def bd_live_members_def
      set_self_name_def bcast_new_def ms_live_members_def membership_new_def RBT.entries.rep_eq RBT.empty.rep_eq
      RBT.insert.rep_eq rbt_insert_def rbt_insert_with_key_def)

definition no_turn :: "files attach_turn" where
  "no_turn = \<lparr>at_now = 0, at_clock = \<lparr>ac_checked = 0, ac_now = 0, ac_seen = 0\<rparr>, at_spawned = False,
     at_sight = \<lparr>sg_open = Map.empty, sg_head = Map.empty, sg_reads = []\<rparr>\<rparr>"

theorem members_leave_only_when_told_witness:
  "\<exists>n' m'. attach_pending_members seg_reader_api sample_outside 0 (\<lambda>_. no_turn) (\<lambda>_. []) topic_node = Some n' \<and>
     mux_of (ascii ''t'') n' = Some m' \<and> (ascii ''a'', 1) \<in> set (slot_keys m')"
proof -
  let ?n = "live_owners_noting_revivals {} topic_node"
  have s: "mux_of x ?n = mux_of x topic_node" "nd_muxes ?n = nd_muxes topic_node" "nd_registry ?n = registry_new" for x
    by (simp_all add: live_owners_noting_revivals_def Let_def mux_of_def)
  have l: "\<not> has_left topic name ?n" for topic name by (simp add: has_left_def s registry_new_def get_raw_def)
  have m: "topic_members topic ?n = []" for topic
    by (simp add: topic_members_def s registry_new_def registry_iter_def RBT.entries.rep_eq RBT.empty.rep_eq)
  have d: "detach_all seg_reader_api sample_outside topic (\<lambda>_. []) {} ks ?n = Some ?n" for topic ks
    using l by (induction ks) (simp_all add: detach_one_def)
  have a: "attach_pending_members seg_reader_api sample_outside 0 (\<lambda>_. no_turn) (\<lambda>_. []) topic_node = Some ?n"
    using d by (simp add: attach_pending_members_def Let_def s attach_topic_def m)
  have "(ascii ''a'', 1) \<in> set (slot_keys sample_mux)" by (simp add: slot_keys_def sample_mux_def sample_slot_def)
  moreover have "\<not> has_left (ascii ''t'') (fst (ascii ''a'', 1)) topic_node" by (simp add: has_left_def registry_new_def get_raw_def)
  ultimately obtain m' where "mux_of (ascii ''t'') ?n = Some m'" "(ascii ''a'', 1) \<in> set (slot_keys m')"
    using members_leave_only_when_told [OF a] topic_node_sel(1) [of "ascii ''t''"] unfolding if_True simp_thms by blast
  with a show ?thesis by blast
qed

theorem sweep_isolates_topics_witness:
  "\<exists>r n' results. poll_muxes seg_reader_api sample_outside (\<lambda>_. [sample_files]) topic_node = Some (r, n') \<and>
     map fst results = [ascii ''t''] \<and> polled_each seg_reader_api sample_outside (\<lambda>_. [sample_files]) topic_node n' results"
proof -
  obtain r n' where p: "poll_muxes seg_reader_api sample_outside (\<lambda>_. [sample_files]) topic_node = Some (r, n')"
  proof -
    obtain t m' where s: "sample_polled = (t, m')" by fastforce
    have "mux_poll seg_reader_api (os_writer sample_outside) [sample_files] (fst sample_state, sample_mux) =
      Some (Inr 1, (t, m'), [])"
      using sample_poll by (simp add: sample_outside_def sample_state_def flip: s)
    then have "poll_muxes seg_reader_api sample_outside (\<lambda>_. [sample_files]) topic_node =
      Some (Inr 1, put_mux (ascii ''t'') m' (topic_node\<lparr>nd_fs := t\<rparr>))" by (simp add: poll_muxes_def)
    then show ?thesis by (rule that)
  qed
  have f: "filter (sweepable topic_node) (map fst (RBT.entries (nd_muxes topic_node))) = [ascii ''t'']"
    unfolding topic_node_sel(8) by (simp add: sweepable_def)
  from sweep_isolates_topics [OF p, unfolded f] obtain results where "map fst results = [ascii ''t'']"
    "polled_each seg_reader_api sample_outside (\<lambda>_. [sample_files]) topic_node n' results" by (elim exE conjE)
  with p show ?thesis by (intro exI conjI)
qed

theorem idle_escalates_witness:
  "action idle_default 3 = Spin \<and> action idle_default 600 = Yield \<and> action idle_default 641 = Park (100 * 1000) \<and>
     calmer (action idle_default 3) (action idle_default 641) \<and> calmer (action idle_default 641) (action idle_default 100000)"
proof -
  have "action idle_default 3 = Spin" "action idle_default 600 = Yield" "action idle_default 641 = Park (100 * 1000)"
    by (simp_all add: action_def idle_default_def Let_def ms_def DURATION_MAX_def)
  with idle_escalates [of 3 641 idle_default] idle_escalates [of 641 100000 idle_default] show ?thesis by simp
qed

theorem failed_attaches_exhaust_refs_witness:
  "let sg = \<lparr>sg_open = Map.empty, sg_head = Map.empty, sg_reads = []\<rparr>; sgs = replicate 65534 sg
   in \<exists>n'. attach_tries seg_reader_api sample_outside (ascii ''t'') (ascii ''lost'') 0 [1] sgs topic_node = Some n' \<and>
        (\<exists>n''. attach_member seg_reader_api sample_outside sg (ascii ''t'') (ascii ''fine'') 0 [2] n' =
           Some (Inl (IoError OtherError ''mux member_ref space exhausted''), n''))"
proof -
  let ?sg = "\<lparr>sg_open = Map.empty, sg_head = Map.empty, sg_reads = []\<rparr> :: files sightings"
  have m: "mux_of (ascii ''t'') topic_node = Some sample_mux" by simp
  have o: "\<forall>sg\<in>set (replicate 65534 ?sg). isl (source_open seg_reader_api (sg_open sg) [1])"
    by (simp add: source_open_def seg_reader_api_def and_then_def)
  have h: "\<not> has_member sample_mux (ascii ''lost'') 0" "\<not> has_member sample_mux (ascii ''fine'') 0" "\<not> mx_finished sample_mux"
    "unat (mx_next_ref sample_mux) + length (replicate 65534 ?sg) = 2 ^ 16 - 1"
    by (simp_all add: sample_mux_def sample_slot_def has_member_def)
  from failed_attaches_exhaust_refs [OF m h(3,1,4) o, of sample_outside] h(2) show ?thesis
    unfolding Let_def by blast
qed

definition seg_stamp :: "seg_writer \<Rightarrow> path \<times> rstring" where
  "seg_stamp w = (sw_path w, sw_name w)"

lemma sample_name_laws: "name_laws seg_reader_api sample_outside seg_stamp"
  unfolding name_laws_def
proof (intro conjI)
  show "\<forall>t q c r t'. wr_build (os_writer sample_outside) t q c = (r, t') \<longrightarrow>
        (\<forall>w. r = Inr w \<longrightarrow> seg_stamp w = (q, wc_channel_name c)) \<and>
        (\<forall>p name. reported seg_reader_api t t' p name \<or> (p, name) = (q, wc_channel_name c))"
    by (auto simp: sample_outside_def seg_writer_api_def seg_reader_api_def reported_def stamped_name_def seg_stamp_def
        and_then_def Let_def split: option.splits if_splits)
qed (auto simp: sample_outside_def seg_writer_api_def seg_reader_api_def reported_def stamped_name_def tree_fs_def
    seg_stamp_def and_then_def split: option.splits if_splits)

definition left_log :: path where
  "left_log = ascii ''/d/fills/log''"

definition restarted :: "(files, seg_writer, seg_reader) node" where
  "restarted = (sample_node 9 registry_new)\<lparr>nd_fs := [left_log \<mapsto> empty_replica]\<rparr>"

lemma restarted_hosted: "nd_hosted restarted = Map.empty" "nd_discovery restarted = None" "nd_muxes restarted = RBT.empty"
  by (simp_all add: restarted_def sample_node_def node_new_def)

lemma restarted_path: "node_channel_path sample_outside restarted (ascii ''fills'') = Inr left_log"
  by (simp add: node_channel_path_def restarted_def sample_node_def node_new_def sample_config_def sample_outside_def
      channel_path_def channel_dir_def validate_channel_name_def path_join_def CHANNEL_LOG_FILE_def and_then_def left_log_def
      is_ascii_alphanumeric_def)

lemma claim_free:
  assumes "get_raw (nd_registry n) name = None"
  shows "\<exists>i n'. claim_name fs wapi now nanos name rs mtu m n = (Inr i, n') \<and> ci_name i = name \<and> nd_bcast n' = nd_bcast n"
  using assms by (simp add: claim_name_def Let_def case_prod_beta fst_merge_tracked fst_merge)

lemma restarted_reregisters:
  "\<exists>n'. reregister_origin seg_reader_api (\<lambda>_. (4096, 0)) sample_outside 0 5 (ascii ''fills'') restarted = Some (Inr (), n') \<and>
     (\<exists>src. nd_hosted n' (ascii ''fills'') = Some src \<and> cs_path src = left_log)"
proof -
  have o: "rd_open seg_reader_api (nd_fs restarted) left_log = Inr \<lparr>sr_path = left_log, sr_base = 0, sr_generation = 7,
      sr_name = ascii ''fills'', sr_pos = 0, sr_sequence = 0\<rparr>"
    by (simp add: restarted_def seg_reader_api_def empty_replica_def)
  have v: "verify_stamped_name seg_reader_api (nd_fs restarted) left_log (ascii ''fills'') = Inr ()"
    "read_geometry seg_reader_api (\<lambda>_. (4096, 0)) (nd_fs restarted) left_log = Inr (4096, 0)"
    by (simp_all add: verify_stamped_name_def stamped_name_def read_geometry_def o and_then_def)
      (simp add: seg_reader_api_def)
  have "get_raw (nd_registry restarted) (ascii ''fills'') = None" by (simp add: restarted_def registry_new_def get_raw_def)
  from claim_free [OF this] obtain i n1 where
    c: "claim_name (os_fs sample_outside) (os_writer sample_outside) 0 5 (ascii ''fills'') 4096 0 None restarted = (Inr i, n1)"
    and i: "ci_name i = ascii ''fills''" "nd_bcast n1 = nd_bcast restarted" by blast
  have "bd_peers (nd_bcast n1) = []" by (simp add: i(2) restarted_def)
  from announce_alone [OF this] obtain d where "announce [i] (nd_bcast n1) = Some d" by blast
  then show ?thesis
    by (simp add: reregister_origin_def restarted_path v c i(1) act_bind_def announce_hosted_def node_announce_def
        restarted_hosted del: ascii_simps)
qed

theorem reconstruction_serves_own_names_witness:
  "\<exists>c n' src. reconstruct_from_disk seg_reader_api (\<lambda>_. (4096, 0)) sample_outside 0 5 (\<lambda>_. [Map.empty])
       (\<lambda>_. (at_sight no_turn, at_sight no_turn)) (Some [(ascii ''fills'', True)]) restarted = Some (c, n') \<and>
     rc_origins c = 1 \<and> nd_hosted n' (ascii ''fills'') = Some src \<and> nd_hosted restarted (ascii ''fills'') = None \<and>
     (\<exists>r. rd_open seg_reader_api (nd_fs restarted) (cs_path src) = Inr r \<and> rd_name seg_reader_api r = ascii ''fills'')"
proof -
  obtain n' src where r: "reregister_origin seg_reader_api (\<lambda>_. (4096, 0)) sample_outside 0 5 (ascii ''fills'') restarted =
      Some (Inr (), n')" "nd_hosted n' (ascii ''fills'') = Some src" using restarted_reregisters by blast
  have s: "scan_names (os_name_max sample_outside) [(ascii ''fills'', True)] = [ascii ''fills'']"
    by (simp add: scan_names_def sample_outside_def validate_channel_name_def is_ascii_alphanumeric_def)
  have t: "topic_config_of seg_reader_api (nd_fs restarted) [Map.empty] left_log = Some (Inr None)"
    by (simp add: topic_config_of_def restarted_def seg_reader_api_def seg_read_def seg_todo_def)
  have e: "reconstruct_from_disk seg_reader_api (\<lambda>_. (4096, 0)) sample_outside 0 5 (\<lambda>_. [Map.empty])
       (\<lambda>_. (at_sight no_turn, at_sight no_turn)) (Some [(ascii ''fills'', True)]) restarted =
    Some (\<lparr>rc_topics = 0, rc_origins = 1, rc_skipped = 0\<rparr>, n')"
    by (simp add: reconstruct_from_disk_def s restarted_path t r(1) del: ascii_simps)
  from reconstruction_serves_own_names [OF sample_name_laws restarted_hosted(2,3) e r(2)] e r(2) show ?thesis by (auto simp: restarted_hosted)
qed

end
