(* ===== verification/Client_Plane.thy ===== *)
theory Client_Plane
  imports Node_Topics Codec_Props
begin

text \<open>
  The client plane of \<open>xchannel-net/src/node.rs\<close> (\<open>handle_client\<close>, \<open>handle_request\<close>, \<open>subscription_status\<close>)
  and the calls of \<open>xchannel-net-client/src/lib.rs\<close> that talk to it. A connection carries frames; the
  daemon's loop is a function of the frames it receives and of what the rest of the world contributes to
  each request (\<open>rpc_env\<close>), and a client's call is a function of what its two socket operations return.

  \<^item> \<open>e.to_string()\<close> is the message of the error; messages the code formats are abbreviated in the model.
  \<^item> While a \<open>Subscribe\<close> waits for a name, other threads go on: the node at each turn of the wait is given,
    and the request goes on from the one at which the wait ended.
\<close>

subsection \<open>Replies\<close>

definition to_string :: "io_error \<Rightarrow> rstring" where
  "to_string e = ascii (emsg e)"

definition created_or_error :: "path io_result \<Rightarrow> client_reply" where
  "created_or_error r =
     (case r of Inr p \<Rightarrow> ReplyCreated (from_utf8_lossy p) | Inl e \<Rightarrow> ReplyError (to_string e))"

definition subscription_synced :: "rstring \<Rightarrow> ('t, 'w, 'r) node \<Rightarrow> u64 option" where
  "subscription_synced name n =
     Option.bind (nd_subscriptions n name) (\<lambda>h. map_option sh_synced (nd_shared n h))"

definition hosted_status ::
  "('t, 'r) reader_api \<Rightarrow> channel_source \<Rightarrow> rstring \<Rightarrow> ('t, 'w, 'r) node \<Rightarrow> subscription_status" where
  "hosted_status rapi src name n =
     (let head = (case and_then (rd_open rapi (nd_fs n) (cs_path src)) (rd_head rapi (nd_fs n)) of
                    Inr h \<Rightarrow> h | Inl _ \<Rightarrow> 0)
      in \<lparr>ss_local = True, ss_active = True, ss_synced = head, ss_head_at_connect = head,
          ss_owner = self_id n, ss_owner_live = True,
          ss_generation = (case get (nd_registry n) name of Some i \<Rightarrow> ci_epoch i | None \<Rightarrow> 0),
          ss_last_record_at_ms = 0, ss_rebuilds_gap = 0, ss_rebuilds_diverged = 0, ss_last_rebuild_at_ms = 0\<rparr>)"

definition replica_status :: "instant \<Rightarrow> sub_shared \<Rightarrow> rstring \<Rightarrow> ('t, 'w, 'r) node \<Rightarrow> subscription_status" where
  "replica_status now s name n =
     (let (owner, generation) = (case get (nd_registry n) name of
                                   Some i \<Rightarrow> (ci_owner i, ci_epoch i) | None \<Rightarrow> (self_id n, 0))
      in \<lparr>ss_local = False, ss_active = \<not> sh_stopped s, ss_synced = sh_synced s,
          ss_head_at_connect = sh_head_at_connect s, ss_owner = owner,
          ss_owner_live = (owner \<in> set (bd_live_members now (nd_bcast n))), ss_generation = generation,
          ss_last_record_at_ms = sh_last_record_at_ms s, ss_rebuilds_gap = rb_gap (sh_rebuilds s),
          ss_rebuilds_diverged = rb_diverged (sh_rebuilds s),
          ss_last_rebuild_at_ms = rb_last_at_ms (sh_rebuilds s)\<rparr>)"

definition node_subscription_status ::
  "('t, 'r) reader_api \<Rightarrow> instant \<Rightarrow> rstring \<Rightarrow> ('t, 'w, 'r) node \<Rightarrow> subscription_status option" where
  "node_subscription_status rapi now name n =
     (case nd_hosted n name of
        Some src \<Rightarrow> Some (hosted_status rapi src name n)
      | None \<Rightarrow>
          Option.bind (nd_subscriptions n name) (\<lambda>h.
          map_option (\<lambda>s. replica_status now s name n) (nd_shared n h)))"

subsection \<open>One request\<close>

text \<open>What the rest of the world contributes: what other threads did since the last request, the clocks, the
  files at the reads of a topic's log and of a member's, the node at each turn of a wait after the first,
  the throttle's clock and whether the system gives a thread.\<close>

record ('t, 'w, 'r) rpc_env =
  re_since :: "('t, 'w, 'r) node \<Rightarrow> ('t, 'w, 'r) node"
  re_now :: instant
  re_nanos :: u64
  re_reads :: "'t list"
  re_sight :: "'t sightings"
  re_turns :: "(instant \<times> ('t, 'w, 'r) node) list"
  re_clock :: attach_clock
  re_spawned :: bool

text \<open>The wait for a name: the answer of \<open>resolve\<close>, and the node at the turn that gave it.\<close>

definition resolve_wait ::
  "rstring \<Rightarrow> duration option \<Rightarrow> instant \<Rightarrow> (instant \<times> ('t, 'w, 'r) node) list \<Rightarrow>
     ((channel_identity \<times> socket_addr) io_result \<times> ('t, 'w, 'r) node) option" where
  "resolve_wait name timeout start turns =
     (case find (\<lambda>k. resolve name timeout start (take (Suc k) turns) \<noteq> None) [0..<length turns] of
        None \<Rightarrow> None
      | Some k \<Rightarrow> map_option (\<lambda>r. (r, snd (turns ! k))) (resolve name timeout start (take (Suc k) turns)))"

definition live_subscription :: "rstring \<Rightarrow> ('t, 'w, 'r) node \<Rightarrow> sub_shared option" where
  "live_subscription name n =
     Option.bind (nd_subscriptions n name) (\<lambda>h.
     Option.bind (nd_shared n h) (\<lambda>s. if sh_stopped s then None else Some s))"

definition fresh_subscription ::
  "('t, 'w) outside \<Rightarrow> ('t, 'w, 'r) rpc_env \<Rightarrow> rstring \<Rightarrow> u64 \<Rightarrow> ('t, 'w, 'r) node \<Rightarrow>
     (client_reply \<times> ('t, 'w, 'r) node) option" where
  "fresh_subscription os ev name wait_ms n =
     (let wait = (if wait_ms \<noteq> 0 then Some (ms (unat wait_ms)) else None) in
      case resolve_wait name wait (re_now ev) ((re_now ev, n) # re_turns ev) of
        None \<Rightarrow> None
      | Some (resolved, n1) \<Rightarrow>
          (case node_subscribe os resolved (re_clock ev) (re_spawned ev) name n1 of
             None \<Rightarrow> None
           | Some (Inl e, n2) \<Rightarrow> Some (ReplyError (to_string e), n2)
           | Some (Inr (h, _), n2) \<Rightarrow>
               Some (ReplySubscribed (from_utf8_lossy (case nd_shared n2 h of Some s \<Rightarrow> sh_replica_path s | None \<Rightarrow> [])),
                     insert_sub name h n2)))"

definition handle_subscribe ::
  "('t, 'w) outside \<Rightarrow> ('t, 'w, 'r) rpc_env \<Rightarrow> rstring \<Rightarrow> u64 \<Rightarrow> ('t, 'w, 'r) node \<Rightarrow>
     (client_reply \<times> ('t, 'w, 'r) node) option" where
  "handle_subscribe os ev name wait_ms n =
     (case nd_hosted n name of
        Some src \<Rightarrow> Some (ReplySubscribed (from_utf8_lossy (cs_path src)), n)
      | None \<Rightarrow>
          (case live_subscription name n of
             Some s \<Rightarrow> Some (ReplySubscribed (from_utf8_lossy (sh_replica_path s)), n)
           | None \<Rightarrow> fresh_subscription os ev name wait_ms n))"

text \<open>The reply to an operation that may fail, and the node after it.\<close>

definition reply_with ::
  "('a \<Rightarrow> client_reply) \<Rightarrow> ('a io_result \<times> 'n) option \<Rightarrow> (client_reply \<times> 'n) option" where
  "reply_with f = map_option (\<lambda>(r, n). (case r of Inr x \<Rightarrow> f x | Inl e \<Rightarrow> ReplyError (to_string e), n))"

fun handle_request ::
  "('t, 'w) outside \<Rightarrow> ('t, 'r) reader_api \<Rightarrow> ('t, 'w, 'r) rpc_env \<Rightarrow> client_request \<Rightarrow> ('t, 'w, 'r) node \<Rightarrow>
     (client_reply \<times> ('t, 'w, 'r) node) option" where
  "handle_request os rapi ev (ReqCreate name options) n =
     map_option (map_prod created_or_error id) (create_for_client os (re_now ev) (re_nanos ev) name options n)"
| "handle_request os rapi ev (ReqSubscribe name wait_ms) n = handle_subscribe os ev name wait_ms n"
| "handle_request os rapi ev (ReqCreateTopic name options) n =
     map_option (map_prod created_or_error id)
       (create_topic rapi os (re_now ev) (re_nanos ev) (re_reads ev) name options n)"
| "handle_request os rapi ev (ReqPublishToTopic topic member options) n =
     map_option (map_prod created_or_error id)
       (publish_to_topic rapi os (re_now ev) (re_nanos ev) (re_sight ev) topic member options n)"
| "handle_request os rapi ev (ReqDeregister name) n =
     map_option (\<lambda>(r, n1). case r of
         Inr existed \<Rightarrow> (ReplyDeregistered existed, retire_subscription name n1)
       | Inl e \<Rightarrow> (ReplyError (to_string e), n1))
       (node_deregister os (re_now ev) name n)"
| "handle_request os rapi ev (ReqListChannels p) n =
     reply_with (\<lambda>(channels, cursor). ReplyChannels channels cursor)
       (Some (list_channels (os_fs os) (os_writer os) (re_now ev) p n))"
| "handle_request os rapi ev (ReqForceDeregister name) n =
     reply_with ReplyDeregistered (force_deregister os (re_now ev) name n)"
| "handle_request os rapi ev (ReqSubscriptionStatus name) n =
     Some (case node_subscription_status rapi (re_now ev) name n of
             Some s \<Rightarrow> ReplyStatus s
           | None \<Rightarrow> ReplyError (ascii ''channel is neither hosted nor subscribed here''), n)"

subsection \<open>One connection\<close>

text \<open>What the daemon receives, each frame with its environment and whether the socket took the reply. The
  result is the replies sent, and the node; \<open>None\<close> while a request has not been answered.\<close>

definition answer ::
  "('t, 'w) outside \<Rightarrow> ('t, 'r) reader_api \<Rightarrow> ('t, 'w, 'r) rpc_env \<Rightarrow> bytes \<Rightarrow> ('t, 'w, 'r) node \<Rightarrow>
     (client_reply \<times> ('t, 'w, 'r) node) option" where
  "answer os rapi ev bs n =
     (case decode_client_request bs of
        Inr req \<Rightarrow> handle_request os rapi ev req (re_since ev n)
      | Inl e \<Rightarrow> Some (ReplyError (to_string e), re_since ev n))"

fun handle_client ::
  "('t, 'w) outside \<Rightarrow> ('t, 'r) reader_api \<Rightarrow> (bytes io_result \<times> ('t, 'w, 'r) rpc_env \<times> bool) list \<Rightarrow> ('t, 'w, 'r) node \<Rightarrow>
     (bytes list \<times> ('t, 'w, 'r) node) option" where
  "handle_client os rapi [] n = Some ([], n)"
| "handle_client os rapi ((Inl e, ev, taken) # rest) n = Some ([], n)"
| "handle_client os rapi ((Inr bs, ev, taken) # rest) n =
     (case answer os rapi ev bs n of
        None \<Rightarrow> None
      | Some (answered, n1) \<Rightarrow>
          let out = encode_client_reply answered in
          if taken \<and> length out \<le> MAX_FRAME_LEN
          then map_option (\<lambda>(outs, n2). (out # outs, n2)) (handle_client os rapi rest n1)
          else Some ([], n1))"

subsection \<open>The client library\<close>

text \<open>The message of an error made from a reply.\<close>

definition text_of :: "rstring \<Rightarrow> string" where
  "text_of s = map (\<lambda>b. char_of (unat b)) s"

definition rpc_error :: "rstring \<Rightarrow> io_error" where
  "rpc_error message = IoError OtherError (text_of message)"

definition unexpected :: io_error where
  "unexpected = IoError InvalidData ''unexpected reply from daemon''"

text \<open>\<open>send\<close> and \<open>recv\<close> are the connection's: what it answers to a frame, and what it receives after it has sent
  that frame.\<close>

definition request :: "(bytes \<Rightarrow> unit io_result) \<Rightarrow> (bytes \<Rightarrow> bytes io_result) \<Rightarrow> client_request \<Rightarrow> client_reply io_result" where
  "request send recv q =
     (let frame = encode_client_request q in
      and_then (send frame) (\<lambda>_. and_then (recv frame) decode_client_reply))"

definition open_writer :: "('t, 'w) writer_api \<Rightarrow> rstring \<Rightarrow> rstring \<Rightarrow> channel_options \<Rightarrow> 't \<Rightarrow> 'w io_result \<times> 't" where
  "open_writer wapi p name options t =
     (case wr_name_check wapi name of
        Inl e \<Rightarrow> (Inl e, t)
      | Inr _ \<Rightarrow> wr_build wapi t p
          \<lparr>wc_region_size = unat (co_region_size options), wc_mtu = ucast (co_mtu options),
           wc_file_roll_size = Some (co_file_roll_size options), wc_base_record_index = None, wc_generation = None,
           wc_channel_name = name,
           wc_keep_files = (if co_keep_files options > 0 then Some (ucast (co_keep_files options)) else None)\<rparr>)"

text \<open>What a call makes of the reply.\<close>

definition created_writer ::
  "('t, 'w) writer_api \<Rightarrow> rstring \<Rightarrow> channel_options \<Rightarrow> client_reply io_result \<Rightarrow> 't \<Rightarrow> 'w io_result \<times> 't" where
  "created_writer wapi name options r t =
     (case r of
        Inl e \<Rightarrow> (Inl e, t)
      | Inr (ReplyCreated p) \<Rightarrow> open_writer wapi p name options t
      | Inr (ReplyError m) \<Rightarrow> (Inl (rpc_error m), t)
      | Inr _ \<Rightarrow> (Inl unexpected, t))"

definition client_create_channel ::
  "('t, 'w) writer_api \<Rightarrow> (bytes \<Rightarrow> unit io_result) \<Rightarrow> (bytes \<Rightarrow> bytes io_result) \<Rightarrow> rstring \<Rightarrow> channel_options \<Rightarrow> 't \<Rightarrow> 'w io_result \<times> 't" where
  "client_create_channel wapi send recv name options =
     created_writer wapi name options (request send recv (ReqCreate name options))"

definition client_publish_to_topic ::
  "('t, 'w) writer_api \<Rightarrow> (bytes \<Rightarrow> unit io_result) \<Rightarrow> (bytes \<Rightarrow> bytes io_result) \<Rightarrow> rstring \<Rightarrow> rstring \<Rightarrow> channel_options \<Rightarrow> 't \<Rightarrow>
     'w io_result \<times> 't" where
  "client_publish_to_topic wapi send recv topic member options =
     created_writer wapi member options (request send recv (ReqPublishToTopic topic member options))"

definition expect :: "(client_reply \<Rightarrow> 'a option) \<Rightarrow> client_reply io_result \<Rightarrow> 'a io_result" where
  "expect f r =
     and_then r (\<lambda>p. case f p of
       Some x \<Rightarrow> Inr x
     | None \<Rightarrow> Inl (case p of ReplyError m \<Rightarrow> rpc_error m | _ \<Rightarrow> unexpected))"

definition client_create_topic ::
  "(bytes \<Rightarrow> unit io_result) \<Rightarrow> (bytes \<Rightarrow> bytes io_result) \<Rightarrow> rstring \<Rightarrow> topic_options \<Rightarrow> unit io_result" where
  "client_create_topic send recv name options =
     expect (\<lambda>p. case p of ReplyCreated _ \<Rightarrow> Some () | _ \<Rightarrow> None) (request send recv (ReqCreateTopic name options))"

definition wait_millis :: "duration option \<Rightarrow> u64" where
  "wait_millis wait = (case wait of Some d \<Rightarrow> of_nat (d div 10 ^ 6) | None \<Rightarrow> 0)"

definition subscribe_path ::
  "(bytes \<Rightarrow> unit io_result) \<Rightarrow> (bytes \<Rightarrow> bytes io_result) \<Rightarrow> rstring \<Rightarrow> duration option \<Rightarrow> path io_result" where
  "subscribe_path send recv name wait =
     expect (\<lambda>p. case p of ReplySubscribed q \<Rightarrow> Some q | _ \<Rightarrow> None)
       (request send recv (ReqSubscribe name (wait_millis wait)))"

definition client_deregister :: "(bytes \<Rightarrow> unit io_result) \<Rightarrow> (bytes \<Rightarrow> bytes io_result) \<Rightarrow> rstring \<Rightarrow> bool io_result" where
  "client_deregister send recv name =
     expect (\<lambda>p. case p of ReplyDeregistered b \<Rightarrow> Some b | _ \<Rightarrow> None) (request send recv (ReqDeregister name))"

definition client_list_channels ::
  "(bytes \<Rightarrow> unit io_result) \<Rightarrow> (bytes \<Rightarrow> bytes io_result) \<Rightarrow> rstring \<Rightarrow> (channel_info list \<times> discovery_cursor) io_result" where
  "client_list_channels send recv pfx =
     expect (\<lambda>p. case p of ReplyChannels cs c \<Rightarrow> Some (cs, c) | _ \<Rightarrow> None) (request send recv (ReqListChannels pfx))"

definition client_force_deregister :: "(bytes \<Rightarrow> unit io_result) \<Rightarrow> (bytes \<Rightarrow> bytes io_result) \<Rightarrow> rstring \<Rightarrow> bool io_result" where
  "client_force_deregister send recv name =
     expect (\<lambda>p. case p of ReplyDeregistered b \<Rightarrow> Some b | _ \<Rightarrow> None) (request send recv (ReqForceDeregister name))"

definition client_subscription_status ::
  "(bytes \<Rightarrow> unit io_result) \<Rightarrow> (bytes \<Rightarrow> bytes io_result) \<Rightarrow> rstring \<Rightarrow> subscription_status io_result" where
  "client_subscription_status send recv name =
     expect (\<lambda>p. case p of ReplyStatus s \<Rightarrow> Some s | _ \<Rightarrow> None) (request send recv (ReqSubscriptionStatus name))"

text \<open>The replica is built behind the caller's back, so its file may not be there yet: \<open>moments\<close> are the files
  and the clock at each attempt. \<open>open_as\<close> opens a log in the mode asked for.\<close>

datatype subscribe_mode = Live | LateJoin

fun open_replica ::
  "('t \<Rightarrow> path \<Rightarrow> 'r io_result) \<Rightarrow> path \<Rightarrow> instant \<Rightarrow> ('t \<times> instant) list \<Rightarrow> 'r io_result option" where
  "open_replica opener p deadline [] = None"
| "open_replica opener p deadline ((t, now) # moments) =
     (case opener t p of
        Inr r \<Rightarrow> Some (Inr r)
      | Inl e \<Rightarrow> if ekind e = NotFound \<and> now < deadline then open_replica opener p deadline moments else Some (Inl e))"

definition client_subscribe ::
  "(subscribe_mode \<Rightarrow> 't \<Rightarrow> path \<Rightarrow> 'r io_result) \<Rightarrow> (bytes \<Rightarrow> unit io_result) \<Rightarrow> (bytes \<Rightarrow> bytes io_result) \<Rightarrow> rstring \<Rightarrow>
     subscribe_mode \<Rightarrow> duration option \<Rightarrow> instant \<Rightarrow> ('t \<times> instant) list \<Rightarrow> 'r io_result option" where
  "client_subscribe open_as send recv name mode wait now moments =
     (case subscribe_path send recv name wait of
        Inl e \<Rightarrow> Some (Inl e)
      | Inr p \<Rightarrow> open_replica (open_as mode) p (now + secs 5) moments)"

text \<open>Finding the daemon. \<open>attempts\<close> are the answers of the socket to each connect after the spawn, with the
  clock after it; \<open>spawned\<close> is the answer of the system to the spawn.\<close>

definition is_absolute :: "path \<Rightarrow> bool" where
  "is_absolute p \<longleftrightarrow> prefix [47] p"

definition without_slashes :: "path \<Rightarrow> path" where
  "without_slashes p = rev (dropWhile (\<lambda>b. b = 47) (rev p))"

definition exe_parent :: "path \<Rightarrow> path option" where
  "exe_parent exe =
     (let p = without_slashes exe; d = rev (dropWhile (\<lambda>b. b \<noteq> 47) (rev p)) in
      if p = [] then None else Some (if d \<noteq> [] \<and> without_slashes d = [] then [47] else without_slashes d))"

definition daemon_binary :: "path option \<Rightarrow> path io_result \<Rightarrow> path io_result" where
  "daemon_binary bin_var current_exe =
     (case bin_var of
        Some p \<Rightarrow> if is_absolute p then Inr p
                  else Inl (IoError InvalidInput ''XCHANNELD_BIN must be an absolute path'')
      | None \<Rightarrow>
          and_then current_exe (\<lambda>exe.
            (case exe_parent exe of
               None \<Rightarrow> Inl (IoError NotFound ''cannot locate current executable's directory'')
             | Some dir \<Rightarrow> Inr (path_join dir (ascii ''xchanneld'')))))"

definition spawn_daemon :: "(path \<Rightarrow> unit io_result) \<Rightarrow> path option \<Rightarrow> path io_result \<Rightarrow> unit io_result" where
  "spawn_daemon spawn bin_var current_exe = and_then (daemon_binary bin_var current_exe) spawn"

fun connect_retry :: "instant \<Rightarrow> (unit io_result \<times> instant) list \<Rightarrow> unit io_result option" where
  "connect_retry deadline [] = None"
| "connect_retry deadline ((r, now) # rest) =
     (case r of
        Inr _ \<Rightarrow> Some (Inr ())
      | Inl _ \<Rightarrow> if now \<ge> deadline then Some (Inl (IoError TimedOut ''spawned xchanneld did not become reachable''))
                 else connect_retry deadline rest)"

definition connect_or_spawn ::
  "path option \<Rightarrow> unit io_result \<Rightarrow> (path \<Rightarrow> unit io_result) \<Rightarrow> path option \<Rightarrow> path io_result \<Rightarrow> instant \<Rightarrow>
     (unit io_result \<times> instant) list \<Rightarrow> unit io_result option" where
  "connect_or_spawn home first spawn bin_var current_exe now attempts =
     (case default_client_path home of
        Inl e \<Rightarrow> Some (Inl e)
      | Inr _ \<Rightarrow>
          (case first of
             Inr _ \<Rightarrow> Some (Inr ())
           | Inl _ \<Rightarrow>
               (case spawn_daemon spawn bin_var current_exe of
                  Inl e \<Rightarrow> Some (Inl e)
                | Inr _ \<Rightarrow> connect_retry (now + secs 5) attempts)))"

subsection \<open>A call is the operation\<close>

text \<open>One exchange over a fresh connection: what the client receives for the frame it sends, and the node
  after it.\<close>

definition exchange ::
  "('t, 'w) outside \<Rightarrow> ('t, 'r) reader_api \<Rightarrow> ('t, 'w, 'r) rpc_env \<Rightarrow> bytes \<Rightarrow> ('t, 'w, 'r) node \<Rightarrow>
     (bytes io_result \<times> ('t, 'w, 'r) node) option" where
  "exchange os rapi ev frame n =
     (case and_then (send_framed frame) recv_framed of
        Inl e \<Rightarrow> Some (Inl e, n)
      | Inr (f, _) \<Rightarrow>
          map_option (\<lambda>(outs, n'). (case outs of
              [] \<Rightarrow> Inl (IoError UnexpectedEof ''failed to fill whole buffer'')
            | out # _ \<Rightarrow> and_then (send_framed out) (\<lambda>w. and_then (recv_framed w) (\<lambda>(g, _). Inr g)), n'))
            (handle_client os rapi [(Inr f, ev, True)] n))"

text \<open>What a call returns for a reply: the value it carries, or its message as an error.\<close>

definition outcome :: "('a \<Rightarrow> client_reply) \<Rightarrow> client_reply \<Rightarrow> 'a io_result \<Rightarrow> bool" where
  "outcome f p r \<longleftrightarrow> (\<exists>x. p = f x \<and> r = Inr x) \<or> (\<exists>m. p = ReplyError m \<and> r = Inl (rpc_error m))"

text \<open>A client with the files \<open>t\<close>, over the connection \<open>send\<close> and \<open>recv\<close>, returns what the reply \<open>p\<close> says; a
  channel's creator opens the one writer at the path it was given.\<close>

fun call_returns :: "('t, 'w) writer_api \<Rightarrow> 't \<Rightarrow> client_request \<Rightarrow> client_reply \<Rightarrow>
     (bytes \<Rightarrow> unit io_result) \<Rightarrow> (bytes \<Rightarrow> bytes io_result) \<Rightarrow> bool" where
  "call_returns wapi t (ReqCreate name options) p send recv \<longleftrightarrow>
     (\<exists>r. outcome ReplyCreated p r \<and> client_create_channel wapi send recv name options t =
        (case r of Inr q \<Rightarrow> open_writer wapi q name options t | Inl e \<Rightarrow> (Inl e, t)))"
| "call_returns wapi t (ReqSubscribe name wait_ms) p send recv \<longleftrightarrow>
     (\<forall>wait. wait_millis wait = wait_ms \<longrightarrow> outcome ReplySubscribed p (subscribe_path send recv name wait))"
| "call_returns wapi t (ReqCreateTopic name options) p send recv \<longleftrightarrow>
     (\<exists>r. outcome ReplyCreated p r \<and> client_create_topic send recv name options = map_sum id (\<lambda>_. ()) r)"
| "call_returns wapi t (ReqPublishToTopic topic member options) p send recv \<longleftrightarrow>
     (\<exists>r. outcome ReplyCreated p r \<and> client_publish_to_topic wapi send recv topic member options t =
        (case r of Inr q \<Rightarrow> open_writer wapi q member options t | Inl e \<Rightarrow> (Inl e, t)))"
| "call_returns wapi t (ReqDeregister name) p send recv \<longleftrightarrow>
     outcome ReplyDeregistered p (client_deregister send recv name)"
| "call_returns wapi t (ReqListChannels pfx) p send recv \<longleftrightarrow>
     outcome (\<lambda>(cs, c). ReplyChannels cs c) p (client_list_channels send recv pfx)"
| "call_returns wapi t (ReqForceDeregister name) p send recv \<longleftrightarrow>
     outcome ReplyDeregistered p (client_force_deregister send recv name)"
| "call_returns wapi t (ReqSubscriptionStatus name) p send recv \<longleftrightarrow>
     outcome ReplyStatus p (client_subscription_status send recv name)"

text \<open>The kind of reply a request gets.\<close>

fun fits_request :: "client_request \<Rightarrow> client_reply \<Rightarrow> bool" where
  "fits_request q (ReplyError m) \<longleftrightarrow> True"
| "fits_request q (ReplyCreated p) \<longleftrightarrow>
     (case q of ReqCreate _ _ \<Rightarrow> True | ReqCreateTopic _ _ \<Rightarrow> True | ReqPublishToTopic _ _ _ \<Rightarrow> True | _ \<Rightarrow> False)"
| "fits_request q (ReplySubscribed p) \<longleftrightarrow> (case q of ReqSubscribe _ _ \<Rightarrow> True | _ \<Rightarrow> False)"
| "fits_request q (ReplyChannels cs c) \<longleftrightarrow> (case q of ReqListChannels _ \<Rightarrow> True | _ \<Rightarrow> False)"
| "fits_request q (ReplyDeregistered b) \<longleftrightarrow> (case q of ReqDeregister _ \<Rightarrow> True | ReqForceDeregister _ \<Rightarrow> True | _ \<Rightarrow> False)"
| "fits_request q (ReplyStatus s) \<longleftrightarrow> (case q of ReqSubscriptionStatus _ \<Rightarrow> True | _ \<Rightarrow> False)"

lemma created_or_error_cases: "(\<exists>x. created_or_error r = ReplyCreated x) \<or> (\<exists>m. created_or_error r = ReplyError m)"
  by (cases r) (simp_all add: created_or_error_def)

lemma fits_created: "fits_request q (ReplyCreated []) \<Longrightarrow> fits_request q (created_or_error r)"
  using created_or_error_cases [of r] by auto

lemma handle_request_fits:
  assumes "handle_request os rapi ev q n = Some (p, n')"
  shows "fits_request q p"
proof -
  show ?thesis
  proof (cases q)
    case (ReqDeregister name)
    with assms obtain r n1 where "node_deregister os (re_now ev) name n = Some (r, n1)" by auto
    with assms ReqDeregister show ?thesis by (cases r) auto
  next
    case (ReqForceDeregister name)
    with assms obtain r where "force_deregister os (re_now ev) name n = Some (r, n')" by (auto simp: reply_with_def)
    with assms ReqForceDeregister show ?thesis by (cases r) (auto simp: reply_with_def)
  next
    case (ReqListChannels pfx)
    with assms show ?thesis by (auto simp: reply_with_def split: sum.splits prod.splits)
  next
    case (ReqSubscribe name wait_ms)
    with assms show ?thesis
      by (auto simp: handle_subscribe_def fresh_subscription_def Let_def split: option.splits sum.splits prod.splits)
  next
    case (ReqSubscriptionStatus name)
    with assms show ?thesis by (auto split: option.splits)
  qed (use assms in \<open>auto intro: fits_created\<close>)
qed

lemma call_returns_reply:
  assumes "fits_request q p" and "request send recv q = Inr p"
  shows "call_returns wapi t q p send recv"
  using assms by (cases q; cases p) (auto simp: outcome_def expect_def client_create_channel_def
      client_publish_to_topic_def created_writer_def client_create_topic_def subscribe_path_def client_deregister_def
      client_list_channels_def client_force_deregister_def client_subscription_status_def)

lemma framed_fits: "length f \<le> MAX_FRAME_LEN \<Longrightarrow> and_then (send_framed f) recv_framed = Inr (f, [])"
  using recv_send_framed [of f _ "[]"] by (simp add: send_framed_def)

lemma small_frame: "k \<le> MAX_FRAME_LEN \<Longrightarrow> k < 2 ^ 64"
  by (simp add: MAX_FRAME_LEN_def)

lemma request_survives: "request_ok q \<Longrightarrow> length (encode_client_request q) < 2 ^ 64 \<Longrightarrow>
    decode_client_request (encode_client_request q) = Inr q"
  using request_codec.frame_round_trip [of q] by (simp add: decode_client_request_def put_client_request_append)

lemma reply_survives: "reply_ok p \<Longrightarrow> length (encode_client_reply p) < 2 ^ 64 \<Longrightarrow>
    decode_client_reply (encode_client_reply p) = Inr p"
  using reply_codec.frame_round_trip [of p] by (simp add: decode_client_reply_def put_client_reply_append)

text \<open>C19. A call over the socket is the node's operation. The frame the client sends, carried, decoded and
  handled by the daemon, has it do exactly the operation asked for and leaves the node as that left it;
  and the client's call, over any connection on which that frame is sent and then answered by the
  daemon's, returns exactly what the operation returned: its value, or an error with its message, never
  an unexpected reply. The connection is arbitrary on every other frame, so the call sends this one.\<close>

theorem rpc_is_the_operation:
  assumes "handle_request os rapi ev q (re_since ev n) = Some (p, n')"
    and "request_ok q" and "length (encode_client_request q) \<le> MAX_FRAME_LEN"
    and "reply_ok p" and "length (encode_client_reply p) \<le> MAX_FRAME_LEN"
  shows "\<exists>b. exchange os rapi ev (encode_client_request q) n = Some (Inr b, n') \<and>
    (\<forall>send recv. send (encode_client_request q) = Inr () \<longrightarrow> recv (encode_client_request q) = Inr b \<longrightarrow>
       request send recv q = Inr p \<and> call_returns wapi t q p send recv)"
proof -
  let ?b = "encode_client_reply p"
  have "answer os rapi ev (encode_client_request q) n = Some (p, n')"
    using assms(1) request_survives [OF assms(2) small_frame [OF assms(3)]] by (simp add: answer_def)
  then have "handle_client os rapi [(Inr (encode_client_request q), ev, True)] n = Some ([?b], n')"
    using assms(5) by simp
  moreover have "and_then (send_framed ?b) (\<lambda>w. and_then (recv_framed w) (\<lambda>(g, _). Inr g)) = Inr ?b"
    using framed_fits [OF assms(5)] by (auto simp: and_then_def split: sum.splits)
  ultimately have "exchange os rapi ev (encode_client_request q) n = Some (Inr ?b, n')"
    using framed_fits [OF assms(3)] by (simp add: exchange_def)
  moreover have "request send recv q = Inr p \<and> call_returns wapi t q p send recv"
    if "send (encode_client_request q) = Inr ()" "recv (encode_client_request q) = Inr ?b" for send recv
  proof -
    have "request send recv q = Inr p"
      using that reply_survives [OF assms(4) small_frame [OF assms(5)]] by (simp add: request_def)
    then show ?thesis using call_returns_reply [OF handle_request_fits [OF assms(1)]] by simp
  qed
  ultimately show ?thesis by blast
qed

subsection \<open>Asking again\<close>

text \<open>The handles in use are older than the next one.\<close>

definition handles_ok :: "('t, 'w, 'r) node \<Rightarrow> bool" where
  "handles_ok n \<longleftrightarrow> (\<forall>name h. nd_subscriptions n name = Some h \<longrightarrow> h < nd_next_handle n)"

lemma ensure_parent_subs:
  "ensure_parent fs p n = Some (r, n') \<Longrightarrow> \<exists>t. n' = n\<lparr>nd_fs := t\<rparr>"
  by (auto simp: ensure_parent_def act_return_def act_total_def on_fs_def split: option.splits prod.splits
      intro: exI [of _ "nd_fs n"])

lemma spawn_establish_shared:
  "spawn_establish c spawned name h why n = (b, n') \<Longrightarrow> nd_shared n k = Some s \<Longrightarrow>
     \<exists>s'. nd_shared n' k = Some s' \<and> sh_stopped s' = sh_stopped s \<and> sh_replica_path s' = sh_replica_path s"
  by (auto simp: spawn_establish_def attach_now_def set_establishing_def with_shared_def attach_due_def Let_def
      split: if_splits prod.splits)

lemma spawn_establish_next:
  "spawn_establish c spawned name h why n = (b, n') \<Longrightarrow>
     nd_next_handle n' = nd_next_handle n \<and> nd_subscriptions n' = nd_subscriptions n \<and> nd_hosted n' = nd_hosted n"
  by (auto simp: spawn_establish_def attach_now_def set_establishing_def with_shared_def attach_due_def Let_def
      split: if_splits prod.splits)

lemma subscribe_as_fresh:
  assumes "subscribe_as os resolved c spawned name why n = Some (Inr (h, started), n')"
  obtains s where "h = nd_next_handle n" "nd_subscriptions n' = nd_subscriptions n" "nd_hosted n' = nd_hosted n"
    "nd_shared n' h = Some s" "\<not> sh_stopped s" "node_replica_path os n name = Inr (sh_replica_path s)"
    "nd_next_handle n' = Suc h"
proof -
  from assms obtain p n1 where p: "node_replica_path os n name = Inr p" and e: "ensure_parent (os_fs os) p n = Some (Inr (), n1)"
    and h: "h = nd_next_handle n1"
    and sp: "spawn_establish c spawned name h why (n1\<lparr>nd_shared := (nd_shared n1)(h \<mapsto> sub_new p), nd_next_handle := Suc h,
                  nd_conducted := nd_conducted n1 @ [(name, h)]\<rparr>) = (started, n')"
    by (auto simp: subscribe_as_def act_bind_Some act_lift_def Let_def case_prod_beta prod_eq_iff)
  from ensure_parent_subs [OF e] obtain t where t: "n1 = n\<lparr>nd_fs := t\<rparr>" by blast
  have "\<exists>s. nd_shared n' h = Some s \<and> \<not> sh_stopped s \<and> sh_replica_path s = p"
    using spawn_establish_shared [OF sp, of h "sub_new p"] by (auto simp: sub_new_def)
  then show ?thesis using that spawn_establish_next [OF sp] h p by (auto simp: t)
qed

lemma resolve_wait_node:
  assumes "resolve_wait name timeout start turns = Some (r, n)" shows "n \<in> snd ` set turns"
proof -
  from assms obtain k where "find (\<lambda>k. resolve name timeout start (take (Suc k) turns) \<noteq> None) [0..<length turns] = Some k"
    "n = snd (turns ! k)" by (auto simp: resolve_wait_def split: option.splits)
  then show ?thesis by (auto simp: find_Some_iff)
qed

text \<open>C22. Asking for a channel is idempotent and local where it can be. A channel hosted here is handed out
  as the origin itself and nothing changes. After any successful answer the same question, with any wait,
  gets the same path at once and changes nothing, unless the name has come to be hosted here meanwhile: a
  second reader of a channel costs no second replica.\<close>

theorem subscribe_reuses:
  assumes "handle_request os rapi ev (ReqSubscribe name w) n = Some (ReplySubscribed p, n')"
    and "handles_ok n" and "\<forall>m\<in>snd ` set (re_turns ev). handles_ok m"
  shows "(\<forall>src. nd_hosted n name = Some src \<longrightarrow> p = from_utf8_lossy (cs_path src) \<and> n' = n) \<and>
    (nd_hosted n name \<noteq> None \<or> nd_hosted n' name = None \<longrightarrow>
       handle_request os rapi ev' (ReqSubscribe name w') n' = Some (ReplySubscribed p, n'))"
proof (cases "nd_hosted n name = None \<and> live_subscription name n = None")
  case False
  with assms(1) show ?thesis by (auto simp: handle_subscribe_def split: option.splits)
next
  case True
  with assms(1) obtain r n1 h started n2 where
    r: "resolve_wait name (if w \<noteq> 0 then Some (ms (unat w)) else None) (re_now ev) ((re_now ev, n) # re_turns ev) = Some (r, n1)"
    and s: "node_subscribe os r (re_clock ev) (re_spawned ev) name n1 = Some (Inr (h, started), n2)"
    and p: "p = from_utf8_lossy (case nd_shared n2 h of Some s \<Rightarrow> sh_replica_path s | None \<Rightarrow> [])" "n' = insert_sub name h n2"
    by (auto simp: handle_subscribe_def fresh_subscription_def Let_def split: option.splits sum.splits prod.splits)
  from s obtain sh where sh: "h = nd_next_handle n1" "nd_subscriptions n2 = nd_subscriptions n1"
    "nd_shared n2 h = Some sh" "\<not> sh_stopped sh"
    unfolding node_subscribe_def by (rule subscribe_as_fresh)
  have "handles_ok n1" using resolve_wait_node [OF r] assms(2,3) by auto
  then have "nd_subscriptions n2 name \<noteq> Some h" using sh(1,2) by (auto simp: handles_ok_def)
  then have "live_subscription name n' = Some sh"
    using sh(3,4) by (auto simp: p(2) insert_sub_def live_subscription_def stop_sub_def Let_def split: option.splits)
  with True p(1) sh(3) show ?thesis by (auto simp: handle_subscribe_def)
qed

subsection \<open>A wait of less than a millisecond\<close>

definition unknown_at :: "rstring \<Rightarrow> ('t, 'w, 'r) node \<Rightarrow> bool" where
  "unknown_at name n \<longleftrightarrow> get (nd_registry n) name = None"

lemma resolve_blocks:
  "\<forall>m\<in>snd ` set turns. unknown_at name m \<Longrightarrow> resolve_loop name None unreachable turns = None"
  by (induction name "None :: instant option" unreachable turns rule: resolve_loop.induct) (auto simp: unknown_at_def Let_def)

text \<open>C35. A short bound is no bound. A client that gives any bound below one millisecond sends the very
  request of a client that gives none: as long as the name stays unknown the daemon does not answer it,
  however long that is, where the bound promised an error.\<close>

theorem short_wait_blocks:
  assumes "d < 10 ^ 6"
  shows "subscribe_path send recv name (Some d) = subscribe_path send recv name None \<and>
    (nd_hosted n name = None \<longrightarrow> live_subscription name n = None \<longrightarrow> unknown_at name n \<longrightarrow>
      (\<forall>m\<in>snd ` set (re_turns ev). unknown_at name m) \<longrightarrow>
      handle_request os rapi ev (ReqSubscribe name (wait_millis (Some d))) n = None)"
proof -
  have w: "wait_millis (Some d) = 0" using assms by (simp add: wait_millis_def)
  have "resolve_wait name None start turns = None" if "\<forall>m\<in>snd ` set turns. unknown_at name m" for start and turns :: "(instant \<times> ('a, 'b, 'c) node) list"
  proof -
    have "resolve name None start (take (Suc k) turns) = None" for k
      unfolding resolve_def option.map by (rule resolve_blocks) (use that in \<open>auto dest: in_set_takeD\<close>)
    then show ?thesis by (auto simp: resolve_wait_def split: option.splits)
  qed
  then show ?thesis using w
    by (auto simp: subscribe_path_def wait_millis_def handle_subscribe_def fresh_subscription_def)
qed

subsection \<open>Deregistering\<close>

lemma publish_change_muxes [simp]: "nd_muxes (publish_change fs wapi c n) = nd_muxes n"
  by (simp add: publish_change_def open_discovery_def Let_def case_prod_beta split: sum.split option.split)

lemma unsubscribe_sel:
  "nd_registry (snd (unsubscribe name n)) = nd_registry n" "nd_hosted (snd (unsubscribe name n)) = nd_hosted n"
  "nd_muxes (snd (unsubscribe name n)) = nd_muxes n" "nd_config (snd (unsubscribe name n)) = nd_config n"
  by (simp_all add: unsubscribe_def stop_sub_def split: option.split)

lemma retire_subscription_sel [simp]:
  "nd_registry (retire_subscription name n) = nd_registry n" "nd_hosted (retire_subscription name n) = nd_hosted n"
  "nd_muxes (retire_subscription name n) = nd_muxes n" "nd_config (retire_subscription name n) = nd_config n"
  by (simp_all add: retire_subscription_def attach_now_def unsubscribe_sel)

lemma remove_channel_dir_fs: "\<exists>t. remove_channel_dir os name n = n\<lparr>nd_fs := t\<rparr>"
  by (auto simp: remove_channel_dir_def split: sum.split intro: exI [of _ "nd_fs n"])

lemma disseminate_tombstone_sel:
  assumes "disseminate_tombstone os now t n = Some (r, n')"
  shows "nd_registry n' = nd_registry n" "nd_hosted n' = nd_hosted n" "nd_muxes n' = nd_muxes n" "nd_config n' = nd_config n" "r = Inr ()"
  using assms by (auto simp: disseminate_tombstone_def act_bind_Some node_announce_def)

lemma node_deregister_sel:
  assumes "node_deregister os now name n = Some (Inr b, n')" and "registry_wf (nd_registry n)"
  shows "nd_muxes n' = nd_muxes n \<and> nd_config n' = nd_config n \<and> nd_registry n' = snd (deregister (nd_registry n) name (self_id n)) \<and>
    (b \<longrightarrow> nd_hosted n' name = None)"
proof -
  obtain d reg where d: "deregister (nd_registry n) name (self_id n) = (d, reg)" by fastforce
  show ?thesis
  proof (cases d)
    case None
    with assms d show ?thesis by (auto simp: node_deregister_def)
  next
    case (Some tomb)
    with assms(1) d obtain n1 where n1: "disseminate_tombstone os now tomb
        (n\<lparr>nd_registry := reg, nd_hosted := (nd_hosted n)(name := None)\<rparr>) = Some (Inr (), n1)" "n' = remove_channel_dir os name n1"
      by (auto simp: node_deregister_def act_bind_Some)
    obtain t where "n' = n1\<lparr>nd_fs := t\<rparr>" using remove_channel_dir_fs [of os name n1] n1(2) by blast
    with disseminate_tombstone_sel [OF n1(1)] d show ?thesis by simp
  qed
qed

lemma fold_drop_sub_muxes: "nd_muxes (fold drop_sub names n) = nd_muxes n"
  by (induction names arbitrary: n) (simp_all add: drop_sub_def unsubscribe_sel)

lemma deregister_topic_muxes:
  fixes os :: "('t, 'w) outside" and n :: "('t, 'w, 'r) node"
  assumes "deregister_topic rapi os now reads topic n = Some (r, n')" and "mux_of topic n = Some m"
  shows "nd_muxes n' = RBT.delete topic (nd_muxes n)"
proof -
  have d: "nd_muxes b = nd_muxes a" if "(case deregister reg topic self of
        (None, reg) \<Rightarrow> act_modify (\<lambda>n. n\<lparr>nd_registry := reg\<rparr>)
      | (Some tombstone, reg) \<Rightarrow>
          act_bind (act_modify (\<lambda>n. n\<lparr>nd_registry := reg, nd_hosted := (nd_hosted n)(topic := None)\<rparr>)) (\<lambda>_.
          disseminate_tombstone os now tombstone)) a = Some (q, b)" for reg self a q and b :: "('t, 'w, 'r) node"
    using that by (auto simp: act_bind_Some dest!: disseminate_tombstone_sel(3) split: prod.splits option.splits)
  have f: "nd_muxes b = nd_muxes a" if "finish_mux rapi os reads m a = Some (q, b)" for a q and b :: "('t, 'w, 'r) node"
    using that by (auto simp: finish_mux_def)
  have e: "nd_muxes (remove_channel_dir os topic a) = nd_muxes a" for a :: "('t, 'w, 'r) node"
    by (simp add: remove_channel_dir_def split: sum.split)
  show ?thesis
    using assms by (auto simp: deregister_topic_def act_bind_Some e fold_drop_sub_muxes dest!: d f)
qed

text \<open>C36. Deregistering a topic's name leaves its mux running. The request that withdraws a name, given the
  name of a topic hosted here, tombstones it, stops serving it and deletes its log; but unlike the topic's
  own retirement it leaves the mux in place, and every later sweep polls it.\<close>

theorem deregister_leaves_mux:
  assumes "handle_request os rapi ev (ReqDeregister topic) n = Some (ReplyDeregistered True, n')"
    and "registry_wf (nd_registry n)" and "mux_of topic n = Some m" and "topic \<notin> set (cfg_promoted_topics (nd_config n))"
  shows "get (nd_registry n') topic = None \<and> nd_hosted n' topic = None \<and> mux_of topic n' = Some m \<and> sweepable n' topic \<and>
    (\<forall>reads r n''. deregister_topic rapi os now reads topic n = Some (r, n'') \<longrightarrow> mux_of topic n'' = None)"
proof -
  obtain r n1 where "node_deregister os (re_now ev) topic n = Some (r, n1)" using assms(1) by auto
  then have n1: "node_deregister os (re_now ev) topic n = Some (Inr True, n1)" "n' = retire_subscription topic n1"
    using assms(1) by (cases r; simp)+
  note s = node_deregister_sel [OF n1(1) assms(2)]
  have "fst (deregister (nd_registry n) topic (self_id n)) \<noteq> None"
    using n1(1) by (auto simp: node_deregister_def split: option.splits prod.splits)
  then obtain e where e: "get (nd_registry n) topic = Some e" "ci_owner e = self_id n"
    using assms(2) by (auto simp: deregister_cases split: option.splits if_splits)
  then have raw: "get_raw (nd_registry n) topic = Some e" "\<not> ci_deleted e"
    by (auto simp: get_conv_raw split: option.splits if_splits)
  have "get (nd_registry n1) topic = None"
    using s e assms(2) by (simp add: deregister_cases get_conv_raw merge_tombstone(2) [OF assms(2) raw])
  then show ?thesis using s n1(2) assms(3,4) deregister_topic_muxes [OF _ assms(3)]
    by (auto simp: mux_of_def sweepable_def)
qed

subsection \<open>Malformed requests\<close>

definition malformed :: "bytes io_result \<times> ('t, 'w, 'r) rpc_env \<times> bool \<Rightarrow> bool" where
  "malformed x \<longleftrightarrow> (case x of (Inr bs, _, _) \<Rightarrow> isl (decode_client_request bs) | _ \<Rightarrow> False)"

text \<open>The error a malformed frame gets is sent, and nothing else happened before it.\<close>

definition quiet_error :: "bytes io_result \<times> ('t, 'w, 'r) rpc_env \<times> bool \<Rightarrow> bool" where
  "quiet_error x \<longleftrightarrow> (case x of
     (Inr bs, ev, taken) \<Rightarrow> taken \<and> re_since ev = id \<and>
       (\<forall>e. decode_client_request bs = Inl e \<longrightarrow> length (encode_client_reply (ReplyError (to_string e))) \<le> MAX_FRAME_LEN)
   | _ \<Rightarrow> True)"

text \<open>A malformed request costs its sender an error and nobody else anything. Whatever frames that do not
  decode are mixed into a conversation, each is answered with the decoder's message, and taking them out
  leaves every other reply and the node exactly as they were: the connection goes on after each.\<close>

theorem malformed_requests_isolated:
  assumes "\<forall>x\<in>set xs. malformed x \<longrightarrow> quiet_error x"
    and "handle_client os rapi xs n = Some (outs, n')"
  shows "handle_client os rapi (filter (\<lambda>x. \<not> malformed x) xs) n =
      Some (map snd (filter (\<lambda>(x, _). \<not> malformed x) (zip xs outs)), n') \<and>
    (\<forall>(x, out)\<in>set (zip xs outs). malformed x \<longrightarrow>
       (\<exists>bs e. fst x = Inr bs \<and> decode_client_request bs = Inl e \<and> out = encode_client_reply (ReplyError (to_string e))))"
  using assms
proof (induction os rapi xs n arbitrary: outs rule: handle_client.induct)
  case (3 os rapi bs ev taken rest n)
  let ?x = "(Inr bs, ev, taken)"
  have q: "\<forall>x\<in>set rest. malformed x \<longrightarrow> quiet_error x" "malformed ?x \<Longrightarrow> quiet_error ?x" using "3.prems"(1) by auto
  obtain p n1 where a: "answer os rapi ev bs n = Some (p, n1)" using "3.prems"(2) by (auto split: option.splits)
  show ?case
  proof (cases "taken \<and> length (encode_client_reply p) \<le> MAX_FRAME_LEN")
    case True
    with "3.prems"(2) a obtain outs' where o: "handle_client os rapi rest n1 = Some (outs', n')" "outs = encode_client_reply p # outs'"
      by (auto simp: Let_def)
    note ih = "3.IH" [OF a refl refl True q(1) o(1)]
    show ?thesis
    proof (cases "decode_client_request bs")
      case (Inl e)
      then have m: "malformed ?x" by (simp add: malformed_def)
      have "n1 = n" "p = ReplyError (to_string e)" using a Inl q(2) [OF m] by (auto simp: answer_def quiet_error_def)
      with ih m o(2) Inl show ?thesis by auto
    next
      case (Inr req)
      then have "\<not> malformed ?x" by (simp add: malformed_def)
      with ih o(2) a True show ?thesis by (auto simp: Let_def)
    qed
  next
    case False
    with "3.prems"(2) a have o: "outs = []" "n' = n1" by (auto simp: Let_def)
    have "\<not> malformed ?x"
    proof
      assume m: "malformed ?x"
      then obtain e where "decode_client_request bs = Inl e" by (auto simp: malformed_def isl_def)
      with a False q(2) [OF m] show False by (auto simp: answer_def quiet_error_def)
    qed
    with a False o show ?thesis by (auto simp: Let_def)
  qed
qed (auto simp: malformed_def)

subsection \<open>Witnesses\<close>

definition sample_env :: "(files, seg_writer, seg_reader) rpc_env" where
  "sample_env = \<lparr>re_since = id, re_now = 0, re_nanos = 5, re_reads = [], re_sight = at_sight no_turn,
     re_turns = [], re_clock = \<lparr>ac_checked = 0, ac_now = 0, ac_seen = 0\<rparr>, re_spawned = True\<rparr>"

abbreviation lone_node :: "(files, seg_writer, seg_reader) node" where
  "lone_node \<equiv> sample_node 9 registry_new"

text \<open>Withdrawing a name nobody has.\<close>

theorem rpc_is_the_operation_witness:
  "\<exists>b n'. exchange sample_outside seg_reader_api sample_env (encode_client_request (ReqDeregister (ascii ''none''))) lone_node =
      Some (Inr b, n') \<and>
    client_deregister (\<lambda>_. Inr ()) (\<lambda>_. Inr b) (ascii ''none'') = Inr False"
proof -
  let ?q = "ReqDeregister (ascii ''none'')" and ?p = "ReplyDeregistered False"
  have "deregister registry_new (ascii ''none'') 9 = (None, registry_new)"
    by (simp add: deregister_def registry_new_def)
  then have h: "\<exists>n'. handle_request sample_outside seg_reader_api sample_env ?q (re_since sample_env lone_node) = Some (?p, n')"
    by (simp add: node_deregister_def sample_env_def del: ascii_simps)
  then obtain n' where n': "handle_request sample_outside seg_reader_api sample_env ?q (re_since sample_env lone_node) = Some (?p, n')" ..
  have ok: "request_ok ?q" "length (encode_client_request ?q) \<le> MAX_FRAME_LEN" "reply_ok ?p" "length (encode_client_reply ?p) \<le> MAX_FRAME_LEN"
    by (simp_all add: str_ok_def short_def utf8_char_def utf8_tail_def encode_client_request_def encode_client_reply_def
        enc_simps MAX_FRAME_LEN_def)
  from rpc_is_the_operation [OF n' ok, of seg_writer_api "Map.empty :: files"] obtain b where
    b: "exchange sample_outside seg_reader_api sample_env (encode_client_request ?q) lone_node = Some (Inr b, n')"
      "\<forall>send recv. send (encode_client_request ?q) = Inr () \<longrightarrow> recv (encode_client_request ?q) = Inr b \<longrightarrow>
         request send recv ?q = Inr ?p \<and> call_returns seg_writer_api (Map.empty :: files) ?q ?p send recv" by blast
  from b(2) [rule_format, of "\<lambda>_. Inr ()" "\<lambda>_. Inr b"] have "client_deregister (\<lambda>_. Inr ()) (\<lambda>_. Inr b) (ascii ''none'') = Inr False"
    by (auto simp: outcome_def simp del: ascii_simps)
  with b(1) show ?thesis by blast
qed

text \<open>A name of this node's own, not hosted: its replica is made from its own stream address.\<close>

definition asking_node :: "(files, seg_writer, seg_reader) node" where
  "asking_node = (sample_node 9 (snd (merge registry_new (sample_identity 9 100 0))))\<lparr>nd_bound_stream_addr := Some (SockV4 10 0 0 1 7001)\<rparr>"

lemma asking_node_sel:
  "nd_hosted asking_node = Map.empty" "nd_subscriptions asking_node = Map.empty" "nd_config asking_node = sample_config 9"
  "nd_bound_stream_addr asking_node = Some (SockV4 10 0 0 1 7001)"
  "get (nd_registry asking_node) (ascii ''fills'') = Some (sample_identity 9 100 0)"
proof -
  have "get_raw (snd (merge registry_new (sample_identity 9 100 0))) (ascii ''fills'') = Some (sample_identity 9 100 0)"
    by (simp add: get_raw_merge del: ascii_simps)
  then show "get (nd_registry asking_node) (ascii ''fills'') = Some (sample_identity 9 100 0)"
    by (simp add: asking_node_def get_conv_raw sample_identity_def del: ascii_simps)
qed (simp_all add: asking_node_def sample_node_def node_new_def)

theorem subscribe_reuses_witness:
  "\<exists>p n'. handle_request sample_outside seg_reader_api sample_env (ReqSubscribe (ascii ''fills'') 250) asking_node = Some (ReplySubscribed p, n') \<and>
     nd_subscriptions asking_node (ascii ''fills'') = None \<and>
     handle_request sample_outside seg_reader_api sample_env (ReqSubscribe (ascii ''fills'') 0) n' = Some (ReplySubscribed p, n')"
proof -
  let ?f = "ascii ''fills''" and ?x = "(sample_identity 9 100 0, SockV4 10 0 0 1 7001)"
  have "valid_name 48 ?f" by (simp add: valid_name_def validate_channel_name_def name_byte_def is_ascii_alphanumeric_def)
  from replica_path_valid [OF this] obtain q where q: "node_replica_path sample_outside asking_node ?f = Inr q"
    by (simp add: node_replica_path_def sample_outside_def del: ascii_simps)
  have s: "ci_owner (sample_identity 9 100 0) = 9" "cfg_node_id (sample_config 9) = 9"
    by (simp_all add: sample_identity_def sample_config_def)
  have r: "resolve_wait ?f (Some d) 0 [(0, asking_node)] = Some (Inr ?x, asking_node)" for d
    by (simp add: resolve_wait_def resolve_def asking_node_sel s Let_def del: ascii_simps)
  from sample_asked [OF q, of ?x "\<lparr>ac_checked = 0, ac_now = 0, ac_seen = 0\<rparr>"] obtain n2 where
    n2: "node_subscribe sample_outside (Inr ?x) \<lparr>ac_checked = 0, ac_now = 0, ac_seen = 0\<rparr> True ?f asking_node = Some (Inr (nd_next_handle asking_node, True), n2)"
    unfolding node_subscribe_def by blast
  obtain p where p: "handle_request sample_outside seg_reader_api sample_env (ReqSubscribe ?f 250) asking_node =
      Some (ReplySubscribed p, insert_sub ?f (nd_next_handle asking_node) n2)"
    using n2 r by (simp add: handle_subscribe_def live_subscription_def fresh_subscription_def asking_node_sel sample_env_def
        Let_def del: ascii_simps)
  have h: "handles_ok asking_node" "\<forall>m\<in>snd ` set (re_turns sample_env). handles_ok m"
    by (simp_all add: handles_ok_def asking_node_sel sample_env_def)
  have "nd_hosted n2 = nd_hosted asking_node" using n2 unfolding node_subscribe_def by (rule subscribe_as_fresh)
  then have "nd_hosted (insert_sub ?f (nd_next_handle asking_node) n2) ?f = None"
    by (simp add: insert_sub_def stop_sub_def asking_node_sel Let_def split: option.split)
  with subscribe_reuses [OF p h, of sample_env 0] p show ?thesis
    by (auto simp: asking_node_sel simp del: ascii_simps)
qed

theorem short_wait_blocks_witness:
  "subscribe_path (\<lambda>_. Inr ()) (\<lambda>_. Inr []) (ascii ''fills'') (Some 500) = subscribe_path (\<lambda>_. Inr ()) (\<lambda>_. Inr []) (ascii ''fills'') None \<and>
   handle_request sample_outside seg_reader_api sample_env (ReqSubscribe (ascii ''fills'') (wait_millis (Some 500))) lone_node = None"
proof -
  have "nd_hosted lone_node (ascii ''fills'') = None" "live_subscription (ascii ''fills'') lone_node = None"
    "unknown_at (ascii ''fills'') lone_node"
    by (simp_all add: sample_node_def node_new_def live_subscription_def unknown_at_def get_conv_raw)
  with short_wait_blocks [of 500 "\<lambda>_. Inr ()" "\<lambda>_. Inr []" "ascii ''fills''" lone_node sample_env sample_outside seg_reader_api]
  show ?thesis by (auto simp: sample_env_def simp del: ascii_simps)
qed

text \<open>A topic of node 9, deregistered by name.\<close>

definition hosting_node :: "(files, seg_writer, seg_reader) node" where
  "hosting_node = topic_node\<lparr>nd_registry := snd (merge registry_new ((sample_identity 9 100 0)\<lparr>ci_name := ascii ''t''\<rparr>))\<rparr>"

lemma hosting_node_sel:
  "registry_wf (nd_registry hosting_node)" "mux_of (ascii ''t'') hosting_node = Some sample_mux"
  "nd_config hosting_node = sample_config 9" "bd_peers (nd_bcast hosting_node) = []"
  "get (nd_registry hosting_node) (ascii ''t'') = Some ((sample_identity 9 100 0)\<lparr>ci_name := ascii ''t''\<rparr>)"
proof -
  have "get_raw (snd (merge registry_new ((sample_identity 9 100 0)\<lparr>ci_name := ascii ''t''\<rparr>))) (ascii ''t'') =
      Some ((sample_identity 9 100 0)\<lparr>ci_name := ascii ''t''\<rparr>)"
    by (simp add: get_raw_merge del: ascii_simps)
  then show "get (nd_registry hosting_node) (ascii ''t'') = Some ((sample_identity 9 100 0)\<lparr>ci_name := ascii ''t''\<rparr>)"
    by (simp add: hosting_node_def get_conv_raw sample_identity_def del: ascii_simps)
  show "mux_of (ascii ''t'') hosting_node = Some sample_mux"
    using topic_node_sel(1) [of "ascii ''t''"] by (simp add: hosting_node_def mux_of_def del: ascii_simps topic_node_sel)
  show "bd_peers (nd_bcast hosting_node) = []"
    by (simp add: hosting_node_def topic_node_def)
qed (simp_all add: hosting_node_def)

theorem deregister_leaves_mux_witness:
  "\<exists>n'. handle_request sample_outside seg_reader_api sample_env (ReqDeregister (ascii ''t'')) hosting_node = Some (ReplyDeregistered True, n') \<and>
     get (nd_registry n') (ascii ''t'') = None \<and> mux_of (ascii ''t'') n' = Some sample_mux \<and> sweepable n' (ascii ''t'')"
proof -
  let ?t = "ascii ''t''"
  have o: "ci_owner ((sample_identity 9 100 0)\<lparr>ci_name := ?t\<rparr>) = 9" "cfg_node_id (sample_config 9) = 9"
    by (simp_all add: sample_identity_def sample_config_def)
  obtain tomb reg where d: "deregister (nd_registry hosting_node) ?t 9 = (Some tomb, reg)"
    by (simp add: deregister_cases [OF hosting_node_sel(1)] hosting_node_sel(5) o del: ascii_simps)
  let ?n = "publish_change (os_fs sample_outside) (os_writer sample_outside)
     (change_of 0 (hosting_node\<lparr>nd_registry := reg, nd_hosted := (nd_hosted hosting_node)(?t := None)\<rparr>) tomb)
     (hosting_node\<lparr>nd_registry := reg, nd_hosted := (nd_hosted hosting_node)(?t := None)\<rparr>)"
  have "bd_peers (nd_bcast ?n) = []" by (simp add: hosting_node_sel(4) del: ascii_simps)
  from announce_alone [OF this] obtain x where "announce [tomb] (nd_bcast ?n) = Some x" by blast
  then obtain n' where h: "handle_request sample_outside seg_reader_api sample_env (ReqDeregister ?t) hosting_node = Some (ReplyDeregistered True, n')"
    by (simp add: node_deregister_def hosting_node_sel(3) o d sample_env_def disseminate_tombstone_def act_bind_def
        node_announce_def del: ascii_simps)
  have "?t \<notin> set (cfg_promoted_topics (nd_config hosting_node))" by (simp add: hosting_node_sel(3))
  from deregister_leaves_mux [OF h hosting_node_sel(1,2) this, of 0] h show ?thesis by blast
qed

text \<open>Two good requests with a broken one between them.\<close>

theorem malformed_requests_isolated_witness:
  "let good = (Inr (encode_client_request (ReqSubscriptionStatus (ascii ''none''))), sample_env, True);
       bad = (Inr [99], sample_env, True)
   in \<exists>a b c n'. handle_client sample_outside seg_reader_api [good, bad, good] lone_node = Some ([a, b, c], n') \<and>
        handle_client sample_outside seg_reader_api [good, good] lone_node = Some ([a, c], n')"
proof -
  let ?q = "ReqSubscriptionStatus (ascii ''none'')" and ?m = "ascii ''channel is neither hosted nor subscribed here''"
  let ?good = "(Inr (encode_client_request ?q), sample_env, True)" and ?bad = "(Inr [99], sample_env, True)"
  have g: "decode_client_request (encode_client_request ?q) = Inr ?q"
    by (rule request_survives) (simp_all add: str_ok_def short_def utf8_char_def utf8_tail_def encode_client_request_def enc_simps)
  have "r_u8 (r_new [99]) = Inr (99, \<lparr>r_buf = [99], r_pos = 1\<rparr>)"
    using u8_decodes [of 99, unfolded decodes_def, rule_format, of "[]" "[]"] by (simp add: u8_image_def r_new_def)
  then have b: "decode_client_request [99] = Inl (invalid ''unknown ClientRequest tag'')"
    by (simp add: decode_client_request_def decode_whole_def get_client_request_def dbind_def dfail_def)
  have h: "handle_request sample_outside seg_reader_api sample_env ?q lone_node = Some (ReplyError ?m, lone_node)"
    by (simp add: node_subscription_status_def sample_node_def node_new_def del: ascii_simps)
  have l: "length (encode_client_reply (ReplyError ?m)) \<le> MAX_FRAME_LEN"
    "length (encode_client_reply (ReplyError (to_string (invalid ''unknown ClientRequest tag'')))) \<le> MAX_FRAME_LEN"
    by (simp_all add: encode_client_reply_def enc_simps MAX_FRAME_LEN_def to_string_def invalid_def)
  have id: "re_since sample_env = id" by (simp add: sample_env_def)
  have run: "handle_client sample_outside seg_reader_api [?good, ?bad, ?good] lone_node = Some ([encode_client_reply (ReplyError ?m),
      encode_client_reply (ReplyError (to_string (invalid ''unknown ClientRequest tag''))), encode_client_reply (ReplyError ?m)], lone_node)"
    by (simp add: answer_def g b h l id Let_def del: ascii_simps handle_request.simps)
  have "malformed ?bad" "\<not> malformed ?good" by (simp_all add: malformed_def b g del: ascii_simps)
  moreover have "quiet_error ?bad" using l by (simp add: quiet_error_def b id)
  ultimately show ?thesis
    using malformed_requests_isolated [OF _ run] run by (auto simp: Let_def simp del: handle_client.simps ascii_simps)
qed

end
