(* ===== verification/Discovery.thy ===== *)
theory Discovery
  imports Node_Props
begin

text \<open>
  A client that follows the channel set: the reader of the discovery log, \<open>ChannelWatch\<close> of
  \<open>xchannel-net-client/src/lib.rs\<close>, and the end-to-end property of listing and following. The daemon
  lists the registry and names a position in its log; from there on the records of the log, decoded, take
  the listing to the registry's live view of every name whose last change was published last.

  \<^item> The registry's lock is released before a change is published, so the steps here are finer than the
    operations of theory \<open>Node\<close>: the locked part and the publication are separate, other threads run in
    between, and a publication may fail (\<open>disc_step\<close>). Each operation, run by one thread on its own, is a
    sequence of such steps (\<open>operations_go\<close>).
\<close>

subsection \<open>The client's reader\<close>

text \<open>The loop that skips to the cursor, over the states of the files at each read.\<close>

fun watch_skip :: "('s, 'r) reader_api \<Rightarrow> 's list \<Rightarrow> u64 \<Rightarrow> u64 \<Rightarrow> 'r \<Rightarrow> 'r io_result option" where
  "watch_skip api [] index from r = (if index < from then None else Some (Inr r))"
| "watch_skip api (s # ss) index from r =
     (if index < from then
        (case rd_try_read api s r of
           (Inl e, _) \<Rightarrow> Some (Inl e)
         | (Inr None, r') \<Rightarrow> Some (Inr r')
         | (Inr (Some _), r') \<Rightarrow> watch_skip api ss (index + 1) from r')
      else Some (Inr r))"

definition watch_open :: "('s, 'r) reader_api \<Rightarrow> 's \<Rightarrow> 's list \<Rightarrow> discovery_cursor \<Rightarrow> 'r io_result option" where
  "watch_open api s ss cursor =
     (case rd_open api s (dc_log_path cursor) of
        Inl e \<Rightarrow> Some (Inl e)
      | Inr r \<Rightarrow>
          if rd_generation api r \<noteq> dc_generation cursor then
            Some (Inl (IoError InvalidData ''discovery log was replaced (the daemon restarted) - list again''))
          else if rd_base api r > dc_from cursor then
            Some (Inl (IoError InvalidData ''discovery log has advanced past this cursor - list again''))
          else watch_skip api ss (rd_base api r) (dc_from cursor) r)"

definition watch_next :: "('s, 'r) reader_api \<Rightarrow> 's \<Rightarrow> 'r \<Rightarrow> channel_change option io_result \<times> 'r" where
  "watch_next api s r =
     (case rd_try_read api s r of
        (Inl e, r') \<Rightarrow> (Inl e, r')
      | (Inr None, r') \<Rightarrow> (Inr None, r')
      | (Inr (Some m), r') \<Rightarrow>
          (case decode_change (xm_type m) (xm_payload m) of
             Inl e \<Rightarrow> (Inl e, r')
           | Inr c \<Rightarrow> (Inr (Some c), r')))"

text \<open>A client's loop: the changes until none is pending.\<close>

fun watch_all :: "('s, 'r) reader_api \<Rightarrow> nat \<Rightarrow> 's \<Rightarrow> 'r \<Rightarrow> channel_change list io_result option" where
  "watch_all api 0 s r = None"
| "watch_all api (Suc k) s r =
     (case watch_next api s r of
        (Inl e, _) \<Rightarrow> Some (Inl e)
      | (Inr None, _) \<Rightarrow> Some (Inr [])
      | (Inr (Some c), r') \<Rightarrow> map_option (\<lambda>x. and_then x (\<lambda>cs. Inr (c # cs))) (watch_all api k s r'))"

subsection \<open>The view a client keeps\<close>

text \<open>Liveness of the owner is a reading of the moment, not part of the registry; the view leaves it out.\<close>

definition plain :: "channel_info \<Rightarrow> channel_info" where
  "plain i = i\<lparr>info_owner_live := False\<rparr>"

definition live_view :: "registry \<Rightarrow> rstring \<rightharpoonup> channel_info" where
  "live_view r name = map_option (info_of False) (get r name)"

fun follow :: "channel_change \<Rightarrow> (rstring \<rightharpoonup> channel_info) \<Rightarrow> rstring \<rightharpoonup> channel_info" where
  "follow (Upserted i) v = v(info_name i \<mapsto> plain i)"
| "follow (Removed name epoch) v = v(name := None)"

definition view_of :: "channel_info list \<Rightarrow> rstring \<rightharpoonup> channel_info" where
  "view_of is = map_of (map (\<lambda>i. (info_name i, plain i)) is)"

lemma plain_info [simp]: "plain (info_of l i) = info_of False i" "info_name (info_of l i) = ci_name i"
  by (simp_all add: plain_def info_of_def)

lemma follow_pointwise: "v k = v' k \<Longrightarrow> fold follow cs v k = fold follow cs v' k"
proof (induction cs arbitrary: v v')
  case (Cons c cs)
  have "follow c v k = follow c v' k" using Cons.prems by (cases c) simp_all
  from Cons.IH [of "follow c v" "follow c v'", OF this] show ?case by simp
qed simp

lemma name_of_get: "registry_wf r \<Longrightarrow> get r k = Some i \<Longrightarrow> ci_name i = k"
  by (auto simp: get_conv_raw dest: registry_wfD split: option.splits if_splits)

lemma view_of_listing:
  assumes "registry_wf r" and "starts_with k p"
  shows "view_of (map (\<lambda>i. info_of (f i) i) (with_prefix r p)) k = live_view r k"
proof -
  let ?l = "with_prefix r p"
  have v: "view_of (map (\<lambda>i. info_of (f i) i) ?l) = map_of (map (\<lambda>i. (ci_name i, info_of False i)) ?l)"
    unfolding view_of_def map_map by (rule arg_cong [where f = map_of]) simp
  have d: "distinct (map fst (map (\<lambda>i. (ci_name i, info_of False i)) ?l))"
    using with_prefix_ordered [OF assms(1), of p] by (simp add: comp_def strict_sorted_iff)
  show ?thesis
  proof (cases "get r k")
    case None
    then have "\<forall>i\<in>set ?l. ci_name i \<noteq> k"
      using name_of_get [OF assms(1)] by (auto simp: set_with_prefix)
    then have "map_of (map (\<lambda>i. (ci_name i, info_of False i)) ?l) k = None" by (auto simp: map_of_eq_None_iff)
    with None v show ?thesis by (simp add: live_view_def)
  next
    case (Some i)
    then have "i \<in> set ?l" using assms(2) by (auto simp: set_with_prefix)
    moreover have "ci_name i = k"
      using name_of_get [OF assms(1) Some] .
    ultimately have "(k, info_of False i) \<in> set (map (\<lambda>i. (ci_name i, info_of False i)) ?l)" by auto
    with d have "map_of (map (\<lambda>i. (ci_name i, info_of False i)) ?l) k = Some (info_of False i)" by simp
    with Some v show ?thesis by (simp add: live_view_def)
  qed
qed

subsection \<open>Changes and their publication\<close>

text \<open>A thread that changes the registry does so under its lock, and publishes afterwards, without it: other
  threads may change the registry, publish and list in between, and two changes may be published in the
  other order. A publication may fail, and is then lost. So the state here is the node and what the
  threads have in hand: the entries that changes have put in the registry, in order; the numbers (from 0)
  of those that are not published yet; and the numbers of those that were, in the order of their records.\<close>

record ('t, 'w, 'r) disc =
  dv_node :: "('t, 'w, 'r) node"
  dv_made :: "channel_identity list"
  dv_pending :: "nat list"
  dv_published :: "nat list"

definition disc_start :: "('t, 'w, 'r) node \<Rightarrow> ('t, 'w, 'r) disc" where
  "disc_start n = \<lparr>dv_node = n, dv_made = [], dv_pending = [], dv_published = []\<rparr>"

fun note_change :: "channel_identity option \<Rightarrow> ('t, 'w, 'r) node \<Rightarrow> ('t, 'w, 'r) disc \<Rightarrow> ('t, 'w, 'r) disc" where
  "note_change None n S = S\<lparr>dv_node := n\<rparr>"
| "note_change (Some e) n S =
     S\<lparr>dv_node := n, dv_made := dv_made S @ [e], dv_pending := dv_pending S @ [length (dv_made S)]\<rparr>"

text \<open>Whether a publication puts its record in the log.\<close>

definition appends :: "'t fs_api \<Rightarrow> ('t, 'w) writer_api \<Rightarrow> channel_change \<Rightarrow> ('t, 'w, 'r) node \<Rightarrow> bool" where
  "appends fs wapi change n =
     (case open_discovery fs wapi n of
        (Inl e, n1) \<Rightarrow> False
      | (Inr w, n1) \<Rightarrow>
          (case encode_change change of
             (msg_type, payload) \<Rightarrow>
               (case wr_try_reserve wapi (nd_fs n1) w (length payload) of
                  (Inl e, t2, w2) \<Rightarrow> False
                | (Inr _, t2, w2) \<Rightarrow>
                    (case wr_commit wapi t2 w2 payload msg_type (of_nat (length payload)) 0 of
                       (r, _, _) \<Rightarrow> \<not> isl r))))"

text \<open>Identities whose names are text of less than a gigabyte.\<close>

definition modest :: "channel_identity \<Rightarrow> bool" where
  "modest i \<longleftrightarrow> utf8_valid (ci_name i) \<and> length (ci_name i) < 2 ^ 30 \<and>
     (\<forall>t. ci_member_of i = Some t \<longrightarrow> utf8_valid t \<and> length t < 2 ^ 30)"

text \<open>What leaves the registry and the discovery log alone. The parameter \<open>ready\<close> says that a writer is the
  discovery log's.\<close>

definition apart ::
  "('t, 'w) writer_view \<Rightarrow> ('t \<Rightarrow> 'w \<Rightarrow> bool) \<Rightarrow> ('t, 'w, 'r) node \<Rightarrow> ('t, 'w, 'r) node \<Rightarrow> bool" where
  "apart v ready n n' \<longleftrightarrow> nd_config n' = nd_config n \<and> nd_registry n' = nd_registry n \<and> nd_discovery n' = nd_discovery n \<and>
     (\<forall>w. nd_discovery n = Some w \<longrightarrow> ready (nd_fs n) w \<longrightarrow>
        ready (nd_fs n') w \<and> wv_log v (nd_fs n') w = wv_log v (nd_fs n) w)"

text \<open>One step of one thread: the part of an operation that holds the registry's lock (a merge, a
  deregistration, a reaping); the publication of a change some thread has made, described as the node was
  at some moment in between; the removal of a channel's directory; anything that leaves both alone.\<close>

inductive disc_step ::
  "('t, 'w) outside \<Rightarrow> ('t, 'w) writer_view \<Rightarrow> ('t \<Rightarrow> 'w \<Rightarrow> bool) \<Rightarrow> ('t, 'w, 'r) disc \<Rightarrow> ('t, 'w, 'r) disc \<Rightarrow> bool"
  for os v ready where
  merged: "merge_tracked (nd_registry (dv_node S)) i = (m, reg) \<Longrightarrow> modest i \<Longrightarrow>
     disc_step os v ready S
       (note_change (if changed m then Some (winner m) else None) ((dv_node S)\<lparr>nd_registry := reg\<rparr>) S)"
| deregistered: "deregister (nd_registry (dv_node S)) name (self_id (dv_node S)) = (tomb, reg) \<Longrightarrow>
     disc_step os v ready S (note_change tomb ((dv_node S)\<lparr>nd_registry := reg\<rparr>) S)"
| reaped: "reap (nd_registry (dv_node S)) name = (tomb, reg) \<Longrightarrow>
     disc_step os v ready S (note_change tomb ((dv_node S)\<lparr>nd_registry := reg\<rparr>) S)"
| published: "dv_pending S = xs @ i # ys \<Longrightarrow> change = change_of now (m :: ('t, 'w, 'r) node) (dv_made S ! i) \<Longrightarrow>
     disc_step os v ready S (S\<lparr>dv_node := publish_change (os_fs os) (os_writer os) change (dv_node S),
       dv_pending := xs @ ys,
       dv_published := dv_published S @ (if appends (os_fs os) (os_writer os) change (dv_node S) then [i] else [])\<rparr>)"
| removed: "disc_step os v ready S (S\<lparr>dv_node := remove_channel_dir os name (dv_node S)\<rparr>)"
| elsewhere: "apart v ready (dv_node S) n \<Longrightarrow> disc_step os v ready S (S\<lparr>dv_node := n\<rparr>)"

subsection \<open>The operations are made of such steps\<close>

text \<open>A thread on its own takes the node from \<open>n\<close> to \<open>n'\<close> and has nothing left to publish.\<close>

definition goes ::
  "('t, 'w) outside \<Rightarrow> ('t, 'w) writer_view \<Rightarrow> ('t \<Rightarrow> 'w \<Rightarrow> bool) \<Rightarrow> ('t, 'w, 'r) node \<Rightarrow> ('t, 'w, 'r) node \<Rightarrow> bool" where
  "goes os v ready n n' \<longleftrightarrow> (\<forall>S :: ('t, 'w, 'r) disc. dv_node S = n \<longrightarrow>
     (\<exists>S'. (disc_step os v ready)\<^sup>*\<^sup>* S S' \<and> dv_node S' = n' \<and> dv_pending S' = dv_pending S))"

lemma goes_refl [simp]: "goes os v ready n n"
  unfolding goes_def by blast

lemma goes_trans: "goes os v ready a b \<Longrightarrow> goes os v ready b c \<Longrightarrow> goes os v ready a c"
  unfolding goes_def by (metis rtranclp_trans)

lemma goes_step:
  fixes n :: "('t, 'w, 'r) node"
  assumes "\<And>S :: ('t, 'w, 'r) disc. dv_node S = n \<Longrightarrow> \<exists>S'. disc_step os v ready S S' \<and> dv_node S' = n' \<and> dv_pending S' = dv_pending S"
  shows "goes os v ready n n'"
  unfolding goes_def using assms by blast

definition beside :: "('t, 'w, 'r) node \<Rightarrow> ('t, 'w, 'r) node \<Rightarrow> bool" where
  "beside n n' \<longleftrightarrow> nd_config n' = nd_config n \<and> nd_registry n' = nd_registry n \<and> nd_discovery n' = nd_discovery n \<and>
     nd_fs n' = nd_fs n"

lemma beside_refl [simp]: "beside n n"
  by (simp add: beside_def)

lemma goes_beside: "beside n n' \<Longrightarrow> goes os v ready n n'"
  by (rule goes_step) (rule exI, rule conjI, rule elsewhere, auto simp: apart_def beside_def)

lemma goes_removed: "goes os v ready n (remove_channel_dir os name n)"
  by (rule goes_step) (rule exI, rule conjI, rule removed, auto)

text \<open>A change, and its publication after whatever else the thread does to its own state.\<close>

lemma goes_change:
  fixes n m :: "('t, 'w, 'r) node"
  assumes step: "\<And>S :: ('t, 'w, 'r) disc. dv_node S = n \<Longrightarrow>
      disc_step os v ready S (note_change (Some e) (n\<lparr>nd_registry := reg\<rparr>) S)"
    and "beside (n\<lparr>nd_registry := reg\<rparr>) n1"
  shows "goes os v ready n (publish_change (os_fs os) (os_writer os) (change_of now m e) n1)"
  unfolding goes_def
proof (intro allI impI)
  fix S :: "('t, 'w, 'r) disc" assume S: "dv_node S = n"
  let ?S1 = "note_change (Some e) (n\<lparr>nd_registry := reg\<rparr>) S"
  let ?S2 = "?S1\<lparr>dv_node := n1\<rparr>"
  have 1: "disc_step os v ready S ?S1" by (rule step [OF S])
  have 2: "disc_step os v ready ?S1 ?S2" by (rule elsewhere) (use assms(2) in \<open>simp add: apart_def beside_def\<close>)
  have "dv_pending ?S2 = dv_pending S @ length (dv_made S) # []" by simp
  from published [OF this refl, of os v ready now m] have
    "\<exists>S3. disc_step os v ready ?S2 S3 \<and> dv_node S3 = publish_change (os_fs os) (os_writer os) (change_of now m e) n1 \<and>
       dv_pending S3 = dv_pending S" by auto
  with 1 2 show "\<exists>S'. (disc_step os v ready)\<^sup>*\<^sup>* S S' \<and>
      dv_node S' = publish_change (os_fs os) (os_writer os) (change_of now m e) n1 \<and> dv_pending S' = dv_pending S"
    by (meson converse_rtranclp_into_rtranclp r_into_rtranclp)
qed

lemma goes_unchanged:
  fixes n :: "('t, 'w, 'r) node"
  assumes "\<And>S :: ('t, 'w, 'r) disc. dv_node S = n \<Longrightarrow>
      disc_step os v ready S (note_change None (n\<lparr>nd_registry := reg\<rparr>) S)"
    and "beside (n\<lparr>nd_registry := reg\<rparr>) n1"
  shows "goes os v ready n n1"
proof -
  have "goes os v ready n (n\<lparr>nd_registry := reg\<rparr>)" by (rule goes_step) (use assms(1) in fastforce)
  with goes_beside [OF assms(2)] show ?thesis by (blast intro: goes_trans)
qed

lemma merge_goes:
  fixes n :: "('t, 'w, 'r) node"
  assumes "modest i" and "n1 = n\<lparr>nd_registry := snd (merge_tracked (nd_registry n) i)\<rparr>"
    and "n2 = (if changed (fst (merge_tracked (nd_registry n) i))
      then publish_change (os_fs os) (os_writer os) (change_of now n1 (winner (fst (merge_tracked (nd_registry n) i)))) n1 else n1)"
  shows "goes os v ready n n2"
proof -
  obtain m reg where m: "merge_tracked (nd_registry n) i = (m, reg)" by fastforce
  have s: "disc_step os v ready S (note_change (if changed m then Some (winner m) else None) (n\<lparr>nd_registry := reg\<rparr>) S)"
    if "dv_node S = n" for S :: "('t, 'w, 'r) disc"
    using disc_step.merged [of S i m reg] m assms(1) that by simp
  have b: "beside (n\<lparr>nd_registry := reg\<rparr>) n1" by (simp add: beside_def assms(2) m)
  show ?thesis
  proof (cases "changed m")
    case True
    have "goes os v ready n (publish_change (os_fs os) (os_writer os) (change_of now n1 (winner m)) n1)"
      by (rule goes_change [OF _ b]) (use s True in simp)
    with True show ?thesis by (simp add: assms(3) m)
  next
    case False
    have "goes os v ready n n1" by (rule goes_unchanged [OF _ b]) (use s False in simp)
    with False show ?thesis by (simp add: assms(3) m)
  qed
qed

lemma claim_goes:
  assumes "claim_name (os_fs os) (os_writer os) now nanos name region_size mtu member_of n = (r, n')"
    and "utf8_valid name" and "length name < 2 ^ 30"
    and "\<forall>t. member_of = Some t \<longrightarrow> utf8_valid t \<and> length t < 2 ^ 30"
  shows "goes os v ready n n'"
proof (rule merge_goes [OF _ refl])
  let ?i = "\<lparr>ci_name = name, ci_owner = self_id n, ci_region_size = region_size, ci_mtu = mtu,
    ci_earliest_index = 0, ci_registered_at_nanos = nanos, ci_epoch = claim_epoch (nd_registry n) name,
    ci_deleted = False, ci_member_of = member_of\<rparr>"
  show "modest ?i" using assms(2-4) by (simp add: modest_def)
  let ?m = "merge_tracked (nd_registry n) ?i"
  show "n' = (if changed (fst ?m) then publish_change (os_fs os) (os_writer os)
        (change_of now (n\<lparr>nd_registry := snd ?m\<rparr>) (winner (fst ?m))) (n\<lparr>nd_registry := snd ?m\<rparr>)
      else n\<lparr>nd_registry := snd ?m\<rparr>)"
    using assms(1) by (simp add: claim_name_def Let_def case_prod_beta split: if_splits)
qed

lemma gossip_one_goes:
  "modest i \<Longrightarrow> goes os v ready (gs_node g) (gs_node (gossip_one (os_fs os) (os_writer os) now (l, i) g))"
  by (rule merge_goes [OF _ refl]) (simp_all add: gossip_one_def merge_and_publish_def case_prod_beta Let_def)

lemma gossip_fold_goes:
  "\<forall>(l, i)\<in>set pumped. modest i \<Longrightarrow>
    goes os v ready (gs_node g) (gs_node (fold (gossip_one (os_fs os) (os_writer os) now) pumped g))"
proof (induction pumped arbitrary: g)
  case (Cons p pumped)
  obtain l i where p: "p = (l, i)" by fastforce
  with Cons.prems have "goes os v ready (gs_node g) (gs_node (gossip_one (os_fs os) (os_writer os) now (l, i) g))"
    by (auto intro: gossip_one_goes)
  with Cons p show ?case by (auto intro: goes_trans)
qed simp

lemma retire_beside: "beside n (retire_subscription name n)"
  by (simp add: beside_def retire_subscription_def attach_now_def unsubscribe_def stop_sub_def split: option.split)

lemma beside_trans: "beside a b \<Longrightarrow> beside b c \<Longrightarrow> beside a c"
  by (simp add: beside_def)

lemma retire_all_beside: "beside n (fold retire_subscription names n)"
proof (induction names arbitrary: n)
  case (Cons name names)
  from beside_trans [OF retire_beside Cons [of "retire_subscription name n"]] show ?case by simp
qed (simp add: beside_def)

lemma gossip_goes:
  assumes "\<forall>(l, i)\<in>set pumped. modest i" and "gossip_pass (os_fs os) (os_writer os) now pumped n = Some n'"
  shows "goes os v ready n n'"
proof -
  let ?g = "gossip_merge (os_fs os) (os_writer os) now pumped n"
  have g: "goes os v ready n (gs_node ?g)"
    using gossip_fold_goes [OF assms(1), where
        g = "\<lparr>gs_node = n, gs_relay = RBT.empty, gs_reply = RBT.empty, gs_retired = []\<rparr>"]
    by (simp add: gossip_merge_def)
  from assms(2) obtain d where n': "n' = fold retire_subscription (gs_retired ?g) ((gs_node ?g)\<lparr>nd_bcast := d\<rparr>)"
    by (auto simp: gossip_pass_def Let_def bind_eq_Some_conv)
  have "beside (gs_node ?g) ((gs_node ?g)\<lparr>nd_bcast := d\<rparr>)" by (simp add: beside_def)
  from goes_beside [OF beside_trans [OF this retire_all_beside [of _ "gs_retired ?g"]]] show ?thesis
    unfolding n' by (rule goes_trans [OF g])
qed

text \<open>A tombstone put in the registry and disseminated.\<close>

lemma tombstone_goes:
  fixes n :: "('t, 'w, 'r) node"
  assumes "\<And>S :: ('t, 'w, 'r) disc. dv_node S = n \<Longrightarrow>
      disc_step os v ready S (note_change (Some e) (n\<lparr>nd_registry := reg\<rparr>) S)"
    and "beside (n\<lparr>nd_registry := reg\<rparr>) n1" and "disseminate_tombstone os now e n1 = Some (r, n')"
  shows "r = Inr () \<and> goes os v ready n n'"
proof -
  let ?p = "publish_change (os_fs os) (os_writer os) (change_of now n1 e) n1"
  from assms(3) obtain d where n': "n' = ?p\<lparr>nd_bcast := d\<rparr>" "r = Inr ()"
    by (auto simp: disseminate_tombstone_def act_bind_Some node_announce_def)
  have "goes os v ready n ?p" by (rule goes_change [OF assms(1,2)])
  moreover have "goes os v ready ?p n'" by (rule goes_beside) (simp add: n'(1) beside_def)
  ultimately show ?thesis using n'(2) goes_trans by blast
qed

lemma deregister_goes:
  fixes n :: "('t, 'w, 'r) node"
  assumes "node_deregister os now name n = Some (r, n')"
  shows "goes os v ready n n'"
proof -
  obtain tomb reg where t: "deregister (nd_registry n) name (self_id n) = (tomb, reg)" by fastforce
  have s: "disc_step os v ready S (note_change tomb (n\<lparr>nd_registry := reg\<rparr>) S)" if "dv_node S = n" for S :: "('t, 'w, 'r) disc"
    using disc_step.deregistered [of S name tomb reg] t that by simp
  show ?thesis
  proof (cases tomb)
    case None
    have "goes os v ready n (n\<lparr>nd_registry := reg\<rparr>)"
      by (rule goes_unchanged) (use s None in \<open>simp_all add: beside_def\<close>)
    with assms t None show ?thesis by (simp add: node_deregister_def)
  next
    case (Some e)
    let ?n1 = "n\<lparr>nd_registry := reg, nd_hosted := (nd_hosted n)(name := None)\<rparr>"
    from assms t Some obtain q n2 where d: "disseminate_tombstone os now e ?n1 = Some (q, n2)"
      and n': "(\<exists>x. q = Inl x) \<or> n' = remove_channel_dir os name n2"
      by (auto simp: node_deregister_def act_bind_Some)
    have "q = Inr () \<and> goes os v ready n n2"
      by (rule tombstone_goes [OF _ _ d]) (use s Some in \<open>simp_all add: beside_def\<close>)
    with n' show ?thesis using goes_removed goes_trans by blast
  qed
qed

lemma reap_goes:
  fixes n :: "('t, 'w, 'r) node"
  assumes "beside n n0" and "reap (nd_registry n0) name = (tomb, reg)" and "beside (n0\<lparr>nd_registry := reg\<rparr>) n1"
  shows "tomb = None \<Longrightarrow> goes os v ready n n1"
    and "tomb = Some e \<Longrightarrow> disseminate_tombstone os now e n1 = Some (r, n') \<Longrightarrow> r = Inr () \<and> goes os v ready n n'"
proof -
  have s: "disc_step os v ready S (note_change tomb (n0\<lparr>nd_registry := reg\<rparr>) S)" if "dv_node S = n0" for S :: "('t, 'w, 'r) disc"
    using disc_step.reaped [of S name tomb reg] assms(2) that by simp
  note b = goes_trans [OF goes_beside [OF assms(1)]]
  show "tomb = None \<Longrightarrow> goes os v ready n n1"
    by (rule b, rule goes_unchanged [OF _ assms(3)]) (use s in simp)
  show "tomb = Some e \<Longrightarrow> disseminate_tombstone os now e n1 = Some (r, n') \<Longrightarrow> r = Inr () \<and> goes os v ready n n'"
    using tombstone_goes [OF _ assms(3)] s b by blast
qed

lemma force_goes:
  assumes "force_deregister os now name n = Some (r, n')"
  shows "goes os v ready n n'"
proof (cases "get (nd_registry n) name")
  case None
  with assms show ?thesis by (simp add: force_deregister_def)
next
  case (Some i)
  define n1 where "n1 = snd (unreachable_for now (ci_owner i) n)"
  have 1: "beside n n1" by (simp add: n1_def beside_def unreachable_for_def split: option.split)
  obtain tomb reg where t: "reap (nd_registry n1) name = (tomb, reg)" by fastforce
  let ?n2 = "n1\<lparr>nd_registry := reg\<rparr>"
  have b: "beside ?n2 ?n2" by (simp add: beside_def)
  let ?act = "\<lambda>e. act_bind (disseminate_tombstone os now e) (\<lambda>_. act_bind (act_modify (retire_subscription name)) (\<lambda>_. act_return True))"
  have "n' = n \<or> n' = n1 \<or> (case tomb of None \<Rightarrow> n' = ?n2 | Some e \<Rightarrow> ?act e ?n2 = Some (r, n'))"
    using assms by (cases tomb)
      (simp_all add: force_deregister_def Some case_prod_beta Let_def t n1_def [symmetric] split: if_splits)
  then consider (quiet) "beside n n'" | (nothing) "tomb = None" "n' = ?n2"
    | (gone) e where "tomb = Some e" "?act e ?n2 = Some (r, n')"
    using 1 beside_refl by (cases tomb) force+
  then show ?thesis
  proof cases
    case quiet
    then show ?thesis by (rule goes_beside)
  next
    case nothing
    with reap_goes(1) [OF 1 t b] show ?thesis by simp
  next
    case (gone e)
    then obtain q n3 where d: "disseminate_tombstone os now e ?n2 = Some (q, n3)"
      and n': "(\<exists>x. q = Inl x) \<or> n' = retire_subscription name n3"
      unfolding act_bind_Some by auto
    from reap_goes(2) [OF 1 t b gone(1) d, of v ready] n' show ?thesis
      using goes_beside [OF retire_beside, of os v ready n3 name] goes_trans by blast
  qed
qed

lemma reap_member_goes:
  assumes "reap_member os now reap_after m n = Some n'"
  shows "goes os v ready n n'"
proof -
  let ?n1 = "n\<lparr>nd_member_dead_since := (nd_member_dead_since n)((ci_name m, ci_epoch m) := None)\<rparr>"
  have b: "beside n ?n1" "beside (?n1\<lparr>nd_registry := reg\<rparr>) (?n1\<lparr>nd_registry := reg\<rparr>)" for reg by (simp_all add: beside_def)
  obtain tomb reg where t: "reap (nd_registry ?n1) (ci_name m) = (tomb, reg)" by fastforce
  have "beside n n' \<or> (case tomb of None \<Rightarrow> n' = ?n1\<lparr>nd_registry := reg\<rparr>
      | Some e \<Rightarrow> \<exists>r. disseminate_tombstone os now e (?n1\<lparr>nd_registry := reg\<rparr>) = Some (r, n'))"
    using assms t by (cases tomb) (auto simp: reap_member_def Let_def beside_def split: if_splits)
  then consider (quiet) "beside n n'" | (nothing) "tomb = None" "n' = ?n1\<lparr>nd_registry := reg\<rparr>"
    | (gone) e r where "tomb = Some e" "disseminate_tombstone os now e (?n1\<lparr>nd_registry := reg\<rparr>) = Some (r, n')"
    by (cases tomb) (simp_all, blast+)
  then show ?thesis
  proof cases
    case quiet
    then show ?thesis by (rule goes_beside)
  next
    case nothing
    with reap_goes(1) [OF b(1) t b(2)] show ?thesis by simp
  next
    case gone
    from reap_goes(2) [OF b(1) t b(2) gone] show ?thesis by simp
  qed
qed

lemma reap_members_goes: "reap_members os now reap_after ms n = Some n' \<Longrightarrow> goes os v ready n n'"
proof (induction ms arbitrary: n)
  case (Cons m ms)
  then obtain n1 where "reap_member os now reap_after m n = Some n1" "reap_members os now reap_after ms n1 = Some n'"
    by (auto simp: bind_eq_Some_conv)
  from goes_trans [OF reap_member_goes [OF this(1)] Cons.IH [OF this(2)]] show ?case .
qed simp

lemma reap_topics_goes: "reap_topics os now ts n = Some n' \<Longrightarrow> goes os v ready n n'"
proof (induction ts arbitrary: n)
  case (Cons t ts)
  then obtain n1 where "reap_members os now (snd t) (topic_members (fst t) n) n = Some n1" "reap_topics os now ts n1 = Some n'"
    by (cases t) (auto simp: bind_eq_Some_conv)
  from goes_trans [OF reap_members_goes [OF this(1)] Cons.IH [OF this(2)]] show ?case .
qed simp

text \<open>Every operation that changes names, run by a thread on its own, is a sequence of these steps.\<close>

lemma operations_go:
  "claim_name (os_fs os) (os_writer os) now nanos name region_size mtu member_of n = (r, n') \<Longrightarrow> utf8_valid name \<Longrightarrow>
     length name < 2 ^ 30 \<Longrightarrow> (\<forall>t. member_of = Some t \<longrightarrow> utf8_valid t \<and> length t < 2 ^ 30) \<Longrightarrow> goes os v ready n n'"
  "gossip_pass (os_fs os) (os_writer os) now pumped n = Some n' \<Longrightarrow> \<forall>(l, i)\<in>set pumped. modest i \<Longrightarrow> goes os v ready n n'"
  "node_deregister os now name n = Some (q, n') \<Longrightarrow> goes os v ready n n'"
  "force_deregister os now name n = Some (q, n') \<Longrightarrow> goes os v ready n n'"
  "reap_dead_members os now n = Some n' \<Longrightarrow> goes os v ready n n'"
  by (rule claim_goes gossip_goes deregister_goes force_goes, assumption+)+
     (simp add: reap_dead_members_def reap_topics_goes)

subsection \<open>The registry holds the last change made\<close>

definition latest :: "channel_identity list \<Rightarrow> registry \<Rightarrow> rstring \<Rightarrow> channel_identity option" where
  "latest made r0 k =
     (let es = filter (\<lambda>e. ci_name e = k) made in if es = [] then get_raw r0 k else Some (last es))"

lemma latest_snoc: "latest (made @ [e]) r0 k = (if k = ci_name e then Some e else latest made r0 k)"
  by (auto simp: latest_def Let_def)

text \<open>The state is in order: the data directory is \<open>d\<close>, the registry is keyed by name and is what the changes
  made of the one the daemon started with, changes pending or published are changes made, and a writer of
  the log is one.\<close>

definition disc_inv :: "('t \<Rightarrow> 'w \<Rightarrow> bool) \<Rightarrow> path \<Rightarrow> registry \<Rightarrow> ('t, 'w, 'r) disc \<Rightarrow> bool" where
  "disc_inv ready d r0 S \<longleftrightarrow> cfg_data_dir (nd_config (dv_node S)) = d \<and>
     registry_wf (nd_registry (dv_node S)) \<and> (\<forall>k. get_raw (nd_registry (dv_node S)) k = latest (dv_made S) r0 k) \<and>
     (\<forall>k e. get_raw (nd_registry (dv_node S)) k = Some e \<longrightarrow> modest e) \<and> list_all modest (dv_made S) \<and>
     (\<forall>i\<in>set (dv_pending S) \<union> set (dv_published S). i < length (dv_made S)) \<and>
     (\<forall>w. nd_discovery (dv_node S) = Some w \<longrightarrow> ready (nd_fs (dv_node S)) w)"

text \<open>What one locked step does to a registry.\<close>

definition reg_change :: "registry \<Rightarrow> channel_identity option \<Rightarrow> registry \<Rightarrow> bool" where
  "reg_change r c r' \<longleftrightarrow> (\<forall>e. c = Some e \<longrightarrow> modest e) \<and>
     (\<forall>k. get_raw r' k = (case c of Some e \<Rightarrow> if k = ci_name e then Some e else get_raw r k | None \<Rightarrow> get_raw r k))"

lemma note_change_node [simp]: "dv_node (note_change c n S) = n"
  by (cases c) simp_all

lemma note_inv:
  assumes "disc_inv ready d r0 S" and "reg_change (nd_registry (dv_node S)) c reg"
  shows "disc_inv ready d r0 (note_change c ((dv_node S)\<lparr>nd_registry := reg\<rparr>) S)"
  using assms
  by (cases c) (auto simp: disc_inv_def reg_change_def registry_wf_def latest_snoc less_Suc_eq split: if_splits)

lemma merge_change:
  assumes "registry_wf r" and "\<forall>k e. get_raw r k = Some e \<longrightarrow> modest e" and "merge_tracked r i = (m, reg)" and "modest i"
  shows "reg_change r (if changed m then Some (winner m) else None) reg"
proof -
  have m: "winner m = win r i" "changed m \<longleftrightarrow> moves r i" "reg = snd (merge r i)"
    using assms(3) fst_merge_tracked [of r i] snd_merge_tracked [of r i] by (simp_all add: win_def moves_def)
  have "modest (win r i)"
    using assms(2,4) by (cases "get_raw r (ci_name i)") (auto simp: win_none win_some)
  moreover have "get_raw reg k = (if k = ci_name i then Some (win r i) else get_raw r k)" for k
    using get_raw_win [OF assms(1)] by (simp add: m(3))
  ultimately show ?thesis
    using moves_iff [OF assms(1), of i] name_win [OF assms(1), of i] by (auto simp: reg_change_def m(1,2))
qed

lemma tomb_change:
  assumes "registry_wf r" and "\<forall>k e. get_raw r k = Some e \<longrightarrow> modest e"
    and "deregister r name self = (tomb, reg) \<or> reap r name = (tomb, reg)"
  shows "reg_change r tomb reg"
proof -
  consider "tomb = None" "reg = r" | e where "get r name = Some e" "tomb = Some (e\<lparr>ci_deleted := True\<rparr>)"
    "reg = snd (merge r (e\<lparr>ci_deleted := True\<rparr>))"
    using assms(3) by (auto simp: deregister_cases [OF assms(1)] reap_cases [OF assms(1)] split: option.splits if_splits)
  then show ?thesis
  proof cases
    case (2 e)
    then have raw: "get_raw r name = Some e" "\<not> ci_deleted e" by (auto simp: get_conv_raw split: option.splits if_splits)
    then have "modest (e\<lparr>ci_deleted := True\<rparr>)" using assms(2) by (auto simp: modest_def)
    with merge_tombstone(2) [OF assms(1) raw] registry_wfD [OF assms(1) raw(1)] 2 show ?thesis
      by (auto simp: reg_change_def)
  qed (simp add: reg_change_def)
qed

subsection \<open>What a publication appends\<close>

definition change_msg :: "channel_change \<Rightarrow> xmsg" where
  "change_msg c = \<lparr>xm_type = fst (encode_change c), xm_meta = 0, xm_payload = snd (encode_change c)\<rparr>"

definition change_fits :: "channel_change \<Rightarrow> bool" where
  "change_fits c \<longleftrightarrow> change_ok c \<and> length (snd (encode_change c)) < 2 ^ 32"

lemma modest_fits: "modest i \<Longrightarrow> change_fits (change_of now n i)"
  by (auto simp: change_fits_def change_of_def modest_def info_of_def info_ok_def str_ok_def opt_str_ok_def
      short_def put_info_image info_image_def enc_simps split: option.splits)

text \<open>The laws of the discovery log's writer. What is opened at its path is one; it stays one whatever it is
  asked and however that ends, and a reservation or a commit that fails appends nothing. Removing a
  channel's directory leaves that log alone.\<close>

definition log_stays ::
  "('t, 'w) writer_api \<Rightarrow> ('t, 'w) writer_view \<Rightarrow> ('t \<Rightarrow> 'w \<Rightarrow> bool) \<Rightarrow> path \<Rightarrow> bool" where
  "log_stays wapi v ready d \<longleftrightarrow>
     (\<forall>t g t' w. wr_build wapi t (discovery_log d) (discovery_config g) = (Inr w, t') \<longrightarrow> ready t' w) \<and>
     (\<forall>t w k r t' w'. ready t w \<longrightarrow> wr_try_reserve wapi t w k = (r, t', w') \<longrightarrow> ready t' w' \<and>
        (isl r \<longrightarrow> wv_log v t' w' = wv_log v t w \<and> wr_next_index wapi w' = wr_next_index wapi w)) \<and>
     (\<forall>t w b ty len meta r t' w'. ready t w \<longrightarrow> wr_commit wapi t w b ty len meta = (r, t', w') \<longrightarrow> ready t' w' \<and>
        (isl r \<longrightarrow> wv_log v t' w' = wv_log v t w \<and> wr_next_index wapi w' = wr_next_index wapi w))"

lemma log_staysD:
  assumes "log_stays wapi v ready d"
  shows "wr_build wapi t (discovery_log d) (discovery_config g) = (Inr w, t') \<Longrightarrow> ready t' w"
    and "ready t w \<Longrightarrow> wr_try_reserve wapi t w k = (r, t', w') \<Longrightarrow> ready t' w' \<and>
        (isl r \<longrightarrow> wv_log v t' w' = wv_log v t w \<and> wr_next_index wapi w' = wr_next_index wapi w)"
    and "ready t w \<Longrightarrow> wr_commit wapi t w b ty len meta = (r, t', w') \<Longrightarrow> ready t' w' \<and>
        (isl r \<longrightarrow> wv_log v t' w' = wv_log v t w \<and> wr_next_index wapi w' = wr_next_index wapi w)"
  using assms unfolding log_stays_def by blast+

definition log_apart :: "('t, 'w) outside \<Rightarrow> ('t, 'w) writer_view \<Rightarrow> ('t \<Rightarrow> 'w \<Rightarrow> bool) \<Rightarrow> path \<Rightarrow> bool" where
  "log_apart os v ready data_dir \<longleftrightarrow>
     (\<forall>t w name dir. channel_dir (os_name_max os) data_dir name = Inr dir \<longrightarrow> ready t w \<longrightarrow>
        ready (snd (fs_remove_dir_all (os_fs os) t dir)) w \<and>
        wv_log v (snd (fs_remove_dir_all (os_fs os) t dir)) w = wv_log v t w)"

lemma remove_apart:
  assumes "log_apart os v ready (cfg_data_dir (nd_config n))"
  shows "apart v ready n (remove_channel_dir os name n)"
  using assms by (auto simp: apart_def remove_channel_dir_def log_apart_def split: sum.split)

lemma open_ready:
  assumes "log_stays wapi v ready (cfg_data_dir (nd_config n))" and "\<forall>w. nd_discovery n = Some w \<longrightarrow> ready (nd_fs n) w"
    and "open_discovery fs wapi n = (r, n1)"
  shows "\<forall>w. nd_discovery n1 = Some w \<longrightarrow> ready (nd_fs n1) w" and "r = Inr w \<Longrightarrow> nd_discovery n1 = Some w"
    and "nd_registry n1 = nd_registry n" "nd_config n1 = nd_config n"
proof -
  show "\<forall>w. nd_discovery n1 = Some w \<longrightarrow> ready (nd_fs n1) w"
  proof (cases "nd_discovery n")
    case None
    with assms(3) log_staysD(1) [OF assms(1)] show ?thesis
      by (auto simp: open_discovery_def Let_def split: prod.splits sum.splits)
  qed (use assms(2,3) in \<open>auto simp: open_discovery_def\<close>)
qed (use assms(3) in \<open>auto simp: open_discovery_def Let_def split: option.splits prod.splits sum.splits\<close>)

text \<open>A publication appends its record, or nothing.\<close>

lemma publish_appends:
  fixes n :: "('t, 'w, 'r) node"
  assumes laws: "writer_laws wapi v" "log_stays wapi v ready (cfg_data_dir (nd_config n))"
    and ok: "\<forall>w. nd_discovery n = Some w \<longrightarrow> ready (nd_fs n) w" and fits: "change_fits c"
    and n'_def: "n' = publish_change fs wapi c n"
  shows "\<forall>w. nd_discovery n' = Some w \<longrightarrow> ready (nd_fs n') w"
    and "nd_discovery n = Some w \<Longrightarrow> \<exists>w'. nd_discovery n' = Some w' \<and>
      map snd (wv_log v (nd_fs n') w') = map snd (wv_log v (nd_fs n) w) @ map change_msg (if appends fs wapi c n then [c] else []) \<and>
      wr_next_index wapi w' = wr_next_index wapi w + of_nat (length (if appends fs wapi c n then [c] else []))"
proof -
  obtain r n1 where o: "open_discovery fs wapi n = (r, n1)" by fastforce
  note op = open_ready [OF laws(2) ok o]
  obtain ty p where e: "encode_change c = (ty, p)" by fastforce
  have len: "unat (of_nat (length p) :: u32) = length p"
    using fits e by (intro unat_of_nat_small) (simp add: change_fits_def)
  have all: "(\<forall>w. nd_discovery n' = Some w \<longrightarrow> ready (nd_fs n') w) \<and>
      (\<forall>w. r = Inr w \<longrightarrow> (\<exists>w'. nd_discovery n' = Some w' \<and>
        map snd (wv_log v (nd_fs n') w') = map snd (wv_log v (nd_fs n1) w) @ map change_msg (if appends fs wapi c n then [c] else []) \<and>
        wr_next_index wapi w' = wr_next_index wapi w + of_nat (length (if appends fs wapi c n then [c] else []))))"
  proof (cases r)
    case (Inl x)
    with op(1) show ?thesis by (simp add: n'_def publish_change_def o)
  next
    case (Inr w)
    have w: "ready (nd_fs n1) w" using op(1) op(2) [OF Inr] by simp
    obtain a t2 w2 where a: "wr_try_reserve wapi (nd_fs n1) w (length p) = (a, t2, w2)" by (metis prod_cases3)
    obtain b t3 w3 where b: "wr_commit wapi t2 w2 p ty (of_nat (length p)) 0 = (b, t3, w3)" by (metis prod_cases3)
    note l2 = log_staysD(2) [OF laws(2) w a] and l3 = log_staysD(3) [OF laws(2) _ b]
    show ?thesis
    proof (cases a)
      case (Inl x)
      with l2 show ?thesis by (simp add: n'_def publish_change_def appends_def o Inr e a)
    next
      case a': (Inr u)
      have k: "wv_log v t2 w2 = wv_log v (nd_fs n1) w" "wr_next_index wapi w2 = wr_next_index wapi w"
        using writer_lawsD(2) [OF laws(1)] a a' by simp_all
      have n': "nd_discovery n' = Some w3" "nd_fs n' = t3" "appends fs wapi c n \<longleftrightarrow> \<not> isl b"
        by (simp_all add: n'_def publish_change_def appends_def o Inr e a a' b)
      show ?thesis
      proof (cases b)
        case (Inl x)
        with l2 l3 k n' Inr show ?thesis by simp
      next
        case (Inr y)
        with writer_lawsD(3) [OF laws(1), of t2 w2 p ty "of_nat (length p)" 0 t3 w3] b l2 l3 k n' len \<open>r = Inr w\<close> show ?thesis
          by (auto simp: change_msg_def e)
      qed
    qed
  qed
  then show "\<forall>w. nd_discovery n' = Some w \<longrightarrow> ready (nd_fs n') w" by blast
  show "\<exists>w'. nd_discovery n' = Some w' \<and>
      map snd (wv_log v (nd_fs n') w') = map snd (wv_log v (nd_fs n) w) @ map change_msg (if appends fs wapi c n then [c] else []) \<and>
      wr_next_index wapi w' = wr_next_index wapi w + of_nat (length (if appends fs wapi c n then [c] else []))"
    if "nd_discovery n = Some w"
    using that o all by (simp add: open_discovery_def)
qed

lemma step_inv:
  assumes "writer_laws (os_writer os) v" and "log_stays (os_writer os) v ready d" and "log_apart os v ready d"
    and "disc_inv ready d r0 S" and "disc_step os v ready S S'"
  shows "disc_inv ready d r0 S'"
  using assms(5)
proof cases
  case (merged i m reg)
  with assms(4) merge_change [of "nd_registry (dv_node S)" i m reg] show ?thesis
    unfolding merged(1) by (intro note_inv [OF assms(4)]) (simp add: disc_inv_def)
next
  case (deregistered name tomb reg)
  with assms(4) tomb_change [of "nd_registry (dv_node S)" name _ tomb reg] show ?thesis
    unfolding deregistered(1) by (intro note_inv [OF assms(4)]) (auto simp: disc_inv_def)
next
  case (reaped name tomb reg)
  with assms(4) tomb_change [of "nd_registry (dv_node S)" name _ tomb reg] show ?thesis
    unfolding reaped(1) by (intro note_inv [OF assms(4)]) (auto simp: disc_inv_def)
next
  case (published xs i ys change now m)
  have i: "i < length (dv_made S)" and d: "cfg_data_dir (nd_config (dv_node S)) = d"
    and ok: "\<forall>w. nd_discovery (dv_node S) = Some w \<longrightarrow> ready (nd_fs (dv_node S)) w"
    using assms(4) published(2) by (auto simp: disc_inv_def)
  have fits: "change_fits change"
    using assms(4) i unfolding published(3) by (intro modest_fits) (simp add: disc_inv_def list_all_length)
  have st: "log_stays (os_writer os) v ready (cfg_data_dir (nd_config (dv_node S)))" using assms(2) d by simp
  have "\<forall>w. nd_discovery (publish_change (os_fs os) (os_writer os) change (dv_node S)) = Some w \<longrightarrow>
      ready (nd_fs (publish_change (os_fs os) (os_writer os) change (dv_node S))) w"
    by (rule publish_appends(1) [OF assms(1) st ok fits refl])
  with assms(4) i published(2) show ?thesis
    unfolding published(1) by (auto simp: disc_inv_def)
next
  case (removed name)
  with assms(3,4) remove_apart [of os v ready "dv_node S" name] show ?thesis
    by (auto simp: disc_inv_def apart_def)
next
  case (elsewhere n)
  with assms(4) show ?thesis by (auto simp: disc_inv_def apart_def)
qed

subsection \<open>The log since the listing\<close>

text \<open>A record says what an entry was.\<close>

definition says :: "channel_identity \<Rightarrow> channel_change \<Rightarrow> bool" where
  "says e c \<longleftrightarrow> (\<exists>live. c = (if ci_deleted e then Removed (ci_name e) (ci_epoch e) else Upserted (info_of live e)))"

lemma says_change: "says e (change_of now n e)"
  by (auto simp: says_def change_of_def)

lemma follow_says:
  "says e c \<Longrightarrow> follow c v k = (if k = ci_name e then if ci_deleted e then None else Some (info_of False e) else v k)"
  by (auto simp: says_def)

lemma follow_last:
  "list_all2 says es cs \<Longrightarrow> fold follow cs v k =
     (let ks = filter (\<lambda>e. ci_name e = k) es in
      if ks = [] then v k else if ci_deleted (last ks) then None else Some (info_of False (last ks)))"
proof (induction arbitrary: v rule: list_all2_induct)
  case (Cons e es c cs)
  then show ?case by (auto simp: follow_says Let_def)
qed simp

text \<open>From \<open>S1\<close> to \<open>S\<close> the log grew by one record for every change published in between, in that order.\<close>

definition log_since ::
  "('t, 'w) writer_api \<Rightarrow> ('t, 'w) writer_view \<Rightarrow> ('t, 'w, 'r) disc \<Rightarrow> ('t, 'w, 'r) disc \<Rightarrow> channel_change list \<Rightarrow> bool" where
  "log_since wapi v S1 S cs \<longleftrightarrow>
     (\<exists>later new w1 w. dv_made S = dv_made S1 @ later \<and> dv_published S = dv_published S1 @ new \<and>
        list_all2 says (map ((!) (dv_made S)) new) cs \<and> list_all change_fits cs \<and>
        nd_discovery (dv_node S1) = Some w1 \<and> nd_discovery (dv_node S) = Some w \<and>
        map snd (wv_log v (nd_fs (dv_node S)) w) = map snd (wv_log v (nd_fs (dv_node S1)) w1) @ map change_msg cs \<and>
        wr_next_index wapi w = wr_next_index wapi w1 + of_nat (length cs))"

lemma log_since_refl: "nd_discovery (dv_node S) = Some w \<Longrightarrow> log_since wapi v S S []"
  by (simp add: log_since_def)

lemma map_nth_append: "\<forall>i\<in>set is. i < length xs \<Longrightarrow> map ((!) (xs @ ys)) is = map ((!) xs) is"
  by (simp add: nth_append)

lemma log_since_note:
  assumes "log_since wapi v S1 S cs" and "disc_inv ready d r0 S"
    and "nd_discovery n = nd_discovery (dv_node S)" and "nd_fs n = nd_fs (dv_node S)"
  shows "log_since wapi v S1 (note_change c n S) cs"
proof -
  from assms(1) obtain later new w1 w where
    l: "dv_made S = dv_made S1 @ later" "dv_published S = dv_published S1 @ new"
      "list_all2 says (map ((!) (dv_made S)) new) cs" "list_all change_fits cs"
      "nd_discovery (dv_node S1) = Some w1" "nd_discovery (dv_node S) = Some w"
      "map snd (wv_log v (nd_fs (dv_node S)) w) = map snd (wv_log v (nd_fs (dv_node S1)) w1) @ map change_msg cs"
      "wr_next_index wapi w = wr_next_index wapi w1 + of_nat (length cs)"
    unfolding log_since_def by blast
  have "\<forall>i\<in>set new. i < length (dv_made S)" using assms(2) l(2) by (auto simp: disc_inv_def)
  note e = map_nth_append [OF this]
  show ?thesis
  proof (cases c)
    case None
    with l assms(3,4) show ?thesis unfolding log_since_def
      by (intro exI [of _ later] exI [of _ new] exI [of _ w1] exI [of _ w]) simp
  next
    case (Some x)
    have "list_all2 says (map ((!) (dv_made S @ [x])) new) cs" using l(3) by (simp only: e)
    then have "list_all2 says (map ((!) (dv_made S1 @ later @ [x])) new) cs" by (simp only: l(1) append_assoc)
    with Some l assms(3,4) show ?thesis unfolding log_since_def
      by (intro exI [of _ "later @ [x]"] exI [of _ new] exI [of _ w1] exI [of _ w]) simp
  qed
qed

lemma log_since_apart:
  assumes "log_since wapi v S1 S cs" and "disc_inv ready d r0 S" and "apart v ready (dv_node S) n"
  shows "log_since wapi v S1 (S\<lparr>dv_node := n\<rparr>) cs"
  using assms unfolding log_since_def disc_inv_def apart_def by auto

lemma log_since_step:
  assumes laws: "writer_laws (os_writer os) v" "log_stays (os_writer os) v ready d" "log_apart os v ready d"
    and inv: "disc_inv ready d r0 S" and l: "log_since (os_writer os) v S1 S cs" and "disc_step os v ready S S'"
  shows "\<exists>cs'. log_since (os_writer os) v S1 S' cs'"
  using assms(6)
proof cases
  case (merged i m reg)
  with log_since_note [OF l inv] show ?thesis by (intro exI [of _ cs]) simp
next
  case (deregistered name tomb reg)
  with log_since_note [OF l inv] show ?thesis by (intro exI [of _ cs]) simp
next
  case (reaped name tomb reg)
  with log_since_note [OF l inv] show ?thesis by (intro exI [of _ cs]) simp
next
  case (removed name)
  have "apart v ready (dv_node S) (remove_channel_dir os name (dv_node S))"
    using laws(3) inv by (intro remove_apart) (simp add: disc_inv_def)
  from log_since_apart [OF l inv this] removed show ?thesis by blast
next
  case (elsewhere n)
  with log_since_apart [OF l inv] show ?thesis by blast
next
  case (published xs i ys change now m)
  let ?n = "publish_change (os_fs os) (os_writer os) change (dv_node S)"
  let ?b = "appends (os_fs os) (os_writer os) change (dv_node S)"
  have i: "i < length (dv_made S)" and ok: "\<forall>w. nd_discovery (dv_node S) = Some w \<longrightarrow> ready (nd_fs (dv_node S)) w"
    using inv published(2) by (auto simp: disc_inv_def)
  have st: "log_stays (os_writer os) v ready (cfg_data_dir (nd_config (dv_node S)))" using laws(2) inv by (simp add: disc_inv_def)
  have fits: "change_fits change"
    using inv i unfolding published(3) by (intro modest_fits) (simp add: disc_inv_def list_all_length)
  from l obtain later new w1 w where
    s: "dv_made S = dv_made S1 @ later" "dv_published S = dv_published S1 @ new"
      "list_all2 says (map ((!) (dv_made S)) new) cs" "list_all change_fits cs"
      "nd_discovery (dv_node S1) = Some w1" "nd_discovery (dv_node S) = Some w"
      "map snd (wv_log v (nd_fs (dv_node S)) w) = map snd (wv_log v (nd_fs (dv_node S1)) w1) @ map change_msg cs"
      "wr_next_index (os_writer os) w = wr_next_index (os_writer os) w1 + of_nat (length cs)"
    unfolding log_since_def by blast
  from publish_appends(2) [OF laws(1) st ok fits refl s(6), where fs = "os_fs os"] obtain w' where
    w': "nd_discovery ?n = Some w'"
      "map snd (wv_log v (nd_fs ?n) w') = map snd (wv_log v (nd_fs (dv_node S)) w) @ map change_msg (if ?b then [change] else [])"
      "wr_next_index (os_writer os) w' = wr_next_index (os_writer os) w + of_nat (length (if ?b then [change] else []))"
    by blast
  have "says (dv_made S ! i) change" unfolding published(3) by (rule says_change)
  with s(3) have "list_all2 says (map ((!) (dv_made S)) (new @ (if ?b then [i] else []))) (cs @ (if ?b then [change] else []))"
    by (auto intro: list_all2_appendI)
  with s w' fits show ?thesis unfolding published(1) log_since_def
    by (intro exI [of _ "cs @ (if ?b then [change] else [])"] exI [of _ later] exI [of _ "new @ (if ?b then [i] else [])"]
        exI [of _ w1] exI [of _ w']) simp
qed

lemma steps_inv:
  assumes "writer_laws (os_writer os) v" and "log_stays (os_writer os) v ready d" and "log_apart os v ready d"
    and "disc_inv ready d r0 S" and "(disc_step os v ready)\<^sup>*\<^sup>* S S'"
  shows "disc_inv ready d r0 S'"
  using assms(5) by induction (use assms(4) step_inv [OF assms(1-3)] in blast)+

lemma steps_log_since:
  assumes "writer_laws (os_writer os) v" and "log_stays (os_writer os) v ready d" and "log_apart os v ready d"
    and "disc_inv ready d r0 S" and "nd_discovery (dv_node S) = Some w" and "(disc_step os v ready)\<^sup>*\<^sup>* S S'"
  shows "\<exists>cs. log_since (os_writer os) v S S' cs"
  using assms(6)
proof induction
  case base
  show ?case using log_since_refl [of S w "os_writer os" v, OF assms(5)] by blast
next
  case (step y z)
  then obtain cs where "log_since (os_writer os) v S y cs" by blast
  from log_since_step [OF assms(1-3) steps_inv [OF assms(1-4) step.hyps(1)] this step.hyps(2)] show ?case .
qed

text \<open>A name is settled when it was not changed at all, or the last of its changes is the last of them that
  was published: none of them is still to come, lost, or overtaken by an older one.\<close>

definition of_name :: "channel_identity list \<Rightarrow> rstring \<Rightarrow> nat list \<Rightarrow> nat list" where
  "of_name made k = filter (\<lambda>i. ci_name (made ! i) = k)"

definition settled :: "('t, 'w, 'r) disc \<Rightarrow> rstring \<Rightarrow> bool" where
  "settled S k \<longleftrightarrow>
     (let all = of_name (dv_made S) k [0..<length (dv_made S)]; out = of_name (dv_made S) k (dv_published S)
      in all = [] \<or> out \<noteq> [] \<and> last out = last all)"

lemma of_name_all: "map ((!) made) (of_name made k [0..<length made]) = filter (\<lambda>e. ci_name e = k) made"
proof -
  have "filter (\<lambda>e. ci_name e = k) (map ((!) made) [0..<length made]) = map ((!) made) (of_name made k [0..<length made])"
    by (simp add: filter_map of_name_def comp_def)
  then show ?thesis by (simp add: map_nth)
qed

lemma map_of_name: "map ((!) made) (of_name made k is) = filter (\<lambda>e. ci_name e = k) (map ((!) made) is)"
  by (simp add: of_name_def filter_map comp_def)

lemma latest_all:
  "latest made r0 k = (let all = of_name made k [0..<length made] in if all = [] then get_raw r0 k else Some (made ! last all))"
  using of_name_all [of made k] by (auto simp: latest_def Let_def last_map simp flip: of_name_all)

lemma le_last: "sorted xs \<Longrightarrow> x \<in> set xs \<Longrightarrow> x \<le> last xs"
  by (induction xs) auto

text \<open>The view of a settled name: the last record of it, or the listing when there is none.\<close>

lemma settled_view:
  assumes i1: "disc_inv ready d r0 S1" and i2: "disc_inv ready d r0 S2"
    and l: "log_since wapi v S1 S2 cs" and "settled S2 k"
  shows "fold follow cs (live_view (nd_registry (dv_node S1))) k = live_view (nd_registry (dv_node S2)) k"
proof -
  let ?made = "dv_made S2"
  let ?all = "of_name ?made k [0..<length ?made]"
  from l obtain later new where s: "?made = dv_made S1 @ later" "dv_published S2 = dv_published S1 @ new"
    "list_all2 says (map ((!) ?made) new) cs" unfolding log_since_def by blast
  have raw: "get_raw (nd_registry (dv_node S1)) k = latest (dv_made S1) r0 k" "get_raw (nd_registry (dv_node S2)) k = latest ?made r0 k"
    using i1 i2 by (simp_all add: disc_inv_def)
  have f: "filter (\<lambda>e. ci_name e = k) (map ((!) ?made) new) = map ((!) ?made) (of_name ?made k new)" by (simp add: map_of_name)
  show ?thesis
  proof (cases "of_name ?made k new = []")
    case False
    then have "of_name ?made k (dv_published S2) \<noteq> []" "last (of_name ?made k (dv_published S2)) = last (of_name ?made k new)"
      by (simp_all add: s(2) of_name_def)
    moreover have "?all \<noteq> []" using False i2 s(2) by (force simp: of_name_def filter_empty_conv disc_inv_def)
    ultimately have "last (of_name ?made k new) = last ?all" using assms(4) by (simp add: settled_def Let_def)
    with False \<open>?all \<noteq> []\<close> have "latest ?made r0 k = Some (?made ! last (of_name ?made k new))" by (simp add: latest_all Let_def)
    with False show ?thesis using follow_last [OF s(3)]
      by (simp add: f Let_def last_map live_view_def get_conv_raw raw(2))
  next
    case True
    have "filter (\<lambda>e. ci_name e = k) later = []"
    proof (rule ccontr)
      assume "filter (\<lambda>e. ci_name e = k) later \<noteq> []"
      then obtain j where j: "j < length later" "ci_name (later ! j) = k" by (auto simp: filter_empty_conv in_set_conv_nth)
      then have all: "length (dv_made S1) + j \<in> set ?all" by (simp add: of_name_def s(1) nth_append)
      then have "?all \<noteq> []" by auto
      then have out: "of_name ?made k (dv_published S1) \<noteq> []" "last (of_name ?made k (dv_published S1)) = last ?all"
        using assms(4) True by (simp_all add: settled_def Let_def s(2) of_name_def)
      then have "last ?all \<in> set (dv_published S1)" using last_in_set [OF out(1)] by (simp add: of_name_def)
      then have "last ?all < length (dv_made S1)" using i1 by (auto simp: disc_inv_def)
      moreover have "length (dv_made S1) + j \<le> last ?all" by (rule le_last [OF _ all]) (simp add: of_name_def sorted_wrt_filter)
      ultimately show False by simp
    qed
    then have "latest ?made r0 k = latest (dv_made S1) r0 k" by (simp add: latest_def s(1))
    with True show ?thesis using follow_last [OF s(3)] by (simp add: f Let_def live_view_def get_conv_raw raw)
  qed
qed

subsection \<open>Reading from the cursor\<close>

lemma read_next_cases:
  assumes "reader_laws api todo" and "\<forall>r e. fst (rd_try_read api t r) \<noteq> Inl e"
  obtains "rd_try_read api t r = (Inr None, r)" "todo t r = []"
  | b m r' where "rd_try_read api t r = (Inr (Some m), r')" "todo t r = (b, m) # todo t r'"
proof -
  obtain a r' where t: "rd_try_read api t r = (a, r')" by fastforce
  with assms(2) obtain x where a: "a = Inr x" by (cases a) (auto dest!: spec [of _ r])
  show thesis
  proof (cases x)
    case None
    with reader_lawsD(4) [OF assms(1)] t a that(1) show ?thesis by simp
  next
    case (Some m)
    with reader_lawsD(3) [OF assms(1)] t a have "advances api todo t r m r'" by simp
    then obtain b where "todo t r = (b, m) # todo t r'" by (auto simp: advances_def)
    with that(2) t a Some show ?thesis by simp
  qed
qed

lemma watch_skip_drops:
  assumes "reader_laws api todo" and "\<forall>r e. fst (rd_try_read api t r) \<noteq> Inl e"
  shows "unat index + k = unat from \<Longrightarrow> k \<le> length (todo t r) \<Longrightarrow> k \<le> m \<Longrightarrow>
    \<exists>r'. watch_skip api (replicate m t) index from r = Some (Inr r') \<and> todo t r' = drop k (todo t r)"
proof (induction k arbitrary: index r m)
  case 0
  then have "index = from" by (simp add: unsigned_word_eqI)
  then show ?case by (cases m) simp_all
next
  case (Suc k)
  then obtain m' where m: "m = Suc m'" by (cases m) simp_all
  have lt: "index < from" using Suc.prems(1) by (simp add: word_less_nat_alt)
  have u: "unat (index + 1) = Suc (unat index)"
    using unat_plus_of_nat [of index 1] Suc.prems(1) unat_bound [of "from"] by simp
  show ?case
  proof (cases rule: read_next_cases [OF assms, of r])
    case 1
    with Suc.prems(2) show ?thesis by simp
  next
    case (2 b x r')
    with Suc.IH [of "index + 1" r' m'] Suc.prems u lt m show ?thesis by simp
  qed
qed

lemma change_msg_decodes: "change_fits c \<Longrightarrow> decode_change (xm_type (change_msg c)) (xm_payload (change_msg c)) = Inr c"
proof -
  assume c: "change_fits c"
  then have "decodes (get_change (fst (encode_change c))) (snd (encode_change c)) c"
    by (simp add: change_fits_def change_decodes)
  from this [unfolded decodes_def, rule_format, of "[]" "[]"] c show ?thesis
    by (simp add: change_msg_def change_fits_def decode_change_def decode_whole_def r_new_def r_finish_def)
qed

lemma watch_all_changes:
  assumes "reader_laws api todo" and "\<forall>r e. fst (rd_try_read api t r) \<noteq> Inl e"
  shows "map snd (todo t r) = map change_msg cs \<Longrightarrow> list_all change_fits cs \<Longrightarrow> length cs < k \<Longrightarrow>
    watch_all api k t r = Some (Inr cs)"
proof (induction k arbitrary: r cs)
  case (Suc k)
  show ?case
  proof (cases rule: read_next_cases [OF assms, of r])
    case 1
    with Suc.prems show ?thesis by (simp add: watch_next_def)
  next
    case (2 b m r')
    with Suc.prems(1) obtain c ds where c: "cs = c # ds" "m = change_msg c" "map snd (todo t r') = map change_msg ds"
      by (cases cs) auto
    with Suc.IH [of r' ds] Suc.prems 2(1) show ?thesis by (simp add: watch_next_def change_msg_decodes)
  qed
qed simp

text \<open>The reader finds the records the writer committed, from the oldest that is kept: the records are
  numbered from \<open>start\<close>, and the first \<open>k\<close> have been dropped.\<close>

definition log_agrees ::
  "('t, 'r) reader_api \<Rightarrow> ('t \<Rightarrow> 'r \<Rightarrow> entry list) \<Rightarrow> ('t, 'w) writer_api \<Rightarrow> ('t, 'w) writer_view \<Rightarrow> 't \<Rightarrow> 'w \<Rightarrow> path \<Rightarrow> bool" where
  "log_agrees rapi todo wapi v t w p \<longleftrightarrow>
     (\<forall>r. rd_open rapi t p = Inr r \<longrightarrow>
        (\<exists>start k. unat (wr_next_index wapi w) = start + length (wv_log v t w) \<and>
           unat (rd_base rapi r) = start + k \<and> k \<le> length (wv_log v t w) \<and>
           map snd (todo t r) = map snd (drop k (wv_log v t w))))"

lemma unat_before: "unat (x + of_nat k :: 'a::len word) = m + k \<Longrightarrow> unat x = m"
proof -
  assume u: "unat (x + of_nat k) = m + k"
  have "x + of_nat k = of_nat (unat (x + of_nat k))" by simp
  also have "\<dots> = of_nat m + of_nat k" by (simp only: u of_nat_add)
  finally have "x = of_nat m" by simp
  moreover have "m < 2 ^ LENGTH('a)" using u unat_bound [of "x + of_nat k"] by simp
  ultimately show ?thesis by (simp add: unat_of_nat_small)
qed


text \<open>Opened at the cursor, the watch yields the records that came after it.\<close>

lemma reads_since:
  assumes "reader_laws rapi todo" and noerr: "\<forall>r e. fst (rd_try_read rapi t r) \<noteq> Inl e"
    and "rd_open rapi t (dc_log_path cursor) = Inr r0" and "length (todo t r0) < k"
    and agrees: "log_agrees rapi todo wapi v t w2 (dc_log_path cursor)"
    and cur: "rd_generation rapi r0 = dc_generation cursor" "rd_base rapi r0 \<le> dc_from cursor"
    and w: "map snd (wv_log v t w2) = map snd old @ map change_msg cs"
      "wr_next_index wapi w2 = dc_from cursor + of_nat (length cs)" "list_all change_fits cs"
  shows "\<exists>r. watch_open rapi t (replicate k t) cursor = Some (Inr r) \<and> watch_all rapi k t r = Some (Inr cs)"
proof -
  let ?todo = "todo t r0"
  from agrees assms(3) obtain start d where
    a: "unat (wr_next_index wapi w2) = start + length (wv_log v t w2)"
      "unat (rd_base rapi r0) = start + d" "map snd ?todo = map snd (drop d (wv_log v t w2))"
    unfolding log_agrees_def by blast
  have "length (wv_log v t w2) = length old + length cs" using arg_cong [OF w(1), of length] by simp
  with a(1) w(2) have start: "unat (dc_from cursor) = start + length old"
    using unat_before [of "dc_from cursor" "length cs" "start + length old"] by simp
  with cur(2) a(2) have d: "d \<le> length old" by (simp add: word_le_nat_alt)
  have todo: "map snd ?todo = drop d (map snd old) @ map change_msg cs"
    using a(3) d by (simp add: drop_map [symmetric] w(1))
  let ?k = "length old - d"
  have len: "length ?todo = ?k + length cs" using arg_cong [OF todo, of length] by simp
  moreover have "unat (rd_base rapi r0) + ?k = unat (dc_from cursor)" using start a(2) d by simp
  ultimately obtain r where r: "watch_skip rapi (replicate k t) (rd_base rapi r0) (dc_from cursor) r0 = Some (Inr r)"
    "todo t r = drop ?k ?todo"
    using watch_skip_drops [OF assms(1) noerr, of "rd_base rapi r0" ?k "dc_from cursor" r0 k] assms(4) by auto
  have "map snd (todo t r) = map change_msg cs" by (simp add: r(2) drop_map [symmetric] todo)
  from watch_all_changes [OF assms(1) noerr this w(3), of k] len assms(4)
  have "watch_all rapi k t r = Some (Inr cs)" by simp
  with r(1) assms(3) cur show ?thesis by (auto simp: watch_open_def)
qed

lemma list_channels_facts:
  assumes "list_channels fs wapi now pfx n = (Inr (listing, cursor), n1)"
  obtains w f where "nd_discovery n1 = Some w" "dc_from cursor = wr_next_index wapi w" "open_discovery fs wapi n = (Inr w, n1)"
    "listing = map (\<lambda>i. info_of (f i) i) (with_prefix (nd_registry n) pfx)"
proof -
  let ?f = "\<lambda>i. ci_owner i = self_id n \<or> ci_owner i \<in> set (bd_live_members now (nd_bcast n))"
  from assms obtain w where o: "open_discovery fs wapi n = (Inr w, n1)" "dc_from cursor = wr_next_index wapi w"
    and "listing = map (\<lambda>i. info_of (?f i) i) (with_prefix (nd_registry n) pfx)"
    by (auto simp: list_channels_def Let_def split: prod.splits sum.splits)
  moreover have "nd_discovery n1 = Some w"
    using o(1) by (auto simp: open_discovery_def Let_def split: option.splits prod.splits sum.splits)
  ultimately show thesis by (intro that [where f = ?f])
qed

text \<open>C7. What a client that lists and follows holds. From the start of the daemon its threads change the
  registry and publish the changes, in whatever order and with whatever failures; at some moment a client
  lists the names under a prefix and gets a cursor, and the threads go on. Opened at the cursor, the watch
  fails only because the log was replaced or has aged past the cursor. Otherwise it yields exactly the
  changes published since the listing, in that order, and for every name under the prefix that is settled,
  the last of all its changes being the last of them published (the listing's own moment makes no
  difference), the changes applied to the listing give the entry the registry has, or none if it has none.\<close>

theorem client_holds_live_view:
  assumes laws: "writer_laws (os_writer os) v" "log_stays (os_writer os) v ready (cfg_data_dir (nd_config n0))"
      "log_apart os v ready (cfg_data_dir (nd_config n0))" and "reader_laws rapi todo"
    and "registry_wf (nd_registry n0)" and "\<forall>name e. get_raw (nd_registry n0) name = Some e \<longrightarrow> modest e"
    and "nd_discovery n0 = None" and "(disc_step os v ready)\<^sup>*\<^sup>* (disc_start n0) S1"
    and listed: "list_channels (os_fs os) (os_writer os) now pfx (dv_node S1) = (Inr (listing, cursor), n1)"
    and "(disc_step os v ready)\<^sup>*\<^sup>* (S1\<lparr>dv_node := n1\<rparr>) S2" and "nd_discovery (dv_node S2) = Some w2"
    and agrees: "log_agrees rapi todo (os_writer os) v (nd_fs (dv_node S2)) w2 (dc_log_path cursor)"
    and noerr: "\<forall>r e. fst (rd_try_read rapi (nd_fs (dv_node S2)) r) \<noteq> Inl e"
    and r0: "rd_open rapi (nd_fs (dv_node S2)) (dc_log_path cursor) = Inr r0" "length (todo (nd_fs (dv_node S2)) r0) < k"
  shows "\<exists>x. watch_open rapi (nd_fs (dv_node S2)) (replicate k (nd_fs (dv_node S2))) cursor = Some x \<and>
    (case x of
       Inl e \<Rightarrow> rd_generation rapi r0 \<noteq> dc_generation cursor \<or> dc_from cursor < rd_base rapi r0
     | Inr r \<Rightarrow> \<exists>cs. watch_all rapi k (nd_fs (dv_node S2)) r = Some (Inr cs) \<and>
         list_all2 says (map ((!) (dv_made S2)) (drop (length (dv_published S1)) (dv_published S2))) cs \<and>
         (\<forall>name. starts_with name pfx \<longrightarrow> settled S2 name \<longrightarrow>
            fold follow cs (view_of listing) name = live_view (nd_registry (dv_node S2)) name))"
proof (cases "rd_generation rapi r0 \<noteq> dc_generation cursor \<or> dc_from cursor < rd_base rapi r0")
  case True
  with r0(1) show ?thesis by (auto simp: watch_open_def)
next
  case False
  let ?d = "cfg_data_dir (nd_config n0)" and ?r0 = "nd_registry n0" and ?S1 = "S1\<lparr>dv_node := n1\<rparr>"
  have "disc_inv ready ?d ?r0 (disc_start n0)"
    using assms(5-7) by (simp add: disc_inv_def disc_start_def latest_def)
  from steps_inv [OF laws this assms(8)] have i1: "disc_inv ready ?d ?r0 S1" .
  obtain w f where l: "nd_discovery n1 = Some w" "dc_from cursor = wr_next_index (os_writer os) w"
    "open_discovery (os_fs os) (os_writer os) (dv_node S1) = (Inr w, n1)"
    "listing = map (\<lambda>i. info_of (f i) i) (with_prefix (nd_registry (dv_node S1)) pfx)"
    using listed by (rule list_channels_facts)
  have o: "\<forall>w. nd_discovery n1 = Some w \<longrightarrow> ready (nd_fs n1) w" "nd_registry n1 = nd_registry (dv_node S1)"
    "nd_config n1 = nd_config (dv_node S1)"
    using open_ready [OF _ _ l(3)] laws(2) i1 by (auto simp: disc_inv_def)
  with i1 have i1': "disc_inv ready ?d ?r0 ?S1" by (simp add: disc_inv_def)
  from steps_inv [OF laws this assms(10)] have i2: "disc_inv ready ?d ?r0 S2" .
  obtain cs where cs: "log_since (os_writer os) v ?S1 S2 cs"
    using steps_log_since [OF laws i1' _ assms(10)] l(1) by auto
  from cs l(1) assms(11) obtain new where s: "dv_published S2 = dv_published S1 @ new"
    "list_all2 says (map ((!) (dv_made S2)) new) cs" "list_all change_fits cs"
    "map snd (wv_log v (nd_fs (dv_node S2)) w2) = map snd (wv_log v (nd_fs n1) w) @ map change_msg cs"
    "wr_next_index (os_writer os) w2 = wr_next_index (os_writer os) w + of_nat (length cs)"
    unfolding log_since_def by auto
  from False have c: "rd_generation rapi r0 = dc_generation cursor" "rd_base rapi r0 \<le> dc_from cursor" by auto
  obtain r where r: "watch_open rapi (nd_fs (dv_node S2)) (replicate k (nd_fs (dv_node S2))) cursor = Some (Inr r)"
    "watch_all rapi k (nd_fs (dv_node S2)) r = Some (Inr cs)"
    using reads_since [OF assms(4) noerr r0 agrees c s(4) _ s(3)] s(5) l(2) by auto
  have "fold follow cs (view_of listing) name = live_view (nd_registry (dv_node S2)) name"
    if "starts_with name pfx" "settled S2 name" for name
  proof -
    have "view_of listing name = live_view (nd_registry n1) name"
      using view_of_listing [OF _ that(1)] i1 by (simp add: l(4) o(2) disc_inv_def)
    from follow_pointwise [of "view_of listing" name "live_view (nd_registry n1)" cs, OF this]
      settled_view [OF i1' i2 cs that(2)] show ?thesis by simp
  qed
  with r s(1,2) show ?thesis by auto
qed

subsection \<open>Witness\<close>

definition disc_ready :: "files \<Rightarrow> seg_writer \<Rightarrow> bool" where
  "disc_ready t w \<longleftrightarrow> sw_path w = discovery_log (ascii ''/d'') \<and> (\<exists>l. t (sw_path w) = Some l)"

lemma seg_log_stays: "log_stays seg_writer_api seg_view disc_ready (ascii ''/d'')"
  by (auto simp: log_stays_def seg_writer_api_def disc_ready_def seg_view_def Let_def simp del: ascii_simps split: option.splits)

lemma channel_dir_apart:
  assumes "channel_dir M d name = Inr dir"
  shows "\<not> prefix (dir @ [47]) (discovery_log d)"
proof -
  have v: "valid_name M name" and dir: "dir = path_join d name"
    using assms by (auto simp: channel_dir_def valid_name_def and_then_def split: sum.splits)
  obtain b bs where n: "name = b # bs" "b \<noteq> 46" using valid_nameD(1,2) [OF v] by (cases name) auto
  then show ?thesis
    using path_join_relative [of name d] hd_valid_name [OF v] by (simp add: dir discovery_log_eq)
qed

lemma sample_log_apart: "log_apart sample_outside seg_view disc_ready (ascii ''/d'')"
  using channel_dir_apart
  by (auto simp: log_apart_def sample_outside_def tree_fs_def disc_ready_def seg_view_def simp del: ascii_simps)

lemma seg_no_errors: "fst (rd_try_read seg_reader_api t r) \<noteq> Inl e"
  by (simp add: seg_reader_api_def seg_read_def split: list.split)

definition fresh_log :: "entry list \<Rightarrow> files" where
  "fresh_log es =
     [discovery_log (ascii ''/d'') \<mapsto>
        \<lparr>sl_base = 0, sl_generation = 5, sl_name = [], sl_entries = es, sl_rolled = False\<rparr>]"

definition fresh_writer :: "u64 \<Rightarrow> seg_writer" where
  "fresh_writer k = \<lparr>sw_path = discovery_log (ascii ''/d''), sw_generation = 5, sw_next = k, sw_name = []\<rparr>"

definition fresh_cursor :: discovery_cursor where
  "fresh_cursor = \<lparr>dc_log_path = discovery_log (ascii ''/d''), dc_generation = 5, dc_from = 0\<rparr>"

definition fresh_node :: "(files, seg_writer, seg_reader) node" where
  "fresh_node = (sample_node 9 registry_new)\<lparr>nd_fs := fresh_log [], nd_discovery := Some (fresh_writer 0)\<rparr>"

lemma fresh_list: "list_channels tree_fs seg_writer_api 0 [] (sample_node 9 registry_new) = (Inr ([], fresh_cursor), fresh_node)"
proof -
  let ?n = "sample_node 9 registry_new"
  have cfg: "cfg_data_dir (nd_config ?n) = ascii ''/d''" "nd_discovery ?n = None" "nd_fs ?n = Map.empty"
    "nd_discovery_generation ?n = 5"
    by (simp_all add: sample_node_def node_new_def sample_config_def del: ascii_simps)
  have fs: "fs_remove_dir_all tree_fs Map.empty q = (Inr (), Map.empty)"
    "ensure_private_dir tree_fs q Map.empty = (Inr (), Map.empty)" for q
    by (simp_all add: tree_fs_def ensure_private_dir_def)
  have wr: "wr_build seg_writer_api Map.empty (discovery_log (ascii ''/d'')) (discovery_config 5) = (Inr (fresh_writer 0), fresh_log [])"
    by (simp add: seg_writer_api_def discovery_config_def fresh_writer_def fresh_log_def del: ascii_simps)
  have idx: "wr_next_index seg_writer_api (fresh_writer 0) = 0" by (simp add: seg_writer_api_def fresh_writer_def)
  have "utf8_valid (discovery_log (ascii ''/d''))"
    by (rule utf8_valid_ascii_bytes) (simp add: discovery_log_eq dir_prefix_def)
  then have lossy: "from_utf8_lossy (discovery_log (ascii ''/d'')) = discovery_log (ascii ''/d'')"
    by (rule from_utf8_lossy_valid)
  have "with_prefix registry_new [] = []"
    using set_with_prefix [of registry_new "[]"] by (simp add: get_conv_raw)
  then show ?thesis
    by (simp add: list_channels_def open_discovery_def cfg fs wr fresh_node_def fresh_cursor_def idx lossy
        del: ascii_simps)
qed

lemma fresh_claim:
  "\<exists>i n2 m S2. claim_name tree_fs seg_writer_api 0 200 (ascii ''fills'') 4096 512 None fresh_node = (Inr i, n2) \<and>
     nd_fs n2 = fresh_log [(False, m)] \<and> nd_discovery n2 = Some (fresh_writer 1) \<and>
     get (nd_registry n2) (ascii ''fills'') = Some i \<and> dv_node S2 = n2 \<and> settled S2 (ascii ''fills'') \<and>
     (disc_step sample_outside seg_view disc_ready)\<^sup>*\<^sup>* ((disc_start (sample_node 9 registry_new))\<lparr>dv_node := fresh_node\<rparr>) S2"
proof -
  have n: "nd_registry fresh_node = registry_new" "cfg_node_id (nd_config fresh_node) = 9"
    "nd_fs fresh_node = fresh_log []" "nd_discovery fresh_node = Some (fresh_writer 0)"
    by (simp_all add: fresh_node_def)
  have m: "winner (fst (merge_tracked registry_new i)) = i" "changed (fst (merge_tracked registry_new i))"
    "get (snd (merge_tracked registry_new i)) (ci_name i) = (if ci_deleted i then None else Some i)" for i
    using win_none [of registry_new i] moves_iff [of registry_new i]
    by (simp_all add: fst_merge_tracked snd_merge_tracked win_def moves_def get_conv_raw get_raw_win)
  have p: "\<exists>m. nd_fs (publish_change fs seg_writer_api c n2) = fresh_log [(False, m)] \<and>
      nd_discovery (publish_change fs seg_writer_api c n2) = Some (fresh_writer 1) \<and> appends fs seg_writer_api c n2"
    if "nd_fs n2 = fresh_log []" "nd_discovery n2 = Some (fresh_writer 0)"
    for fs c and n2 :: "(files, seg_writer, seg_reader) node"
    using that by (simp add: publish_change_def appends_def open_discovery_def seg_writer_api_def fresh_writer_def fresh_log_def
        case_prod_beta del: ascii_simps) blast
  define i where "i = \<lparr>ci_name = ascii ''fills'', ci_owner = 9, ci_region_size = 4096, ci_mtu = 512,
    ci_earliest_index = 0, ci_registered_at_nanos = 200, ci_epoch = claim_epoch registry_new (ascii ''fills''),
    ci_deleted = False, ci_member_of = None\<rparr>"
  define n1 where "n1 = fresh_node\<lparr>nd_registry := snd (merge_tracked registry_new i)\<rparr>"
  define n2 where "n2 = publish_change tree_fs seg_writer_api (change_of 0 n1 i) n1"
  have i: "ci_name i = ascii ''fills''" "ci_owner i = 9" "\<not> ci_deleted i" by (simp_all add: i_def del: ascii_simps)
  have c: "claim_name tree_fs seg_writer_api 0 200 (ascii ''fills'') 4096 512 None fresh_node = (Inr i, n2)"
    by (simp add: claim_name_def Let_def case_prod_beta n m i i_def [symmetric] n1_def [symmetric] n2_def del: ascii_simps)
  obtain x where x: "nd_fs n2 = fresh_log [(False, x)]" "nd_discovery n2 = Some (fresh_writer 1)"
    "appends tree_fs seg_writer_api (change_of 0 n1 i) n1"
    using p [of n1] n unfolding n2_def n1_def by auto
  have g: "get (nd_registry n2) (ascii ''fills'') = Some i" using m(3) [of i] i by (simp add: n2_def n1_def del: ascii_simps)
  let ?S = "(disc_start (sample_node 9 registry_new))\<lparr>dv_node := fresh_node\<rparr>"
  let ?S1 = "note_change (Some i) n1 ?S" and ?S2 = "\<lparr>dv_node = n2, dv_made = [i], dv_pending = [], dv_published = [0]\<rparr>"
  have "modest i" by (simp add: modest_def i_def utf8_char_def utf8_tail_def)
  with disc_step.merged [of ?S i "fst (merge_tracked registry_new i)" "snd (merge_tracked registry_new i)"]
  have 1: "disc_step sample_outside seg_view disc_ready ?S ?S1" by (simp add: n m n1_def)
  have 2: "disc_step sample_outside seg_view disc_ready ?S1 ?S2"
    using disc_step.published [of ?S1 "[]" 0 "[]" _ 0 n1 sample_outside seg_view disc_ready, OF _ refl] x(3)
    by (simp add: disc_start_def n2_def sample_outside_def)
  have "settled ?S2 (ascii ''fills'')" by (simp add: settled_def of_name_def i Let_def del: ascii_simps)
  moreover have "(disc_step sample_outside seg_view disc_ready)\<^sup>*\<^sup>* ?S ?S2"
    using 1 2 by (meson converse_rtranclp_into_rtranclp r_into_rtranclp)
  ultimately show ?thesis using c x(1,2) g by (intro exI conjI; (assumption | simp))
qed

text \<open>A client lists on a fresh daemon; a name is claimed; the client reads the change.\<close>

theorem client_holds_live_view_witness:
  "\<exists>cursor n1 n2 r cs i. list_channels tree_fs seg_writer_api 0 [] (sample_node 9 registry_new) = (Inr ([], cursor), n1) \<and>
     claim_name tree_fs seg_writer_api 0 200 (ascii ''fills'') 4096 512 None n1 = (Inr i, n2) \<and>
     watch_open seg_reader_api (nd_fs n2) (replicate 2 (nd_fs n2)) cursor = Some (Inr r) \<and>
     watch_all seg_reader_api 2 (nd_fs n2) r = Some (Inr cs) \<and>
     fold follow cs Map.empty (ascii ''fills'') = Some (info_of False i)"
proof -
  obtain i n2 m and S2 :: "(files, seg_writer, seg_reader) disc" where
    c: "claim_name tree_fs seg_writer_api 0 200 (ascii ''fills'') 4096 512 None fresh_node = (Inr i, n2)"
    and n2: "nd_fs n2 = fresh_log [(False, m)]" "nd_discovery n2 = Some (fresh_writer 1)"
      "get (nd_registry n2) (ascii ''fills'') = Some i"
    and S2: "dv_node S2 = n2" "settled S2 (ascii ''fills'')"
      "(disc_step sample_outside seg_view disc_ready)\<^sup>*\<^sup>* ((disc_start (sample_node 9 registry_new))\<lparr>dv_node := fresh_node\<rparr>) S2"
    using fresh_claim by blast
  let ?n0 = "sample_node 9 registry_new :: (files, seg_writer, seg_reader) node"
  let ?r = "\<lparr>sr_path = discovery_log (ascii ''/d''), sr_base = 0, sr_generation = 5, sr_name = [], sr_pos = 0, sr_sequence = 0\<rparr>"
  have r: "rd_open seg_reader_api (nd_fs (dv_node S2)) (dc_log_path fresh_cursor) = Inr ?r" "rd_base seg_reader_api ?r = 0"
    "rd_generation seg_reader_api ?r = 5" "length (seg_todo (nd_fs (dv_node S2)) ?r) < 2"
    by (simp_all add: seg_reader_api_def n2 S2(1) fresh_cursor_def fresh_log_def seg_todo_def del: ascii_simps)
  have os: "os_writer sample_outside = seg_writer_api" "os_fs sample_outside = tree_fs" by (simp_all add: sample_outside_def)
  have n0: "cfg_data_dir (nd_config ?n0) = ascii ''/d''" "nd_registry ?n0 = registry_new" "nd_discovery ?n0 = None"
    by (simp_all add: sample_node_def node_new_def sample_config_def del: ascii_simps)
  have a: "log_agrees seg_reader_api seg_todo seg_writer_api seg_view (nd_fs (dv_node S2)) (fresh_writer 1) (dc_log_path fresh_cursor)"
    by (auto simp: log_agrees_def seg_reader_api_def seg_writer_api_def seg_view_def fresh_writer_def n2(1) S2(1) fresh_log_def
      fresh_cursor_def seg_todo_def simp del: ascii_simps intro!: exI [of _ 0])
  have st: "log_stays (os_writer sample_outside) seg_view disc_ready (cfg_data_dir (nd_config ?n0))"
    "log_apart sample_outside seg_view disc_ready (cfg_data_dir (nd_config ?n0))"
    unfolding n0 os by (rule seg_log_stays, rule sample_log_apart)
  have reg: "registry_wf (nd_registry ?n0)" "\<forall>name e. get_raw (nd_registry ?n0) name = Some e \<longrightarrow> modest e"
    by (simp_all add: n0(2))
  have l: "list_channels (os_fs sample_outside) (os_writer sample_outside) 0 [] (dv_node (disc_start ?n0)) = (Inr ([], fresh_cursor), fresh_node)"
    unfolding os using fresh_list by (simp add: disc_start_def)
  have d2: "nd_discovery (dv_node S2) = Some (fresh_writer 1)" by (simp add: S2(1) n2(2))
  have wl: "writer_laws (os_writer sample_outside) seg_view" "\<forall>r e. fst (rd_try_read seg_reader_api (nd_fs (dv_node S2)) r) \<noteq> Inl e"
    using seg_writer_laws seg_no_errors by (simp_all add: os)
  from client_holds_live_view [where ?n0.0 = ?n0 and ?S1.0 = "disc_start ?n0" and pfx = "[]" and k = 2, OF wl(1) st seg_reader_laws
      reg n0(3) rtranclp.rtrancl_refl l S2(3) d2 a [folded os(1)] wl(2) r(1,4)] obtain x where
    x: "watch_open seg_reader_api (nd_fs (dv_node S2)) (replicate 2 (nd_fs (dv_node S2))) fresh_cursor = Some x"
    "case x of Inl e \<Rightarrow> rd_generation seg_reader_api ?r \<noteq> dc_generation fresh_cursor \<or> dc_from fresh_cursor < rd_base seg_reader_api ?r
     | Inr r \<Rightarrow> \<exists>cs. watch_all seg_reader_api 2 (nd_fs (dv_node S2)) r = Some (Inr cs) \<and>
         list_all2 says (map ((!) (dv_made S2)) (drop (length (dv_published (disc_start ?n0))) (dv_published S2))) cs \<and>
         (\<forall>name. starts_with name [] \<longrightarrow> settled S2 name \<longrightarrow>
            fold follow cs (view_of []) name = live_view (nd_registry (dv_node S2)) name)"
    by blast
  then obtain r cs where "x = Inr r" "watch_all seg_reader_api 2 (nd_fs n2) r = Some (Inr cs)"
    "fold follow cs Map.empty (ascii ''fills'') = Some (info_of False i)"
    using n2(3) S2(1,2) r(2,3)
    by (cases x) (auto simp: live_view_def view_of_def starts_with_def fresh_cursor_def simp del: ascii_simps)
  with x(1) S2(1) fresh_list c show ?thesis by blast
qed

end
