(* ===== verification/Node_System.thy ===== *)
theory Node_System
  imports Client_Plane Discovery
begin

text \<open>
  The daemon's threads together: the accept loops (\<open>serve_stream\<close>, \<open>serve_client\<close>), one turn of
  \<open>run_duty_cycle\<close> and one tick of \<open>run_maintenance\<close> of \<open>xchannel-net/src/node.rs\<close>, composed from the
  operations of the other theories, and what holds of the node whatever order they run in.

  \<^item> A thread's step is atomic where the code holds a lock or works on its own state; a tick and a duty turn
    are one step each, as is each phase of an establishment attempt.
  \<^item> A connection guard is the slot it holds among \<open>nd_conns\<close>: a handshake, a conversation with a client and
    a poll item of the duty cycle each hold one. Each of the two accept loops counts a connection, finds it
    is one too many, and takes it off again in two steps, and the other may run in between.
\<close>

subsection \<open>Accepting connections\<close>

definition HANDSHAKE_TIMEOUT :: duration where
  "HANDSHAKE_TIMEOUT = secs 5"

text \<open>What the outside contributes to a handshake: whether the read timeout was set, what is received and
  answered, the files at its reads, and whether the socket could be made non-blocking.\<close>

record 't handshake =
  hs_bounded :: bool
  hs_recv :: "bytes io_result"
  hs_send :: "bytes \<Rightarrow> unit io_result"
  hs_open :: 't
  hs_head :: 't
  hs_reads :: "'t list"
  hs_adopted :: bool

text \<open>The thread of one accepted connection, to its end: a poll item keeps the slot, anything else gives it
  back.\<close>

definition stream_handshake ::
  "('t, 'r) reader_api \<Rightarrow> 't handshake \<Rightarrow> ('t, 'w, 'r) node \<Rightarrow> ('t, 'w, 'r) node option" where
  "stream_handshake rapi x n =
     (if \<not> hs_bounded x then Some (release_conn n)
      else
        (case accept_subscription rapi (hs_recv x) (hs_send x) (nd_hosted n) (hs_open x) (hs_head x) (hs_reads x) of
           None \<Rightarrow> None
         | Some (Inl e, _) \<Rightarrow> Some (release_conn n)
         | Some (Inr server, _) \<Rightarrow>
             if hs_adopted x then Some (n\<lparr>nd_duty_servers := nd_duty_servers n @ [server_adopt server]\<rparr>)
             else Some (release_conn n)))"

subsection \<open>The duty cycle\<close>

record ('w, 'r) duty =
  dy_servers :: "'r server_poll_item list"
  dy_clients :: "(nat \<times> 'w client_poll_item) list"
  dy_round :: u32

text \<open>The files and the socket at the poll of each source, the clock and the socket at the poll of each sink,
  and the files at the reads of each topic.\<close>

record 't duty_env =
  de_server :: "nat \<Rightarrow> (nat \<Rightarrow> 't) \<times> write_result list"
  de_client :: "nat \<Rightarrow> u64 \<times> read_result list"
  de_muxes :: "rstring \<Rightarrow> 't list"

fun poll_servers ::
  "('t, 'r) reader_api \<Rightarrow> ('r server_poll_item \<times> (nat \<Rightarrow> 't) \<times> write_result list) list \<Rightarrow>
     nat \<times> 'r server_poll_item list" where
  "poll_servers rapi [] = (0, [])"
| "poll_servers rapi ((item, world, ws) # rest) =
     (case (server_poll rapi world MAX_BATCH_PER_POLL_ITEM item ws, poll_servers rapi rest) of
        ((Inr k, item', _, _), (work, live)) \<Rightarrow> (k + work, item' # live)
      | ((Inl _, _, _, _), r) \<Rightarrow> r)"

definition duty_turn ::
  "mux_idle \<Rightarrow> ('t, 'r) reader_api \<Rightarrow> ('t, 'w) outside \<Rightarrow> 't duty_env \<Rightarrow> ('w, 'r) duty \<Rightarrow> ('t, 'w, 'r) node \<Rightarrow>
     (idle_action option \<times> ('w, 'r) duty \<times> ('t, 'w, 'r) node) option" where
  "duty_turn idle rapi os env d n =
     (let servers = dy_servers d @ nd_duty_servers n;
          clients = dy_clients d @ nd_duty_clients n;
          n1 = n\<lparr>nd_duty_servers := [], nd_duty_clients := []\<rparr>;
          (w1, live) = poll_servers rapi (zip servers (map (de_server env) [0..<length servers]));
          n2 = (release_conn ^^ (length servers - length live)) n1;
          (w2, kept, n3) = poll_clients (os_writer os) (zip clients (map (de_client env) [0..<length clients])) n2
      in map_option (\<lambda>(r, n4).
             let work = w1 + w2 + (case r of Inr k \<Rightarrow> k | Inl _ \<Rightarrow> 0) in
             if work > 0 then (None, \<lparr>dy_servers = live, dy_clients = kept, dy_round = 0\<rparr>, n4)
             else (Some (action idle (dy_round d)),
                   \<lparr>dy_servers = live, dy_clients = kept,
                    dy_round = (if dy_round d = -1 then dy_round d else dy_round d + 1)\<rparr>, n4))
           (poll_muxes rapi os (de_muxes env) n3))"

text \<open>One turn of the thread of a promoted topic, \<open>None\<close> in the first component when it ends. \<open>still\<close> is whether
  the mux under the name is the very one the thread was started for.\<close>

definition promoted_turn ::
  "('t, 'r) reader_api \<Rightarrow> ('t, 'w) outside \<Rightarrow> 't list \<Rightarrow> bool \<Rightarrow> rstring \<Rightarrow> u32 \<Rightarrow> ('t, 'w, 'r) node \<Rightarrow>
     ((idle_action option \<times> u32) option \<times> ('t, 'w, 'r) node) option" where
  "promoted_turn rapi os reads still topic round n =
     (case mux_of topic n of
        None \<Rightarrow> Some (None, n)
      | Some m \<Rightarrow>
          if \<not> still then Some (None, n)
          else map_option (\<lambda>(r, (t, m'), _).
                 (Some (mux_turn (cfg_mux_idle (nd_config n)) r round), put_mux topic m' (n\<lparr>nd_fs := t\<rparr>)))
               (mux_poll rapi (os_writer os) reads (nd_fs n, m)))"

subsection \<open>The maintenance tick\<close>

record 't tick_env =
  te_removed :: "unit io_result"
  te_merge_now :: instant
  te_note_now :: instant
  te_reap_now :: instant
  te_attach_now :: instant
  te_attach :: "channel_identity \<Rightarrow> 't attach_turn"
  te_detach :: "member_key \<Rightarrow> 't list"
  te_seeds :: "nat \<Rightarrow> dial_turn"
  te_learned :: "nat \<Rightarrow> dial_turn"
  te_twins :: "nat \<Rightarrow> dial_turn"
  te_service :: "nat \<Rightarrow> attach_clock \<times> bool"

text \<open>Whether a restart was asked for, the attempts the conductor started, and the node.\<close>

definition maintenance_tick ::
  "('t, 'r) reader_api \<Rightarrow> ('t, 'w) outside \<Rightarrow> 't tick_env \<Rightarrow> ('t, 'w, 'r) node \<Rightarrow>
     (bool \<times> (rstring \<times> nat) list \<times> ('t, 'w, 'r) node) option" where
  "maintenance_tick rapi os te n =
     Option.bind (tick_pump (te_removed te) n) (\<lambda>(pumped, restart, n1).
     Option.bind (if pumped = [] then Some n1 else gossip_pass (os_fs os) (os_writer os) (te_merge_now te) pumped n1) (\<lambda>n2.
     Option.bind (reap_dead_members os (te_reap_now te) (note_unreachable_owners (te_note_now te) n2)) (\<lambda>n3.
     Option.bind (attach_pending_members rapi os (te_attach_now te) (te_attach te) (te_detach te) n3) (\<lambda>n4.
     Option.bind (connect_seeds (te_seeds te) n4) (\<lambda>(_, n5).
     Option.bind (connect_learned_peers (te_learned te) (te_twins te) n5) (\<lambda>(_, n6).
     case service_subscriptions (te_service te) n6 of (started, n7) \<Rightarrow> Some (restart, started, n7)))))))"

subsection \<open>What every step respects\<close>

text \<open>A well-formed node: its registry is keyed by name; handles are fresh and every handle in use (under a
  name, with the conductor, handed to the duty cycle) is one that exists; a hosted channel is at its own
  path; and the counter of slots is above their number by no more than the two accept loops.\<close>

definition node_wf :: "('t, 'w) outside \<Rightarrow> ('t, 'w, 'r) node \<Rightarrow> bool" where
  "node_wf os n \<longleftrightarrow> registry_wf (nd_registry n) \<and> dom (nd_shared n) \<subseteq> {..<nd_next_handle n} \<and>
     ran (nd_subscriptions n) \<subseteq> dom (nd_shared n) \<and> snd ` set (nd_conducted n) \<subseteq> dom (nd_shared n) \<and>
     fst ` set (nd_duty_clients n) \<subseteq> dom (nd_shared n) \<and>
     (\<forall>name src. nd_hosted n name = Some src \<longrightarrow> node_channel_path os n name = Inr (cs_path src)) \<and>
     nd_conns n \<le> MAX_CONNECTIONS + 2"

text \<open>What an operation that takes and gives no connection slot does to these parts.\<close>

definition extends :: "('t, 'w) outside \<Rightarrow> ('t, 'w, 'r) node \<Rightarrow> ('t, 'w, 'r) node \<Rightarrow> bool" where
  "extends os n n' \<longleftrightarrow> nd_config n' = nd_config n \<and> nd_conns n' = nd_conns n \<and> nd_duty_servers n' = nd_duty_servers n \<and>
     (registry_wf (nd_registry n) \<longrightarrow> registry_wf (nd_registry n')) \<and>
     dom (nd_shared n) \<subseteq> dom (nd_shared n') \<and> nd_next_handle n \<le> nd_next_handle n' \<and>
     dom (nd_shared n') \<subseteq> dom (nd_shared n) \<union> {..<nd_next_handle n'} \<and>
     ran (nd_subscriptions n') \<subseteq> ran (nd_subscriptions n) \<union> dom (nd_shared n') \<and>
     snd ` set (nd_conducted n') \<subseteq> snd ` set (nd_conducted n) \<union> dom (nd_shared n') \<and>
     fst ` set (nd_duty_clients n') \<subseteq> fst ` set (nd_duty_clients n) \<union> dom (nd_shared n') \<and>
     (\<forall>name src. nd_hosted n' name = Some src \<longrightarrow>
        nd_hosted n name = Some src \<or> node_channel_path os n name = Inr (cs_path src))"

lemma extendsD:
  assumes "extends os n n'"
  shows "nd_config n' = nd_config n" "nd_conns n' = nd_conns n" "nd_duty_servers n' = nd_duty_servers n"
    "registry_wf (nd_registry n) \<Longrightarrow> registry_wf (nd_registry n')"
    "dom (nd_shared n) \<subseteq> dom (nd_shared n')" "nd_next_handle n \<le> nd_next_handle n'"
    "dom (nd_shared n') \<subseteq> dom (nd_shared n) \<union> {..<nd_next_handle n'}"
    "ran (nd_subscriptions n') \<subseteq> ran (nd_subscriptions n) \<union> dom (nd_shared n')"
    "snd ` set (nd_conducted n') \<subseteq> snd ` set (nd_conducted n) \<union> dom (nd_shared n')"
    "fst ` set (nd_duty_clients n') \<subseteq> fst ` set (nd_duty_clients n) \<union> dom (nd_shared n')"
    "nd_hosted n' name = Some src \<Longrightarrow> nd_hosted n name = Some src \<or> node_channel_path os n name = Inr (cs_path src)"
    "node_channel_path os n' = node_channel_path os n"
  using assms by (simp_all add: extends_def node_channel_path_def fun_eq_iff)

lemma extends_wf:
  assumes "extends os n n'" "node_wf os n" shows "node_wf os n'"
proof -
  note d = extendsD [OF assms(1)]
  have w: "registry_wf (nd_registry n)" "dom (nd_shared n) \<subseteq> {..<nd_next_handle n}"
    "ran (nd_subscriptions n) \<subseteq> dom (nd_shared n)" "snd ` set (nd_conducted n) \<subseteq> dom (nd_shared n)"
    "fst ` set (nd_duty_clients n) \<subseteq> dom (nd_shared n)" "nd_conns n \<le> MAX_CONNECTIONS + 2"
    "\<And>name src. nd_hosted n name = Some src \<Longrightarrow> node_channel_path os n name = Inr (cs_path src)"
    using assms(2) by (simp_all add: node_wf_def)
  have into: "Z \<subseteq> C" if "Z \<subseteq> X \<union> C" "X \<subseteq> B" "B \<subseteq> C" for X Z B C :: "nat set" using that by blast
  show ?thesis
    unfolding node_wf_def
  proof (intro conjI allI impI)
    have le: "{..<nd_next_handle n} \<subseteq> {..<nd_next_handle n'}" using d(6) by simp
    show "dom (nd_shared n') \<subseteq> {..<nd_next_handle n'}" by (rule into [OF d(7) w(2) le])
    show "ran (nd_subscriptions n') \<subseteq> dom (nd_shared n')" by (rule into [OF d(8) w(3) d(5)])
    show "snd ` set (nd_conducted n') \<subseteq> dom (nd_shared n')" by (rule into [OF d(9) w(4) d(5)])
    show "fst ` set (nd_duty_clients n') \<subseteq> dom (nd_shared n')" by (rule into [OF d(10) w(5) d(5)])
    show "node_channel_path os n' name = Inr (cs_path src)" if "nd_hosted n' name = Some src" for name src
      using d(11) [OF that] w(7) unfolding d(12) by blast
  qed (use d(2,4) w(1,6) in simp_all)
qed

lemma extends_trans:
  assumes "extends os a b" "extends os b c" shows "extends os a c"
proof -
  note d = extendsD [OF assms(1)] and e = extendsD [OF assms(2)]
  have chain: "Z \<subseteq> X \<union> C" if "Y \<subseteq> X \<union> B" "Z \<subseteq> Y \<union> C" "B \<subseteq> C" for X Y Z B C :: "nat set" using that by blast
  show ?thesis
    unfolding extends_def
  proof (intro conjI allI impI)
    have le: "{..<nd_next_handle b} \<subseteq> {..<nd_next_handle c}" using e(6) by simp
    show "dom (nd_shared c) \<subseteq> dom (nd_shared a) \<union> {..<nd_next_handle c}" by (rule chain [OF d(7) e(7) le])
    show "nd_hosted a name = Some src \<or> node_channel_path os a name = Inr (cs_path src)" if "nd_hosted c name = Some src" for name src
      using e(11) [OF that] d(11) unfolding d(12) by blast
    show "dom (nd_shared a) \<subseteq> dom (nd_shared c)" using d(5) e(5) by (rule subset_trans)
  qed (use d(1-4,6) e(1-4,6) chain [OF d(8) e(8,5)] chain [OF d(9) e(9,5)] chain [OF d(10) e(10,5)] in simp_all)
qed

definition same_parts :: "('t, 'w, 'r) node \<Rightarrow> ('t, 'w, 'r) node \<Rightarrow> bool" where
  "same_parts n n' \<longleftrightarrow> nd_config n' = nd_config n \<and> nd_conns n' = nd_conns n \<and> nd_duty_servers n' = nd_duty_servers n \<and>
     nd_registry n' = nd_registry n \<and> dom (nd_shared n') = dom (nd_shared n) \<and> nd_next_handle n' = nd_next_handle n \<and>
     nd_subscriptions n' = nd_subscriptions n \<and> nd_conducted n' = nd_conducted n \<and>
     nd_duty_clients n' = nd_duty_clients n \<and> nd_hosted n' = nd_hosted n"

lemma same_parts_extends: "same_parts n n' \<Longrightarrow> extends os n n'"
  by (auto simp: same_parts_def extends_def)

lemma same_parts_refl [simp]: "same_parts n n"
  by (simp add: same_parts_def)

lemma same_parts_trans: "same_parts a b \<Longrightarrow> same_parts b c \<Longrightarrow> same_parts a c"
  by (simp add: same_parts_def)

lemma extends_refl [simp]: "extends os n n"
  by (simp add: same_parts_extends)

interpretation ext: preserving "extends os" "node_wf os" for os :: "('t, 'w) outside"
  by unfold_locales (simp_all, (fact extends_trans), (fact extends_wf))


subsection \<open>Names and channels\<close>

lemma fs_parts [simp]: "same_parts n (n\<lparr>nd_fs := t\<rparr>)"
  by (simp add: same_parts_def)

lemma open_discovery_parts: "open_discovery fs wapi n = (r, n') \<Longrightarrow> same_parts n n'"
  by (auto simp: open_discovery_def same_parts_def Let_def split: option.splits sum.splits prod.splits)

lemma publish_parts: "same_parts n (publish_change fs wapi c n)"
proof -
  obtain r n1 where o: "open_discovery fs wapi n = (r, n1)" by fastforce
  have "same_parts n1 (publish_change fs wapi c n)"
    by (simp add: publish_change_def o same_parts_def case_prod_beta split: sum.split)
  with open_discovery_parts [OF o] show ?thesis by (rule same_parts_trans)
qed

lemma registry_extends: "(registry_wf (nd_registry n) \<Longrightarrow> registry_wf reg) \<Longrightarrow> extends os n (n\<lparr>nd_registry := reg\<rparr>)"
  by (auto simp: extends_def)

lemma claim_extends:
  assumes "claim_name fs wapi now nanos name rs mtu m n = (r, n')"
  shows "extends os n n'" "r = Inr i \<Longrightarrow> ci_name i = name"
proof -
  let ?i = "\<lparr>ci_name = name, ci_owner = self_id n, ci_region_size = rs, ci_mtu = mtu,
            ci_earliest_index = 0, ci_registered_at_nanos = nanos, ci_epoch = claim_epoch (nd_registry n) name,
            ci_deleted = False, ci_member_of = m\<rparr>"
  let ?n = "n\<lparr>nd_registry := snd (merge (nd_registry n) ?i)\<rparr>"
  have r: "extends os n ?n" by (rule registry_extends) simp
  then have "extends os n (publish_change fs wapi c ?n)" for c
    using extends_trans same_parts_extends [OF publish_parts] by blast
  with r show "extends os n n'"
    using assms by (auto simp: claim_name_def Let_def case_prod_beta snd_merge_tracked split: if_splits)
  show "r = Inr i \<Longrightarrow> ci_name i = name"
    using assms by (auto simp: claim_name_def Let_def case_prod_beta split: if_splits)
qed

lemma announce_parts: "node_announce delta n = Some (r, n') \<Longrightarrow> same_parts n n'"
  by (auto simp: node_announce_def same_parts_def)

lemma announce_hosted_extends:
  assumes "announce_hosted i p a b n = Some (r, n')" "node_channel_path os n (ci_name i) = Inr p"
  shows "extends os n n'"
proof -
  from assms(1) obtain n1 where n1: "node_announce [i] n = Some (Inr (), n1)"
    "n' = n1\<lparr>nd_hosted := (nd_hosted n1)(ci_name i \<mapsto> \<lparr>cs_path = p, cs_region_size = ci_region_size i, cs_mtu = ci_mtu i,
        cs_file_roll_size = a, cs_keep_files = b\<rparr>)\<rparr>"
    by (auto simp: announce_hosted_def act_bind_Some node_announce_def)
  have e: "extends os n n1" using n1(1) announce_parts same_parts_extends by blast
  have "extends os n1 n'" using assms(2) extendsD(12) [OF e] by (auto simp: n1(2) extends_def)
  with e show ?thesis by (rule extends_trans)
qed

lemma ensure_parent_parts: "ensure_parent fs p n = Some (r, n') \<Longrightarrow> same_parts n n'"
  using ensure_parent_subs [of fs p n r n'] by auto

lemma on_fs_parts: "on_fs f n = (r, n') \<Longrightarrow> same_parts n n'"
  by (auto simp: on_fs_def split: prod.splits)

text \<open>A chain of actions extends a node whose paths are \<open>f\<close> if each does, whatever they return.\<close>

definition extending ::
  "('t, 'w) outside \<Rightarrow> (rstring \<Rightarrow> path io_result) \<Rightarrow> (('t, 'w, 'r) node, 'a) act \<Rightarrow> bool" where
  "extending os f a \<longleftrightarrow> (\<forall>n r n'. node_channel_path os n = f \<longrightarrow> a n = Some (r, n') \<longrightarrow> extends os n n')"

lemma extendingD: "extending os (node_channel_path os n) a \<Longrightarrow> a n = Some (r, n') \<Longrightarrow> extends os n n'"
  by (simp add: extending_def)

lemma extending_bind:
  assumes "extending os f a" and "\<And>x. extending os f (g x)"
  shows "extending os f (act_bind a g)"
  unfolding extending_def
proof (intro allI impI)
  fix n r n' assume f: "node_channel_path os n = f" and b: "act_bind a g n = Some (r, n')"
  from b consider e where "a n = Some (Inl e, n')" | x n1 where "a n = Some (Inr x, n1)" "g x n1 = Some (r, n')"
    by (auto simp: act_bind_Some)
  then show "extends os n n'"
  proof cases
    case (2 x n1)
    have e: "extends os n n1" using assms(1) f 2(1) by (auto simp: extending_def)
    then have "node_channel_path os n1 = f" using f extendsD(12) by fastforce
    with assms(2) 2(2) have "extends os n1 n'" by (auto simp: extending_def)
    with e show ?thesis by (rule extends_trans)
  qed (use assms(1) f in \<open>auto simp: extending_def\<close>)
qed

lemma extending_claim:
  assumes "\<And>i. ci_name i = name \<Longrightarrow> extending os f (g i)"
  shows "extending os f (act_bind (act_total (claim_name fs wapi now nanos name rs mtu m)) g)"
  unfolding extending_def
proof (intro allI impI)
  fix n r n' assume f: "node_channel_path os n = f"
    and b: "act_bind (act_total (claim_name fs wapi now nanos name rs mtu m)) g n = Some (r, n')"
  obtain q n1 where c: "claim_name fs wapi now nanos name rs mtu m n = (q, n1)" by fastforce
  have e: "extends os n n1" using c by (rule claim_extends)
  show "extends os n n'"
  proof (cases q)
    case (Inr i)
    have "ci_name i = name" using claim_extends(2) [OF c Inr] .
    moreover have "g i n1 = Some (r, n')" using b c Inr by (simp add: act_bind_def)
    moreover have "node_channel_path os n1 = f" using f extendsD(12) [OF e] by simp
    ultimately have "extends os n1 n'" using assms [of i] by (auto simp: extending_def)
    with e show ?thesis by (rule extends_trans)
  qed (use b c e in \<open>simp add: act_bind_def\<close>)
qed

lemma extending_modify: "(\<And>n. extends os n (h n)) \<Longrightarrow> extending os f (act_modify h)"
  by (auto simp: extending_def)

lemma extending_return: "extending os f (act_return x)"
  by (auto simp: extending_def)

lemma extending_lift: "extending os f (act_lift r)"
  by (auto simp: extending_def)

lemma extending_announce: "extending os f (node_announce delta)"
  by (auto simp: extending_def dest: announce_parts same_parts_extends)

lemma extending_hosted: "f (ci_name i) = Inr p \<Longrightarrow> extending os f (announce_hosted i p a b)"
  by (auto simp: extending_def dest: announce_hosted_extends)

lemma extending_parent: "extending os f (ensure_parent fs p)"
  by (auto simp: extending_def dest: ensure_parent_parts same_parts_extends)

lemma extending_fs: "extending os f (act_total (on_fs h))"
  by (auto simp: extending_def dest: on_fs_parts same_parts_extends)

lemma extending_publish: "extends os n (publish_change fs wapi c n)"
  by (rule same_parts_extends [OF publish_parts])

lemma extending_tombstone: "extending os f (disseminate_tombstone os' now t)"
  unfolding disseminate_tombstone_def by (intro extending_bind extending_modify extending_announce extending_publish)

lemmas extending_intros = extending_bind extending_return extending_lift extending_announce extending_hosted
  extending_parent extending_fs extending_tombstone

lemma remove_dir_extends: "extends os n (remove_channel_dir os' name n)"
  using remove_channel_dir_fs [of os' name n] by (auto intro: same_parts_extends)

lemma create_origin_extends:
  assumes "create_origin os now nanos name options m n = Some (r, n')"
  shows "extends os n n'"
proof (cases "node_channel_path os n name")
  case (Inr p)
  have "extending os (node_channel_path os n)
     (act_bind (act_total (claim_name (os_fs os) (os_writer os) now nanos name (co_region_size options) (co_mtu options) m)) (\<lambda>identity.
     act_bind (ensure_parent (os_fs os) p) (\<lambda>_.
     act_bind (act_lift (wr_name_check (os_writer os) name)) (\<lambda>_.
     act_bind (act_total (on_fs (\<lambda>t. os_precreate os t p (origin_config identity options)))) (\<lambda>_.
     act_bind (announce_hosted identity p (co_file_roll_size options) (co_keep_files options)) (\<lambda>_.
     act_return p))))))"
    by (rule extending_claim) (intro extending_intros, simp add: Inr)
  from extendingD [OF this] show ?thesis using assms Inr by (simp add: create_origin_def act_bind_def [of "act_lift _"])
qed (use assms in \<open>simp add: create_origin_def act_bind_def\<close>)


lemma extending_origin: "extending os f (create_origin os now nanos name options m)"
  by (auto simp: extending_def dest: create_origin_extends)

lemma put_mux_parts [simp]: "same_parts n (put_mux topic m n)"
  by (simp add: put_mux_def same_parts_def)

lemma attach_member_parts: "attach_member rapi os sg topic name epoch p n = Some (r, n') \<Longrightarrow> same_parts n n'"
  by (auto simp: attach_member_def put_mux_def same_parts_def split: option.splits)

lemma open_mux_parts: "open_mux rapi os ts p name g batch n = Some (r, n') \<Longrightarrow> same_parts n n'"
  by (auto simp: open_mux_def)

lemma extending_member: "extending os f (attach_member rapi os' sg topic name epoch p)"
  by (auto simp: extending_def dest: attach_member_parts same_parts_extends)

lemma extending_mux: "extending os f (open_mux rapi os' ts p name g batch)"
  by (auto simp: extending_def dest: open_mux_parts same_parts_extends)

lemma extending_node: "(\<And>m. extending os f (a m)) \<Longrightarrow> extending os f (\<lambda>n. a n n)"
  by (auto simp: extending_def)

lemma create_topic_extends:
  assumes "create_topic rapi os now nanos ts name options n = Some (r, n')" shows "extends os n n'"
proof -
  have "extending os (node_channel_path os n) (create_topic rapi os now nanos ts name options)"
    unfolding create_topic_def create_for_client_def Let_def
    by (intro extending_intros extending_origin extending_mux extending_modify)
      (auto intro!: same_parts_extends simp: same_parts_def put_mux_def)
  from extendingD [OF this assms] show ?thesis .
qed

lemma publish_to_topic_extends:
  assumes "publish_to_topic rapi os now nanos sg topic member options n = Some (r, n')" shows "extends os n n'"
proof -
  have "extending os (node_channel_path os n) (publish_to_topic rapi os now nanos sg topic member options)"
    unfolding publish_to_topic_def
  proof (rule extending_bind [OF extending_origin])
    show "extending os (node_channel_path os n) (\<lambda>n. act_bind (attach_member rapi os sg topic member
        (case get_raw (nd_registry n) member of Some i \<Rightarrow> ci_epoch i | None \<Rightarrow> 0) p) (\<lambda>_. act_return p) n)" for p
      by (rule extending_node) (intro extending_bind extending_member extending_return)
  qed
  from extendingD [OF this assms] show ?thesis .
qed

lemma unhost_extends: "(registry_wf (nd_registry n) \<Longrightarrow> registry_wf reg) \<Longrightarrow>
    extends os n (n\<lparr>nd_registry := reg, nd_hosted := (nd_hosted n)(name := None)\<rparr>)"
  by (auto simp: extends_def)

lemma stop_sub_parts: "same_parts n (stop_sub h n)"
  by (auto simp: same_parts_def stop_sub_def dom_def)

lemma unsubscribe_extends: "extends os n (snd (unsubscribe name n))"
  by (auto simp: extends_def unsubscribe_def stop_sub_def dom_def ran_def split: option.split)

lemma retire_extends: "extends os n (retire_subscription name n)"
proof -
  have "extends os m (attach_now name m)" for m by (rule same_parts_extends) (simp add: attach_now_def same_parts_def)
  then show ?thesis unfolding retire_subscription_def using unsubscribe_extends extends_trans by blast
qed

lemma node_deregister_extends:
  assumes "node_deregister os now name n = Some (r, n')" shows "extends os n n'"
proof -
  obtain d reg where d: "deregister (nd_registry n) name (self_id n) = (d, reg)" by fastforce
  have w: "registry_wf (nd_registry n) \<Longrightarrow> registry_wf reg"
    using registry_wf_deregister [of "nd_registry n" name "self_id n"] by (simp add: d)
  show ?thesis
  proof (cases d)
    case None
    with assms d w show ?thesis by (auto simp: node_deregister_def intro: registry_extends)
  next
    case (Some t)
    let ?n = "n\<lparr>nd_registry := reg, nd_hosted := (nd_hosted n)(name := None)\<rparr>"
    have "extending os (node_channel_path os ?n) (act_bind (disseminate_tombstone os now t) (\<lambda>_.
         act_bind (act_modify (remove_channel_dir os name)) (\<lambda>_. act_return True)))"
      by (intro extending_intros extending_modify remove_dir_extends)
    from extendingD [OF this] have "extends os ?n n'" using assms d Some by (auto simp: node_deregister_def act_bind_def [of "act_modify _"])
    with unhost_extends [OF w] show ?thesis by (rule extends_trans)
  qed
qed

lemma unreachable_parts: "unreachable_for now owner n = (d, n') \<Longrightarrow> same_parts n n'"
  by (auto simp: unreachable_for_def same_parts_def split: option.splits)

lemma force_deregister_extends:
  fixes n :: "('t, 'w, 'r) node"
  assumes "force_deregister os now name n = Some (r, n')" shows "extends os n n'"
proof (cases "get (nd_registry n) name")
  case (Some i)
  obtain away n1 where u: "unreachable_for now (ci_owner i) n = (away, n1)" by fastforce
  have e1: "extends os n n1" using unreachable_parts [OF u] by (rule same_parts_extends)
  obtain t reg where t: "reap (nd_registry n1) name = (t, reg)" by fastforce
  have w: "registry_wf (nd_registry n1) \<Longrightarrow> registry_wf reg" using registry_wf_reap [of "nd_registry n1" name] by (simp add: t)
  have "extends os n1 (n1\<lparr>nd_registry := reg\<rparr>)" using w by (rule registry_extends)
  with e1 have e2: "extends os n (n1\<lparr>nd_registry := reg\<rparr>)" by (rule extends_trans)
  define g where "g tomb = act_bind (disseminate_tombstone os now tomb) (\<lambda>_.
      act_bind (act_modify (retire_subscription name :: ('t, 'w, 'r) node \<Rightarrow> _)) (\<lambda>_. act_return True))" for tomb
  have g: "extending os f (g tomb)" for f tomb
    unfolding g_def by (intro extending_intros extending_modify retire_extends)
  have eq: "force_deregister os now name n =
      (if ci_owner i = self_id n then Some (Inl (IoError InvalidInput ''channel is owned by this node - use deregister''), n)
       else if bd_live_addr_of now (nd_bcast n) (ci_owner i) \<noteq> None
         then Some (Inl (IoError ResourceBusy ''owner is a live member - it has not gone anywhere''), n)
       else if away < cfg_reclaim_after (nd_config n) then
         Some (Inl (IoError ResourceBusy ''owner has been unreachable for less than required to reclaim it''), n1)
       else case t of None \<Rightarrow> Some (Inr False, n1\<lparr>nd_registry := reg\<rparr>) | Some tomb \<Rightarrow> g tomb (n1\<lparr>nd_registry := reg\<rparr>))"
    unfolding force_deregister_def Some option.case u Let_def prod.case t g_def by (rule refl)
  note s = assms [unfolded eq]
  show ?thesis
  proof (cases "ci_owner i = self_id n \<or> bd_live_addr_of now (nd_bcast n) (ci_owner i) \<noteq> None")
    case True
    with s have "n' = n" by (metis option.inject prod.inject)
    then show ?thesis by simp
  next
    case no: False
    show ?thesis
    proof (cases "away < cfg_reclaim_after (nd_config n)")
      case True
      with s no have "n' = n1" by simp
      with e1 show ?thesis by simp
    next
      case False
      with s no have r: "(case t of None \<Rightarrow> Some (Inr False, n1\<lparr>nd_registry := reg\<rparr>)
          | Some tomb \<Rightarrow> g tomb (n1\<lparr>nd_registry := reg\<rparr>)) = Some (r, n')" by simp
      show ?thesis
      proof (cases t)
        case None
        with r e2 show ?thesis by simp
      next
        case (Some tomb)
        with r have "g tomb (n1\<lparr>nd_registry := reg\<rparr>) = Some (r, n')" by simp
        then show ?thesis by (rule extends_trans [OF e2 extendingD [OF g]])
      qed
    qed
  qed
qed (use assms in \<open>simp add: force_deregister_def\<close>)

subsection \<open>Subscriptions\<close>

lemma with_shared_parts [simp]: "same_parts n (with_shared h f n)"
  by (auto simp: same_parts_def with_shared_def dom_def)

lemma set_flag_parts [simp]: "same_parts n (set_establishing b h n)" "same_parts n (set_connected b h n)"
  by (simp_all add: set_establishing_def set_connected_def)

lemma backoff_parts [simp]: "same_parts n (n\<lparr>nd_attach_backoff := b\<rparr>)"
  by (simp add: same_parts_def)

lemma attach_due_parts: "attach_due c name n = (b, n') \<Longrightarrow> same_parts n n'"
  by (auto simp: attach_due_def Let_def split: if_splits)

lemma spawn_parts:
  assumes "spawn_establish c spawned name h why n = (b, n')" shows "same_parts n n'"
proof -
  define n1 where "n1 = (if why = Caller then attach_now name n else n)"
  have p1: "same_parts n n1" by (simp add: n1_def attach_now_def)
  obtain due n3 where d: "(if why = Retry then attach_due c name (set_establishing True h n1) else (True, set_establishing True h n1)) = (due, n3)"
    by fastforce
  then have "same_parts (set_establishing True h n1) n3" by (auto split: if_splits dest: attach_due_parts)
  then have p3: "same_parts n n3" using p1 same_parts_trans set_flag_parts(1) by metis
  from assms have "n' = n1 \<or> n' = n3 \<or> n' = set_establishing False h n3"
    by (auto simp: spawn_establish_def Let_def n1_def [symmetric] d split: if_splits)
  with p1 p3 show ?thesis using same_parts_trans set_flag_parts(1) by metis
qed

lemma fresh_handle_extends:
  "extends os n (n\<lparr>nd_shared := (nd_shared n)(nd_next_handle n \<mapsto> s), nd_next_handle := Suc (nd_next_handle n),
     nd_conducted := nd_conducted n @ [(name, nd_next_handle n)]\<rparr>)"
  by (auto simp: extends_def)

lemma subscribe_as_extends:
  assumes "subscribe_as os' resolved c spawned name why n = Some (r, n')"
  shows "extends os n n'" "r = Inr (h, b) \<Longrightarrow> h \<in> dom (nd_shared n')"
proof -
  from assms consider e n1 where "r = Inl e" "same_parts n n1" "n' = n1"
    | p n1 where "same_parts n n1"
        "spawn_establish c spawned name (nd_next_handle n1) why (n1\<lparr>nd_shared := (nd_shared n1)(nd_next_handle n1 \<mapsto> sub_new p),
           nd_next_handle := Suc (nd_next_handle n1), nd_conducted := nd_conducted n1 @ [(name, nd_next_handle n1)]\<rparr>) =
           (snd (projr r), n')" "fst (projr r) = nd_next_handle n1"
    by (auto simp: subscribe_as_def act_bind_Some Let_def case_prod_beta prod_eq_iff dest: ensure_parent_parts)
  then have "extends os n n' \<and> (r = Inr (h, b) \<longrightarrow> h \<in> dom (nd_shared n'))"
  proof cases
    case (2 p n1)
    from spawn_parts [OF 2(2)] have p: "nd_next_handle n1 \<in> dom (nd_shared n')" by (simp add: same_parts_def)
    have "extends os n n'"
      by (rule extends_trans [OF same_parts_extends [OF 2(1)] extends_trans [OF fresh_handle_extends same_parts_extends [OF spawn_parts [OF 2(2)]]]])
    with p 2(3) show ?thesis by auto
  qed (auto intro: same_parts_extends)
  then show "extends os n n'" "r = Inr (h, b) \<Longrightarrow> h \<in> dom (nd_shared n')" by auto
qed

lemma insert_sub_extends: "h \<in> dom (nd_shared n) \<Longrightarrow> extends os n (insert_sub name h n)"
  by (auto simp: extends_def insert_sub_def stop_sub_def Let_def dom_def ran_def split: option.splits)


subsection \<open>Requests\<close>

lemma create_for_client_extends:
  "create_for_client os now nanos name options n = Some (r, n') \<Longrightarrow> extends os n n'"
  unfolding create_for_client_def by (rule create_origin_extends)

lemma list_channels_parts:
  assumes "list_channels fs wapi now pfx n = (r, n')" shows "same_parts n n'"
proof -
  obtain q n1 where o: "open_discovery fs wapi n = (q, n1)" by fastforce
  then have "n' = n1" using assms by (cases q) (auto simp: list_channels_def Let_def)
  with open_discovery_parts [OF o] show ?thesis by simp
qed

fun waits :: "client_request \<Rightarrow> bool" where
  "waits (ReqSubscribe _ _) = True"
| "waits _ = False"

lemma handle_request_extends:
  assumes "handle_request os rapi ev q n = Some (answered, n')" and "\<not> waits q"
  shows "extends os n n'"
proof (cases q)
  case (ReqDeregister name)
  with assms obtain r n1 where d: "node_deregister os (re_now ev) name n = Some (r, n1)"
    "(case r of Inr existed \<Rightarrow> (ReplyDeregistered existed, retire_subscription name n1) | Inl e \<Rightarrow> (ReplyError (to_string e), n1)) = (answered, n')"
    by auto
  then have "n' = n1 \<or> n' = retire_subscription name n1" by (cases r) auto
  then show ?thesis using node_deregister_extends [OF d(1)] retire_extends extends_trans by metis
next
  case (ReqListChannels p)
  with assms have "snd (list_channels (os_fs os) (os_writer os) (re_now ev) p n) = n'"
    by (auto simp: reply_with_def case_prod_beta)
  then show ?thesis using list_channels_parts same_parts_extends by (metis prod.collapse)
next
  case (ReqForceDeregister name)
  with assms show ?thesis by (auto simp: reply_with_def dest: force_deregister_extends)
qed (use assms in \<open>auto dest: create_for_client_extends create_topic_extends publish_to_topic_extends\<close>)

subsection \<open>The parts of a tick\<close>

lemma bcast_parts [simp]: "same_parts n (n\<lparr>nd_bcast := d\<rparr>)"
  by (simp add: same_parts_def)

lemma report_parts: "report_duplicate_identity removed conflicts n = (v, n') \<Longrightarrow> same_parts n n'"
  by (auto simp: report_duplicate_identity_def Let_def same_parts_def split: if_splits sum.splits)

lemma tick_pump_parts:
  assumes "tick_pump removed n = Some (pumped, restart, n')" shows "same_parts n n'"
proof -
  from assms obtain conflicts d where t: "tick_links (nd_bcast n) = Some (conflicts, d)"
    by (auto simp: tick_pump_def split: option.splits)
  obtain v n1 where v: "(if conflicts \<noteq> [] then report_duplicate_identity removed conflicts (n\<lparr>nd_bcast := d\<rparr>)
      else (Continue, n\<lparr>nd_bcast := d\<rparr>)) = (v, n1)" by fastforce
  then have "same_parts (n\<lparr>nd_bcast := d\<rparr>) n1" by (auto split: if_splits dest: report_parts)
  then have "same_parts n n1" by (rule same_parts_trans [OF bcast_parts])
  moreover have "\<exists>d2. n' = n1\<lparr>nd_bcast := d2\<rparr>" using assms by (auto simp: tick_pump_def t v Let_def split: prod.splits)
  ultimately show ?thesis using same_parts_trans bcast_parts by metis
qed

lemma merge_and_publish_extends: "extends os n (snd (merge_and_publish fs wapi now i n))"
proof -
  let ?n = "n\<lparr>nd_registry := snd (merge (nd_registry n) i)\<rparr>"
  have r: "extends os n ?n" by (rule registry_extends) simp
  then have "extends os n (publish_change fs wapi c ?n)" for c
    using extends_trans same_parts_extends [OF publish_parts] by blast
  with r show ?thesis by (simp add: merge_and_publish_def Let_def case_prod_beta snd_merge_tracked)
qed

lemma gossip_pass_extends:
  assumes "gossip_pass fs wapi now pumped n = Some n'" shows "extends os n n'"
proof -
  define g where "g = gossip_merge fs wapi now pumped n"
  have one: "extends os (gs_node s) (gs_node (gossip_one fs wapi now x s))" for x s
    using merge_and_publish_extends [of os "gs_node s" fs wapi now "snd x"]
    by (simp add: gossip_one_def case_prod_beta)
  have e: "extends os n (gs_node g)"
    unfolding g_def gossip_merge_def
    using ext.fold_rel [where f = gs_node and g = "gossip_one fs wapi now" and xs = pumped
        and s = "\<lparr>gs_node = n, gs_relay = RBT.empty, gs_reply = RBT.empty, gs_retired = []\<rparr>", OF one] by simp
  obtain d where d: "n' = fold retire_subscription (gs_retired g) ((gs_node g)\<lparr>nd_bcast := d\<rparr>)"
    using assms by (auto simp: gossip_pass_def g_def [symmetric] Let_def bind_eq_Some_conv)
  have "extends os m (fold retire_subscription xs m)" for xs and m :: "('a, 'b, 'c) node"
    using ext.fold_rel [of os "\<lambda>m. m" retire_subscription] by (simp add: retire_extends)
  then show ?thesis
    unfolding d by (rule extends_trans [OF e extends_trans [OF same_parts_extends [OF bcast_parts]]])
qed

lemma note_unreachable_parts: "same_parts n (note_unreachable_owners now n)"
  by (simp add: note_unreachable_owners_def Let_def same_parts_def)


lemma dead_since_parts [simp]: "same_parts n (n\<lparr>nd_member_dead_since := f\<rparr>)"
  by (simp add: same_parts_def)

lemma reap_member_extends:
  assumes "reap_member os' now reap_after m n = Some n'" shows "extends os n n'"
proof -
  obtain t reg where t: "reap (nd_registry n) (ci_name m) = (t, reg)" by fastforce
  let ?n = "n\<lparr>nd_member_dead_since := (nd_member_dead_since n)((ci_name m, ci_epoch m) := None), nd_registry := reg\<rparr>"
  have w: "registry_wf (nd_registry n) \<Longrightarrow> registry_wf reg" using registry_wf_reap [of "nd_registry n" "ci_name m"] by (simp add: t)
  have e: "extends os n ?n"
    by (rule extends_trans [OF same_parts_extends [OF dead_since_parts] registry_extends]) (simp add: w)
  from assms consider f where "n' = n\<lparr>nd_member_dead_since := f\<rparr>" | "n' = ?n"
    | tomb r where "disseminate_tombstone os' now tomb ?n = Some (r, n')"
    by (auto simp: reap_member_def Let_def t split: if_splits option.splits)
  then show ?thesis
  proof cases
    case (3 tomb r)
    show ?thesis by (rule extends_trans [OF e extendingD [OF extending_tombstone 3]])
  qed (use e in \<open>auto intro: same_parts_extends\<close>)
qed

lemma reap_members_extends: "reap_members os' now after xs n = Some n' \<Longrightarrow> extends os n n'"
  by (rule ext.chain_rel [where run = "reap_members os' now after" and step = "reap_member os' now after"]) (auto dest: reap_member_extends)

lemma reap_topics_extends: "reap_topics os' now ts n = Some n' \<Longrightarrow> extends os n n'"
  by (rule ext.chain_rel [where run = "reap_topics os' now" and step = "\<lambda>(topic, after) n. reap_members os' now after (topic_members topic n) n"])
    (auto dest: reap_members_extends)

lemma ensure_subscription_extends: "extends os n (ensure_member_subscription os' a name n)"
proof (cases "case nd_subscriptions n name of Some h \<Rightarrow> sub_is_active h n | None \<Rightarrow> False")
  case no: False
  show ?thesis
  proof (cases "Option.bind (resolve name (Some 0) (at_now a) [(at_now a, n)])
      (\<lambda>resolved. subscribe_as os' resolved (at_clock a) (at_spawned a) name Retry n)")
    case (Some rn)
    obtain r n1 where rn: "rn = (r, n1)" by (cases rn)
    with Some obtain resolved where s: "subscribe_as os' resolved (at_clock a) (at_spawned a) name Retry n = Some (r, n1)"
      by (auto simp: bind_eq_Some_conv)
    show ?thesis
    proof (cases r)
      case (Inr hb)
      obtain h b where "r = Inr (h, b)" using Inr by (cases hb) auto
      note h = subscribe_as_extends(2) [OF s this]
      have "ensure_member_subscription os' a name n = insert_sub name h n1"
        using no by (simp add: ensure_member_subscription_def Some rn \<open>r = Inr (h, b)\<close>)
      then show ?thesis using extends_trans [OF subscribe_as_extends(1) [OF s] insert_sub_extends [OF h]] by simp
    qed (use no s in \<open>simp add: ensure_member_subscription_def Some rn subscribe_as_extends(1)\<close>)
  qed (use no in \<open>simp add: ensure_member_subscription_def\<close>)
qed (simp add: ensure_member_subscription_def)

lemma attach_one_extends:
  assumes "attach_one rapi os' live topic a m n = Some n'" shows "extends os n n'"
proof -
  define n1 where "n1 = (if ci_owner m \<noteq> self_id n \<and> ci_owner m \<in> live then ensure_member_subscription os' a (ci_name m) n else n)"
  have e: "extends os n n1" by (simp add: n1_def ensure_subscription_extends)
  from assms consider "n' = n1" | p r where "attach_member rapi os' (at_sight a) topic (ci_name m) (ci_epoch m) p n1 = Some (r, n')"
    unfolding attach_one_def Let_def n1_def [symmetric]
    by (auto split: if_splits sum.splits)
  then show ?thesis
  proof cases
    case (2 p r)
    show ?thesis by (rule extends_trans [OF e same_parts_extends [OF attach_member_parts [OF 2]]])
  qed (use e in simp)
qed

lemma attach_all_extends: "attach_all rapi os' live topic turn xs n = Some n' \<Longrightarrow> extends os n n'"
  by (rule ext.chain_rel [where run = "attach_all rapi os' live topic turn" and step = "\<lambda>m. attach_one rapi os' live topic (turn m) m"]) (auto dest: attach_one_extends)

lemma detach_one_extends:
  assumes "detach_one rapi os' topic reads live key n = Some n'" shows "extends os n n'"
proof -
  from assms consider "n' = n" | t m' where "n' = drop_sub (fst key) (put_mux topic m' (n\<lparr>nd_fs := t\<rparr>))"
    by (auto simp: detach_one_def split: if_splits option.splits)
  then show ?thesis
  proof cases
    case (2 t m')
    have "same_parts n (put_mux topic m' (n\<lparr>nd_fs := t\<rparr>))" by (rule same_parts_trans [OF fs_parts put_mux_parts])
    then show ?thesis unfolding 2 drop_sub_def by (rule extends_trans [OF same_parts_extends unsubscribe_extends])
  qed simp
qed

lemma detach_all_extends: "detach_all rapi os' topic reads live ks n = Some n' \<Longrightarrow> extends os n n'"
  by (rule ext.chain_rel [where run = "detach_all rapi os' topic reads live" and step = "detach_one rapi os' topic reads live"]) (auto dest: detach_one_extends)

lemma attach_topic_extends:
  assumes "attach_topic rapi os' live turn reads topic n = Some n'" shows "extends os n n'"
proof -
  from assms obtain n1 ls ks where s: "attach_all rapi os' live topic turn ls n = Some n1"
    "detach_all rapi os' topic reads (set (map (\<lambda>m. (ci_name m, ci_epoch m)) ls)) ks n1 = Some n'"
    by (auto simp: bind_eq_Some_conv attach_topic_def Let_def)
  show ?thesis by (rule extends_trans [OF attach_all_extends [OF s(1)] detach_all_extends [OF s(2)]])
qed

lemma attach_topics_extends: "attach_topics rapi os' live turn reads ts n = Some n' \<Longrightarrow> extends os n n'"
  by (rule ext.chain_rel [where run = "attach_topics rapi os' live turn reads" and step = "attach_topic rapi os' live turn reads"]) (auto dest: attach_topic_extends)

lemma attach_pending_extends:
  assumes "attach_pending_members rapi os' now turn reads n = Some n'" shows "extends os n n'"
proof -
  have p: "same_parts n (live_owners_noting_revivals live n)" for live
    by (simp add: live_owners_noting_revivals_def Let_def same_parts_def)
  show ?thesis
    using assms unfolding attach_pending_members_def Let_def
    by (rule extends_trans [OF same_parts_extends [OF p] attach_topics_extends])
qed


lemma dial_peer_parts: "dial_peer t addr n = Some n' \<Longrightarrow> same_parts n n'"
  by (auto simp: dial_peer_def charge_dial_def Let_def same_parts_def split: option.splits)

lemma dial_walk_parts: "dial_walk budget dialled xs n = Some (ds, n') \<Longrightarrow> same_parts n n'"
proof (induction budget dialled xs n rule: dial_walk.induct)
  case (2 budget dialled addr t rest n)
  then show ?case
    by (auto simp: bind_eq_Some_conv split: if_splits dest: dial_peer_parts intro: same_parts_trans)
qed auto

lemma dial_some_parts: "dial_some cs cursor budget turns n = Some (ds, c, n') \<Longrightarrow> same_parts n n'"
  by (auto simp: dial_some_def Let_def split: if_splits dest: dial_walk_parts)

lemma cursor_parts [simp]: "same_parts n (n\<lparr>nd_dial_cursor_learned := c\<rparr>)" "same_parts n (n\<lparr>nd_dial_cursor_twins := c\<rparr>)"
  "same_parts n (n\<lparr>nd_dial_cursor_seeds := c\<rparr>)"
  by (simp_all add: same_parts_def)

lemma connect_seeds_parts: "connect_seeds turns n = Some (ds, n') \<Longrightarrow> same_parts n n'"
  by (auto simp: connect_seeds_def dest!: dial_some_parts intro: same_parts_trans)

lemma connect_learned_parts:
  assumes "connect_learned_peers turns twins n = Some (ds, n')" shows "same_parts n n'"
proof -
  from assms obtain xs c n1 ys c' n2 ps qs b b' where d: "dial_some ps b MAX_DIALS_PER_TICK turns n = Some (xs, c, n1)"
    "dial_some qs b' MAX_TWIN_DIALS_PER_TICK twins (n1\<lparr>nd_dial_cursor_learned := c\<rparr>) = Some (ys, c', n2)"
    "n' = n2\<lparr>nd_dial_cursor_twins := c'\<rparr>"
    by (auto simp: connect_learned_peers_def Let_def bind_eq_Some_conv)
  note p = dial_some_parts [OF d(1)] dial_some_parts [OF d(2)]
  show ?thesis
    unfolding d(3) by (rule same_parts_trans [OF p(1) same_parts_trans [OF cursor_parts(1) same_parts_trans [OF p(2) cursor_parts(2)]]])
qed

lemma service_walk_parts: "service_walk xs n = (started, n') \<Longrightarrow> same_parts n n' \<and> snd ` set started \<subseteq> (snd \<circ> fst) ` set xs"
proof (induction xs arbitrary: n started n')
  case (Cons x xs)
  obtain name h c sp where x: "x = ((name, h), c, sp)" by (metis prod.exhaust)
  show ?case
  proof (cases "flag sh_stopped h n \<or> flag sh_connected h n")
    case True
    with Cons.prems x have "service_walk xs n = (started, n')" by simp
    from Cons.IH [OF this] show ?thesis by auto
  next
    case False
    obtain b n1 where s: "spawn_establish c sp name h Retry n = (b, n1)" by fastforce
    obtain hs n2 where w: "service_walk xs n1 = (hs, n2)" by fastforce
    have r: "n' = n2" "started = (if b then (name, h) # hs else hs)" using Cons.prems False by (simp_all add: x s w split: if_splits)
    have "same_parts n n2" by (rule same_parts_trans [OF spawn_parts [OF s] conjunct1 [OF Cons.IH [OF w]]])
    with Cons.IH [OF w] show ?thesis by (auto simp: r x)
  qed
qed simp

lemma service_extends:
  assumes "service_subscriptions turns n = (started, n')"
  shows "extends os n n'" "snd ` set started \<subseteq> snd ` set (nd_conducted n)"
proof -
  let ?w = "filter (\<lambda>(_, h). sub_is_active h n) (nd_conducted n)"
  have e: "extends os n (n\<lparr>nd_conducted := ?w\<rparr>)" by (auto simp: extends_def)
  have w: "service_walk (zip ?w (map turns [0..<length ?w])) (n\<lparr>nd_conducted := ?w\<rparr>) = (started, n')"
    using assms by (simp add: service_subscriptions_def Let_def)
  note p = service_walk_parts [OF w]
  show "extends os n n'" using e same_parts_extends [OF conjunct1 [OF p]] by (rule extends_trans)
  show "snd ` set started \<subseteq> snd ` set (nd_conducted n)"
    using conjunct2 [OF p] by (auto dest!: subsetD set_zip_leftD)
qed

lemma tick_extends:
  assumes "maintenance_tick rapi os te n = Some (restart, started, n')"
  shows "extends os n n' \<and> snd ` set started \<subseteq> snd ` set (nd_conducted n) \<union> dom (nd_shared n')"
proof -
  from assms obtain pumped n1 n2 n3 n4 ds n5 es n6 where s:
    "tick_pump (te_removed te) n = Some (pumped, restart, n1)"
    "(if pumped = [] then Some n1 else gossip_pass (os_fs os) (os_writer os) (te_merge_now te) pumped n1) = Some n2"
    "reap_dead_members os (te_reap_now te) (note_unreachable_owners (te_note_now te) n2) = Some n3"
    "attach_pending_members rapi os (te_attach_now te) (te_attach te) (te_detach te) n3 = Some n4"
    "connect_seeds (te_seeds te) n4 = Some (ds, n5)" "connect_learned_peers (te_learned te) (te_twins te) n5 = Some (es, n6)"
    "service_subscriptions (te_service te) n6 = (started, n')"
    by (auto simp: maintenance_tick_def bind_eq_Some_conv split: prod.splits)
  have "extends os n1 n2" using s(2) by (auto split: if_splits intro: gossip_pass_extends)
  with same_parts_extends [OF tick_pump_parts [OF s(1)]] have "extends os n n2" by (rule extends_trans)
  moreover have "extends os n2 n3"
    using s(3) unfolding reap_dead_members_def
    by (rule extends_trans [OF same_parts_extends [OF note_unreachable_parts] reap_topics_extends])
  ultimately have "extends os n n3" by (rule extends_trans)
  from extends_trans [OF this attach_pending_extends [OF s(4)]] have "extends os n n4" .
  from extends_trans [OF this same_parts_extends [OF same_parts_trans [OF connect_seeds_parts [OF s(5)] connect_learned_parts [OF s(6)]]]]
  have e6: "extends os n n6" .
  note e = extends_trans [OF e6 service_extends(1) [OF s(7)]]
  have "A \<subseteq> B \<union> C'" if "A \<subseteq> D" "D \<subseteq> B \<union> C" "C \<subseteq> C'" for A B C C' D :: "nat set" using that by blast
  from this [OF service_extends(2) [OF s(7)] extendsD(9) [OF e6] extendsD(5) [OF service_extends(1) [OF s(7)]]] e
  show ?thesis by blast
qed


subsection \<open>The library's other operations, and reconstruction\<close>

lemma host_channel_extends:
  assumes "host_channel os now nanos name rs mtu c n = Some (r, n')" shows "extends os n n'"
proof (cases "node_channel_path os n name")
  case (Inr p)
  have "extending os (node_channel_path os n)
     (act_bind (act_total (claim_name (os_fs os) (os_writer os) now nanos name rs mtu None)) (\<lambda>identity.
     act_bind (ensure_parent (os_fs os) p) (\<lambda>_.
     act_bind (act_lift (wr_name_check (os_writer os) name)) (\<lambda>_.
     act_bind (act_total (on_fs (\<lambda>t. wr_build (os_writer os) t p (host_config identity rs mtu c)))) (\<lambda>w.
     act_bind (announce_hosted identity p 0 0) (\<lambda>_. act_return w))))))"
    by (rule extending_claim) (intro extending_intros, simp add: Inr)
  from extendingD [OF this] show ?thesis using assms Inr by (simp add: host_channel_def act_bind_def [of "act_lift _"])
qed (use assms in \<open>simp add: host_channel_def act_bind_def\<close>)

lemma muxes_parts [simp]: "same_parts n (n\<lparr>nd_muxes := x\<rparr>)" "same_parts n (n\<lparr>nd_topic_reap := y\<rparr>)"
  by (simp_all add: same_parts_def)

lemma extending_finish: "extending os f (finish_mux rapi os' reads m)"
  by (auto simp: extending_def finish_mux_def intro: same_parts_extends)

lemma extending_dereg:
  "extending os f (\<lambda>n. (case deregister (nd_registry n) topic (self_id n) of
     (None, reg) \<Rightarrow> act_modify (\<lambda>n. n\<lparr>nd_registry := reg\<rparr>)
   | (Some tombstone, reg) \<Rightarrow>
       act_bind (act_modify (\<lambda>n. n\<lparr>nd_registry := reg, nd_hosted := (nd_hosted n)(topic := None)\<rparr>)) (\<lambda>_.
       disseminate_tombstone os' now tombstone)) n)"
  unfolding extending_def
proof (intro allI impI)
  fix n n' :: "('a, 'b, 'c) node" and r
  assume a: "(case deregister (nd_registry n) topic (self_id n) of
     (None, reg) \<Rightarrow> act_modify (\<lambda>n. n\<lparr>nd_registry := reg\<rparr>)
   | (Some tombstone, reg) \<Rightarrow>
       act_bind (act_modify (\<lambda>n. n\<lparr>nd_registry := reg, nd_hosted := (nd_hosted n)(topic := None)\<rparr>)) (\<lambda>_.
       disseminate_tombstone os' now tombstone)) n = Some (r, n')"
  obtain d reg where d: "deregister (nd_registry n) topic (self_id n) = (d, reg)" by fastforce
  have w: "registry_wf (nd_registry n) \<Longrightarrow> registry_wf reg"
    using registry_wf_deregister [of "nd_registry n" topic "self_id n"] by (simp add: d)
  show "extends os n n'"
  proof (cases d)
    case None
    with a d have "n' = n\<lparr>nd_registry := reg\<rparr>" by simp
    with registry_extends [OF w] show ?thesis by simp
  next
    case (Some t)
    with a d have "disseminate_tombstone os' now t (n\<lparr>nd_registry := reg, nd_hosted := (nd_hosted n)(topic := None)\<rparr>) = Some (r, n')"
      by (simp add: act_bind_def [of "act_modify _"])
    from extendingD [OF extending_tombstone this] unhost_extends [OF w] show ?thesis using extends_trans by blast
  qed
qed

lemma drop_subs_extends: "extends os n (fold drop_sub names n)"
  using ext.fold_rel [of os "\<lambda>n. n" drop_sub] by (simp add: drop_sub_def unsubscribe_extends)

lemma deregister_topic_extends:
  assumes "deregister_topic rapi os' now reads topic n = Some (r, n')" shows "extends os n n'"
proof (cases "mux_of topic n")
  case (Some m)
  note bind = extending_bind [OF _ extending_bind [OF extending_modify [OF remove_dir_extends] extending_return]]
  have "extending os f (\<lambda>n1. act_bind
     (case deregister (nd_registry n1) topic (self_id n1) of
        (None, reg) \<Rightarrow> act_modify (\<lambda>n. n\<lparr>nd_registry := reg\<rparr>)
      | (Some tombstone, reg) \<Rightarrow>
          act_bind (act_modify (\<lambda>n. n\<lparr>nd_registry := reg, nd_hosted := (nd_hosted n)(topic := None)\<rparr>)) (\<lambda>_.
          disseminate_tombstone os' now tombstone))
     (\<lambda>_. act_bind (act_modify (remove_channel_dir os' topic)) (\<lambda>_. act_return True)) n1)" for f
    using bind [OF extending_dereg [of os f topic os' now]] by (simp add: act_bind_def)
  note last = this
  show ?thesis
    using assms unfolding deregister_topic_def Some option.case
    by (rule extendingD [rotated]) (intro extending_bind extending_finish extending_modify
      same_parts_extends [OF muxes_parts(1)] same_parts_extends [OF muxes_parts(2)] drop_subs_extends last)
qed (use assms in \<open>simp add: deregister_topic_def\<close>)


lemma reregister_extends:
  assumes "reregister_origin rapi geom os now nanos name n = Some (r, n')" shows "extends os n n'"
proof (cases "nd_hosted n name = None")
  case new: True
  show ?thesis
  proof (cases "node_channel_path os n name")
    case (Inr p)
    have "extending os (node_channel_path os n)
       (act_bind (act_total (claim_name (os_fs os) (os_writer os) now nanos name rs mtu None)) (\<lambda>i. announce_hosted i p 0 0))" for rs mtu
      by (rule extending_claim) (intro extending_intros, simp add: Inr)
    then have "extending os (node_channel_path os n) (case x of (rs, mtu) \<Rightarrow>
       act_bind (act_total (claim_name (os_fs os) (os_writer os) now nanos name rs mtu None)) (\<lambda>i. announce_hosted i p 0 0))" for x
      by (cases x) simp
    note last = this
    have "(act_bind (act_lift (verify_stamped_name rapi (nd_fs n) p name)) (\<lambda>_.
        act_bind (act_lift (read_geometry rapi geom (nd_fs n) p)) (\<lambda>(region_size, mtu).
        act_bind (act_total (claim_name (os_fs os) (os_writer os) now nanos name region_size mtu None)) (\<lambda>identity.
        announce_hosted identity p 0 0)))) n = Some (r, n')"
      using assms new Inr by (simp add: reregister_origin_def act_bind_def [of "act_lift (Inr p)"])
    then show ?thesis by (rule extendingD [rotated]) (intro extending_bind extending_lift last)
  qed (use assms new in \<open>simp add: reregister_origin_def act_bind_def\<close>)
qed (use assms in \<open>simp add: reregister_origin_def\<close>)

lemma rehost_origin_extends:
  assumes "rehost_member_origin rapi geom os now nanos topic name n = Some n'" shows "extends os n n'"
proof (cases "node_channel_path os n name")
  case (Inr p)
  show ?thesis
  proof (cases "\<not> fs_exists (os_fs os) (nd_fs n) p \<or> verify_stamped_name rapi (nd_fs n) p name \<noteq> Inr ()")
    case ok: False
    show ?thesis
    proof (cases "read_geometry rapi geom (nd_fs n) p")
      case geo: (Inr g)
      obtain rs mtu where g: "g = (rs, mtu)" by (cases g)
      obtain q n1 where c: "claim_name (os_fs os) (os_writer os) now nanos name rs mtu (Some topic) n = (q, n1)" by fastforce
      note e = claim_extends(1) [OF c, of os]
      show ?thesis
      proof (cases q)
        case (Inr i)
        with assms ok geo g c \<open>node_channel_path os n name = Inr p\<close> obtain r where a: "announce_hosted i p 0 0 n1 = Some (r, n')"
          by (auto simp: rehost_member_origin_def)
        have "node_channel_path os n1 (ci_name i) = Inr p"
          using claim_extends(2) [OF c Inr] extendsD(12) [OF e] \<open>node_channel_path os n name = Inr p\<close> by simp
        from extends_trans [OF e announce_hosted_extends [OF a this]] show ?thesis .
      qed (use assms ok geo g c e Inr in \<open>auto simp: rehost_member_origin_def\<close>)
    qed (use assms ok Inr in \<open>auto simp: rehost_member_origin_def\<close>)
  qed (use assms Inr in \<open>auto simp: rehost_member_origin_def\<close>)
qed (use assms in \<open>simp add: rehost_member_origin_def\<close>)

lemma rehost_slot_parts:
  assumes "rehost_member_slot rapi os sgs topic key n = Some n'" shows "same_parts n n'"
proof -
  define attach where "attach sg p n = (case p of Inl e \<Rightarrow> Some (Inl e, n)
     | Inr p \<Rightarrow> attach_member rapi os sg topic (fst key) (snd key) p n)" for sg p and n :: "('a, 'b, 'c) node"
  have t: "same_parts m m'" if "attach sg p m = Some (r, m')" for sg p m r m'
    using that by (cases p) (auto simp: attach_def dest: attach_member_parts)
  have eq: "rehost_member_slot rapi os sgs topic key n = (case attach (fst sgs) (node_channel_path os n (fst key)) n of
           None \<Rightarrow> None
         | Some (Inr _, n1) \<Rightarrow> Some n1
         | Some (Inl _, n1) \<Rightarrow> map_option snd (attach (snd sgs) (node_replica_path os n1 (fst key)) n1))"
    unfolding rehost_member_slot_def Let_def attach_def by (rule refl)
  with assms obtain r n1 where 1: "attach (fst sgs) (node_channel_path os n (fst key)) n = Some (r, n1)"
    by (auto split: option.splits)
  show ?thesis
  proof (cases r)
    case (Inl e)
    with assms eq 1 obtain r' where "attach (snd sgs) (node_replica_path os n1 (fst key)) n1 = Some (r', n')" by auto
    from same_parts_trans [OF t [OF 1] t [OF this]] show ?thesis .
  qed (use assms eq 1 t in auto)
qed

lemma rehost_members_extends:
  "rehost_members rapi geom os now nanos sight topic ks n = Some (r, n') \<Longrightarrow> extends os n n'"
proof (induction ks arbitrary: n)
  case (Cons k ks)
  then obtain n1 n2 where s: "rehost_member_origin rapi geom os now nanos topic (fst k) n = Some n1"
    "rehost_member_slot rapi os (sight k) topic k n1 = Some n2" "rehost_members rapi geom os now nanos sight topic ks n2 = Some (r, n')"
    by (auto simp: bind_eq_Some_conv)
  show ?case
    by (rule extends_trans [OF rehost_origin_extends [OF s(1)] extends_trans [OF same_parts_extends [OF rehost_slot_parts [OF s(2)]] Cons.IH [OF s(3)]]])
qed simp

lemma extending_rehost: "extending os f (rehost_members rapi geom os now nanos sight topic ks)"
  by (auto simp: extending_def dest: rehost_members_extends)

lemma rehost_topic_extends:
  assumes "rehost_topic rapi geom os now nanos ts sight name cfg n = Some (r, n')" shows "extends os n n'"
proof (cases "mux_of name n = None")
  case new: True
  show ?thesis
  proof (cases "node_channel_path os n name")
    case (Inr p)
    have last: "extending os (node_channel_path os n)
       (act_bind (act_total (claim_name (os_fs os) (os_writer os) now nanos name
                    (tgeo_region_size (tc_geometry cfg)) (tgeo_mtu (tc_geometry cfg)) None)) (\<lambda>identity.
        act_bind (announce_hosted identity p (tgeo_file_roll_size (tc_geometry cfg)) (tgeo_keep_files (tc_geometry cfg))) (\<lambda>_.
        act_bind (open_mux rapi os ts p name (tc_geometry cfg) MAX_BATCH_PER_MEMBER) (\<lambda>m.
        act_bind (act_modify (put_mux name m)) (\<lambda>_.
        rehost_members rapi geom os now nanos sight name (tc_members cfg))))))"
      by (rule extending_claim) (intro extending_bind extending_hosted extending_mux extending_modify extending_rehost
        same_parts_extends [OF put_mux_parts], simp add: Inr)
    have "act_bind (act_lift (verify_stamped_name rapi (nd_fs n) p name)) (\<lambda>_.
       act_bind (act_total (claim_name (os_fs os) (os_writer os) now nanos name
                    (tgeo_region_size (tc_geometry cfg)) (tgeo_mtu (tc_geometry cfg)) None)) (\<lambda>identity.
        act_bind (announce_hosted identity p (tgeo_file_roll_size (tc_geometry cfg)) (tgeo_keep_files (tc_geometry cfg))) (\<lambda>_.
        act_bind (open_mux rapi os ts p name (tc_geometry cfg) MAX_BATCH_PER_MEMBER) (\<lambda>m.
        act_bind (act_modify (put_mux name m)) (\<lambda>_.
        rehost_members rapi geom os now nanos sight name (tc_members cfg)))))) n = Some (r, n')"
      using assms new Inr by (simp add: rehost_topic_def act_bind_def [of "act_lift (Inr p)"])
    then show ?thesis by (rule extendingD [rotated]) (intro extending_bind [OF extending_lift] last)
  qed (use assms new in \<open>simp add: rehost_topic_def act_bind_def\<close>)
qed (use assms in \<open>simp add: rehost_topic_def\<close>)

lemma each_extends:
  assumes "\<And>x n r n'. f x n = Some (r, n') \<Longrightarrow> extends os n n'"
  shows "each f xs n = Some (c, n') \<Longrightarrow> extends os n n'"
proof (induction xs arbitrary: n c)
  case (Cons x xs)
  then obtain r n1 c1 where "f x n = Some (r, n1)" "each f xs n1 = Some (c1, n')"
    by (auto split: option.splits)
  with Cons.IH assms extends_trans show ?case by blast
qed simp

lemma reconstruct_extends:
  assumes "reconstruct_from_disk rapi geom os now nanos reads sight listing n = Some (c, n')" shows "extends os n n'"
proof (cases listing)
  case (Some entries)
  with assms obtain topics origins c1 n1 c2 where s:
    "each (\<lambda>(name, cfg). rehost_topic rapi geom os now nanos (reads name) sight name cfg) topics n = Some (c1, n1)"
    "each (reregister_origin rapi geom os now nanos) origins n1 = Some (c2, n')"
    by (auto simp: reconstruct_from_disk_def bind_eq_Some_conv)
  have "extends os n n1" using s(1) by (rule each_extends [rotated]) (auto dest: rehost_topic_extends)
  moreover have "extends os n1 n'" using s(2) by (rule each_extends [rotated]) (rule reregister_extends)
  ultimately show ?thesis by (rule extends_trans)
qed (use assms in \<open>simp add: reconstruct_from_disk_def\<close>)


subsection \<open>Attempts and the duty cycle\<close>

lemma est_hand_extends: "h \<in> dom (nd_shared n) \<Longrightarrow> extends os n (snd (est_hand h name item n))"
  by (auto simp: est_hand_def extends_def)

lemma fs_with_shared_parts [simp]: "same_parts n (with_shared h f (n\<lparr>nd_fs := t\<rparr>))"
  by (rule same_parts_trans [OF fs_parts with_shared_parts])

lemma est_phase_extends:
  assumes "est_phase os' rapi x h name a n = (a', n')" "h \<in> dom (nd_shared n)" shows "extends os n n'"
proof (cases a)
  case (Handing item)
  with assms est_hand_extends [OF assms(2)] show ?thesis by (metis est_phase.simps(6) snd_conv)
next
  case (Positioned i g)
  with assms show ?thesis
    by (auto simp: est_handshake_def Let_def intro!: same_parts_extends split: if_splits prod.splits sum.splits subscribe_error.splits)
qed (use assms in \<open>auto simp: est_position_def est_adopt_def est_rebuild_def Let_def intro!: same_parts_extends
    split: if_splits prod.splits sum.splits\<close>)

lemma poll_client_parts: "poll_client api now reads h item n = (k, r, n') \<Longrightarrow> same_parts n n'"
  by (auto simp: poll_client_def split: if_splits prod.splits sum.splits)

lemma poll_clients_parts:
  "poll_clients api xs n = (work, live, n') \<Longrightarrow> same_parts n n' \<and> fst ` set live \<subseteq> (fst \<circ> fst) ` set xs"
proof (induction xs arbitrary: n work live n')
  case (Cons x xs)
  obtain h item now reads where x: "x = ((h, item), now, reads)" by (metis prod.exhaust)
  obtain k r n1 where p: "poll_client api now reads h item n = (k, r, n1)" by (metis prod.exhaust)
  note p1 = poll_client_parts [OF p]
  show ?case
  proof (cases r)
    case None
    with Cons.prems x p have "poll_clients api xs (set_connected False h n1) = (work, live, n')" by simp
    from Cons.IH [OF this] have q: "same_parts (set_connected False h n1) n'" "fst ` set live \<subseteq> (fst \<circ> fst) ` set xs" by auto
    from same_parts_trans [OF p1 same_parts_trans [OF set_flag_parts(2) q(1)]] q(2) show ?thesis by auto
  next
    case (Some item')
    obtain w l n2 where c: "poll_clients api xs n1 = (w, l, n2)" by (metis prod.exhaust)
    with Some Cons.prems x p have "n' = n2" "live = (h, item') # l" by auto
    with same_parts_trans [OF p1 conjunct1 [OF Cons.IH [OF c]]] Cons.IH [OF c] x show ?thesis by auto
  qed
qed simp

lemma poll_servers_length: "poll_servers rapi xs = (w, live) \<Longrightarrow> length live \<le> length xs"
proof (induction xs arbitrary: w live)
  case (Cons x xs)
  obtain item world ws where x: "x = (item, world, ws)" by (metis prod.exhaust)
  obtain r item' a b where s: "server_poll rapi world MAX_BATCH_PER_POLL_ITEM item ws = (r, item', a, b)" by (metis prod.exhaust)
  obtain w' l where p: "poll_servers rapi xs = (w', l)" by fastforce
  from Cons.prems Cons.IH [OF p] show ?case by (cases r) (auto simp: x s p)
qed simp

lemma sweep_parts: "sweep rapi os' reads ts work failure n = Some (r, n') \<Longrightarrow> same_parts n n'"
proof (induction ts arbitrary: work failure n)
  case (Cons t ts)
  show ?case
  proof (cases "t \<in> set (cfg_promoted_topics (nd_config n)) \<or> mux_of t n = None")
    case True
    with Cons.prems have "sweep rapi os' reads ts work failure n = Some (r, n')" by (auto split: if_splits)
    then show ?thesis by (rule Cons.IH)
  next
    case False
    then obtain m where m: "mux_of t n = Some m" by auto
    with Cons.prems False obtain q s m' e where p: "mux_poll rapi (os_writer os') (reads t) (nd_fs n, m) = Some (q, (s, m'), e)"
      by (auto split: option.splits)
    have "same_parts n (put_mux t m' (n\<lparr>nd_fs := s\<rparr>))" by (rule same_parts_trans [OF fs_parts put_mux_parts])
    moreover have "\<exists>work failure. sweep rapi os' reads ts work failure (put_mux t m' (n\<lparr>nd_fs := s\<rparr>)) = Some (r, n')"
      using Cons.prems False m p by (cases q) (auto simp: Let_def)
    ultimately show ?thesis using Cons.IH same_parts_trans by metis
  qed
qed simp

lemma poll_muxes_parts: "poll_muxes rapi os' reads n = Some (r, n') \<Longrightarrow> same_parts n n'"
  by (auto simp: poll_muxes_def dest: sweep_parts)

lemma promoted_parts:
  assumes "promoted_turn rapi os' reads still topic round n = Some (r, n')" shows "same_parts n n'"
proof -
  from assms consider "n' = n" | t m' where "n' = put_mux topic m' (n\<lparr>nd_fs := t\<rparr>)"
    by (auto simp: promoted_turn_def split: option.splits if_splits)
  then show ?thesis by cases (simp_all add: same_parts_trans [OF fs_parts put_mux_parts])
qed

lemma release_many: "(release_conn ^^ k) n = n\<lparr>nd_conns := nd_conns n - k\<rparr>"
  by (induction k) (auto simp: release_conn_def)

text \<open>A turn takes what was handed to it, gives back the slots of the sources it drops, and keeps the rest.\<close>

lemma duty_turn_effect:
  assumes "duty_turn idle rapi os env d n = Some (act, d', n')"
  obtains k where "k + length (dy_servers d') = length (dy_servers d) + length (nd_duty_servers n)"
    "same_parts (n\<lparr>nd_duty_servers := [], nd_duty_clients := [], nd_conns := nd_conns n - k\<rparr>) n'"
    "fst ` set (dy_clients d') \<subseteq> fst ` set (dy_clients d) \<union> fst ` set (nd_duty_clients n)"
proof -
  define servers where "servers = dy_servers d @ nd_duty_servers n"
  define clients where "clients = dy_clients d @ nd_duty_clients n"
  obtain w1 live where s: "poll_servers rapi (zip servers (map (de_server env) [0..<length servers])) = (w1, live)" by fastforce
  let ?n = "n\<lparr>nd_duty_servers := [], nd_duty_clients := [], nd_conns := nd_conns n - (length servers - length live)\<rparr>"
  obtain w2 kept n3 where c: "poll_clients (os_writer os) (zip clients (map (de_client env) [0..<length clients])) ?n = (w2, kept, n3)"
    by (metis prod.exhaust)
  have r: "(release_conn ^^ (length servers - length live)) (n\<lparr>nd_duty_servers := [], nd_duty_clients := []\<rparr>) = ?n"
    by (simp add: release_many)
  from assms obtain q n4 where m: "poll_muxes rapi os (de_muxes env) n3 = Some (q, n4)" "n' = n4" "dy_servers d' = live" "dy_clients d' = kept"
    unfolding duty_turn_def Let_def servers_def [symmetric] clients_def [symmetric] s r c prod.case
    by (auto simp: Let_def split: if_splits)
  have "length live \<le> length servers" using poll_servers_length [OF s] by simp
  then have "(length servers - length live) + length (dy_servers d') = length (dy_servers d) + length (nd_duty_servers n)"
    by (simp add: m(3)) (simp add: servers_def)
  moreover have "same_parts ?n n'"
    unfolding m(2) by (rule same_parts_trans [OF conjunct1 [OF poll_clients_parts [OF c]] poll_muxes_parts [OF m(1)]])
  moreover have "fst ` set (dy_clients d') \<subseteq> fst ` set (dy_clients d) \<union> fst ` set (nd_duty_clients n)"
  proof -
    have "fst ` set kept \<subseteq> (fst \<circ> fst) ` set (zip clients (map (de_client env) [0..<length clients]))"
      using poll_clients_parts [OF c] by simp
    also have "\<dots> \<subseteq> fst ` set clients" by (auto dest!: set_zip_leftD intro: rev_image_eqI)
    finally show ?thesis by (simp add: m(4) clients_def image_Un)
  qed
  ultimately show ?thesis by (rule that)
qed


subsection \<open>The node and its threads\<close>

text \<open>The node, the duty cycle's own state, and how many accepted connections are in their handshake or in
  conversation with a client, and whether each accept loop is between counting a connection it turns away
  and taking it off the counter.\<close>

record ('t, 'w, 'r) sys =
  sy_node :: "('t, 'w, 'r) node"
  sy_duty :: "('w, 'r) duty"
  sy_handshakes :: nat
  sy_conversations :: nat
  sy_stream_refusing :: bool
  sy_client_refusing :: bool

definition sys_start :: "('t, 'w, 'r) node \<Rightarrow> ('t, 'w, 'r) sys" where
  "sys_start n = \<lparr>sy_node = n, sy_duty = \<lparr>dy_servers = [], dy_clients = [], dy_round = 0\<rparr>,
     sy_handshakes = 0, sy_conversations = 0, sy_stream_refusing = False, sy_client_refusing = False\<rparr>"

text \<open>One step of one thread. What the rest of the world contributes to it is arbitrary: the state of the
  links after a reader or an accept, the answer a subscriber's wait ends with, and the phase an
  establishment attempt is at, on any handle that exists.\<close>

inductive sys_step ::
  "('t, 'w) outside \<Rightarrow> ('t, 'r) reader_api \<Rightarrow> ('t, 'w, 'r) sys \<Rightarrow> ('t, 'w, 'r) sys \<Rightarrow> bool" for os rapi where
  stream_accepted: "\<not> sy_stream_refusing S \<Longrightarrow> acquire_conn (sy_node S) = (b, n) \<Longrightarrow>
     sys_step os rapi S (S\<lparr>sy_node := n, sy_handshakes := sy_handshakes S + (if b then 1 else 0), sy_stream_refusing := \<not> b\<rparr>)"
| stream_refused: "sy_stream_refusing S \<Longrightarrow>
     sys_step os rapi S (S\<lparr>sy_node := release_conn (sy_node S), sy_stream_refusing := False\<rparr>)"
| handshaken: "sy_handshakes S = Suc k \<Longrightarrow> stream_handshake rapi x (sy_node S) = Some n \<Longrightarrow>
     sys_step os rapi S (S\<lparr>sy_node := n, sy_handshakes := k\<rparr>)"
| client_accepted: "\<not> sy_client_refusing S \<Longrightarrow> acquire_conn (sy_node S) = (b, n) \<Longrightarrow>
     sys_step os rapi S (S\<lparr>sy_node := n, sy_conversations := sy_conversations S + (if b then 1 else 0), sy_client_refusing := \<not> b\<rparr>)"
| client_refused: "sy_client_refusing S \<Longrightarrow>
     sys_step os rapi S (S\<lparr>sy_node := release_conn (sy_node S), sy_client_refusing := False\<rparr>)"
| requested: "sy_conversations S \<noteq> 0 \<Longrightarrow> \<not> waits q \<Longrightarrow> handle_request os rapi ev q (sy_node S) = Some (answered, n) \<Longrightarrow>
     sys_step os rapi S (S\<lparr>sy_node := n\<rparr>)"
| subscribed: "node_subscribe os resolved c spawned name (sy_node S) = Some (Inr (h, started), n) \<Longrightarrow>
     sys_step os rapi S (S\<lparr>sy_node := insert_sub name h n\<rparr>)"
| unresolved: "node_subscribe os resolved c spawned name (sy_node S) = Some (Inl e, n) \<Longrightarrow>
     sys_step os rapi S (S\<lparr>sy_node := n\<rparr>)"
| hung_up: "sy_conversations S = Suc k \<Longrightarrow>
     sys_step os rapi S (S\<lparr>sy_node := release_conn (sy_node S), sy_conversations := k\<rparr>)"
| hosted: "host_channel os now nanos name region_size mtu configured (sy_node S) = Some (r, n) \<Longrightarrow>
     sys_step os rapi S (S\<lparr>sy_node := n\<rparr>)"
| topic_retired: "deregister_topic rapi os now reads topic (sy_node S) = Some (b, n) \<Longrightarrow>
     sys_step os rapi S (S\<lparr>sy_node := n\<rparr>)"
| attempted: "h \<in> dom (nd_shared (sy_node S)) \<Longrightarrow> est_phase os rapi x h name a (sy_node S) = (a', n) \<Longrightarrow>
     sys_step os rapi S (S\<lparr>sy_node := n\<rparr>)"
| attempt_over: "sys_step os rapi S (S\<lparr>sy_node := set_establishing False h (sy_node S)\<rparr>)"
| linked: "sys_step os rapi S (S\<lparr>sy_node := (sy_node S)\<lparr>nd_bcast := d\<rparr>\<rparr>)"
| duty: "duty_turn idle rapi os env (sy_duty S) (sy_node S) = Some (act, d, n) \<Longrightarrow>
     sys_step os rapi S (S\<lparr>sy_node := n, sy_duty := d\<rparr>)"
| promoted: "promoted_turn rapi os reads still topic round (sy_node S) = Some (r, n) \<Longrightarrow>
     sys_step os rapi S (S\<lparr>sy_node := n\<rparr>)"
| ticked: "maintenance_tick rapi os te (sy_node S) = Some (restart, started, n) \<Longrightarrow>
     sys_step os rapi S (S\<lparr>sy_node := n\<rparr>)"

text \<open>The state holds together: the node is well formed, every sink the duty cycle has is of a subscription
  that exists, the slots taken are no more than there are, and the counter is theirs and the refusals'.\<close>

definition slots :: "('t, 'w, 'r) sys \<Rightarrow> nat" where
  "slots S = sy_handshakes S + sy_conversations S + length (nd_duty_servers (sy_node S)) + length (dy_servers (sy_duty S))"

definition refusals :: "('t, 'w, 'r) sys \<Rightarrow> nat" where
  "refusals S = (if sy_stream_refusing S then 1 else 0) + (if sy_client_refusing S then 1 else 0)"

definition sys_ok :: "('t, 'w) outside \<Rightarrow> ('t, 'w, 'r) sys \<Rightarrow> bool" where
  "sys_ok os S \<longleftrightarrow> node_wf os (sy_node S) \<and> fst ` set (dy_clients (sy_duty S)) \<subseteq> dom (nd_shared (sy_node S)) \<and>
     nd_conns (sy_node S) = slots S + refusals S \<and> slots S \<le> MAX_CONNECTIONS"

lemma extends_ok:
  assumes "extends os (sy_node S) n" "sys_ok os S" shows "sys_ok os (S\<lparr>sy_node := n\<rparr>)"
proof -
  have "fst ` set (dy_clients (sy_duty S)) \<subseteq> dom (nd_shared n)"
    using assms(2) extendsD(5) [OF assms(1)] unfolding sys_ok_def by (meson subset_trans)
  with extends_wf [OF assms(1)] assms(2) extendsD(2,3) [OF assms(1)] show ?thesis by (simp add: sys_ok_def slots_def refusals_def)
qed

text \<open>A step that only takes or gives back a slot, or moves a connection on.\<close>

lemma conns_ok:
  assumes "sys_ok os S" "slots S' \<le> MAX_CONNECTIONS" "c = slots S' + refusals S'"
    and "sy_node S' = (sy_node S)\<lparr>nd_conns := c, nd_duty_servers := s\<rparr>" "sy_duty S' = sy_duty S"
  shows "sys_ok os S'"
proof -
  have "c \<le> MAX_CONNECTIONS + 2" using assms(2,3) by (simp add: refusals_def)
  then have "node_wf os (sy_node S')" using assms(1) by (simp add: sys_ok_def node_wf_def node_channel_path_def assms(4))
  with assms(1,2,3) show ?thesis by (simp add: sys_ok_def assms(4,5))
qed

lemma acquire_ok:
  assumes "acquire_conn (sy_node S) = (b, n)" "sys_ok os S"
    and "sy_node S' = n" "sy_duty S' = sy_duty S" "slots S' = slots S + (if b then 1 else 0)"
    and "refusals S' = refusals S + (if b then 0 else 1)"
  shows "sys_ok os S'"
proof (rule conns_ok [OF assms(2)])
  have c: "nd_conns (sy_node S) = slots S + refusals S" "slots S \<le> MAX_CONNECTIONS"
    using assms(2) by (simp_all add: sys_ok_def)
  then show "slots S' \<le> MAX_CONNECTIONS" using assms(1,5) by (auto simp: acquire_conn_def)
  show "sy_node S' = (sy_node S)\<lparr>nd_conns := slots S + refusals S + 1, nd_duty_servers := nd_duty_servers (sy_node S)\<rparr>"
  proof -
    have "n = (sy_node S)\<lparr>nd_conns := slots S + refusals S + 1\<rparr>" using assms(1) c(1) by (simp add: acquire_conn_def)
    then show ?thesis by (simp add: assms(3))
  qed
qed (use assms(4,5,6) in simp_all)

lemma release_ok:
  assumes "sys_ok os S" "slots S + refusals S = Suc (slots S' + refusals S')" "slots S' \<le> slots S"
    and "sy_node S' = release_conn (sy_node S)" "sy_duty S' = sy_duty S"
  shows "sys_ok os S'"
proof (rule conns_ok [OF assms(1)])
  have c: "nd_conns (sy_node S) = slots S + refusals S" "slots S \<le> MAX_CONNECTIONS"
    using assms(1) by (simp_all add: sys_ok_def)
  show "slots S' \<le> MAX_CONNECTIONS" "slots S + refusals S - 1 = slots S' + refusals S'" using c assms(2,3) by simp_all
  show "sy_node S' = (sy_node S)\<lparr>nd_conns := slots S + refusals S - 1, nd_duty_servers := nd_duty_servers (sy_node S)\<rparr>"
    using c by (simp add: assms(4) release_conn_def)
qed (rule assms(5))

lemma handshake_ok:
  assumes "sy_handshakes S = Suc k" "stream_handshake rapi x (sy_node S) = Some n" "sys_ok os S"
  shows "sys_ok os (S\<lparr>sy_node := n, sy_handshakes := k\<rparr>)"
proof -
  from assms(2) consider "n = release_conn (sy_node S)"
    | server where "n = (sy_node S)\<lparr>nd_duty_servers := nd_duty_servers (sy_node S) @ [server]\<rparr>"
    by (auto simp: stream_handshake_def split: if_splits option.splits sum.splits)
  then show ?thesis
  proof cases
    case 1
    with assms(1) show ?thesis by (auto intro!: release_ok [OF assms(3)] simp: slots_def refusals_def release_conn_def)
  next
    case (2 server)
    have "nd_conns (sy_node S) = slots S + refusals S" "slots S \<le> MAX_CONNECTIONS"
      using assms(3) by (simp_all add: sys_ok_def)
    with assms(1) 2 show ?thesis
      by (auto intro!: conns_ok [OF assms(3), where c = "nd_conns (sy_node S)" and s = "nd_duty_servers n"]
          simp: slots_def refusals_def)
  qed
qed

lemma duty_ok:
  assumes "duty_turn idle rapi os env (sy_duty S) (sy_node S) = Some (act, d, n)" "sys_ok os S"
  shows "sys_ok os (S\<lparr>sy_node := n, sy_duty := d\<rparr>)"
proof -
  let ?n = "sy_node S"
  obtain k where k: "k + length (dy_servers d) = length (dy_servers (sy_duty S)) + length (nd_duty_servers ?n)"
    "same_parts (?n\<lparr>nd_duty_servers := [], nd_duty_clients := [], nd_conns := nd_conns ?n - k\<rparr>) n"
    "fst ` set (dy_clients d) \<subseteq> fst ` set (dy_clients (sy_duty S)) \<union> fst ` set (nd_duty_clients ?n)"
    by (rule duty_turn_effect [OF assms(1)])
  let ?m = "?n\<lparr>nd_duty_servers := [], nd_duty_clients := [], nd_conns := nd_conns ?n - k\<rparr>"
  have "nd_conns ?n \<le> MAX_CONNECTIONS + 2" using assms(2) by (simp add: sys_ok_def node_wf_def)
  from le_trans [OF diff_le_self this] assms(2) have m: "node_wf os ?m" by (simp add: sys_ok_def node_wf_def node_channel_path_def)
  have "fst ` set (dy_clients d) \<subseteq> dom (nd_shared ?n)"
    using assms(2) k(3) unfolding sys_ok_def node_wf_def by (meson Un_least subset_trans)
  with extends_wf [OF same_parts_extends [OF k(2)] m] k(1,2) assms(2) show ?thesis
    by (simp add: sys_ok_def slots_def refusals_def same_parts_def)
qed

lemma sys_step_ok:
  assumes "sys_step os rapi S S'" "sys_ok os S" shows "sys_ok os S'"
  using assms(1)
proof cases
  case (subscribed resolved c spawned name h started n)
  note s = subscribe_as_extends [OF subscribed(2) [unfolded node_subscribe_def]]
  from extends_trans [OF s(1) insert_sub_extends [OF s(2) [OF refl]]] show ?thesis
    unfolding subscribed(1) by (rule extends_ok [OF _ assms(2)])
next
  case (unresolved resolved c spawned name e n)
  from subscribe_as_extends(1) [OF unresolved(2) [unfolded node_subscribe_def]] show ?thesis
    unfolding unresolved(1) by (rule extends_ok [OF _ assms(2)])
next
  case (hung_up k)
  then show ?thesis by (auto intro!: release_ok [OF assms(2)] simp: slots_def refusals_def release_conn_def)
next
  case stream_refused
  then show ?thesis by (auto intro!: release_ok [OF assms(2)] simp: slots_def refusals_def release_conn_def)
next
  case client_refused
  then show ?thesis by (auto intro!: release_ok [OF assms(2)] simp: slots_def refusals_def release_conn_def)
next
  case (stream_accepted b n)
  then show ?thesis by (intro acquire_ok [OF _ assms(2)]) (auto simp: slots_def refusals_def acquire_conn_def)
next
  case (client_accepted b n)
  then show ?thesis by (intro acquire_ok [OF _ assms(2)]) (auto simp: slots_def refusals_def acquire_conn_def)
next
  case (attempt_over h)
  show ?thesis unfolding attempt_over by (rule extends_ok [OF same_parts_extends [OF set_flag_parts(1)] assms(2)])
next
  case (promoted reads still topic round r n)
  from same_parts_extends [OF promoted_parts [OF promoted(2)]] show ?thesis
    unfolding promoted(1) by (rule extends_ok [OF _ assms(2)])
next
  case (linked d)
  show ?thesis unfolding linked by (rule extends_ok [OF same_parts_extends [OF bcast_parts] assms(2)])
next
  case (requested q ev answered n)
  from handle_request_extends [OF requested(4,3)] show ?thesis unfolding requested(1) by (rule extends_ok [OF _ assms(2)])
next
  case (ticked te restart started n)
  from conjunct1 [OF tick_extends [OF ticked(2)]] show ?thesis unfolding ticked(1) by (rule extends_ok [OF _ assms(2)])
qed (use assms(2) in \<open>auto intro: handshake_ok duty_ok extends_ok host_channel_extends deregister_topic_extends
    est_phase_extends\<close>)

lemma sys_reach_ok:
  assumes "(sys_step os rapi)\<^sup>*\<^sup>* S S'" "sys_ok os S" shows "sys_ok os S'"
  using assms by (induction rule: rtranclp_induct) (auto intro: sys_step_ok)

lemma start_ok:
  assumes "same_parts (node_new cfg fs gen) n0"
    and "reconstruct_from_disk rapi geom os now nanos reads sight listing n0 = Some (c, n)"
  shows "sys_ok os (sys_start n)"
proof -
  note e = extends_trans [OF same_parts_extends [OF assms(1)] reconstruct_extends [OF assms(2)]]
  have "node_wf os (node_new cfg fs gen :: ('a, 'b, 'c) node)" by (simp add: node_wf_def node_new_def)
  from extends_wf [OF e this] extendsD(2,3) [OF e] show ?thesis
    by (simp add: sys_ok_def sys_start_def slots_def refusals_def node_new_def)
qed

end
