(* ===== verification/Daemon.thy ===== *)
theory Daemon
  imports Node_System
begin

text \<open>
  The daemon: what \<open>xchanneld/src/main.rs\<close> makes of its arguments and in which order it starts, the bind of
  the client socket (\<open>bind_client\<close> of \<open>xchannel-net/src/node.rs\<close>), the name of the host
  (\<open>hostname\<close> of \<open>node_identity.rs\<close>), and the flags and handlers of \<open>xchannel-net/src/shutdown.rs\<close>.

  \<^item> \<open>args\<close> is what the argument parser \<open>clap\<close> returned.
  \<^item> The threads started at the end are the steps of \<open>Node_System\<close>, from the node that was started.
\<close>

subsection \<open>White space\<close>

text \<open>\<open>str::trim\<close>: the encodings of the characters with the property \<open>White_Space\<close>, stripped at both ends.\<close>

definition WHITE_SPACE :: "bytes list" where
  "WHITE_SPACE = map (\<lambda>b. [b]) [9, 10, 11, 12, 13, 32] @ [[0xC2, 0x85], [0xC2, 0xA0], [0xE1, 0x9A, 0x80]] @
     map (\<lambda>b. [0xE2, 0x80, b]) [0x80, 0x81, 0x82, 0x83, 0x84, 0x85, 0x86, 0x87, 0x88, 0x89, 0x8A, 0xA8, 0xA9, 0xAF] @
     [[0xE2, 0x81, 0x9F], [0xE3, 0x80, 0x80]]"

function strip :: "bytes list \<Rightarrow> bytes \<Rightarrow> bytes" where
  "strip ws s = (case find (\<lambda>w. w \<noteq> [] \<and> prefix w s) ws of None \<Rightarrow> s | Some w \<Rightarrow> strip ws (drop (length w) s))"
  by pat_completeness auto

termination strip
  by (relation "measure (\<lambda>(_, s). length s)") (auto simp: find_Some_iff prefix_def)

declare strip.simps [simp del]

definition trim_text :: "rstring \<Rightarrow> rstring" where
  "trim_text s = rev (strip (map rev WHITE_SPACE) (rev (strip WHITE_SPACE s)))"

subsection \<open>Arguments\<close>

definition KNOWN_ENV :: "rstring list" where
  "KNOWN_ENV = map ascii [''XCHANNELD_NODE_ID'', ''XCHANNELD_NODE_NAME'', ''XCHANNELD_DATA_DIR'', ''XCHANNELD_CLIENT_PATH'',
     ''XCHANNELD_STREAM_ADDR'', ''XCHANNELD_CONTROL_ADDR'', ''XCHANNELD_ADVERTISE_STREAM_ADDR'',
     ''XCHANNELD_ADVERTISE_CONTROL_ADDR'', ''XCHANNELD_SEEDS'', ''XCHANNELD_RECLAIM_AFTER_MS'',
     ''XCHANNELD_PROMOTED_TOPICS'', ''XCHANNELD_MUX_MAX_PARK_US'', ''XCHANNELD_BIN'']"

text \<open>The variables the daemon warns about.\<close>

definition warn_unknown_env :: "rstring list \<Rightarrow> rstring list" where
  "warn_unknown_env vars = filter (\<lambda>key. prefix (ascii ''XCHANNELD_'') key \<and> key \<notin> set KNOWN_ENV) vars"

record args =
  ar_node_id :: "u64 option"
  ar_node_name :: "rstring option"
  ar_data_dir :: "path option"
  ar_client_path :: "path option"
  ar_stream_addr :: socket_addr
  ar_control_addr :: socket_addr
  ar_advertise_stream_addr :: "socket_addr option"
  ar_advertise_control_addr :: "socket_addr option"
  ar_seeds :: "rstring list"
  ar_reclaim_after_ms :: u64
  ar_promoted_topics :: "rstring list"
  ar_mux_max_park_us :: "u64 option"

text \<open>The addresses, or the first entry that is none.\<close>

fun parse_each :: "rstring list \<Rightarrow> rstring + socket_addr list" where
  "parse_each [] = Inr []"
| "parse_each (s # rest) =
     (case parse_socket_addr s of None \<Rightarrow> Inl s | Some a \<Rightarrow> and_then (parse_each rest) (\<lambda>as. Inr (a # as)))"

definition parse_addrs :: "rstring list \<Rightarrow> rstring + socket_addr list" where
  "parse_addrs raw = parse_each (filter (\<lambda>s. s \<noteq> []) (map trim_text raw))"

definition seeds_of :: "args \<Rightarrow> socket_addr list io_result" where
  "seeds_of a = (case parse_addrs (ar_seeds a) of
     Inl bad \<Rightarrow> Inl (IoError InvalidInput ''--seeds / XCHANNELD_SEEDS: not a host:port address'') | Inr as \<Rightarrow> Inr as)"

definition data_dir_of :: "path option \<Rightarrow> args \<Rightarrow> path io_result" where
  "data_dir_of home a = (case ar_data_dir a of Some d \<Rightarrow> Inr d | None \<Rightarrow> default_data_dir home)"

definition promoted_of :: "args \<Rightarrow> rstring list" where
  "promoted_of a = remdups (filter (\<lambda>t. t \<noteq> []) (map trim_text (ar_promoted_topics a)))"

definition mux_idle_of :: "args \<Rightarrow> mux_idle" where
  "mux_idle_of a = (case ar_mux_max_park_us a of
     None \<Rightarrow> idle_default | Some us \<Rightarrow> idle_default\<lparr>idle_max_park := unat us * 10 ^ 3\<rparr>)"

definition daemon_config :: "args \<Rightarrow> path \<Rightarrow> socket_addr list \<Rightarrow> node_identity \<Rightarrow> node_config" where
  "daemon_config a data_dir seeds identity =
     \<lparr>cfg_node_id = ni_id identity, cfg_data_dir = data_dir, cfg_control_addr = ar_control_addr a,
      cfg_stream_addr = ar_stream_addr a, cfg_advertise_control_addr = ar_advertise_control_addr a,
      cfg_advertise_stream_addr = ar_advertise_stream_addr a,
      cfg_client_path = (case ar_client_path a of Some p \<Rightarrow> p | None \<Rightarrow> path_join data_dir CLIENT_SOCKET_NAME),
      cfg_seeds = seeds, cfg_reclaim_after = ms (unat (ar_reclaim_after_ms a)), cfg_promoted_topics = promoted_of a,
      cfg_mux_idle = mux_idle_of a, cfg_node_name = ni_name identity, cfg_id_generated = ni_generated identity\<rparr>"

text \<open>The first of the two files that names the host.\<close>

fun hostname :: "bytes io_result list \<Rightarrow> rstring" where
  "hostname [] = []"
| "hostname (r # rest) =
     (case r of
        Inr s \<Rightarrow> if trim_text s \<noteq> [] then trim_text s else hostname rest
      | Inl _ \<Rightarrow> hostname rest)"

text \<open>Whether the start warns that the identity of a directory with channels is gone. \<open>listing\<close> is the data
  directory: its entries, and whether each is a directory.\<close>

definition identity_gone :: "(rstring \<times> bool) list option \<Rightarrow> u64 option \<Rightarrow> bool \<Rightarrow> bool" where
  "identity_gone listing configured persisted \<longleftrightarrow>
     (case listing of Some es \<Rightarrow> list_ex (\<lambda>(name, is_dir). is_dir \<and> \<not> prefix (ascii ''.'') name) es | None \<Rightarrow> False) \<and>
     configured = None \<and> \<not> persisted"

text \<open>The warnings about the address of one plane.\<close>

datatype plane_warning = OffLoopback | AdvertisesWildcard | BoundWildcard

fun is_loopback :: "socket_addr \<Rightarrow> bool" where
  "is_loopback (SockV4 a b c d p) \<longleftrightarrow> a = 127"
| "is_loopback (SockV6 segs p f s) \<longleftrightarrow> segs = [0, 0, 0, 0, 0, 0, 0, 1]"

definition plane_warnings :: "socket_addr \<Rightarrow> socket_addr option \<Rightarrow> plane_warning list" where
  "plane_warnings addr advertised =
     (if is_loopback addr then [] else [OffLoopback]) @
     (case advertised of Some a \<Rightarrow> if is_unspecified a then [AdvertisesWildcard] else [] | None \<Rightarrow> []) @
     (if is_unspecified addr \<and> advertised = None then [BoundWildcard] else [])"


subsection \<open>The client socket\<close>

text \<open>The socket calls of the system, on the files: bind, a probe connect, removal and the file mode.\<close>

record 't socket_api =
  so_bind :: "'t \<Rightarrow> path \<Rightarrow> unit io_result \<times> 't"
  so_answers :: "'t \<Rightarrow> path \<Rightarrow> bool"
  so_remove :: "'t \<Rightarrow> path \<Rightarrow> unit io_result \<times> 't"
  so_private :: "'t \<Rightarrow> path \<Rightarrow> unit io_result \<times> 't"

definition bind_socket :: "'t socket_api \<Rightarrow> path \<Rightarrow> 't \<Rightarrow> unit io_result \<times> 't" where
  "bind_socket so p t =
     (case so_bind so t p of
        (Inr _, t1) \<Rightarrow> (Inr (), t1)
      | (Inl e, t1) \<Rightarrow>
          if ekind e = AddrInUse then
            if so_answers so t1 p then (Inl e, t1)
            else (case so_remove so t1 p of
                    (Inl e', t2) \<Rightarrow> (Inl e', t2)
                  | (Inr _, t2) \<Rightarrow> so_bind so t2 p)
          else (Inl e, t1))"

definition bind_client :: "'t fs_api \<Rightarrow> 't socket_api \<Rightarrow> (('t, 'w, 'r) node, unit) act" where
  "bind_client fs so = (\<lambda>n.
     let p = cfg_client_path (nd_config n) in
     act_bind (act_total (on_fs (\<lambda>t. case exe_parent p of Some dir \<Rightarrow> ensure_private_dir fs dir t | None \<Rightarrow> (Inr (), t)))) (\<lambda>_.
     act_bind (act_total (on_fs (bind_socket so p))) (\<lambda>_.
     act_total (on_fs (\<lambda>t. so_private so t p)))) n)"

subsection \<open>Starting\<close>

datatype lock_answer = LockTaken | WouldBlock | LockError io_error

datatype 'n started = Serving 'n | Failed io_error | Panicked io_error | Exited nat

text \<open>What the system contributes: the home directory, the identity file, the host's name, the random source,
  the clocks, writing and restricting a small file, the lock, the listeners, and what reconstruction reads.\<close>

record 't boot_env =
  bo_home :: "path option"
  bo_id_file :: "bytes io_result"
  bo_host :: "bytes io_result list"
  bo_random :: "u64 io_result"
  bo_now_ms :: u64
  bo_write :: "'t \<Rightarrow> path \<Rightarrow> bytes \<Rightarrow> unit io_result \<times> 't"
  bo_restrict :: "'t \<Rightarrow> path \<Rightarrow> 't"
  bo_lock :: lock_answer
  bo_generation :: u64
  bo_stream :: "socket_addr io_result"
  bo_control :: "socket_addr io_result"
  bo_sockets :: "'t socket_api"
  bo_now :: instant
  bo_nanos :: u64
  bo_reads :: "rstring \<Rightarrow> 't list"
  bo_sight :: "member_key \<Rightarrow> 't sightings \<times> 't sightings"
  bo_listing :: "(rstring \<times> bool) list option"

definition settle_identity :: "'t boot_env \<Rightarrow> args \<Rightarrow> path \<Rightarrow> 't \<Rightarrow> node_identity io_result \<times> 't" where
  "settle_identity env a data_dir t =
     (let name = (case ar_node_name a of Some s \<Rightarrow> s | None \<Rightarrow> hostname (bo_host env));
          p = id_path data_dir;
          (answered, t1) = (case bo_random env of
             Inr i \<Rightarrow> bo_write env t p (identity_text i (bo_now_ms env)) | Inl _ \<Rightarrow> (Inr (), t));
          (r, text) = resolve_identity (ar_node_id a) name (bo_id_file env) (bo_random env) (bo_now_ms env) answered
      in (r, if text = None then t else if answered = Inr () then bo_restrict env t1 p else t1))"

definition take_lock :: "'t boot_env \<Rightarrow> path \<Rightarrow> 't \<Rightarrow> 'n started option \<times> 't" where
  "take_lock env data_dir t =
     (case bo_write env t (path_join data_dir (ascii ''.lock'')) [] of
        (Inl e, t1) \<Rightarrow> (Some (Failed e), t1)
      | (Inr _, t1) \<Rightarrow>
          (case bo_lock env of
             LockTaken \<Rightarrow> (None, t1)
           | WouldBlock \<Rightarrow> (Some (Exited 1), t1)
           | LockError e \<Rightarrow> (Some (Failed e), t1)))"

text \<open>The listeners, then what the disk holds; \<open>None\<close> while reconstruction has not returned.\<close>

definition bring_up ::
  "('t, 'w) outside \<Rightarrow> ('t, 'r) reader_api \<Rightarrow> ('r \<Rightarrow> nat \<times> u32) \<Rightarrow> 't boot_env \<Rightarrow> (('t, 'w, 'r) node, reconstructed) act" where
  "bring_up os rapi geom env =
     act_bind (act_total (bind_stream (bo_stream env))) (\<lambda>_.
     act_bind (act_total (bind_control (bo_control env))) (\<lambda>_.
     act_bind (bind_client (os_fs os) (bo_sockets env)) (\<lambda>_ n.
       map_option (\<lambda>(c, n'). (Inr c, n'))
         (reconstruct_from_disk rapi geom os (bo_now env) (bo_nanos env) (bo_reads env) (bo_sight env) (bo_listing env) n))))"

definition main ::
  "('t, 'w) outside \<Rightarrow> ('t, 'r) reader_api \<Rightarrow> ('r \<Rightarrow> nat \<times> u32) \<Rightarrow> 't boot_env \<Rightarrow> args \<Rightarrow> 't \<Rightarrow> ('t, 'w, 'r) node started option" where
  "main os rapi geom env a t =
     (case data_dir_of (bo_home env) a of
        Inl e \<Rightarrow> Some (Failed e)
      | Inr data_dir \<Rightarrow>
     (case seeds_of a of
        Inl e \<Rightarrow> Some (Failed e)
      | Inr seeds \<Rightarrow>
     (case fs_create_dir_all (os_fs os) t data_dir of
        (Inl e, _) \<Rightarrow> Some (Failed e)
      | (Inr _, t1) \<Rightarrow>
     (case fs_set_private (os_fs os) t1 data_dir of
        (Inl e, _) \<Rightarrow> Some (Failed e)
      | (Inr _, t2) \<Rightarrow>
     (case settle_identity env a data_dir t2 of
        (Inl e, _) \<Rightarrow> Some (Panicked e)
      | (Inr identity, t3) \<Rightarrow>
     (case take_lock env data_dir t3 of
        (Some s, _) \<Rightarrow> Some s
      | (None, t4) \<Rightarrow>
          map_option (\<lambda>(r, n). case r of Inr _ \<Rightarrow> Serving n | Inl e \<Rightarrow> Failed e)
            (bring_up os rapi geom env (node_new (daemon_config a data_dir seeds identity) t4 (bo_generation env)))))))))"

subsection \<open>Stopping\<close>

datatype signal = SIGINT | SIGTERM

datatype disposition = SIG_DFL | OnSignal

datatype handler_action = StoreRequested | Restore signal

text \<open>The process as the handlers see it: the two flags, the disposition of each signal, what the running
  handlers have still to do, and whether a signal has ended it.\<close>

record process =
  pr_requested :: bool
  pr_restart_wanted :: bool
  pr_disposition :: "signal \<Rightarrow> disposition"
  pr_handler :: "handler_action list"
  pr_killed :: bool

definition process_new :: process where
  "process_new = \<lparr>pr_requested = False, pr_restart_wanted = False, pr_disposition = (\<lambda>_. SIG_DFL), pr_handler = [], pr_killed = False\<rparr>"

definition install :: "process \<Rightarrow> process" where
  "install P = P\<lparr>pr_disposition := (pr_disposition P)(SIGINT := OnSignal, SIGTERM := OnSignal)\<rparr>"

definition on_signal :: "handler_action list" where
  "on_signal = [StoreRequested, Restore SIGINT, Restore SIGTERM]"

definition request_restart :: "process \<Rightarrow> process" where
  "request_restart P = P\<lparr>pr_restart_wanted := True, pr_requested := True\<rparr>"

fun perform :: "handler_action \<Rightarrow> process \<Rightarrow> process" where
  "perform StoreRequested P = P\<lparr>pr_requested := True\<rparr>"
| "perform (Restore s) P = P\<lparr>pr_disposition := (pr_disposition P)(s := SIG_DFL)\<rparr>"

text \<open>What happens to the process: a signal arrives (also while a handler runs), the innermost handler does
  its next action, or the daemon asks to be restarted.\<close>

datatype happening = Arrives signal | Handles | Restarts

fun happen :: "happening \<Rightarrow> process \<Rightarrow> process" where
  "happen (Arrives s) P =
     (if pr_killed P then P
      else if pr_disposition P s = OnSignal then P\<lparr>pr_handler := on_signal @ pr_handler P\<rparr>
      else P\<lparr>pr_killed := True\<rparr>)"
| "happen Handles P =
     (if pr_killed P then P
      else (case pr_handler P of [] \<Rightarrow> P | a # rest \<Rightarrow> perform a (P\<lparr>pr_handler := rest\<rparr>)))"
| "happen Restarts P = (if pr_killed P then P else request_restart P)"

text \<open>The main thread's wait: the flag at each poll. Its exit status, once it returns.\<close>

fun stop_wait :: "bool list \<Rightarrow> bool" where
  "stop_wait [] = False"
| "stop_wait (requested # rest) = (requested \<or> stop_wait rest)"

definition exit_status :: "process \<Rightarrow> nat" where
  "exit_status P = (if pr_restart_wanted P then 3 else 0)"


subsection \<open>What the start gives\<close>

lemma bound_parts: "bind_stream b n = (r, n') \<Longrightarrow> same_parts n n'" "bind_control b n = (r', n'') \<Longrightarrow> same_parts n n''"
  by (auto simp: bind_stream_def bind_control_def Let_def same_parts_def split: sum.splits)

lemma bind_client_parts: "bind_client fs so n = Some (r, n') \<Longrightarrow> same_parts n n'"
  by (auto simp: bind_client_def Let_def act_bind_Some dest!: on_fs_parts intro: same_parts_trans)

lemma bring_up_reconstructs:
  assumes "bring_up os rapi geom env n = Some (Inr c, n')"
  obtains n0 where "same_parts n n0"
    "reconstruct_from_disk rapi geom os (bo_now env) (bo_nanos env) (bo_reads env) (bo_sight env) (bo_listing env) n0 = Some (c, n')"
proof -
  from assms obtain n1 n2 n3 where s: "bind_stream (bo_stream env) n = (Inr (), n1)" "bind_control (bo_control env) n1 = (Inr (), n2)"
    "bind_client (os_fs os) (bo_sockets env) n2 = Some (Inr (), n3)"
    "reconstruct_from_disk rapi geom os (bo_now env) (bo_nanos env) (bo_reads env) (bo_sight env) (bo_listing env) n3 = Some (c, n')"
    by (auto simp: bring_up_def act_bind_Some act_total_def)
  have "same_parts n n3"
    by (rule same_parts_trans [OF bound_parts(1) [OF s(1)] same_parts_trans [OF bound_parts(2) [OF s(2)] bind_client_parts [OF s(3)]]])
  from this s(4) show ?thesis by (rule that)
qed

lemma main_serving:
  assumes "main os rapi geom env a t = Some (Serving n)"
  obtains d seeds i t' c where "bo_lock env = LockTaken"
    "bring_up os rapi geom env (node_new (daemon_config a d seeds i) t' (bo_generation env)) = Some (Inr c, n)"
proof -
  from assms obtain d seeds where d: "data_dir_of (bo_home env) a = Inr d" "seeds_of a = Inr seeds"
    by (auto simp: main_def split: sum.splits)
  obtain r1 t1 where 1: "fs_create_dir_all (os_fs os) t d = (r1, t1)" by fastforce
  obtain r2 t2 where 2: "fs_set_private (os_fs os) t1 d = (r2, t2)" by fastforce
  obtain r3 t3 where 3: "settle_identity env a d t2 = (r3, t3)" by fastforce
  obtain r4 t4 where 4: "(take_lock env d t3 :: ('a, 'b, 'c) node started option \<times> 'a) = (r4, t4)" by fastforce
  obtain i where ok: "r1 = Inr ()" "r2 = Inr ()" "r3 = Inr i" using assms d 1 2 3
    by (auto simp: main_def split: sum.splits)
  define n0 where "n0 = (node_new (daemon_config a d seeds i) t4 (bo_generation env) :: ('a, 'b, 'c) node)"
  have r: "(case r4 of Some s \<Rightarrow> Some s | None \<Rightarrow> map_option (\<lambda>(r, n). case r of Inr _ \<Rightarrow> Serving n | Inl e \<Rightarrow> Failed e)
      (bring_up os rapi geom env n0)) = Some (Serving n)"
    unfolding n0_def using assms by (simp add: main_def d 1 2 3 4 ok)
  have "r4 \<noteq> Some (Serving n)" "r4 = None \<Longrightarrow> bo_lock env = LockTaken"
    using 4 by (auto simp: take_lock_def split: prod.splits sum.splits lock_answer.splits)
  with r have l: "r4 = None" "bo_lock env = LockTaken" by (auto split: option.splits)
  from r l(1) obtain q m where q: "bring_up os rapi geom env n0 = Some (q, m)"
    "(case q of Inr _ \<Rightarrow> Serving m | Inl e \<Rightarrow> Failed e) = Serving n" by auto
  then obtain c where "bring_up os rapi geom env n0 = Some (Inr c, n)" by (cases q) auto
  with l(2) show ?thesis unfolding n0_def by (rule that)
qed

lemma started_ok: "main os rapi geom env a t = Some (Serving n) \<Longrightarrow> sys_ok os (sys_start n)"
  by (elim main_serving bring_up_reconstructs) (rule start_ok)


subsection \<open>Trimming\<close>

text \<open>No encoding of white space begins another, forwards or backwards, and none begins or ends in a printable
  ASCII byte.\<close>

definition prefix_free :: "bytes list \<Rightarrow> bool" where
  "prefix_free ws \<longleftrightarrow> [] \<notin> set ws \<and> (\<forall>w\<in>set ws. \<forall>w'\<in>set ws. prefix w w' \<longrightarrow> w = w')"

definition printable :: "u8 \<Rightarrow> bool" where
  "printable b \<longleftrightarrow> 33 \<le> b \<and> b < 128"

lemma white_space_free: "prefix_free WHITE_SPACE" "prefix_free (map rev WHITE_SPACE)"
  unfolding prefix_free_def by code_simp+

lemma white_space_ends: "\<forall>w\<in>set WHITE_SPACE. \<not> printable (hd w) \<and> \<not> printable (last w)"
  by code_simp

lemma strip_none: "(\<forall>w\<in>set ws. w = [] \<or> \<not> prefix w s) \<Longrightarrow> strip ws s = s"
  by (subst strip.simps) (auto simp: find_None_iff split: option.splits dest!: find_Some_iff [THEN iffD1])

lemma strip_concat:
  assumes "prefix_free ws" and "\<forall>w\<in>set ws. \<not> prefix w s"
  shows "set l \<subseteq> set ws \<Longrightarrow> strip ws (concat l @ s) = s"
proof (induction l)
  case Nil
  with assms strip_none show ?case by auto
next
  case (Cons w l)
  have w: "w \<in> set ws" "w \<noteq> []" using Cons.prems assms(1) by (auto simp: prefix_free_def)
  have only: "w' = w" if "w' \<in> set ws" "prefix w' (w @ concat l @ s)" for w'
  proof -
    from that(2) have "prefix w' w \<or> prefix w w'" using prefix_same_cases [of w' "w @ concat l @ s" w] by auto
    with that(1) w(1) assms(1) show ?thesis by (auto simp: prefix_free_def)
  qed
  have "find (\<lambda>v. v \<noteq> [] \<and> prefix v (w @ concat l @ s)) ws = Some w"
  proof (cases "find (\<lambda>v. v \<noteq> [] \<and> prefix v (w @ concat l @ s)) ws")
    case None
    with w show ?thesis by (auto simp: find_None_iff)
  next
    case (Some v)
    then have "v \<in> set ws" "prefix v (w @ concat l @ s)" by (auto simp: find_Some_iff)
    with only Some show ?thesis by simp
  qed
  then have "strip ws (w @ concat l @ s) = strip ws (concat l @ s)" by (subst strip.simps) simp
  with Cons show ?case by simp
qed

lemma rev_concat_map: "rev (concat l) = concat (map rev (rev l))"
  by (induction l) simp_all

text \<open>Text between printable bytes is what trimming leaves of it, whatever white space is around.\<close>

lemma trim_padded:
  assumes "set l \<subseteq> set WHITE_SPACE" "set r \<subseteq> set WHITE_SPACE" "s = [] \<or> printable (hd s) \<and> printable (last s)"
  shows "trim_text (concat l @ s @ concat r) = s"
proof -
  have ends: "w \<noteq> [] \<and> \<not> printable (hd w) \<and> \<not> printable (last w)" if "w \<in> set WHITE_SPACE" for w
    using that white_space_ends white_space_free(1) by (auto simp: prefix_free_def)
  show ?thesis
  proof (cases "s = []")
    case True
    have "strip WHITE_SPACE (concat (l @ r) @ []) = []"
      by (rule strip_concat [OF white_space_free(1)]) (use assms(1,2) ends in auto)
    with True show ?thesis by (simp add: trim_text_def strip_none)
  next
    case False
    with assms(3) have p: "printable (hd s)" "printable (last s)" by auto
    have "\<not> prefix w (s @ concat r)" if "w \<in> set WHITE_SPACE" for w
      using ends [OF that] p(1) False by (cases w; cases s) auto
    then have "strip WHITE_SPACE (concat l @ s @ concat r) = s @ concat r"
      using strip_concat [OF white_space_free(1) _ assms(1)] by blast
    moreover have "\<not> prefix w (rev s)" if "w \<in> set (map rev WHITE_SPACE)" for w
    proof -
      from that obtain v where v: "v \<in> set WHITE_SPACE" "w = rev v" by auto
      with ends [OF v(1)] p(2) False show ?thesis by (cases v rule: rev_cases; cases s rule: rev_cases) auto
    qed
    then have "strip (map rev WHITE_SPACE) (concat (map rev (rev r)) @ rev s) = rev s"
      by (intro strip_concat [OF white_space_free(2)]) (use assms(2) in auto)
    ultimately show ?thesis by (simp add: trim_text_def rev_concat_map)
  qed
qed


lemma digits_printable: "list_all (\<lambda>d. printable (digit_char d)) [0..<10]"
  by code_simp

lemma show_dec_ends: "printable (hd (show_dec n)) \<and> printable (last (show_dec n))"
proof -
  have "printable c" if "c \<in> set (show_dec n)" for c
    using set_show_radix [OF _ that] digits_printable by (auto simp: list_all_iff)
  then show ?thesis by simp
qed

lemma addr_text_ends: "printable (hd (addr_to_string a)) \<and> printable (last (addr_to_string a))"
  using show_dec_ends by (cases a) (auto simp: show_ipv4_def hd_append printable_def)

subsection \<open>Signals\<close>

text \<open>Before the flag is set nothing has been restored; once a signal has arrived, what is not yet restored is
  still to be done by a handler.\<close>

definition stop_ok :: "happening list \<Rightarrow> process \<Rightarrow> bool" where
  "stop_ok hs P \<longleftrightarrow>
     (\<not> pr_requested P \<longrightarrow> (\<forall>s. pr_disposition P s = OnSignal) \<and> \<not> pr_killed P \<and>
        (pr_handler P = [] \<or> hd (pr_handler P) = StoreRequested)) \<and>
     (\<not> pr_killed P \<longrightarrow>
        (pr_restart_wanted P \<longleftrightarrow> Restarts \<in> set hs) \<and> (pr_restart_wanted P \<longrightarrow> pr_requested P) \<and>
        ((\<exists>s. Arrives s \<in> set hs) \<longrightarrow>
           (\<forall>s. pr_disposition P s = SIG_DFL \<or> Restore s \<in> set (pr_handler P)) \<and>
           (pr_requested P \<or> StoreRequested \<in> set (pr_handler P))) \<and>
        ((\<forall>s. Arrives s \<notin> set hs) \<longrightarrow> pr_handler P = [] \<and> (pr_requested P \<longrightarrow> pr_restart_wanted P)))"

lemma all_signals: "(\<forall>s. Q s) \<longleftrightarrow> Q SIGINT \<and> Q SIGTERM"
  by (metis signal.exhaust)

lemma happen_ok:
  assumes "stop_ok hs P" shows "stop_ok (hs @ [x]) (happen x P)"
proof (cases "pr_killed P")
  case True
  with assms show ?thesis by (cases x) (auto simp: stop_ok_def)
next
  case live: False
  show ?thesis
  proof (cases x)
    case (Arrives s)
    have "Restore s' \<in> set on_signal" for s' by (cases s') (simp_all add: on_signal_def)
    with assms live Arrives show ?thesis by (auto simp: stop_ok_def on_signal_def)
  next
    case Handles
    show ?thesis
    proof (cases "pr_handler P")
      case (Cons a rest)
      with assms live Handles show ?thesis by (cases a) (auto simp: stop_ok_def)
    qed (use assms live Handles in \<open>auto simp: stop_ok_def\<close>)
  qed (use assms live in \<open>auto simp: stop_ok_def request_restart_def\<close>)
qed

lemma fold_happen_ok: "stop_ok hs (fold happen hs (install process_new))"
proof (induction hs rule: rev_induct)
  case Nil
  show ?case by (simp add: stop_ok_def install_def process_new_def all_signals)
next
  case (snoc x hs)
  from happen_ok [OF snoc] show ?case by simp
qed

lemma parse_each_inr: "map parse_socket_addr ss = map Some as \<Longrightarrow> parse_each ss = Inr as"
proof (induction ss arbitrary: as)
  case (Cons s ss)
  then obtain a bs where "as = a # bs" by (cases as) simp_all
  with Cons show ?case by (simp add: and_then_def)
qed simp

lemma rtranclp_start: "main os rapi geom env a t = Some (Serving n) \<Longrightarrow> (sys_step os rapi)\<^sup>*\<^sup>* (sys_start n) S \<Longrightarrow> sys_ok os S"
  by (rule sys_reach_ok [OF _ started_ok])

subsection \<open>Properties\<close>

text \<open>C20. Whatever a started daemon's threads do, in whatever order, its state stays well formed. The registry
  is keyed by name and handles are fresh. Every handle in use (under a name, with the conductor, handed to
  the duty cycle or polled by it) is one that exists. Every hosted channel is at the path of its name.\<close>

theorem daemon_well_formed:
  assumes "main os rapi geom env a t = Some (Serving n)" and "(sys_step os rapi)\<^sup>*\<^sup>* (sys_start n) S"
  shows "node_wf os (sy_node S) \<and> fst ` set (dy_clients (sy_duty S)) \<subseteq> dom (nd_shared (sy_node S))"
  using rtranclp_start [OF assms] unfolding sys_ok_def by (elim conjE) (rule conjI)

text \<open>C21. No more than 4096 connections are open at a time, counting the handshakes, the conversations with
  clients, and the replication sources waiting for or polled by the duty cycle. The counter of slots is
  exactly their number and, for each accept loop that is in the middle of turning a connection away, one
  more; so giving a slot back never takes it below zero, and it is never above 4098. A loop turns a
  connection away only with 4096 open, or with 4095 while the other is in the middle of turning one away;
  when neither is, exactly with 4096 open.\<close>

theorem slots_accounted:
  assumes "main os rapi geom env a t = Some (Serving n)" and "(sys_step os rapi)\<^sup>*\<^sup>* (sys_start n) S"
  shows "nd_conns (sy_node S) = slots S + of_bool (sy_stream_refusing S) + of_bool (sy_client_refusing S) \<and>
    slots S \<le> 4096 \<and> (fst (acquire_conn (sy_node S)) \<longrightarrow> slots S < 4096) \<and>
    (\<not> sy_stream_refusing S \<and> \<not> fst (acquire_conn (sy_node S)) \<longrightarrow> 4096 \<le> slots S + of_bool (sy_client_refusing S)) \<and>
    (\<not> sy_client_refusing S \<and> \<not> fst (acquire_conn (sy_node S)) \<longrightarrow> 4096 \<le> slots S + of_bool (sy_stream_refusing S))"
proof -
  have "nd_conns (sy_node S) = slots S + refusals S" "slots S \<le> 4096"
    using rtranclp_start [OF assms(1,2)] by (simp_all add: sys_ok_def MAX_CONNECTIONS_def)
  then show ?thesis by (auto simp: refusals_def acquire_conn_def MAX_CONNECTIONS_def)
qed

text \<open>The list of seeds is read back as it was written: addresses with any white space around them, and
  blank entries in between, give exactly those addresses, in order.\<close>

theorem seed_list_round_trip:
  assumes "\<forall>(l, e, r)\<in>set xs. set l \<subseteq> set WHITE_SPACE \<and> set r \<subseteq> set WHITE_SPACE \<and> (\<forall>a. e = Some a \<longrightarrow> addr_ok a)"
  shows "parse_addrs (map (\<lambda>(l, e, r). concat l @ (case e of Some a \<Rightarrow> addr_to_string a | None \<Rightarrow> []) @ concat r) xs) =
    Inr (List.map_filter (\<lambda>(l, e, r). e) xs)"
proof -
  have t: "trim_text (concat l @ (case e of Some a \<Rightarrow> addr_to_string a | None \<Rightarrow> []) @ concat r) =
      (case e of Some a \<Rightarrow> addr_to_string a | None \<Rightarrow> [])" if "(l, e, r) \<in> set xs" for l e r
    by (rule trim_padded) (use assms that addr_text_ends in \<open>auto split: option.split\<close>)
  have "map parse_socket_addr (filter (\<lambda>s. s \<noteq> []) (map (\<lambda>(l, e, r). case e of Some a \<Rightarrow> addr_to_string a | None \<Rightarrow> []) xs)) =
      map Some (List.map_filter (\<lambda>(l, e, r). e) xs)"
    using assms
  proof (induction xs)
    case (Cons x xs)
    obtain l e r where x: "x = (l, e, r)" by (cases x)
    have "addr_to_string a \<noteq> []" for a by (cases a) simp_all
    with Cons x show ?case by (cases e) (auto simp: map_filter_simps parse_addr_to_string)
  qed (simp add: map_filter_simps)
  note parsed = parse_each_inr [OF this]
  have trimmed: "map trim_text (map (\<lambda>(l, e, r). concat l @ (case e of Some a \<Rightarrow> addr_to_string a | None \<Rightarrow> []) @ concat r) xs) =
      map (\<lambda>(l, e, r). case e of Some a \<Rightarrow> addr_to_string a | None \<Rightarrow> []) xs"
    using t by auto
  show ?thesis unfolding parse_addrs_def trimmed by (rule parsed)
qed

text \<open>C23. Stopping. A signal ends the process at once only after a graceful stop has been asked for. While it
  lives and no handler is running: a stop has been asked for exactly if a signal arrived or a restart was
  wanted, the exit status is 3 exactly if a restart was wanted, and after one signal the next, of either
  kind, ends the process.\<close>

theorem stop_protocol:
  "let P = fold happen hs (install process_new) in
     (pr_killed P \<longrightarrow> pr_requested P) \<and>
     (\<not> pr_killed P \<and> pr_handler P = [] \<longrightarrow>
        (pr_requested P \<longleftrightarrow> (\<exists>s. Arrives s \<in> set hs) \<or> Restarts \<in> set hs) \<and>
        exit_status P = (if Restarts \<in> set hs then 3 else 0) \<and>
        ((\<exists>s. Arrives s \<in> set hs) \<longrightarrow> (\<forall>s. pr_killed (happen (Arrives s) P))))"
proof -
  note ok = fold_happen_ok [of hs]
  show ?thesis unfolding Let_def using ok by (auto simp: stop_ok_def exit_status_def)
qed


subsection \<open>Witnesses\<close>

definition sample_args :: args where
  "sample_args =
     \<lparr>ar_node_id = Some 9, ar_node_name = Some (ascii ''n9''), ar_data_dir = Some (ascii ''/d''), ar_client_path = None,
      ar_stream_addr = SockV4 127 0 0 1 7000, ar_control_addr = SockV4 127 0 0 1 7001, ar_advertise_stream_addr = None,
      ar_advertise_control_addr = None, ar_seeds = [], ar_reclaim_after_ms = 300000, ar_promoted_topics = [],
      ar_mux_max_park_us = None\<rparr>"

definition sample_boot :: "files boot_env" where
  "sample_boot =
     \<lparr>bo_home = None, bo_id_file = Inl (IoError NotFound ''''), bo_host = [], bo_random = Inr 5, bo_now_ms = 1,
      bo_write = (\<lambda>t p bs. (Inr (), t)), bo_restrict = (\<lambda>t p. t), bo_lock = LockTaken, bo_generation = 7,
      bo_stream = Inr (SockV4 127 0 0 1 7000), bo_control = Inr (SockV4 127 0 0 1 7001),
      bo_sockets = \<lparr>so_bind = (\<lambda>t p. (Inr (), t)), so_answers = (\<lambda>t p. False), so_remove = (\<lambda>t p. (Inr (), t)),
        so_private = (\<lambda>t p. (Inr (), t))\<rparr>,
      bo_now = 0, bo_nanos = 5, bo_reads = (\<lambda>_. []), bo_sight = (\<lambda>_. let x = \<lparr>sg_open = Map.empty, sg_head = Map.empty, sg_reads = []\<rparr> in (x, x)), bo_listing = None\<rparr>"

lemma sample_starts: "\<exists>n. main sample_outside seg_reader_api (\<lambda>_. (4096, 0)) sample_boot sample_args Map.empty = Some (Serving n)"
proof -
  have i: "settle_identity sample_boot sample_args d t = (Inr \<lparr>ni_id = 9, ni_created_at_ms = 0, ni_name = ascii ''n9'', ni_generated = False\<rparr>, t)" for d t
    by (simp add: settle_identity_def sample_boot_def sample_args_def resolve_identity_def del: ascii_simps)
  have s: "data_dir_of h sample_args = Inr (ascii ''/d'')" "seeds_of sample_args = Inr []" for h
    by (simp_all add: data_dir_of_def seeds_of_def parse_addrs_def sample_args_def del: ascii_simps)
  have l: "take_lock sample_boot d t = (None, t)" for d t by (simp add: take_lock_def sample_boot_def)
  have "\<exists>c n'. bring_up sample_outside seg_reader_api (\<lambda>_. (4096, 0)) sample_boot n = Some (Inr c, n')"
    for n :: "(files, seg_writer, seg_reader) node"
    by (simp add: bring_up_def bind_stream_def bind_control_def bind_client_def act_bind_def act_total_def on_fs_def Let_def
      sample_boot_def sample_outside_def tree_fs_def ensure_private_dir_def bind_socket_def reconstruct_from_disk_def split: option.split)
  then obtain c n' where "bring_up sample_outside seg_reader_api (\<lambda>_. (4096, 0)) sample_boot
      (node_new (daemon_config sample_args (ascii ''/d'') [] \<lparr>ni_id = 9, ni_created_at_ms = 0, ni_name = ascii ''n9'', ni_generated = False\<rparr>)
        Map.empty (bo_generation sample_boot)) = Some (Inr c, n')" by blast
  then show ?thesis by (simp add: main_def i s l sample_outside_def tree_fs_def del: ascii_simps)
qed

lemma started_conns: "main os rapi geom env a t = Some (Serving n) \<Longrightarrow> nd_conns n = 0"
proof (elim main_serving bring_up_reconstructs)
  fix d seeds i t' c n0
  assume "same_parts (node_new (daemon_config a d seeds i) t' (bo_generation env)) n0"
    "reconstruct_from_disk rapi geom os (bo_now env) (bo_nanos env) (bo_reads env) (bo_sight env) (bo_listing env) n0 = Some (c, n)"
  from extendsD(2) [OF extends_trans [OF same_parts_extends [OF this(1)] reconstruct_extends [OF this(2)]]]
  show "nd_conns n = 0" by (simp add: node_new_def)
qed

lemma sample_accepts:
  assumes "main os rapi geom env a t = Some (Serving n)"
  shows "(sys_step os rapi)\<^sup>*\<^sup>* (sys_start n) ((sys_start n)\<lparr>sy_node := n\<lparr>nd_conns := 1\<rparr>, sy_handshakes := 1\<rparr>)"
proof -
  have "nd_conns n = 0" using assms by (rule started_conns)
  then have "acquire_conn (sy_node (sys_start n)) = (True, n\<lparr>nd_conns := 1\<rparr>)"
    by (simp add: acquire_conn_def sys_start_def MAX_CONNECTIONS_def)
  from sys_step.stream_accepted [OF _ this] show ?thesis by (intro r_into_rtranclp) (simp add: sys_start_def)
qed


theorem daemon_well_formed_witness:
  "\<exists>n. main sample_outside seg_reader_api (\<lambda>_. (4096, 0)) sample_boot sample_args Map.empty = Some (Serving n) \<and>
     node_wf sample_outside (n\<lparr>nd_conns := 1\<rparr>)"
proof -
  obtain n where n: "main sample_outside seg_reader_api (\<lambda>_. (4096, 0)) sample_boot sample_args Map.empty = Some (Serving n)"
    using sample_starts ..
  from daemon_well_formed [OF n sample_accepts [OF n]] n show ?thesis by (intro exI [of _ n]) (simp add: sys_start_def)
qed

theorem slots_accounted_witness:
  "\<exists>n. main sample_outside seg_reader_api (\<lambda>_. (4096, 0)) sample_boot sample_args Map.empty = Some (Serving n) \<and>
     (let S = (sys_start n)\<lparr>sy_node := n\<lparr>nd_conns := 1\<rparr>, sy_handshakes := 1\<rparr> in
      (sys_step sample_outside seg_reader_api)\<^sup>*\<^sup>* (sys_start n) S \<and> nd_conns (sy_node S) = slots S \<and>
      nd_duty_servers n = [] \<and> fst (acquire_conn (sy_node S)))"
proof -
  obtain n where n: "main sample_outside seg_reader_api (\<lambda>_. (4096, 0)) sample_boot sample_args Map.empty = Some (Serving n)"
    using sample_starts ..
  from slots_accounted [OF n sample_accepts [OF n]] sample_accepts [OF n] n show ?thesis
    by (intro exI [of _ n]) (auto simp: sys_start_def Let_def slots_def acquire_conn_def MAX_CONNECTIONS_def)
qed

theorem seed_list_round_trip_witness:
  "parse_addrs [ascii '' 10.0.0.1:7001'', ascii '' '', ascii ''10.0.0.2:7001'' @ [0xC2, 0xA0]] =
     Inr [SockV4 10 0 0 1 7001, SockV4 10 0 0 2 7001]"
proof -
  have s: "addr_to_string (SockV4 10 0 0 1 7001) = ascii ''10.0.0.1:7001''" "addr_to_string (SockV4 10 0 0 2 7001) = ascii ''10.0.0.2:7001''"
    by (simp_all add: show_ipv4_def show_radix.simps [of 10 "numeral _"] show_radix.simps [of 10 0] show_radix.simps [of 10 "Suc 0"] digit_char_def)
  have w: "[32] \<in> set WHITE_SPACE" "[0xC2, 0xA0] \<in> set WHITE_SPACE" by code_simp+
  have a: "ascii '' 10.0.0.1:7001'' = [32] @ ascii ''10.0.0.1:7001''" "ascii '' '' = [32]" by code_simp+
  let ?xs = "[([[32]], Some (SockV4 10 0 0 1 7001), []), ([[32]], None, []), ([], Some (SockV4 10 0 0 2 7001), [[0xC2, 0xA0]])]"
  have "\<forall>(l, e, r)\<in>set ?xs. set l \<subseteq> set WHITE_SPACE \<and> set r \<subseteq> set WHITE_SPACE \<and> (\<forall>a. e = Some a \<longrightarrow> addr_ok a)"
    using w by simp
  from seed_list_round_trip [OF this] show ?thesis
    unfolding a by (simp only: list.map prod.case option.case s concat.simps append_Nil append_Nil2 append.simps map_filter_simps)
qed

theorem stop_protocol_witness:
  "let P = fold happen [Arrives SIGINT, Handles, Arrives SIGTERM, Handles, Handles, Handles, Handles, Handles] (install process_new) in
     \<not> pr_killed P \<and> pr_handler P = [] \<and> pr_requested P \<and> exit_status P = 0 \<and> pr_killed (happen (Arrives SIGTERM) P)"
  using stop_protocol [of "[Arrives SIGINT, Handles, Arrives SIGTERM, Handles, Handles, Handles, Handles, Handles]"]
  by (simp add: Let_def install_def process_new_def on_signal_def)

end
