(* ===== verification/Spec2Isabelle.thy ===== *)
theory Spec2Isabelle
  imports Registry Membership Mux_Props Broadcast_Props Daemon
begin

text \<open>
  A verification of xchannel-net: a mesh of node managers (\<open>xchanneld\<close>) that replicate single-writer logs of
  the \<open>xchannel\<close> crate between hosts. The source is four crates under \<open>src/\<close>: \<open>xchannel-net-core\<close> (messages,
  transport, replication, topics), \<open>xchannel-net\<close> (the node manager), \<open>xchannel-net-client\<close> (the library
  applications use) and \<open>xchanneld\<close> (the program).

  \<^bold>\<open>How the parts interact.\<close> An application creates a channel through its local daemon and writes the log
  itself. The daemon registers the name (registry), tells its peers (dissemination, over control links kept
  up by dialling), and records the change in a discovery log that clients follow. A node that wants the
  channel resolves the name to its owner and subscribes over the stream plane; a poll item on each side
  moves records into a replica. A topic is a log into which a mux merges the logs of its members. A
  maintenance tick gossips, reaps, attaches members, dials and restarts subscriptions; a duty cycle polls
  sources, sinks and muxes; a restart rebuilds the registrations from what is on disk.

  \<^bold>\<open>Theories and sources\<close>, in the order they build on each other:

  \<^item> \<open>Prelude\<close>: words, errors and results, byte strings, UTF-8 and its lossy reading, lemmas shared by all.
  \<^item> \<open>Identity\<close> (\<open>core/identity.rs\<close>), \<open>Registry\<close> (\<open>net/registry.rs\<close>): channel identities, the collision rule
    and the registry. The laws of a rule that keeps the better of two entries are a locale (\<open>lww\<close>), those of a
    map merged by it another (\<open>lww_map\<close>), interpreted on the code's rule and registry. Convergence under any
    order and duplication; tombstones dominate.
  \<^item> \<open>Socket_Addr\<close>, \<open>Wire\<close>, \<open>Codec\<close>, \<open>Codec_Props\<close> (\<open>core/wire.rs\<close>, \<open>core/codec.rs\<close>, and the text of socket
    addresses of the standard library): every message and its bytes. Round trips, by one locale for a field
    (\<open>field_codec\<close>) and one for a frame (\<open>frame_codec\<close>); a truncated frame is an error and never another message.
  \<^item> \<open>Membership\<close> (\<open>core/membership.rs\<close>): who was heard, when and at which address; hearsay never makes a
    node live, and the flood of hints ends.
  \<^item> \<open>Transport\<close> (\<open>core/transport.rs\<close>): framing and the non-blocking connection. What is queued is what is
    received, however the bytes are cut; a write ends by its deadline or its stall limit.
  \<^item> \<open>Xchannel\<close>: the interface of the \<open>xchannel\<close> crate, which is not in this repository: records of its calls
    (\<open>reader_api\<close>, \<open>writer_api\<close>), what the code relies on as named laws, and a reference log that meets them.
  \<^item> \<open>Replication\<close> (\<open>core/replication.rs\<close>), \<open>Stream_Proto\<close> (\<open>core/stream.rs\<close>): sources, sinks, both
    handshakes and both poll items. The replica is a prefix of the origin with its segment boundaries; the
    origin answers every subscription, refusing exactly those it cannot extend; memory is bounded.
  \<^item> \<open>Topic_Format\<close>, \<open>Mux\<close>, \<open>Mux_Props\<close> (\<open>core/mux.rs\<close>): the records of a topic and the mux. A poll merges
    exactly what the members offer; a reopened mux resumes where it was; a finished one stays finished.
  \<^item> \<open>Broadcast\<close>, \<open>Broadcast_Props\<close> (\<open>net/broadcast.rs\<close>): links, write budgets, joining, flooding, and
    duplicate links. Both ends keep the same link; a node is never its own peer, and is live exactly on its
    own word.
  \<^item> \<open>Node_Paths\<close> (\<open>core/paths.rs\<close>, \<open>net/node_identity.rs\<close>, names in \<open>net/node.rs\<close>): valid names have paths of
    their own; a generated identity is read back.
  \<^item> \<open>Node\<close>, \<open>Node_Props\<close> (\<open>net/node.rs\<close>): the node's state (\<open>node\<close>), claiming, hosting, retiring, reclaiming
    and gossip.
  \<^item> \<open>Node_Dial\<close>: binding, accepting and dialling; a tick's dials are bounded and every address gets its turn.
  \<^item> \<open>Node_Subs\<close>: subscriptions, the conductor and establishment attempts as a step relation (\<open>sub_step\<close>); a
    subscription has one attempt and one writer at a time, and a replica is discarded only when refused.
  \<^item> \<open>Node_Topics\<close>: hosting topics, the attach pass, the sweep, and reconstruction from disk; a restart serves
    no log under a name it does not carry, writers stamping the names they were built with.
  \<^item> \<open>Discovery\<close> (\<open>net/node.rs\<close>, \<open>client/lib.rs\<close>): registry changes and their publication as separate
    steps of any thread (\<open>disc_step\<close>), publications failing or overtaking each other; a client that lists and
    then follows the log reads exactly what was published, and holds the registry's entry of every name whose
    last change was published last.
  \<^item> \<open>Client_Plane\<close> (\<open>net/node.rs\<close>, \<open>client/lib.rs\<close>): requests, replies and the calls of the library; a call
    sends the frame that makes the node do the operation, and returns what the operation returned.
  \<^item> \<open>Node_System\<close>: the threads of the node (\<open>serve_stream\<close>, \<open>serve_client\<close>, \<open>run_duty_cycle\<close>,
    \<open>run_promoted_mux\<close>, \<open>run_maintenance\<close>) as steps of one relation (\<open>sys_step\<close>). Every operation of the
    theories above is shown to extend the node (\<open>extends\<close>, an instance of the locale \<open>preserving\<close> of \<open>Prelude\<close>),
    from which the invariants follow. Each accept loop counts a connection and takes a refused one off again
    in two steps.
  \<^item> \<open>Daemon\<close> (\<open>xchanneld/main.rs\<close>, \<open>net/shutdown.rs\<close>, \<open>bind_client\<close>): arguments, start and stop, and the two
    invariants of everything a started daemon can reach.

  \<^bold>\<open>How code becomes definitions.\<close>

  \<^item> A struct is a \<open>record\<close>, an enum a \<open>datatype\<close>, a function a definition of the same name where HOL leaves it
    free. Integers are words of their width; \<open>usize\<close> lengths and times are natural numbers, time in
    nanoseconds with the clock an argument of what reads it.
  \<^item> Strings and paths are lists of bytes. A map the code iterates is a red-black tree (the order of a hash map
    is the key order here); other maps are functions to \<open>option\<close>.
  \<^item> A call that may fail returns \<open>io_error + 'a\<close>; messages are abbreviated. A call that may not have returned
    is an \<open>option\<close>, \<open>None\<close> being not yet; theorems that something is answered prove that it is \<open>Some\<close>.
  \<^item> What the system or another thread answers is an argument: the bytes a socket delivers or takes, the files at
    each read, whether a thread could be started, the answers of the file system.
  \<^item> State shared between threads is passed explicitly; interleavings are step relations whose steps are what the
    code does under one lock or on its own state.

  \<^bold>\<open>Bounds and fuel.\<close> Loops over data are structural; loops that wait are driven by a finite list of the
  moments they see, so a theorem about them quantifies over all lists. An establishment attempt has at most six
  phases, which is the fuel of \<open>establish\<close>. Other recursion is shown to terminate by a measure. The constants
  are the code's: 4096 connections, 500 ms per dial, 10 s liveness, 1 s stall limit.

  \<^bold>\<open>Not modelled.\<close>

  \<^item> The \<open>xchannel\<close> crate and \<open>clap\<close>: code outside this repository, present as parameters with named laws
    (\<open>Xchannel\<close>) or as the value they return (\<open>args\<close>).
  \<^item> Opening, accepting and configuring sockets, file modes, locks and processes: what the system answers to them
    is an argument.
  \<^item> \<open>net/util.rs\<close>: the model has no poisoned locks. Memory orderings: flags are read and written in one order.
  \<^item> Printed diagnostics, sleeps, accessors for tests, and the tests themselves.
  \<^item> Between two steps of \<open>sys_step\<close> a lock is not held: interleavings inside a tick or a duty turn are those
    of \<open>sub_step\<close> (subscriptions), of \<open>disc_step\<close> (the registry and the discovery log) and of the wait for a
    name (\<open>resolve_wait\<close>) only.
\<close>

end
